(* ===== verification/HbPrelude.thy ===== *)
theory HbPrelude
  imports Main "HOL-Library.Signed_Division"
begin

text \<open>
  Shared vocabulary of the development: the C integer types and operators the sources use, the
  character classes of \<open>include/hbdefs.h\<close>, zero terminated strings, the \<open>printf\<close> directives
  the date code relies on, and the list lemmas that several components share.

  C integers are \<open>int\<close> values; where a width matters the wrap-around is written out with
  \<open>wrap32\<close> and \<open>wrap64\<close>, and the division operators are the truncating \<open>sdiv\<close> and \<open>smod\<close> of
  \<open>HOL-Library.Signed_Division\<close>. A zero terminated C string is a \<open>string\<close> without its
  terminator: \<open>cat s i\<close> is the byte the code reads at offset \<open>i\<close>, which is the terminator at
  offset \<open>length s\<close>.
\<close>

named_theorems c_defs \<open>definitions of the C level helpers\<close>
named_theorems digit_simps \<open>facts on decimal digit characters\<close>

subsection \<open>Machine integers\<close>

definition int32_min :: int where [c_defs]: "int32_min = - (2 ^ 31)"
definition int32_max :: int where [c_defs]: "int32_max = 2 ^ 31 - 1"
definition int64_min :: int where [c_defs]: "int64_min = - (2 ^ 63)"
definition int64_max :: int where [c_defs]: "int64_max = 2 ^ 63 - 1"

definition wrap32 :: "int \<Rightarrow> int" where
  "wrap32 x = (x + 2 ^ 31) mod 2 ^ 32 - 2 ^ 31"

definition wrap64 :: "int \<Rightarrow> int" where
  "wrap64 x = (x + 2 ^ 63) mod 2 ^ 64 - 2 ^ 63"

definition is_int32 :: "int \<Rightarrow> bool" where
  "is_int32 x \<longleftrightarrow> int32_min \<le> x \<and> x \<le> int32_max"

definition is_int64 :: "int \<Rightarrow> bool" where
  "is_int64 x \<longleftrightarrow> int64_min \<le> x \<and> x \<le> int64_max"

lemma wrap64_id: "is_int64 x \<Longrightarrow> wrap64 x = x"
  by (simp add: wrap64_def is_int64_def c_defs)

lemma wrap32_id: "is_int32 x \<Longrightarrow> wrap32 x = x"
  by (simp add: wrap32_def is_int32_def c_defs)

lemma is_int64_wrap64: "is_int64 (wrap64 x)"
proof -
  have "0 \<le> (x + 2 ^ 63) mod 2 ^ 64" "(x + 2 ^ 63) mod 2 ^ 64 < 2 ^ 64"
    by simp_all
  then show ?thesis
    by (simp add: wrap64_def is_int64_def c_defs)
qed

lemma is_int32_is_int64: "is_int32 x \<Longrightarrow> is_int64 x"
  by (simp add: is_int32_def is_int64_def c_defs)

text \<open>C division truncates towards zero; on the non-negative values the date code divides it
  is the flooring \<open>div\<close> of HOL.\<close>

lemma sdiv_nonneg: "0 \<le> (a::int) \<Longrightarrow> 0 < b \<Longrightarrow> a sdiv b = a div b"
  by (cases "a = 0") (simp_all add: signed_divide_int_def sgn_if)

lemma smod_nonneg: "0 \<le> (a::int) \<Longrightarrow> 0 < b \<Longrightarrow> a smod b = a mod b"
  by (cases "a = 0") (simp_all add: signed_modulo_int_def sgn_if)

subsection \<open>Characters and zero terminated strings\<close>

definition cat :: "string \<Rightarrow> nat \<Rightarrow> char" where
  "cat s i = (if i < length s then s ! i else CHR 0x00)"

definition HB_ISDIGIT :: "char \<Rightarrow> bool" where
  "HB_ISDIGIT c \<longleftrightarrow> 48 \<le> (of_char c :: nat) \<and> (of_char c :: nat) \<le> 57"

definition HB_ISSPACE :: "char \<Rightarrow> bool" where
  "HB_ISSPACE c \<longleftrightarrow> c = CHR '' '' \<or> c = CHR 0x09 \<or> c = CHR 0x0A \<or> c = CHR 0x0D"

definition HB_ISUPPER :: "char \<Rightarrow> bool" where
  "HB_ISUPPER c \<longleftrightarrow> 65 \<le> (of_char c :: nat) \<and> (of_char c :: nat) \<le> 90"

definition HB_ISLOWER :: "char \<Rightarrow> bool" where
  "HB_ISLOWER c \<longleftrightarrow> 97 \<le> (of_char c :: nat) \<and> (of_char c :: nat) \<le> 122"

definition HB_ISALPHA :: "char \<Rightarrow> bool" where
  "HB_ISALPHA c \<longleftrightarrow> HB_ISUPPER c \<or> HB_ISLOWER c"

definition HB_TOUPPER :: "char \<Rightarrow> char" where
  "HB_TOUPPER c = (if HB_ISLOWER c then char_of ((of_char c :: nat) - 32) else c)"

text \<open>The digit value \<open>c - '0'\<close> and the digit character \<open>( char ) ( n + '0' )\<close>.\<close>

definition dig :: "char \<Rightarrow> int" where
  "dig c = int (of_char c) - 48"

definition dchr :: "int \<Rightarrow> char" where
  "dchr n = char_of (nat (n + 48))"

lemma of_char_dchr: "0 \<le> n \<Longrightarrow> n \<le> 9 \<Longrightarrow> (of_char (dchr n) :: nat) = nat (n + 48)"
  by (simp add: dchr_def)

lemma dig_dchr [digit_simps]: "0 \<le> n \<Longrightarrow> n \<le> 9 \<Longrightarrow> dig (dchr n) = n"
  by (simp add: dig_def of_char_dchr)

lemma isdigit_dchr [digit_simps]: "0 \<le> n \<Longrightarrow> n \<le> 9 \<Longrightarrow> HB_ISDIGIT (dchr n)"
  by (simp add: HB_ISDIGIT_def of_char_dchr nat_le_iff le_nat_iff)

lemma isspace_not_digit: "HB_ISSPACE c \<Longrightarrow> \<not> HB_ISDIGIT c"
  by (auto simp: HB_ISSPACE_def HB_ISDIGIT_def)

lemma isspace_dchr [digit_simps]: "0 \<le> n \<Longrightarrow> n \<le> 9 \<Longrightarrow> \<not> HB_ISSPACE (dchr n)"
  using isdigit_dchr isspace_not_digit by blast

lemma dig_bounds: "HB_ISDIGIT c \<Longrightarrow> 0 \<le> dig c \<and> dig c \<le> 9"
  by (auto simp: HB_ISDIGIT_def dig_def)

lemma dchr_dig: "HB_ISDIGIT c \<Longrightarrow> dchr (dig c) = c"
  by (auto simp: HB_ISDIGIT_def dig_def dchr_def)

lemma isdigit_consts [simp]:
  "\<not> HB_ISDIGIT (CHR 0x00)" "\<not> HB_ISDIGIT (CHR '':'')" "\<not> HB_ISDIGIT (CHR ''-'')"
  "\<not> HB_ISDIGIT (CHR ''.'')" "\<not> HB_ISDIGIT (CHR '' '')"
  by (simp_all add: HB_ISDIGIT_def)

lemma isspace_consts [simp]:
  "HB_ISSPACE (CHR '' '')" "\<not> HB_ISSPACE (CHR 0x00)" "\<not> HB_ISSPACE (CHR ''-'')"
  "\<not> HB_ISSPACE (CHR '':'')" "\<not> HB_ISSPACE (CHR ''.'')"
  by (simp_all add: HB_ISSPACE_def)

lemma cat_Nil [simp]: "cat [] i = CHR 0x00"
  by (simp add: cat_def)

lemma cat_0 [simp]: "cat (c # s) 0 = c"
  by (simp add: cat_def)

lemma cat_Suc [simp]: "cat (c # s) (Suc i) = cat s i"
  by (simp add: cat_def)

lemma cat_numeral [simp]: "cat (c # s) (numeral k) = cat s (pred_numeral k)"
  by (simp add: cat_def numeral_eq_Suc)

text \<open>Skipping white space: \<open>while( HB_ISSPACE( *s ) ) ++s;\<close>\<close>

fun skip_space :: "string \<Rightarrow> string" where
  "skip_space [] = []"
| "skip_space (c # s) = (if HB_ISSPACE c then skip_space s else c # s)"

text \<open>Counting leading digits, at most \<open>m\<close>: \<open>while( n < m && HB_ISDIGIT( s[ n ] ) ) ++n;\<close>\<close>

fun count_digits :: "nat \<Rightarrow> string \<Rightarrow> nat" where
  "count_digits 0 s = 0"
| "count_digits (Suc m) [] = 0"
| "count_digits (Suc m) (c # s) = (if HB_ISDIGIT c then Suc (count_digits m s) else 0)"

lemma count_digits_le: "count_digits m s \<le> m \<and> count_digits m s \<le> length s"
  by (induction m s rule: count_digits.induct) auto

lemma count_digits_all: "\<forall>c \<in> set s. HB_ISDIGIT c \<Longrightarrow> count_digits m s = min m (length s)"
  by (induction m s rule: count_digits.induct) auto

subsection \<open>The \<open>printf\<close> directive \<open>%0Nd\<close>\<close>

fun nat_dec :: "nat \<Rightarrow> string" where
  "nat_dec n = (if n < 10 then [char_of (n + 48)] else nat_dec (n div 10) @ [char_of (n mod 10 + 48)])"

declare nat_dec.simps [simp del]

definition c_fmt0 :: "nat \<Rightarrow> int \<Rightarrow> string" where
  "c_fmt0 w n =
     (let ds = nat_dec (nat \<bar>n\<bar>) in
      if n < 0 then CHR ''-'' # replicate (w - 1 - length ds) (CHR ''0'') @ ds
      else replicate (w - length ds) (CHR ''0'') @ ds)"

lemma dchr_0: "dchr 0 = CHR ''0''"
proof -
  have "char_of (of_char (CHR ''0'') :: nat) = CHR ''0''"
    by (rule char_of_char)
  then show ?thesis by (simp add: dchr_def)
qed

lemma nat_dec_1: "0 \<le> n \<Longrightarrow> n < 10 \<Longrightarrow> nat_dec (nat n) = [dchr n]"
  by (subst nat_dec.simps) (simp add: dchr_def nat_add_distrib nat_less_iff)

lemma nat_dec_step:
  assumes "10 \<le> n"
  shows "nat_dec (nat n) = nat_dec (nat (n div 10)) @ [dchr (n mod 10)]"
proof -
  have m: "nat n mod 10 + 48 = nat (n mod 10 + 48)"
    using assms by (simp add: nat_mod_distrib nat_add_distrib)
  have d: "nat n div 10 = nat (n div 10)"
    using assms by (simp add: nat_div_distrib)
  have "nat_dec (nat n) = nat_dec (nat n div 10) @ [char_of (nat n mod 10 + 48)]"
    using assms by (subst nat_dec.simps) (simp add: nat_less_iff)
  then show ?thesis
    by (simp only: m d dchr_def)
qed

lemma nat_dec_2:
  assumes "10 \<le> n" "n < 100"
  shows "nat_dec (nat n) = [dchr (n div 10), dchr (n mod 10)]"
  using assms by (simp add: nat_dec_step nat_dec_1)

lemma nat_dec_3:
  assumes "100 \<le> n" "n < 1000"
  shows "nat_dec (nat n) = [dchr (n div 100), dchr (n div 10 mod 10), dchr (n mod 10)]"
proof -
  have b: "10 \<le> n" "10 \<le> n div 10" "n div 10 < 100" using assms by linarith+
  have "n div 10 div 10 = n div 100"
    by (simp only: zdiv_zmult2_eq [symmetric]) simp
  then show ?thesis
    by (simp only: nat_dec_step [OF b(1)] nat_dec_2 [OF b(2,3)] append.simps)
qed

lemma nat_dec_4:
  assumes "1000 \<le> n" "n < 10000"
  shows "nat_dec (nat n) = [dchr (n div 1000), dchr (n div 100 mod 10), dchr (n div 10 mod 10), dchr (n mod 10)]"
proof -
  have b: "10 \<le> n" "100 \<le> n div 10" "n div 10 < 1000" using assms by linarith+
  have "n div 10 div 10 = n div 100" "n div 10 div 100 = n div 1000"
    by (simp_all only: zdiv_zmult2_eq [symmetric]) simp_all
  then show ?thesis
    by (simp only: nat_dec_step [OF b(1)] nat_dec_3 [OF b(2,3)] append.simps)
qed

lemma c_fmt0_pad:
  assumes "0 \<le> n" "length (nat_dec (nat n)) \<le> w"
  shows "c_fmt0 (Suc w) n = CHR ''0'' # c_fmt0 w n"
  using assms by (simp add: c_fmt0_def Let_def Suc_diff_le)

lemma c_fmt0_2:
  assumes "0 \<le> n" "n < 100"
  shows "c_fmt0 2 n = [dchr (n div 10), dchr (n mod 10)]"
proof (cases "n < 10")
  case True
  with assms show ?thesis
    by (simp add: c_fmt0_def Let_def nat_dec_1 dchr_0)
next
  case False
  with assms nat_dec_2 [of n] show ?thesis
    by (simp add: c_fmt0_def Let_def)
qed

lemma c_fmt0_3:
  assumes "0 \<le> n" "n < 1000"
  shows "c_fmt0 3 n = [dchr (n div 100), dchr (n div 10 mod 10), dchr (n mod 10)]"
proof (cases "n < 100")
  case True
  then have "length (nat_dec (nat n)) \<le> 2"
    using assms nat_dec_1 [of n] nat_dec_2 [of n] by (cases "n < 10") simp_all
  then have "c_fmt0 3 n = CHR ''0'' # c_fmt0 2 n"
    using assms c_fmt0_pad [of n 2] by simp
  with True assms show ?thesis
    by (simp add: c_fmt0_2 dchr_0)
next
  case False
  with assms nat_dec_3 [of n] show ?thesis
    by (simp add: c_fmt0_def Let_def)
qed

lemma c_fmt0_4:
  assumes "0 \<le> n" "n < 10000"
  shows "c_fmt0 4 n = [dchr (n div 1000), dchr (n div 100 mod 10), dchr (n div 10 mod 10), dchr (n mod 10)]"
proof (cases "n < 1000")
  case True
  then have "length (nat_dec (nat n)) \<le> 3"
    using assms nat_dec_1 [of n] nat_dec_2 [of n] nat_dec_3 [of n]
    by (cases "n < 10"; cases "n < 100") simp_all
  then have "c_fmt0 4 n = CHR ''0'' # c_fmt0 3 n"
    using assms c_fmt0_pad [of n 3] by simp
  moreover have "n div 100 mod 10 = n div 100"
    using True assms by simp
  ultimately show ?thesis
    using True assms by (simp add: c_fmt0_3 dchr_0)
next
  case False
  with assms nat_dec_4 [of n] show ?thesis
    by (simp add: c_fmt0_def Let_def)
qed

end
