(* ===== verification/HbDate.thy ===== *)
theory HbDate
  imports HbPrelude
begin

text \<open>
  The calendar arithmetic and the date and time strings of \<open>src/common/hbdate.c\<close>: Julian day
  numbers, ISO weeks, milliseconds of a day, and the fixed and the free format representations.

  Output parameters become components of a result tuple, in the order of the C prototype. A
  buffer the function fills is its result. \<open>int\<close> and \<open>long\<close> values are integers: every
  intermediate value is far inside the C ranges for the arguments the guards let through.
\<close>

subsection \<open>Julian day numbers\<close>

definition HB_STR_DATE_BASE :: int where "HB_STR_DATE_BASE = 1721060"
definition HB_DATE_YEAR_LIMIT :: int where "HB_DATE_YEAR_LIMIT = 9999"

definition auiDayLimit :: "int list" where
  "auiDayLimit = [31, 28, 31, 30, 31, 30, 31, 31, 30, 31, 30, 31]"

definition hb_dateEncode :: "int \<Rightarrow> int \<Rightarrow> int \<Rightarrow> int" where
  "hb_dateEncode iYear iMonth iDay =
     (if 0 \<le> iYear \<and> iYear \<le> HB_DATE_YEAR_LIMIT \<and> 1 \<le> iMonth \<and> iMonth \<le> 12 \<and> 1 \<le> iDay then
        (if iDay \<le> auiDayLimit ! nat (iMonth - 1) \<or>
            iDay = 29 \<and> iMonth = 2 \<and>
              and iYear 3 = 0 \<and> (iYear smod 100 \<noteq> 0 \<or> iYear smod 400 = 0) then
           (let iFactor = (if iMonth < 3 then -1 else 0) in
              (iFactor + 4800 + iYear) * 1461 sdiv 4 +
              ((iMonth - 2 - iFactor * 12) * 367) sdiv 12 -
              ((iFactor + 4900 + iYear) sdiv 100) * 3 sdiv 4 +
              iDay - 32075)
         else 0)
      else 0)"

definition hb_dateDecode :: "int \<Rightarrow> int \<times> int \<times> int" where
  "hb_dateDecode lJulian =
     (if HB_STR_DATE_BASE \<le> lJulian then
        (let J = lJulian + 68569;
             W = (J * 4) sdiv 146097;
             J = J - (146097 * W + 3) sdiv 4;
             X = 4000 * (J + 1) sdiv 1461001;
             J = J - ((1461 * X) sdiv 4 - 31);
             V = 80 * J sdiv 2447;
             U = V sdiv 11
         in (X + U + (W - 49) * 100, V + 2 - U * 12, J - 2447 * V sdiv 80))
      else (0, 0, 0))"

definition hb_dateJulianDOW :: "int \<Rightarrow> int" where
  "hb_dateJulianDOW lJulian =
     (if HB_STR_DATE_BASE \<le> lJulian then (lJulian + 1) smod 7 + 1 else 0)"

definition hb_dateDOW :: "int \<Rightarrow> int \<Rightarrow> int \<Rightarrow> int" where
  "hb_dateDOW iYear iMonth iDay =
     (let (iYear, iMonth) = (if iMonth < 3 then (iYear - 1, iMonth + 13) else (iYear, iMonth + 1))
      in (iDay + 26 * iMonth sdiv 10 +
          iYear + iYear sdiv 4 - iYear sdiv 100 + iYear sdiv 400 + 6) smod 7 + 1)"

definition hb_dateDecWeek :: "int \<Rightarrow> bool \<times> int \<times> int \<times> int" where
  "hb_dateDecWeek lJulian =
     (if HB_STR_DATE_BASE \<le> lJulian then
        (let iDay = lJulian smod 7 + 1;
             lJulian = lJulian + (4 - iDay);
             (iYear, iMonth, iD) = hb_dateDecode lJulian;
             iWeek = (lJulian - hb_dateEncode iYear 1 1) sdiv 7 + 1
         in (True, iYear, iWeek, iDay))
      else (False, 0, 0, 0))"

definition hb_dateEncWeek :: "int \<Rightarrow> int \<Rightarrow> int \<Rightarrow> int" where
  "hb_dateEncWeek iYear iWeek iDay =
     (if 0 < iWeek \<and> iWeek \<le> 53 \<and> 0 < iDay \<and> iDay \<le> 7 then
        (let lDate = hb_dateEncode iYear 1 1
         in lDate + ((iWeek - 1) * 7 + iDay - (lDate + 3) smod 7 + 2))
      else 0)"

subsection \<open>Date strings\<close>

definition hb_dateStrPut :: "int \<Rightarrow> int \<Rightarrow> int \<Rightarrow> string" where
  "hb_dateStrPut iYear iMonth iDay =
     (if 0 \<le> iYear \<and> 0 < iMonth \<and> 0 < iDay then
        [dchr ((iYear sdiv 1000) smod 10), dchr ((iYear sdiv 100) smod 10),
         dchr ((iYear sdiv 10) smod 10), dchr (iYear smod 10),
         dchr ((iMonth sdiv 10) smod 10), dchr (iMonth smod 10),
         dchr ((iDay sdiv 10) smod 10), dchr (iDay smod 10)]
      else replicate 8 (CHR ''0''))"

definition hb_dateStrGet :: "string option \<Rightarrow> int \<times> int \<times> int" where
  "hb_dateStrGet szDate =
     (case szDate of None \<Rightarrow> (0, 0, 0)
      | Some s \<Rightarrow>
          (if HB_ISDIGIT (cat s 0) \<and> HB_ISDIGIT (cat s 1) \<and> HB_ISDIGIT (cat s 2) \<and>
              HB_ISDIGIT (cat s 3) \<and> HB_ISDIGIT (cat s 4) \<and> HB_ISDIGIT (cat s 5) \<and>
              HB_ISDIGIT (cat s 6) \<and> HB_ISDIGIT (cat s 7) then
             (((dig (cat s 0) * 10 + dig (cat s 1)) * 10 + dig (cat s 2)) * 10 + dig (cat s 3),
              dig (cat s 4) * 10 + dig (cat s 5),
              dig (cat s 6) * 10 + dig (cat s 7))
           else (0, 0, 0)))"

definition hb_dateDecStr :: "int \<Rightarrow> string" where
  "hb_dateDecStr lJulian =
     (if lJulian \<le> 0 then replicate 8 (CHR '' '')
      else (let (iYear, iMonth, iDay) = hb_dateDecode lJulian in hb_dateStrPut iYear iMonth iDay))"

definition hb_dateEncStr :: "string option \<Rightarrow> int" where
  "hb_dateEncStr szDate =
     (let (iYear, iMonth, iDay) = hb_dateStrGet szDate in hb_dateEncode iYear iMonth iDay)"

subsection \<open>Milliseconds of a day\<close>

definition HB_MILLISECS_PER_DAY :: int where "HB_MILLISECS_PER_DAY = 86400000"

definition hb_timeEncode :: "int \<Rightarrow> int \<Rightarrow> int \<Rightarrow> int \<Rightarrow> int" where
  "hb_timeEncode iHour iMinutes iSeconds iMSec =
     (if 0 \<le> iHour \<and> iHour < 24 \<and> 0 \<le> iMinutes \<and> iMinutes < 60 \<and>
         0 \<le> iSeconds \<and> iSeconds < 60 \<and> 0 \<le> iMSec \<and> iMSec < 1000
      then ((iHour * 60 + iMinutes) * 60 + iSeconds) * 1000 + iMSec
      else 0)"

definition hb_timeDecode :: "int \<Rightarrow> int \<times> int \<times> int \<times> int" where
  "hb_timeDecode lMilliSec =
     (if lMilliSec \<le> 0 then (0, 0, 0, 0)
      else
        (let iMSec = lMilliSec smod 1000; lMilliSec = lMilliSec sdiv 1000;
             iSeconds = lMilliSec smod 60; lMilliSec = lMilliSec sdiv 60;
             iMinutes = lMilliSec smod 60; lMilliSec = lMilliSec sdiv 60
         in if 24 \<le> lMilliSec then (0, 0, 0, 0) else (lMilliSec, iMinutes, iSeconds, iMSec)))"

subsection \<open>Time strings\<close>

definition hb_timeStr :: "int \<Rightarrow> string" where
  "hb_timeStr lMilliSec =
     (let (iHour, iMinutes, iSeconds, iMSec) = hb_timeDecode lMilliSec in
      take 12 (c_fmt0 2 iHour @ '':'' @ c_fmt0 2 iMinutes @ '':'' @ c_fmt0 2 iSeconds @ ''.'' @
               c_fmt0 3 iMSec))"

text \<open>The free format: hours, then optional minutes, seconds and milliseconds, then \<open>AM\<close> or
  \<open>PM\<close>. \<open>timeStr_2digits\<close> reads the one or two digits of a block, \<open>timeStr_msec\<close> the digits
  after the decimal point, \<open>timeStr_blocks\<close> everything up to the suffix.\<close>

definition timeStr_2digits :: "string \<Rightarrow> int \<times> string" where
  "timeStr_2digits s =
     (let v = dig (cat s 0); s = tl s in
      if HB_ISDIGIT (cat s 0) then (v * 10 + dig (cat s 0), tl s) else (v, s))"

definition timeStr_msec :: "string \<Rightarrow> int \<times> string" where
  "timeStr_msec s =
     (let iMSec = dig (cat s 0) * 100; s = tl s;
          (iMSec, s) =
            (if HB_ISDIGIT (cat s 0) then
               (let iMSec = iMSec + dig (cat s 0) * 10; s = tl s in
                if HB_ISDIGIT (cat s 0) then (iMSec + dig (cat s 0), tl s) else (iMSec, s))
             else (iMSec, s))
      in if HB_ISDIGIT (cat s 0) then (iMSec, tl s) else (iMSec, s))"

definition timeStr_blocks :: "string \<Rightarrow> int \<times> int \<times> int \<times> int \<times> int \<times> string" where
  "timeStr_blocks s =
     (let (iHour, s) = timeStr_2digits s in
      if cat s 0 = CHR '':'' \<and> HB_ISDIGIT (cat s 1) then
        (let (iMinutes, s) = timeStr_2digits (tl s) in
         if cat s 0 = CHR '':'' \<and> HB_ISDIGIT (cat s 1) then
           (let (iSeconds, s) = timeStr_2digits (tl s) in
            if cat s 0 = CHR ''.'' \<and> HB_ISDIGIT (cat s 1) then
              (let (iMSec, s) = timeStr_msec (tl s) in (iHour, iMinutes, iSeconds, iMSec, 3, s))
            else (iHour, iMinutes, iSeconds, 0, 2, s))
         else (iHour, iMinutes, 0, 0, 1, s))
      else (iHour, 0, 0, 0, 0, s))"

definition timeStr_suffix :: "int \<Rightarrow> int \<Rightarrow> string \<Rightarrow> int \<times> int \<times> string" where
  "timeStr_suffix iHour iBlocks s =
     (if (cat s 0 = CHR ''p'' \<or> cat s 0 = CHR ''P'') \<and> (cat s 1 = CHR ''m'' \<or> cat s 1 = CHR ''M'') then
        (if iHour = 0 then 24 else if iHour \<noteq> 12 then iHour + 12 else iHour, iBlocks + 1, drop 2 s)
      else if (cat s 0 = CHR ''a'' \<or> cat s 0 = CHR ''A'') \<and> (cat s 1 = CHR ''m'' \<or> cat s 1 = CHR ''M'') then
        (if iHour = 0 then 24 else if iHour = 12 then 0 else iHour, iBlocks + 1, drop 2 s)
      else (iHour, iBlocks, s))"

definition hb_timeStrGet :: "string option \<Rightarrow> bool \<times> int \<times> int \<times> int \<times> int" where
  "hb_timeStrGet szTime =
     (case szTime of None \<Rightarrow> (False, 0, 0, 0, 0)
      | Some s \<Rightarrow>
          (let s = skip_space s in
           if HB_ISDIGIT (cat s 0) then
             (let (iHour, iMinutes, iSeconds, iMSec, iBlocks, s) = timeStr_blocks s;
                  (iHour, iBlocks, s) = timeStr_suffix iHour iBlocks (skip_space s);
                  s = skip_space s
              in if s = [] \<and> 0 < iBlocks \<and> iHour < 24 \<and> iMinutes < 60 \<and> iSeconds < 60
                 then (True, iHour, iMinutes, iSeconds, iMSec)
                 else (False, 0, 0, 0, 0))
           else (False, 0, 0, 0, 0)))"

definition hb_timeStrRawGet :: "string option \<Rightarrow> int \<times> int \<times> int \<times> int" where
  "hb_timeStrRawGet szTime =
     (case szTime of None \<Rightarrow> (0, 0, 0, 0)
      | Some s \<Rightarrow>
          (let iLen = count_digits 10 s in
           if 2 \<le> iLen \<and> (even iLen \<or> iLen = 7 \<or> iLen = 9) then
             (let iHour = dig (cat s 0) * 10 + dig (cat s 1); s = drop 2 s; iLen = iLen - 2 in
              if 2 \<le> iLen then
                (let iMinutes = dig (cat s 0) * 10 + dig (cat s 1); s = drop 2 s; iLen = iLen - 2 in
                 if 2 \<le> iLen then
                   (let iSeconds = dig (cat s 0) * 10 + dig (cat s 1); s = drop 2 s; iLen = iLen - 2;
                        iMSec =
                          (if iLen = 4 \<or> iLen = 3 then
                             (dig (cat s 0) * 10 + dig (cat s 1)) * 10 + dig (cat s 2)
                           else if iLen = 2 then (dig (cat s 0) * 10 + dig (cat s 1)) * 10
                           else if iLen = 1 then dig (cat s 0) * 100
                           else 0)
                    in (iHour, iMinutes, iSeconds, iMSec))
                 else (iHour, iMinutes, 0, 0))
              else (iHour, 0, 0, 0))
           else (0, 0, 0, 0)))"

subsection \<open>Timestamp strings\<close>

definition hb_timeStampStrRawPut :: "int \<Rightarrow> int \<Rightarrow> string" where
  "hb_timeStampStrRawPut lJulian lMilliSec =
     (let (iYear, iMonth, iDay) = hb_dateDecode lJulian;
          (iHour, iMinutes, iSeconds, iMSec) = hb_timeDecode lMilliSec
      in hb_dateStrPut iYear iMonth iDay @
         take 9 (c_fmt0 2 iHour @ c_fmt0 2 iMinutes @ c_fmt0 2 iSeconds @ c_fmt0 3 iMSec))"

definition hb_timeStampStrRawGet :: "string \<Rightarrow> int \<times> int" where
  "hb_timeStampStrRawGet s =
     (let iLen = count_digits 10 s;
          (lJulian, s, iLen) =
            (if iLen = 8 \<or> 10 \<le> iLen then
               (let (iYear, iMonth, iDay) = hb_dateStrGet (Some s)
                in (hb_dateEncode iYear iMonth iDay, drop 8 s, iLen - 8))
             else (0, s, iLen))
      in if 2 \<le> iLen then
           (let (iHour, iMinutes, iSeconds, iMSec) = hb_timeStrRawGet (Some s)
            in (lJulian, hb_timeEncode iHour iMinutes iSeconds iMSec))
         else (lJulian, 0))"

definition hb_timeStampStr :: "int \<Rightarrow> int \<Rightarrow> string" where
  "hb_timeStampStr lJulian lMilliSec =
     (let (iYear, iMonth, iDay) = hb_dateDecode lJulian;
          (iHour, iMinutes, iSeconds, iMSec) = hb_timeDecode lMilliSec
      in take 23 (c_fmt0 4 iYear @ ''-'' @ c_fmt0 2 iMonth @ ''-'' @ c_fmt0 2 iDay @ '' '' @
                  c_fmt0 2 iHour @ '':'' @ c_fmt0 2 iMinutes @ '':'' @ c_fmt0 2 iSeconds @ ''.'' @
                  c_fmt0 3 iMSec))"

text \<open>The three ISO 8601 date shapes: the result is the date and the rest of the string when the
  date is valid, \<open>None\<close> otherwise.\<close>

definition timeStamp_isoDate :: "string \<Rightarrow> ((int \<times> int \<times> int) \<times> string) option" where
  "timeStamp_isoDate s =
     (let iYear = ((dig (cat s 0) * 10 + dig (cat s 1)) * 10 + dig (cat s 2)) * 10 + dig (cat s 3) in
      if HB_ISDIGIT (cat s 5) \<and> HB_ISDIGIT (cat s 6) \<and> cat s 7 = cat s 4 \<and>
         HB_ISDIGIT (cat s 8) \<and> HB_ISDIGIT (cat s 9) \<and> \<not> HB_ISDIGIT (cat s 10) then
        (let iMonth = dig (cat s 5) * 10 + dig (cat s 6);
             iDay = dig (cat s 8) * 10 + dig (cat s 9)
         in if hb_dateEncode iYear iMonth iDay \<noteq> 0 \<or> iYear = 0 \<and> iMonth = 0 \<and> iDay = 0
            then Some ((iYear, iMonth, iDay), drop 10 s) else None)
      else if (cat s 5 = CHR ''W'' \<or> cat s 5 = CHR ''w'') \<and> HB_ISDIGIT (cat s 6) \<and>
              HB_ISDIGIT (cat s 7) \<and> cat s 8 = cat s 4 \<and> HB_ISDIGIT (cat s 9) \<and>
              \<not> HB_ISDIGIT (cat s 10) then
        (let lDate = hb_dateEncWeek iYear (dig (cat s 6) * 10 + dig (cat s 7)) (dig (cat s 9))
         in if lDate \<noteq> 0 then Some (hb_dateDecode lDate, drop 10 s) else None)
      else if cat s 4 = CHR ''-'' \<and> HB_ISDIGIT (cat s 5) \<and> HB_ISDIGIT (cat s 6) \<and>
              HB_ISDIGIT (cat s 7) \<and> \<not> HB_ISDIGIT (cat s 8) then
        (let iDay = (dig (cat s 5) * 10 + dig (cat s 6)) * 10 + dig (cat s 7) in
         if 0 < iDay \<and> (iDay \<le> 365 \<or> iDay = 366 \<and> iYear smod 4 = 0 \<and>
              (iYear smod 100 \<noteq> 0 \<or> iYear smod 400 = 0)) then
           (let lDate = hb_dateEncode iYear 1 1
            in if lDate \<noteq> 0 then Some (hb_dateDecode (lDate + iDay - 1), drop 8 s) else None)
         else None)
      else None)"

text \<open>\<open>hb_timeStampStrGet\<close>; \<open>fTime\<close> says whether the caller passes at least one non-NULL pointer
  for a time component.\<close>

definition hb_timeStampStrGet ::
  "string option \<Rightarrow> bool \<Rightarrow> bool \<times> (int \<times> int \<times> int) \<times> (int \<times> int \<times> int \<times> int)" where
  "hb_timeStampStrGet szDateTime fTime =
     (let (fValid, date, szDateTime) =
        (case szDateTime of None \<Rightarrow> (False, (0, 0, 0), None)
         | Some s \<Rightarrow>
             (let s = skip_space s in
              if HB_ISDIGIT (cat s 0) \<and> HB_ISDIGIT (cat s 1) \<and> HB_ISDIGIT (cat s 2) \<and>
                 HB_ISDIGIT (cat s 3) \<and>
                 (cat s 4 = CHR ''-'' \<or> cat s 4 = CHR ''/'' \<or> cat s 4 = CHR ''.'') then
                (case timeStamp_isoDate s of
                   Some (date, s) \<Rightarrow>
                     (if cat s 0 = CHR ''T'' \<or> cat s 0 = CHR ''t'' then
                        (False, date, Some (if HB_ISDIGIT (cat s 1) then tl s else s))
                      else
                        (let s = (if cat s 0 = CHR '','' \<or> cat s 0 = CHR '';'' then tl s else s);
                             s = skip_space s
                         in (True, date, if s = [] then None else Some s)))
                 | None \<Rightarrow> (False, (0, 0, 0), None))
              else (False, (0, 0, 0), Some s)))
      in if fTime then
           (let (fTimeValid, time) = hb_timeStrGet szDateTime in
            if fTimeValid then (True, date, time)
            else (if szDateTime \<noteq> None then False else fValid, date, time))
         else (if szDateTime \<noteq> None then False else fValid, date, (0, 0, 0, 0)))"

definition hb_timeStampStrGetDT :: "string option \<Rightarrow> bool \<times> int \<times> int" where
  "hb_timeStampStrGetDT szDateTime =
     (let (fValid, (iYear, iMonth, iDay), (iHour, iMinutes, iSeconds, iMSec)) =
        hb_timeStampStrGet szDateTime True
      in (fValid, hb_dateEncode iYear iMonth iDay, hb_timeEncode iHour iMinutes iSeconds iMSec))"

end
