(* ===== verification/HbDateCorrect.thy ===== *)
theory HbDateCorrect
  imports HbDate
begin

text \<open>
  Correctness of the calendar code of \<open>HbDate\<close>. \<open>dateNum\<close> is the day number formula without the
  range guards; \<open>century_step\<close>, \<open>year_step\<close> and \<open>month_offset\<close> invert its three divisions, which
  gives the decoder; \<open>dateNum_nextDate\<close> shows that the formula counts days, which makes it onto
  the range of four digit years. Weekdays, ISO weeks, milliseconds and the string formats follow.
\<close>

subsection \<open>Valid dates\<close>

definition hb_leap :: "int \<Rightarrow> bool" where
  "hb_leap y \<longleftrightarrow> y mod 4 = 0 \<and> (y mod 100 \<noteq> 0 \<or> y mod 400 = 0)"

definition hb_monthDays :: "int \<Rightarrow> int \<Rightarrow> int" where
  "hb_monthDays y m = (if m = 2 \<and> hb_leap y then 29 else auiDayLimit ! nat (m - 1))"

definition hb_validDate :: "int \<times> int \<times> int \<Rightarrow> bool" where
  "hb_validDate = (\<lambda>(y, m, d). 0 \<le> y \<and> y \<le> 9999 \<and> 1 \<le> m \<and> m \<le> 12 \<and> 1 \<le> d \<and> d \<le> hb_monthDays y m)"

text \<open>The day number of a valid date, with the guard discharged and flooring divisions.\<close>

definition dateNum :: "int \<Rightarrow> int \<Rightarrow> int \<Rightarrow> int" where
  "dateNum y m d =
     (let f = (if m < 3 then -1 else 0) in
      (f + 4800 + y) * 1461 div 4 + ((m - 2 - f * 12) * 367) div 12 -
      ((f + 4900 + y) div 100) * 3 div 4 + d - 32075)"

lemma month_cases:
  assumes "1 \<le> (m::int)" "m \<le> 12"
  obtains "m = 1" | "m = 2" | "m = 3" | "m = 4" | "m = 5" | "m = 6" | "m = 7" | "m = 8"
    | "m = 9" | "m = 10" | "m = 11" | "m = 12"
proof -
  have "m = 1 \<or> m = 2 \<or> m = 3 \<or> m = 4 \<or> m = 5 \<or> m = 6 \<or> m = 7 \<or> m = 8 \<or> m = 9 \<or>
      m = 10 \<or> m = 11 \<or> m = 12"
    using assms by presburger
  then show thesis using that by blast
qed

lemma auiDayLimit_simps [simp]:
  "auiDayLimit ! 0 = 31" "auiDayLimit ! Suc 0 = 28" "auiDayLimit ! 2 = 31" "auiDayLimit ! 3 = 30"
  "auiDayLimit ! 4 = 31" "auiDayLimit ! 5 = 30" "auiDayLimit ! 6 = 31" "auiDayLimit ! 7 = 31"
  "auiDayLimit ! 8 = 30" "auiDayLimit ! 9 = 31" "auiDayLimit ! 10 = 30" "auiDayLimit ! 11 = 31"
  by (simp_all add: auiDayLimit_def)

lemma and_3_mod_4: "0 \<le> y \<Longrightarrow> and y 3 = y mod (4::int)"
  using take_bit_eq_mask [of 2 y] by (simp add: take_bit_eq_mod mask_eq_exp_minus_1)

lemma hb_monthDays_le: "1 \<le> m \<Longrightarrow> m \<le> 12 \<Longrightarrow> 28 \<le> hb_monthDays y m \<and> hb_monthDays y m \<le> 31"
  by (erule (1) month_cases) (auto simp: hb_monthDays_def)

lemma hb_dateEncode_guard:
  assumes "0 \<le> y" "1 \<le> m" "m \<le> 12"
  shows "(d \<le> auiDayLimit ! nat (m - 1) \<or> d = 29 \<and> m = 2 \<and> and y 3 = 0 \<and> (y smod 100 \<noteq> 0 \<or> y smod 400 = 0))
    \<longleftrightarrow> d \<le> hb_monthDays y m"
  using assms(1) assms(2,3)
  by (auto simp: hb_monthDays_def hb_leap_def and_3_mod_4 smod_nonneg)

lemma hb_dateEncode_valid:
  assumes "hb_validDate (y, m, d)"
  shows "hb_dateEncode y m d = dateNum y m d"
proof -
  have b: "0 \<le> y" "y \<le> 9999" "1 \<le> m" "m \<le> 12" "1 \<le> d" "d \<le> hb_monthDays y m"
    using assms by (simp_all add: hb_validDate_def)
  define f :: int where "f = (if m < 3 then -1 else 0)"
  have f: "-1 \<le> f" "f \<le> 0" "0 \<le> m - 2 - f * 12"
    using b by (auto simp: f_def)
  have q: "0 \<le> (f + 4900 + y) div 100" using b f by simp
  show ?thesis
    using b hb_dateEncode_guard [OF b(1,3,4)] f q
    by (simp add: hb_dateEncode_def dateNum_def HB_DATE_YEAR_LIMIT_def Let_def
        f_def [symmetric] sdiv_nonneg)
qed

lemma hb_dateEncode_invalid:
  assumes "\<not> hb_validDate (y, m, d)"
  shows "hb_dateEncode y m d = 0"
proof (cases "0 \<le> y \<and> y \<le> 9999 \<and> 1 \<le> m \<and> m \<le> 12 \<and> 1 \<le> d")
  case True
  with assms have "\<not> d \<le> hb_monthDays y m" by (simp add: hb_validDate_def)
  with True hb_dateEncode_guard [of y m d] show ?thesis
    by (auto simp: hb_dateEncode_def)
next
  case False
  then show ?thesis
    by (auto simp: hb_dateEncode_def HB_DATE_YEAR_LIMIT_def)
qed

lemma month_offset:
  assumes m: "1 \<le> m" "m \<le> 12" and M: "M = (if m < 3 then m + 10 else m - 2)"
    and d: "1 \<le> d" "d \<le> hb_monthDays y m"
  shows "80 * (M * 367 div 12 + d) div 2447 = M" "2447 * M div 80 = M * 367 div 12"
    "1 \<le> M" "M \<le> 12" "30 \<le> M * 367 div 12" "M * 367 div 12 \<le> 367"
    "M div 11 = (if m < 3 then 1 else 0)"
proof -
  have l: "hb_monthDays y m \<le> (if m = 2 then 29 else auiDayLimit ! nat (m - 1))"
    by (simp add: hb_monthDays_def)
  define k where "k = M * 367 div 12"
  define x where "x = (if m = 2 then 29 else auiDayLimit ! nat (m - 1))"
  have "2447 * M \<le> 80 * (k + 1)" "80 * (k + x) < 2447 * M + 2447"
    unfolding M k_def x_def by (rule month_cases [OF m]; simp)+
  with d l have "0 \<le> 80 * (k + d) - 2447 * M" "80 * (k + d) - 2447 * M < 2447"
    unfolding x_def [symmetric] by simp_all
  then show "80 * (M * 367 div 12 + d) div 2447 = M"
    unfolding k_def [symmetric]
    by (intro int_div_pos_eq [where r = "80 * (k + d) - 2447 * M"]) simp_all
  show "2447 * M div 80 = M * 367 div 12"
    unfolding M by (rule month_cases [OF m]) simp_all
  show "30 \<le> M * 367 div 12" "M * 367 div 12 \<le> 367" "1 \<le> M" "M \<le> 12"
      "M div 11 = (if m < 3 then 1 else 0)"
    unfolding M by (rule month_cases [OF m]; simp)+
qed

text \<open>The steps of the decoder, on a day number split into century, year of the century and day
  of the March based year.\<close>

lemma century_step:
  assumes c: "0 \<le> (c::int)" and t: "0 \<le> t" "4 * t + 3 * c mod 4 < 146097"
  shows "(36525 * c - 3 * c div 4 + t) * 4 div 146097 = c"
    "36525 * c - 3 * c div 4 + t - (146097 * c + 3) div 4 = t"
proof -
  have lin: "4 * q = 3 * c - k \<Longrightarrow> (36525 * c - q + t) * 4 = 146097 * c + (k + 4 * t)" for q k :: int
    by (simp add: algebra_simps)
  have e: "(36525 * c - 3 * c div 4 + t) * 4 = 146097 * c + (3 * c mod 4 + 4 * t)"
    by (rule lin) (simp only: minus_mod_eq_mult_div)
  have "0 \<le> 3 * c mod 4" by simp
  with t have "(3 * c mod 4 + 4 * t) div 146097 = 0" by simp
  then show "(36525 * c - 3 * c div 4 + t) * 4 div 146097 = c"
    unfolding e by simp
  have "(146097 * c + 3) div 4 = 36524 * c + (c + 3) div 4"
    using div_mult_self1 [of 4 "c + 3" "36524 * c"] by (simp add: algebra_simps)
  moreover have "3 * c div 4 + (c + 3) div 4 = c" by presburger
  ultimately show "36525 * c - 3 * c div 4 + t - (146097 * c + 3) div 4 = t"
    by linarith
qed

lemma year_step:
  assumes r: "0 \<le> (r::int)" "r \<le> 99" and u: "1 \<le> u" "u \<le> 366" "u = 366 \<Longrightarrow> r mod 4 = 3"
  shows "4000 * (1461 * r div 4 + u) div 1461001 = r"
proof -
  have "1461 * r mod 4 = (1461 mod 4) * r mod 4" by (simp only: mod_mult_left_eq)
  then have q: "4 * (1461 * r div 4) = 1461 * r - r mod 4"
    by (simp add: minus_mod_eq_mult_div [symmetric])
  have lin: "4 * q = 1461 * r - k \<Longrightarrow>
      4000 * (q + u) = 1461001 * r + (4000 * u - 1000 * k - r)" for q k :: int
    by (simp add: algebra_simps)
  from lin [OF q]
  have e: "4000 * (1461 * r div 4 + u) = 1461001 * r + (4000 * u - 1000 * (r mod 4) - r)" .
  have m: "0 \<le> r mod 4" "r mod 4 \<le> 3" by simp_all
  then have lo: "0 \<le> 4000 * u - 1000 * (r mod 4) - r" using u r by linarith
  have hi: "4000 * u - 1000 * (r mod 4) - r < 1461001"
  proof (cases "u = 366")
    case True
    with u(3) r show ?thesis by simp
  next
    case False
    with u have "u \<le> 365" by simp
    with r m show ?thesis by linarith
  qed
  from lo hi have "(4000 * u - 1000 * (r mod 4) - r) div 1461001 = 0"
    by simp
  then show ?thesis
    unfolding e by simp
qed

lemma mod_succ_4: "(r + 1) mod 4 = 0 \<Longrightarrow> r mod 4 = (3::int)"
  by presburger

lemma hb_dateDecode_dateNum:
  assumes "hb_validDate (y, m, d)"
  shows "hb_dateDecode (dateNum y m d) = (y, m, d)"
proof -
  have b: "0 \<le> y" "y \<le> 9999" "1 \<le> m" "m \<le> 12" "1 \<le> d" "d \<le> hb_monthDays y m"
    using assms by (simp_all add: hb_validDate_def)
  define f :: int where "f = (if m < 3 then -1 else 0)"
  define M where "M = (if m < 3 then m + 10 else m - 2)"
  define Y where "Y = f + 4800 + y"
  define c where "c = (Y + 100) div 100"
  define r where "r = (Y + 100) mod 100"
  define k where "k = M * 367 div 12"
  define u where "u = k + d - 30"
  define t where "t = 1461 * r div 4 + u - 1"
  note mo = month_offset [OF b(3,4) M_def b(5,6), folded k_def]
  have Y: "Y = 100 * c + r - 100" "0 \<le> r" "r \<le> 99" "4799 \<le> Y"
    using b by (simp_all add: c_def r_def Y_def f_def)
  have c: "48 \<le> c" using Y(4) by (simp add: c_def)
  have num: "dateNum y m d + 68569 = 36525 * c - 3 * c div 4 + t"
  proof -
    have "Y * 1461 = 1461 * r + (36525 * c - 36525) * 4"
      using Y(1) by (simp add: algebra_simps)
    then have 1: "Y * 1461 div 4 = 36525 * c - 36525 + 1461 * r div 4"
      by (simp only: div_mult_self1 [where b = "4 :: int"] zero_neq_numeral not_False_eq_True
            numeral_neq_zero)
    have 2: "(f + 4900 + y) div 100 * 3 = 3 * c"
      by (simp add: c_def Y_def add.commute add.left_commute)
    have 3: "(m - 2 - f * 12) * 367 div 12 = k"
      by (simp add: k_def M_def f_def algebra_simps)
    have "dateNum y m d = Y * 1461 div 4 + (m - 2 - f * 12) * 367 div 12 -
        (f + 4900 + y) div 100 * 3 div 4 + d - 32075"
      by (simp only: dateNum_def Let_def f_def [symmetric] Y_def)
    then show ?thesis
      unfolding 1 2 3 t_def u_def by simp
  qed
  have k: "m \<noteq> 2 \<Longrightarrow> k + auiDayLimit ! nat (m - 1) - 30 \<le> 337" "m = 2 \<Longrightarrow> k = 367"
    unfolding k_def M_def by (rule month_cases [OF b(3,4)]; simp)+
  have u: "1 \<le> u" "u \<le> 366" "u = 366 \<Longrightarrow> m = 2 \<and> d = 29"
    using b(5,6) mo(5) k by (cases "m = 2"; auto simp: u_def hb_monthDays_def split: if_splits)+
  have leap: "r mod 4 = 3 \<and> (r = 99 \<longrightarrow> c mod 4 = 0)" if "u = 366"
  proof -
    have m: "m = 2" "d = 29" using u(3) that by simp_all
    then have "hb_leap y" using b(6) by (auto simp: hb_monthDays_def split: if_splits)
    moreover have "y = 100 * c + r - 4899" using Y(1) m by (simp add: Y_def f_def)
    ultimately have l: "(100 * c + r - 4899) mod 4 = 0"
        "(100 * c + r - 4899) mod 100 \<noteq> 0 \<or> (100 * c + r - 4899) mod 400 = 0"
      by (simp_all add: hb_leap_def)
    have c4: "c mod 4 = 0" if "r = 99"
    proof -
      have "(100 * (c - 48)) mod 100 = 0" by simp
      with l(2) that have "100 * (c - 48) mod (100 * 4) = 0" by (simp add: algebra_simps)
      then have "(c - 48) mod 4 = 0" unfolding mult_mod_right [symmetric] by simp
      then show ?thesis by presburger
    qed
    have "100 * c + r - 4899 = r + 1 + (25 * c - 1225) * 4" by simp
    with l(1) have "(r + 1) mod 4 = 0" by (simp only: mod_mult_self1)
    then have "r mod 4 = 3" by (rule mod_succ_4)
    with c4 show ?thesis by blast
  qed
  have t0: "0 \<le> t" using u(1) Y(2) by (simp add: t_def)
  have q4: "4 * (1461 * r div 4) = 1461 * r - r mod 4"
  proof -
    have "1461 * r mod 4 = (1461 mod 4) * r mod 4" by (simp only: mod_mult_left_eq)
    then show ?thesis by (simp add: minus_mod_eq_mult_div [symmetric])
  qed
  have t4: "4 * t + 3 * c mod 4 < 146097"
  proof -
    have m3: "3 * c mod 4 \<le> 3" "0 \<le> r mod 4" by simp_all
    have e: "4 * t = 1461 * r - r mod 4 + 4 * u - 4" using q4 by (simp add: t_def)
    show ?thesis
    proof (cases "u = 366 \<and> r = 99")
      case True
      then have "c mod 4 = 0" "r mod 4 = 3" using leap by simp_all
      then have "3 * c mod 4 = 0" by presburger
      with e True \<open>r mod 4 = 3\<close> show ?thesis by simp
    next
      case False
      then have "u \<le> 365 \<or> r \<le> 98" using u(2) Y(3) by linarith
      with m3 e u(2) Y(3) show ?thesis by (cases "r = 99") simp_all
    qed
  qed
  have base: "HB_STR_DATE_BASE \<le> dateNum y m d"
  proof (cases "c = 48")
    case True
    then have "r = 99" "m < 3" using Y b(1) by (auto simp: Y_def f_def split: if_splits)
    then have "336 \<le> k" using b(3) by (auto simp: k_def M_def)
    then show ?thesis
      using num True \<open>r = 99\<close> b(5) by (simp add: t_def u_def HB_STR_DATE_BASE_def)
  next
    case False
    with c have "49 \<le> c" by simp
    then have "36525 * 49 - 36 \<le> 36525 * c - 3 * c div 4" by linarith
    then show ?thesis using num t0 by (simp add: HB_STR_DATE_BASE_def)
  qed
  note cs = century_step [OF _ t0 t4]
  have W: "(dateNum y m d + 68569) * 4 sdiv 146097 = c"
    using base c num cs(1) by (simp add: sdiv_nonneg HB_STR_DATE_BASE_def)
  have J1: "dateNum y m d + 68569 - (146097 * c + 3) sdiv 4 = t"
    using c num cs(2) by (simp add: sdiv_nonneg)
  have X: "4000 * (t + 1) sdiv 1461001 = r"
    using year_step [OF Y(2,3) u(1,2)] leap t0 by (simp add: t_def sdiv_nonneg add.assoc)
  have J2: "t - (1461 * r sdiv 4 - 31) = k + d"
    using Y(2) by (simp add: t_def u_def sdiv_nonneg)
  have V: "80 * (k + d) sdiv 2447 = M"
    using mo(1,5) b(5) by (simp add: sdiv_nonneg)
  have U: "M sdiv 11 = (if m < 3 then 1 else 0)"
    using mo(3,7) by (simp add: sdiv_nonneg)
  have D: "2447 * M sdiv 80 = k"
    using mo(2,3) by (simp add: sdiv_nonneg)
  have "y = 100 * c + r - 4900 - f" using Y(1) by (simp add: Y_def)
  moreover have "hb_dateDecode (dateNum y m d) =
      (r + (if m < 3 then 1 else 0) + (c - 49) * 100, M + 2 - (if m < 3 then 1 else 0) * 12, k + d - k)"
    using base by (simp only: hb_dateDecode_def Let_def if_True W J1 X J2 V U D)
  ultimately show ?thesis by (simp add: f_def M_def)
qed

text \<open>Successive days have successive numbers.\<close>

lemma dateNum_next_day: "dateNum y m (d + 1) = dateNum y m d + 1"
  by (simp add: dateNum_def Let_def)

lemma dateNum_next_year: "dateNum (y + 1) 1 1 = dateNum y 12 31 + 1"
  by (simp add: dateNum_def algebra_simps)

lemma leap_term:
  fixes y :: int
  shows "(y + 4800) * 1461 div 4 = (y + 4799) * 1461 div 4 + (if y mod 4 = 0 then 366 else 365)"
proof -
  define q where "q = y div 4"
  define s where "s = y mod 4"
  have y: "y = 4 * q + s" "0 \<le> s" "s < 4" by (simp_all add: q_def s_def)
  have s: "s = 0 \<or> s = 1 \<or> s = 2 \<or> s = 3" using y by linarith
  have "(y + 4800) * 1461 = (s + 4800) * 1461 + (1461 * q) * 4"
    "(y + 4799) * 1461 = (s + 4799) * 1461 + (1461 * q) * 4"
    using y(1) by simp_all
  then have "(y + 4800) * 1461 div 4 = 1461 * q + (s + 4800) * 1461 div 4"
    "(y + 4799) * 1461 div 4 = 1461 * q + (s + 4799) * 1461 div 4"
    by simp_all
  then show ?thesis using s by (fold s_def) auto
qed

lemma century_term:
  fixes y :: int
  shows "(y + 4900) div 100 * 3 div 4 =
    (y + 4899) div 100 * 3 div 4 + (if y mod 100 = 0 \<and> y mod 400 \<noteq> 0 then 1 else 0)"
proof -
  define C where "C = y div 100"
  define r where "r = y mod 100"
  have y: "y = 100 * C + r" "0 \<le> r" "r < 100" by (simp_all add: C_def r_def)
  have 1: "(y + 4900) div 100 = C + 49" using y by simp
  have 2: "(y + 4899) div 100 = (if r = 0 then C + 48 else C + 49)"
    using y by (intro int_div_pos_eq [where r = "if r = 0 then 99 else r - 1"]) auto
  have 3: "y mod 400 = 0 \<longleftrightarrow> C mod 4 = 0" if "r = 0"
  proof -
    have "y mod 400 = 100 * C mod (100 * 4)" using y(1) that by simp
    also have "\<dots> = 100 * (C mod 4)" by (rule mult_mod_right [symmetric])
    finally show ?thesis by simp
  qed
  show ?thesis
  proof (cases "r = 0")
    case True
    have "(C + 49) * 3 div 4 = (C + 48) * 3 div 4 + (if C mod 4 = 0 then 0 else 1)"
      by presburger
    with 1 2 3 True show ?thesis by (simp add: r_def [symmetric])
  next
    case False
    with 1 2 show ?thesis by (simp add: r_def [symmetric])
  qed
qed

definition marchBase :: "int \<Rightarrow> int" where
  "marchBase y = (y + 4800) * 1461 div 4 - (y + 4900) div 100 * 3 div 4 - 32075"

lemma dateNum_early: "m < 3 \<Longrightarrow> dateNum y m d = marchBase (y - 1) + (m + 10) * 367 div 12 + d"
  by (simp add: dateNum_def marchBase_def add.commute)

lemma dateNum_late: "\<not> m < 3 \<Longrightarrow> dateNum y m d = marchBase y + (m - 2) * 367 div 12 + d"
  by (simp add: dateNum_def marchBase_def add.commute)

lemma leap_days_if:
  assumes "r \<Longrightarrow> q" "q \<Longrightarrow> p"
  shows "(if p then 366 else 365) - (if q \<and> \<not> r then 1 else 0) = (if p \<and> (\<not> q \<or> r) then 366 else 365 :: int)"
  using assms by (cases p; cases q; cases r) simp_all

lemma marchBase_step: "marchBase y = marchBase (y - 1) + (if hb_leap y then 366 else 365)"
proof -
  have 1: "y mod 400 = 0 \<longrightarrow> y mod 100 = 0" "y mod 100 = 0 \<longrightarrow> y mod 4 = 0"
    using mod_mod_cancel [of 100 400 y] mod_mod_cancel [of 4 100 y] by auto
  have 2: "marchBase (y - 1) = (y + 4799) * 1461 div 4 - (y + 4899) div 100 * 3 div 4 - 32075"
    by (simp add: marchBase_def add.commute)
  have lin: "a' = a + e \<Longrightarrow> b' = b + g \<Longrightarrow> e - g = r \<Longrightarrow> a' - b' - 32075 = a - b - 32075 + r"
    for a a' b b' e g r :: int by simp
  have 3: "(if y mod 4 = 0 then 366 else 365) - (if y mod 100 = 0 \<and> y mod 400 \<noteq> 0 then 1 else 0) =
      (if hb_leap y then 366 else 365 :: int)"
    unfolding hb_leap_def by (rule leap_days_if; insert 1; drule mp)
  show ?thesis
    unfolding 2 unfolding marchBase_def by (rule lin [OF leap_term century_term 3])
qed

lemma dateNum_next_month:
  assumes "1 \<le> m" "m < 12"
  shows "dateNum y (m + 1) 1 = dateNum y m (hb_monthDays y m) + 1"
proof (cases "m = 2")
  case True
  show ?thesis
    unfolding True using marchBase_step [of y]
    by (simp add: dateNum_early dateNum_late hb_monthDays_def)
next
  case False
  have m12: "m \<le> 12" using assms by simp
  show ?thesis
    by (rule month_cases [OF assms(1) m12];
        use False assms in \<open>simp add: dateNum_early dateNum_late hb_monthDays_def\<close>)
qed

definition nextDate :: "int \<times> int \<times> int \<Rightarrow> int \<times> int \<times> int" where
  "nextDate = (\<lambda>(y, m, d).
     if d < hb_monthDays y m then (y, m, d + 1) else if m < 12 then (y, m + 1, 1) else (y + 1, 1, 1))"

lemma dateNum_nextDate:
  assumes "hb_validDate (y, m, d)" "nextDate (y, m, d) = (y', m', d')"
  shows "dateNum y' m' d' = dateNum y m d + 1"
proof -
  have b: "1 \<le> m" "m \<le> 12" "d \<le> hb_monthDays y m"
    using assms(1) by (simp_all add: hb_validDate_def)
  have "hb_monthDays y 12 = 31" by (simp add: hb_monthDays_def)
  with b assms(2) show ?thesis
    using dateNum_next_month [of m y] dateNum_next_day [of y m d] dateNum_next_year [of y]
    by (auto simp: nextDate_def split: if_splits)
qed

lemma nextDate_valid:
  assumes "hb_validDate (y, m, d)" "(y, m, d) \<noteq> (9999, 12, 31)"
  shows "hb_validDate (nextDate (y, m, d))"
proof -
  have "hb_monthDays y 12 = 31" by (simp add: hb_monthDays_def)
  with assms show ?thesis
    using hb_monthDays_le [of "m + 1" y] hb_monthDays_le [of 1 "y + 1"]
    by (auto simp: hb_validDate_def nextDate_def)
qed

lemma dateNum_surj:
  assumes "1721060 + int n \<le> 5373484"
  shows "\<exists>y m d. hb_validDate (y, m, d) \<and> dateNum y m d = 1721060 + int n"
  using assms
proof (induction n)
  case 0
  have "hb_validDate (0, 1, 1) \<and> dateNum 0 1 1 = 1721060"
    by (simp add: hb_validDate_def hb_monthDays_def dateNum_def)
  then show ?case by force
next
  case (Suc n)
  then obtain y m d where v: "hb_validDate (y, m, d)" "dateNum y m d = 1721060 + int n"
    by auto
  obtain y' m' d' where n: "nextDate (y, m, d) = (y', m', d')" by (metis prod_cases3)
  have "dateNum 9999 12 31 = 5373484" by (simp add: dateNum_def)
  with v Suc.prems have "(y, m, d) \<noteq> (9999, 12, 31)" by auto
  from nextDate_valid [OF v(1) this] dateNum_nextDate [OF v(1) n] v(2) n
  show ?case by (intro exI [of _ y'] exI [of _ m'] exI [of _ d']) simp
qed

lemma dateNum_obtain:
  assumes "1721060 \<le> j" "j \<le> 5373484"
  obtains y m d where "hb_validDate (y, m, d)" "dateNum y m d = j"
  using dateNum_surj [of "nat (j - 1721060)"] assms by auto

lemma marchBase_mono: "marchBase (y - 1) \<le> marchBase y"
  by (simp add: marchBase_step [of y])



text \<open>Weekdays.\<close>

lemma dateNum_base:
  assumes "hb_validDate (y, m, d)"
  shows "HB_STR_DATE_BASE \<le> dateNum y m d"
  using hb_dateDecode_dateNum [OF assms] assms
  by (auto simp: hb_dateDecode_def hb_validDate_def split: if_splits)

lemma int_div_le_self: "0 \<le> a \<Longrightarrow> a div 100 \<le> (a::int)"
  by presburger

lemma century_quarters: "(C + 49) * 3 div 4 = C - C div 4 + (36::int)"
proof -
  define a b where "a = C div 4" and "b = C mod 4"
  have C: "C = 4 * a + b" by (simp add: a_def b_def)
  have "0 \<le> b" "b < 4" by (simp_all add: b_def)
  then have "b = 0 \<or> b = 1 \<or> b = 2 \<or> b = 3" by linarith
  moreover have "(C + 49) * 3 = (b + 49) * 3 + (3 * a) * 4" using C by simp
  then have "(C + 49) * 3 div 4 = 3 * a + (b + 49) * 3 div 4" by simp
  ultimately have "(C + 49) * 3 div 4 = 3 * a + b + 36" by auto
  also have "\<dots> = C - a + 36" using C by simp
  finally show ?thesis unfolding a_def .
qed

lemma dateNum_linear:
  defines "e \<equiv> \<lambda>y m. if m < 3 then y - 1 else (y::int)"
  shows "dateNum y m d = 365 * e y m + e y m div 4 - e y m div 100 + e y m div 400 +
    ((if m < 3 then m + 10 else m - 2) * 367 div 12) + d + 1721089"
proof -
  have mb: "marchBase x = 365 * x + x div 4 - x div 100 + x div 400 + 1721089" for x
  proof -
    have "(x + 4800) * 1461 = x + (365 * x + 1753200) * 4" by simp
    then have 1: "(x + 4800) * 1461 div 4 = 365 * x + 1753200 + x div 4"
      by (simp only: div_mult_self1 [where b = "4 :: int"] zero_neq_numeral not_False_eq_True
          numeral_neq_zero)
    have 2: "(x + 4900) div 100 = x div 100 + 49" by simp
    note 3 = century_quarters
    have 4: "x div 100 div 4 = x div 400" by (simp only: zdiv_zmult2_eq [symmetric]) simp
    have lin: "365 * x + 1753200 + a - (b - c + 36) - 32075 = 365 * x + a - b + c + 1721089"
      for a b c :: int by simp
    show ?thesis unfolding marchBase_def 1 2 3 4 by (rule lin)
  qed
  show ?thesis
  proof (cases "m < 3")
    case True
    have "marchBase (y - 1) + (m + 10) * 367 div 12 + d = a + (m + 10) * 367 div 12 + d + 1721089"
      if "marchBase (y - 1) = a + 1721089" for a
      using that by simp
    from this [OF mb] True show ?thesis by (simp only: e_def dateNum_early if_True)
  next
    case False
    have "marchBase y + (m - 2) * 367 div 12 + d = a + (m - 2) * 367 div 12 + d + 1721089"
      if "marchBase y = a + 1721089" for a
      using that by simp
    from this [OF mb] show ?thesis by (simp only: e_def dateNum_late [OF False] if_False False)
  qed
qed

text \<open>ISO weeks: the week of the Thursday, and back.\<close>

lemma marchBase_year: "dateNum (y + 1) 1 1 = dateNum y 1 1 + (if hb_leap y then 366 else 365)"
  by (simp add: dateNum_early marchBase_step [of y])

lemma dateNum_day_of_year:
  assumes "hb_validDate (y, m, d)"
  shows "dateNum y 1 1 \<le> dateNum y m d" "dateNum y m d < dateNum y 1 1 + 366"
proof -
  have b: "1 \<le> m" "m \<le> 12" "1 \<le> d" "d \<le> hb_monthDays y m"
    using assms by (simp_all add: hb_validDate_def)
  have s: "marchBase y = marchBase (y - 1) + (if hb_leap y then 366 else 365)"
    by (rule marchBase_step)
  show "dateNum y 1 1 \<le> dateNum y m d"
    by (rule month_cases [OF b(1,2)]; use b(3) s in \<open>simp add: dateNum_early dateNum_late split: if_splits\<close>)
  show "dateNum y m d < dateNum y 1 1 + 366"
    by (rule month_cases [OF b(1,2)];
        use b(4) s in \<open>simp add: dateNum_early dateNum_late hb_monthDays_def split: if_splits\<close>)
qed

lemma week_number:
  fixes A t :: int
  assumes "t mod 7 = 3"
  shows "A + ((t - A) div 7 * 7 + w - (A + 3) mod 7 + 2) = t + w - 4"
proof -
  define a b where "a = (t - A) mod 7" and "b = (A + 3) mod 7"
  have "t - A = (t - A) div 7 * 7 + a" by (simp add: a_def)
  moreover have "a + b = 6"
  proof -
    have "(a + b) mod 7 = (t + 3) mod 7"
      unfolding a_def b_def by (simp add: mod_add_eq)
    also have "\<dots> = 6" using assms by presburger
    finally have "(a + b) mod 7 = 6" .
    moreover have "0 \<le> a" "a < 7" "0 \<le> b" "b < 7" by (simp_all add: a_def b_def)
    ultimately show ?thesis by presburger
  qed
  ultimately show ?thesis by (simp add: b_def [symmetric])
qed

subsection \<open>Milliseconds\<close>

definition hb_validTime :: "int \<times> int \<times> int \<times> int \<Rightarrow> bool" where
  "hb_validTime = (\<lambda>(h, m, s, ms).
     0 \<le> h \<and> h < 24 \<and> 0 \<le> m \<and> m < 60 \<and> 0 \<le> s \<and> s < 60 \<and> 0 \<le> ms \<and> ms < 1000)"

lemma hb_timeEncode_eq:
  "hb_validTime (h, m, s, ms) \<Longrightarrow> hb_timeEncode h m s ms = ((h * 60 + m) * 60 + s) * 1000 + ms"
  by (simp add: hb_timeEncode_def hb_validTime_def)

lemma hb_timeDecode_eq:
  assumes "0 \<le> t" "t < HB_MILLISECS_PER_DAY"
  shows "hb_timeDecode t = (t div 3600000, t div 60000 mod 60, t div 1000 mod 60, t mod 1000)"
proof (cases "t = 0")
  case False
  have d: "t div 1000 div 60 = t div 60000" "t div 60000 div 60 = t div 3600000"
    by (simp_all only: zdiv_zmult2_eq [symmetric]) simp_all
  have n: "0 \<le> t div 1000" "0 \<le> t div 60000" "t div 3600000 < 24"
    using assms by (simp_all add: HB_MILLISECS_PER_DAY_def div_less_iff_less_mult)
  have "t sdiv 1000 = t div 1000" "t smod 1000 = t mod 1000"
    "t div 1000 smod 60 = t div 1000 mod 60" "t div 1000 sdiv 60 = t div 60000"
    "t div 60000 smod 60 = t div 60000 mod 60" "t div 60000 sdiv 60 = t div 3600000"
    using assms n d by (simp_all add: sdiv_nonneg smod_nonneg)
  then show ?thesis
    using False assms n(3) by (simp add: hb_timeDecode_def Let_def)
qed (simp add: hb_timeDecode_def)

lemma hb_timeDecode_of_encode:
  assumes "hb_validTime (h, m, s, ms)"
  shows "hb_timeDecode (hb_timeEncode h m s ms) = (h, m, s, ms)"
proof -
  have b: "0 \<le> h" "h < 24" "0 \<le> m" "m < 60" "0 \<le> s" "s < 60" "0 \<le> ms" "ms < 1000"
    using assms by (simp_all add: hb_validTime_def)
  define x where "x = h * 60 + m"
  define z where "z = x * 60 + s"
  have x: "0 \<le> x" "x div 60 = h" "x mod 60 = m" "x < 1440" using b by (simp_all add: x_def)
  have z: "0 \<le> z" "z div 60 = x" "z mod 60 = s" "z < 86400" using b x by (simp_all add: z_def)
  have t: "(z * 1000 + ms) div 1000 = z" "(z * 1000 + ms) mod 1000 = ms" using b by simp_all
  have e: "hb_timeEncode h m s ms = z * 1000 + ms"
    using b by (simp add: hb_timeEncode_def z_def x_def)
  have q: "(z * 1000 + ms) div 60000 = x" "(z * 1000 + ms) div 3600000 = h"
  proof -
    show q: "(z * 1000 + ms) div 60000 = x"
      using zdiv_zmult2_eq [of 60 "z * 1000 + ms" 1000] t(1) z(2) by simp
    show "(z * 1000 + ms) div 3600000 = h"
      using zdiv_zmult2_eq [of 60 "z * 1000 + ms" 60000] q x(2) by simp
  qed
  have r: "0 \<le> z * 1000 + ms" "z * 1000 + ms < HB_MILLISECS_PER_DAY"
    using b(7,8) z(1,4) by (simp_all add: HB_MILLISECS_PER_DAY_def)
  show ?thesis
    unfolding e hb_timeDecode_eq [OF r] by (simp only: q t x z)
qed

lemma decoded_time:
  assumes "0 \<le> t" "t < HB_MILLISECS_PER_DAY"
  obtains h m s ms where "hb_timeDecode t = (h, m, s, ms)" "hb_validTime (h, m, s, ms)"
    "hb_timeEncode h m s ms = t"
proof -
  have n: "0 \<le> t div 3600000" "t div 3600000 < 24"
    using assms by (simp_all add: HB_MILLISECS_PER_DAY_def div_less_iff_less_mult)
  have v: "hb_validTime (t div 3600000, t div 60000 mod 60, t div 1000 mod 60, t mod 1000)"
    using n by (simp add: hb_validTime_def)
  have "t div 60000 = t div 1000 div 60" "t div 3600000 = t div 60000 div 60"
    by (simp_all only: zdiv_zmult2_eq [symmetric]) simp_all
  then have "((t div 3600000 * 60 + t div 60000 mod 60) * 60 + t div 1000 mod 60) * 1000 + t mod 1000 = t"
    by (simp only: div_mult_mod_eq)
  then have "hb_timeEncode (t div 3600000) (t div 60000 mod 60) (t div 1000 mod 60) (t mod 1000) = t"
    unfolding hb_timeEncode_eq [OF v] .
  with v show thesis using that hb_timeDecode_eq [OF assms] by blast
qed

lemma decoded_date:
  assumes "1721060 \<le> j" "j \<le> 5373484"
  obtains y m d where "hb_dateDecode j = (y, m, d)" "hb_validDate (y, m, d)" "hb_dateEncode y m d = j"
  by (rule dateNum_obtain [OF assms]) (auto simp: hb_dateEncode_valid hb_dateDecode_dateNum)

subsection \<open>Properties\<close>

text \<open>C26. Decoding the day number of a valid Gregorian date (years 0 to 9999) gives back its year,
  month and day: \<open>hb_dateDecode\<close> inverts \<open>hb_dateEncode\<close>.\<close>

lemma hb_dateDecode_encode:
  assumes "hb_validDate (y, m, d)"
  shows "hb_dateDecode (hb_dateEncode y m d) = (y, m, d)"
  using assms by (simp add: hb_dateEncode_valid hb_dateDecode_dateNum)

lemma hb_dateDecode_encode_witness:
  "hb_validDate (2024, 2, 29) \<and> hb_dateDecode (hb_dateEncode 2024 2 29) = (2024, 2, 29)"
proof -
  have v: "hb_validDate (2024, 2, 29)"
    by (simp add: hb_validDate_def hb_monthDays_def hb_leap_def)
  show ?thesis using v hb_dateDecode_encode [OF v] by simp
qed

text \<open>C27. Every day number from 0000-01-01 to 9999-12-31 decodes to a valid date, and encoding that
  date gives the day number back.\<close>

lemma hb_dateEncode_decode:
  assumes "1721060 \<le> j" "j \<le> 5373484"
  shows "\<exists>y m d. hb_dateDecode j = (y, m, d) \<and> hb_validDate (y, m, d) \<and> hb_dateEncode y m d = j"
  by (rule decoded_date [OF assms]) blast

lemma hb_dateEncode_decode_witness:
  "\<exists>y m d. hb_dateDecode 2460000 = (y, m, d) \<and> hb_validDate (y, m, d) \<and> hb_dateEncode y m d = 2460000"
  by (rule hb_dateEncode_decode) simp_all

text \<open>C28. The date code counts days: the number of the calendar successor of a valid date is the
  number of the date plus one, through the ends of months, of leap and of common years.\<close>

lemma hb_dateEncode_nextDate:
  assumes "hb_validDate (y, m, d)" "(y, m, d) \<noteq> (9999, 12, 31)"
  shows "case nextDate (y, m, d) of (y', m', d') \<Rightarrow>
    hb_validDate (y', m', d') \<and> hb_dateEncode y' m' d' = hb_dateEncode y m d + 1"
  using nextDate_valid [OF assms] dateNum_nextDate [OF assms(1)] assms(1)
  by (auto simp: hb_dateEncode_valid split: prod.split)

lemma hb_dateEncode_nextDate_witness:
  "case nextDate (1900, 2, 28) of (y', m', d') \<Rightarrow>
    hb_validDate (y', m', d') \<and> hb_dateEncode y' m' d' = hb_dateEncode 1900 2 28 + 1"
  by (rule hb_dateEncode_nextDate) (simp_all add: hb_validDate_def hb_monthDays_def hb_leap_def)

text \<open>C40. The weekday computed from year, month and day agrees with the weekday of the day number,
  for every valid date after February of year 0.\<close>

lemma hb_dateDOW_julian:
  assumes "hb_validDate (y, m, d)" "0 < y \<or> 3 \<le> m"
  shows "hb_dateDOW y m d = hb_dateJulianDOW (hb_dateEncode y m d)"
proof -
  have b: "0 \<le> y" "1 \<le> m" "m \<le> 12" "1 \<le> d"
    using assms(1) by (simp_all add: hb_validDate_def)
  define e where "e = (if m < 3 then y - 1 else y)"
  define M where "M = (if m < 3 then m + 13 else m + 1)"
  define p q r where "p = e div 4" and "q = e div 100" and "r = e div 400"
  define k g where "k = (if m < 3 then m + 10 else m - 2) * 367 div 12" and "g = 26 * M div 10"
  have e: "0 \<le> e" using assms(2) b by (auto simp: e_def)
  then have pqr: "0 \<le> p" "0 \<le> r" "q \<le> e" by (simp_all add: p_def q_def r_def int_div_le_self)
  have g: "10 \<le> g" "(k - g) mod 7 = 6"
    unfolding g_def k_def M_def by (rule month_cases [OF b(2,3)]; simp)+
  have M: "0 \<le> M" using b by (simp add: M_def)
  define s where "s = d + g + e + p - q + r + 6"
  have s: "0 \<le> s" using e pqr g b by (simp add: s_def)
  have dow: "hb_dateDOW y m d = s mod 7 + 1"
  proof -
    have pair: "(if m < 3 then (y - 1, m + 13) else (y, m + 1)) = (e, M)"
      by (simp add: e_def M_def)
    have "26 * M sdiv 10 = g" "e sdiv 4 = p" "e sdiv 100 = q" "e sdiv 400 = r"
      using e M by (simp_all add: sdiv_nonneg g_def p_def q_def r_def)
    then have "hb_dateDOW y m d = s smod 7 + 1"
      by (simp only: hb_dateDOW_def Let_def pair prod.case s_def)
    then show ?thesis using s by (simp add: smod_nonneg)
  qed
  have n: "dateNum y m d + 1 = s + (k - g - 6) + 7 * (52 * e + 245870)"
    unfolding dateNum_linear e_def [symmetric] k_def [symmetric] p_def [symmetric]
      q_def [symmetric] r_def [symmetric] s_def by (simp add: algebra_simps)
  have "hb_dateJulianDOW (dateNum y m d) = (dateNum y m d + 1) mod 7 + 1"
    using dateNum_base [OF assms(1)]
    by (simp add: hb_dateJulianDOW_def smod_nonneg HB_STR_DATE_BASE_def)
  also have "(dateNum y m d + 1) mod 7 = s mod 7"
  proof -
    have "(k - g - 6) mod 7 = 0" using g(2) by presburger
    then obtain z where "k - g - 6 = 7 * z" by (auto simp: mod_eq_0_iff_dvd)
    then have "dateNum y m d + 1 = s + (z + (52 * e + 245870)) * 7" unfolding n by simp
    then show ?thesis by (simp only: mod_mult_self1)
  qed
  finally show ?thesis by (simp add: dow hb_dateEncode_valid [OF assms(1)])
qed

lemma hb_dateDOW_julian_witness:
  "hb_dateDOW 2000 1 1 = hb_dateJulianDOW (hb_dateEncode 2000 1 1)"
  by (rule hb_dateDOW_julian) (simp_all add: hb_validDate_def hb_monthDays_def)

text \<open>In January of year 0 the two weekday functions differ: \<open>hb_dateDOW\<close> divides the negative
  year with truncation.\<close>

lemma hb_dateDOW_year_0:
  "hb_dateDOW 0 1 1 = 1 \<and> hb_dateJulianDOW (hb_dateEncode 0 1 1) = 7"
  by (simp add: hb_dateDOW_def hb_dateJulianDOW_def hb_dateEncode_def auiDayLimit_def
      HB_DATE_YEAR_LIMIT_def HB_STR_DATE_BASE_def signed_divide_int_def signed_modulo_int_def)

text \<open>C29. The ISO 8601 year, week and weekday of a day number lie in their ranges, and encoding
  them gives the day number back, from 0000-01-03 on.\<close>

lemma hb_dateWeek_roundtrip:
  assumes "1721062 \<le> j" "j \<le> 5373484"
  shows "\<exists>y w d. hb_dateDecWeek j = (True, y, w, d) \<and> 1 \<le> w \<and> w \<le> 53 \<and> 1 \<le> d \<and> d \<le> 7 \<and>
    hb_dateEncWeek y w d = j"
proof -
  define k where "k = j mod 7"
  define t where "t = j + (4 - (k + 1))"
  have k: "0 \<le> k" "k \<le> 6" by (simp_all add: k_def)
  have t3: "t mod 7 = 3"
  proof -
    have "t = 3 + 7 * (j div 7)" by (simp add: t_def k_def minus_mod_eq_mult_div [symmetric])
    then show ?thesis by simp
  qed
  have "1721060 \<le> t" "t \<le> 5373484" 
  proof -
    have "1721059 \<le> t" "t \<le> 5373487" using assms k by (simp_all add: t_def)
    moreover have "t \<noteq> 1721059" "t \<noteq> 5373485" "t \<noteq> 5373486" "t \<noteq> 5373487" using t3 by auto
    ultimately show "1721060 \<le> t" "t \<le> 5373484" by simp_all
  qed
  then obtain y m d where v: "hb_validDate (y, m, d)" "dateNum y m d = t"
    by (rule dateNum_obtain)
  have v1: "hb_validDate (y, 1, 1)" using v(1) by (simp add: hb_validDate_def hb_monthDays_def)
  define A where "A = dateNum y 1 1"
  have A: "A \<le> t" "t < A + 366" "hb_dateEncode y 1 1 = A" "0 \<le> A"
    using dateNum_day_of_year [OF v(1)] v(2) dateNum_base [OF v1]
    by (simp_all add: A_def hb_dateEncode_valid [OF v1] HB_STR_DATE_BASE_def)
  have dec: "hb_dateDecode t = (y, m, d)"
    using hb_dateDecode_dateNum [OF v(1)] v(2) by simp
  have j: "j smod 7 = k" using assms by (simp add: k_def smod_nonneg)
  have w: "(t - A) sdiv 7 = (t - A) div 7" "0 \<le> (t - A) div 7" "(t - A) div 7 \<le> 52"
    using A by (simp_all add: sdiv_nonneg)
  have "HB_STR_DATE_BASE \<le> j" using assms by (simp add: HB_STR_DATE_BASE_def)
  then have "hb_dateDecWeek j = (True, y, (t - A) div 7 + 1, k + 1)"
    by (simp only: hb_dateDecWeek_def Let_def if_True j t_def [symmetric] dec prod.case A(3) w(1))
  moreover have "hb_dateEncWeek y ((t - A) div 7 + 1) (k + 1) = j"
    using w k A(4) week_number [OF t3, of A "k + 1"]
    by (simp add: hb_dateEncWeek_def Let_def A(3) smod_nonneg t_def add.assoc)
  ultimately show ?thesis using w k by force
qed

lemma hb_dateWeek_roundtrip_witness:
  "\<exists>y w d. hb_dateDecWeek 2460000 = (True, y, w, d) \<and> 1 \<le> w \<and> w \<le> 53 \<and> 1 \<le> d \<and> d \<le> 7 \<and>
    hb_dateEncWeek y w d = 2460000"
  by (rule hb_dateWeek_roundtrip) simp_all

text \<open>Milliseconds since midnight and hours, minutes, seconds, milliseconds convert into each
  other without loss, and the decoded components are in range.\<close>

lemma hb_timeEncode_decode:
  assumes "0 \<le> t" "t < HB_MILLISECS_PER_DAY"
  shows "\<exists>h m s ms. hb_timeDecode t = (h, m, s, ms) \<and> hb_validTime (h, m, s, ms) \<and>
    hb_timeEncode h m s ms = t"
  by (rule decoded_time [OF assms]) blast

lemma hb_timeEncode_decode_witness:
  "\<exists>h m s ms. hb_timeDecode 86399999 = (h, m, s, ms) \<and> hb_validTime (h, m, s, ms) \<and>
    hb_timeEncode h m s ms = 86399999"
  by (rule hb_timeEncode_decode) (simp_all add: HB_MILLISECS_PER_DAY_def)

end
