(* ===== verification/HbDateStr.thy ===== *)
theory HbDateStr
  imports HbDateCorrect
begin

text \<open>
  The string formats of \<open>HbDate\<close> read back. \<open>dg2\<close>, \<open>dg3\<close> and \<open>dg4\<close> are the fixed width digit
  strings of a component; \<open>obtain_dg2\<close> and its siblings give their characters with the facts the
  parsers test, so every parser is evaluated on a string of known shape.
\<close>

subsection \<open>Fixed width digits\<close>

lemma digits_2: "0 \<le> n \<Longrightarrow> n < 100 \<Longrightarrow> (n div 10 mod 10) * 10 + n mod 10 = (n::int)"
  by (simp add: mod_pos_pos_trivial div_less_iff_less_mult)

lemma digits_3:
  assumes "0 \<le> n" "n < (1000::int)"
  shows "(n div 100 * 10 + n div 10 mod 10) * 10 + n mod 10 = n"
proof -
  have "n div 100 = n div 10 div 10" by (simp only: zdiv_zmult2_eq [symmetric]) simp
  then show ?thesis by (simp only: div_mult_mod_eq)
qed

lemma digits_4:
  assumes "0 \<le> n" "n < (10000::int)"
  shows "((n div 1000 * 10 + n div 100 mod 10) * 10 + n div 10 mod 10) * 10 + n mod 10 = n"
proof -
  have "n div 100 = n div 10 div 10" "n div 1000 = n div 100 div 10"
    by (simp_all only: zdiv_zmult2_eq [symmetric]) simp_all
  then show ?thesis by (simp only: div_mult_mod_eq)
qed

lemma digit_bounds:
  fixes n :: int
  shows "0 \<le> n \<Longrightarrow> n < 10000 \<Longrightarrow> 0 \<le> n div 1000 \<and> n div 1000 \<le> 9"
    "0 \<le> n \<Longrightarrow> n < 1000 \<Longrightarrow> 0 \<le> n div 100 \<and> n div 100 \<le> 9"
    "0 \<le> n \<Longrightarrow> n < 100 \<Longrightarrow> 0 \<le> n div 10 \<and> n div 10 \<le> 9"
    "0 \<le> n mod 10 \<and> n mod 10 \<le> 9"
  by auto

text \<open>The digit lists of the components of a valid date and time.\<close>

definition dg2 :: "int \<Rightarrow> string" where "dg2 n = [dchr (n div 10), dchr (n mod 10)]"
definition dg3 :: "int \<Rightarrow> string" where "dg3 n = [dchr (n div 100), dchr (n div 10 mod 10), dchr (n mod 10)]"
definition dg4 :: "int \<Rightarrow> string" where
  "dg4 n = [dchr (n div 1000), dchr (n div 100 mod 10), dchr (n div 10 mod 10), dchr (n mod 10)]"

lemma validDate_bounds:
  assumes "hb_validDate (y, m, d)"
  shows "0 \<le> y" "y < 10000" "0 < m" "m < 100" "0 < d" "d < 100"
  using assms hb_monthDays_le [of m y] by (simp_all add: hb_validDate_def)

lemma validTime_bounds:
  assumes "hb_validTime (h, m, s, ms)"
  shows "0 \<le> h" "h < 24" "0 \<le> m" "m < 60" "0 \<le> s" "s < 60" "0 \<le> ms" "ms < 1000"
  using assms by (simp_all add: hb_validTime_def)

lemma obtain_dg2:
  assumes "0 \<le> n" "n < 100"
  obtains a b where "dg2 n = [a, b]" "HB_ISDIGIT a" "HB_ISDIGIT b" "n = dig a * 10 + dig b"
proof
  have 1: "n div 10 mod 10 = n div 10" using assms by simp
  show "dg2 n = [dchr (n div 10), dchr (n mod 10)]" by (simp add: dg2_def)
  show "HB_ISDIGIT (dchr (n div 10))" "HB_ISDIGIT (dchr (n mod 10))"
    using assms by (simp_all add: isdigit_dchr digit_bounds)
  show "n = dig (dchr (n div 10)) * 10 + dig (dchr (n mod 10))"
    using digit_bounds(3) [OF assms] digit_bounds(4) [of n] by (simp only: dig_dchr div_mult_mod_eq)
qed

lemma obtain_dg3:
  assumes "0 \<le> n" "n < 1000"
  obtains a b c where "dg3 n = [a, b, c]" "HB_ISDIGIT a" "HB_ISDIGIT b" "HB_ISDIGIT c"
    "n = (dig a * 10 + dig b) * 10 + dig c"
proof
  note db = digit_bounds(2) [OF assms] digit_bounds(4) [of n] digit_bounds(4) [of "n div 10"]
  show "dg3 n = [dchr (n div 100), dchr (n div 10 mod 10), dchr (n mod 10)]" by (simp add: dg3_def)
  show "HB_ISDIGIT (dchr (n div 100))" "HB_ISDIGIT (dchr (n div 10 mod 10))" "HB_ISDIGIT (dchr (n mod 10))"
    using db by (simp_all only: isdigit_dchr)
  show "n = (dig (dchr (n div 100)) * 10 + dig (dchr (n div 10 mod 10))) * 10 + dig (dchr (n mod 10))"
    using db digits_3 [OF assms] by (simp only: dig_dchr)
qed

lemma obtain_dg4:
  assumes "0 \<le> n" "n < 10000"
  obtains a b c d where "dg4 n = [a, b, c, d]" "HB_ISDIGIT a" "HB_ISDIGIT b" "HB_ISDIGIT c" "HB_ISDIGIT d"
    "n = ((dig a * 10 + dig b) * 10 + dig c) * 10 + dig d"
proof
  note db = digit_bounds(1) [OF assms] digit_bounds(4) [of n] digit_bounds(4) [of "n div 10"]
    digit_bounds(4) [of "n div 100"]
  show "dg4 n = [dchr (n div 1000), dchr (n div 100 mod 10), dchr (n div 10 mod 10), dchr (n mod 10)]"
    by (simp add: dg4_def)
  show "HB_ISDIGIT (dchr (n div 1000))" "HB_ISDIGIT (dchr (n div 100 mod 10))"
      "HB_ISDIGIT (dchr (n div 10 mod 10))" "HB_ISDIGIT (dchr (n mod 10))"
    using db by (simp_all only: isdigit_dchr)
  show "n = ((dig (dchr (n div 1000)) * 10 + dig (dchr (n div 100 mod 10))) * 10 +
      dig (dchr (n div 10 mod 10))) * 10 + dig (dchr (n mod 10))"
    using db digits_4 [OF assms] by (simp only: dig_dchr)
qed

lemma smod_digit: "0 \<le> n \<Longrightarrow> n sdiv k smod 10 = n div k mod (10::int)" if "0 < k"
  using that by (simp add: sdiv_nonneg smod_nonneg pos_imp_zdiv_nonneg_iff)

lemma hb_dateStrPut_dg:
  assumes "hb_validDate (y, m, d)"
  shows "hb_dateStrPut y m d = dg4 y @ dg2 m @ dg2 d"
  using validDate_bounds [OF assms]
  by (simp add: hb_dateStrPut_def dg4_def dg2_def smod_digit smod_nonneg sdiv_nonneg)

lemma hb_dateStrGet_dg:
  assumes "hb_validDate (y, m, d)"
  shows "hb_dateStrGet (Some (dg4 y @ dg2 m @ dg2 d @ rest)) = (y, m, d)"
proof -
  note b = validDate_bounds [OF assms]
  obtain y1 y2 y3 y4 where y: "dg4 y = [y1, y2, y3, y4]" "HB_ISDIGIT y1" "HB_ISDIGIT y2" "HB_ISDIGIT y3"
    "HB_ISDIGIT y4" "y = ((dig y1 * 10 + dig y2) * 10 + dig y3) * 10 + dig y4"
    by (rule obtain_dg4 [OF b(1,2)])
  obtain m1 m2 where m: "dg2 m = [m1, m2]" "HB_ISDIGIT m1" "HB_ISDIGIT m2" "m = dig m1 * 10 + dig m2"
    by (rule obtain_dg2 [OF less_imp_le [OF b(3)] b(4)])
  obtain d1 d2 where d: "dg2 d = [d1, d2]" "HB_ISDIGIT d1" "HB_ISDIGIT d2" "d = dig d1 * 10 + dig d2"
    by (rule obtain_dg2 [OF less_imp_le [OF b(5)] b(6)])
  from y(2-5) m(2,3) d(2,3) show ?thesis
    unfolding y(1) m(1) d(1) unfolding y(6) m(4) d(4) by (simp add: hb_dateStrGet_def)
qed

text \<open>The formatted strings in terms of the digits.\<close>

lemma fmt_dg:
  "0 \<le> n \<Longrightarrow> n < 100 \<Longrightarrow> c_fmt0 2 n = dg2 n" "0 \<le> n \<Longrightarrow> n < 1000 \<Longrightarrow> c_fmt0 3 n = dg3 n"
  "0 \<le> n \<Longrightarrow> n < 10000 \<Longrightarrow> c_fmt0 4 n = dg4 n"
  by (simp_all add: c_fmt0_2 c_fmt0_3 c_fmt0_4 dg2_def dg3_def dg4_def)

lemma length_dg [simp]: "length (dg2 n) = 2" "length (dg3 n) = 3" "length (dg4 n) = 4"
  by (simp_all add: dg2_def dg3_def dg4_def)

lemma hb_timeStr_dg:
  assumes "hb_timeDecode t = (h, m, s, ms)" "hb_validTime (h, m, s, ms)"
  shows "hb_timeStr t = dg2 h @ '':'' @ dg2 m @ '':'' @ dg2 s @ ''.'' @ dg3 ms"
  using validTime_bounds [OF assms(2)] by (simp add: hb_timeStr_def assms(1) fmt_dg)

lemma skip_space_digit: "HB_ISDIGIT a \<Longrightarrow> skip_space (a # s) = a # s"
  using isspace_not_digit by auto

lemma hb_timeStrGet_dg:
  assumes "hb_validTime (h, m, s, ms)"
  shows "hb_timeStrGet (Some (dg2 h @ '':'' @ dg2 m @ '':'' @ dg2 s @ ''.'' @ dg3 ms)) = (True, h, m, s, ms)"
proof -
  note b = validTime_bounds [OF assms]
  obtain h1 h2 where h: "dg2 h = [h1, h2]" "HB_ISDIGIT h1" "HB_ISDIGIT h2" "h = dig h1 * 10 + dig h2"
    by (rule obtain_dg2 [of h]) (use b in simp_all)
  obtain m1 m2 where m: "dg2 m = [m1, m2]" "HB_ISDIGIT m1" "HB_ISDIGIT m2" "m = dig m1 * 10 + dig m2"
    by (rule obtain_dg2 [of m]) (use b in simp_all)
  obtain s1 s2 where s: "dg2 s = [s1, s2]" "HB_ISDIGIT s1" "HB_ISDIGIT s2" "s = dig s1 * 10 + dig s2"
    by (rule obtain_dg2 [of s]) (use b in simp_all)
  obtain n1 n2 n3 where n: "dg3 ms = [n1, n2, n3]" "HB_ISDIGIT n1" "HB_ISDIGIT n2" "HB_ISDIGIT n3"
    "ms = (dig n1 * 10 + dig n2) * 10 + dig n3"
    by (rule obtain_dg3 [of ms]) (use b in simp_all)
  have blocks: "timeStr_blocks (h1 # h2 # CHR '':'' # m1 # m2 # CHR '':'' # s1 # s2 # CHR ''.'' # [n1, n2, n3]) =
      (h, m, s, ms, 3, [])"
    using h(2,3) m(2,3) s(2,3) n(2-4) unfolding h(4) m(4) s(4) n(5)
    by (simp add: timeStr_blocks_def timeStr_2digits_def timeStr_msec_def)
  have "\<not> HB_ISSPACE h1" using h(2) isspace_not_digit by blast
  then show ?thesis
    unfolding h(1) m(1) s(1) n(1) using b h(2)
    by (simp add: hb_timeStrGet_def blocks timeStr_suffix_def)
qed

lemma timeStamp_isoDate_dg:
  assumes "hb_validDate (y, m, d)" "\<not> HB_ISDIGIT c"
  shows "timeStamp_isoDate (dg4 y @ ''-'' @ dg2 m @ ''-'' @ dg2 d @ c # rest) = Some ((y, m, d), c # rest)"
proof -
  note b = validDate_bounds [OF assms(1)]
  obtain y1 y2 y3 y4 where y: "dg4 y = [y1, y2, y3, y4]" "HB_ISDIGIT y1" "HB_ISDIGIT y2" "HB_ISDIGIT y3"
    "HB_ISDIGIT y4" "y = ((dig y1 * 10 + dig y2) * 10 + dig y3) * 10 + dig y4"
    by (rule obtain_dg4 [OF b(1,2)])
  obtain m1 m2 where m: "dg2 m = [m1, m2]" "HB_ISDIGIT m1" "HB_ISDIGIT m2" "dig m1 * 10 + dig m2 = m"
    by (rule obtain_dg2 [OF less_imp_le [OF b(3)] b(4)]) simp
  obtain d1 d2 where d: "dg2 d = [d1, d2]" "HB_ISDIGIT d1" "HB_ISDIGIT d2" "dig d1 * 10 + dig d2 = d"
    by (rule obtain_dg2 [OF less_imp_le [OF b(5)] b(6)]) simp
  have e: "hb_dateEncode y m d \<noteq> 0"
    using dateNum_base [OF assms(1)] by (simp add: hb_dateEncode_valid [OF assms(1)] HB_STR_DATE_BASE_def)
  show ?thesis
    unfolding y(1) m(1) d(1) using m(2,3) d(2,3) e assms(2)
    by (simp add: timeStamp_isoDate_def Let_def y(6) m(4) d(4))
qed

lemma dg_head:
  assumes "0 \<le> n" "n < 100"
  obtains a s where "dg2 n = a # s" "HB_ISDIGIT a"
  by (rule obtain_dg2 [OF assms]) auto

lemma hb_timeStampStrGet_dg:
  assumes v: "hb_validDate (y, m, d)" and t: "hb_validTime (h, mi, s, ms)"
  defines "ts \<equiv> dg2 h @ '':'' @ dg2 mi @ '':'' @ dg2 s @ ''.'' @ dg3 ms"
  shows "hb_timeStampStrGet (Some (dg4 y @ ''-'' @ dg2 m @ ''-'' @ dg2 d @ '' '' @ ts)) True =
    (True, (y, m, d), (h, mi, s, ms))"
proof -
  note b = validDate_bounds [OF v] and bt = validTime_bounds [OF t]
  obtain y1 y2 y3 y4 where y: "dg4 y = [y1, y2, y3, y4]" "HB_ISDIGIT y1" "HB_ISDIGIT y2" "HB_ISDIGIT y3"
    "HB_ISDIGIT y4" by (rule obtain_dg4 [OF b(1,2)])
  obtain h1 h2 where h: "dg2 h = h1 # h2" "HB_ISDIGIT h1" by (rule dg_head [of h]) (use bt in simp_all)
  have ts: "ts = h1 # tl ts" "skip_space ts = ts" "ts \<noteq> []"
    using h isspace_not_digit [of h1] by (auto simp: ts_def)
  define S where "S = dg4 y @ ''-'' @ dg2 m @ ''-'' @ dg2 d @ '' '' @ ts"
  have iso: "timeStamp_isoDate S = Some ((y, m, d), CHR '' '' # ts)"
    using timeStamp_isoDate_dg [OF v, of "CHR '' ''" ts] by (simp add: S_def)
  have S: "skip_space S = S" "HB_ISDIGIT (cat S 0)" "HB_ISDIGIT (cat S 1)" "HB_ISDIGIT (cat S 2)"
      "HB_ISDIGIT (cat S 3)" "cat S 4 = CHR ''-''"
    using y isspace_not_digit [of y1] by (auto simp: S_def)
  have tg: "hb_timeStrGet (Some ts) = (True, h, mi, s, ms)"
    unfolding ts_def by (rule hb_timeStrGet_dg [OF t])
  show ?thesis
    unfolding S_def [symmetric] using ts
    by (simp add: hb_timeStampStrGet_def S [simplified] iso tg)
qed

text \<open>The raw format.\<close>

lemma count_digits_ge: "\<forall>c \<in> set s. HB_ISDIGIT c \<Longrightarrow> m \<le> length s \<Longrightarrow> count_digits m s = m"
  by (simp add: count_digits_all)

lemma dg_digits:
  "0 \<le> n \<Longrightarrow> n < 100 \<Longrightarrow> \<forall>c \<in> set (dg2 n). HB_ISDIGIT c"
  "0 \<le> n \<Longrightarrow> n < 1000 \<Longrightarrow> \<forall>c \<in> set (dg3 n). HB_ISDIGIT c"
  "0 \<le> n \<Longrightarrow> n < 10000 \<Longrightarrow> \<forall>c \<in> set (dg4 n). HB_ISDIGIT c"
  using digit_bounds [of n] digit_bounds(4) [of "n div 10"] digit_bounds(4) [of "n div 100"]
  by (simp_all add: dg2_def dg3_def dg4_def isdigit_dchr)

lemma hb_timeStrRawGet_dg:
  assumes t: "hb_validTime (h, mi, s, ms)"
  shows "hb_timeStrRawGet (Some (dg2 h @ dg2 mi @ dg2 s @ dg3 ms)) = (h, mi, s, ms)"
proof -
  note b = validTime_bounds [OF assms]
  obtain h1 h2 where h: "dg2 h = [h1, h2]" "HB_ISDIGIT h1" "HB_ISDIGIT h2" "h = dig h1 * 10 + dig h2"
    by (rule obtain_dg2 [of h]) (use b in simp_all)
  obtain m1 m2 where m: "dg2 mi = [m1, m2]" "HB_ISDIGIT m1" "HB_ISDIGIT m2" "mi = dig m1 * 10 + dig m2"
    by (rule obtain_dg2 [of mi]) (use b in simp_all)
  obtain s1 s2 where s: "dg2 s = [s1, s2]" "HB_ISDIGIT s1" "HB_ISDIGIT s2" "s = dig s1 * 10 + dig s2"
    by (rule obtain_dg2 [of s]) (use b in simp_all)
  obtain n1 n2 n3 where n: "dg3 ms = [n1, n2, n3]" "HB_ISDIGIT n1" "HB_ISDIGIT n2" "HB_ISDIGIT n3"
    "ms = (dig n1 * 10 + dig n2) * 10 + dig n3"
    by (rule obtain_dg3 [of ms]) (use b in simp_all)
  have "count_digits 10 [h1, h2, m1, m2, s1, s2, n1, n2, n3] = 9"
    using h m s n by (simp add: count_digits_all)
  then show ?thesis
    unfolding h(1) m(1) s(1) n(1) unfolding h(4) m(4) s(4) n(5)
    by (simp add: hb_timeStrRawGet_def Let_def)
qed

subsection \<open>Properties\<close>

text \<open>The \<open>YYYYMMDD\<close> string of a day number between 0000-01-01 and 9999-12-31 encodes to that
  day number.\<close>

lemma hb_dateStr_roundtrip:
  assumes "1721060 \<le> j" "j \<le> 5373484"
  shows "hb_dateEncStr (Some (hb_dateDecStr j)) = j"
proof -
  obtain y m d where v: "hb_dateDecode j = (y, m, d)" "hb_validDate (y, m, d)" "hb_dateEncode y m d = j"
    by (rule decoded_date [OF assms])
  have "hb_dateDecStr j = dg4 y @ dg2 m @ dg2 d"
    using assms(1) v by (simp add: hb_dateDecStr_def hb_dateStrPut_dg)
  then show ?thesis
    using hb_dateStrGet_dg [OF v(2), of "[]"] v(3) by (simp add: hb_dateEncStr_def)
qed

lemma hb_dateStr_roundtrip_witness: "hb_dateEncStr (Some (hb_dateDecStr 2460000)) = 2460000"
  by (rule hb_dateStr_roundtrip) simp_all

text \<open>The free format parser accepts \<open>hh:mm:ss.fff\<close> as \<open>hb_timeStr\<close> writes it and returns the
  time it was written for.\<close>

lemma hb_timeStr_roundtrip:
  assumes "0 \<le> t" "t < HB_MILLISECS_PER_DAY"
  shows "\<exists>h m s ms. hb_timeStrGet (Some (hb_timeStr t)) = (True, h, m, s, ms) \<and> hb_timeEncode h m s ms = t"
proof -
  obtain h m s ms where v: "hb_timeDecode t = (h, m, s, ms)" "hb_validTime (h, m, s, ms)"
    "hb_timeEncode h m s ms = t"
    by (rule decoded_time [OF assms])
  then show ?thesis
    unfolding hb_timeStr_dg [OF v(1,2)] hb_timeStrGet_dg [OF v(2)] by blast
qed

lemma hb_timeStr_roundtrip_witness:
  "\<exists>h m s ms. hb_timeStrGet (Some (hb_timeStr 45296789)) = (True, h, m, s, ms) \<and>
    hb_timeEncode h m s ms = 45296789"
  by (rule hb_timeStr_roundtrip) (simp_all add: HB_MILLISECS_PER_DAY_def)

text \<open>C30. A timestamp written by \<open>hb_timeStampStr\<close> is valid for \<open>hb_timeStampStrGetDT\<close>, which
  returns exactly its day number and its milliseconds.\<close>

lemma hb_timeStampStr_roundtrip:
  assumes "1721060 \<le> j" "j \<le> 5373484" "0 \<le> t" "t < HB_MILLISECS_PER_DAY"
  shows "hb_timeStampStrGetDT (Some (hb_timeStampStr j t)) = (True, j, t)"
proof -
  obtain y m d where v: "hb_dateDecode j = (y, m, d)" "hb_validDate (y, m, d)" "hb_dateEncode y m d = j"
    by (rule decoded_date [OF assms(1,2)])
  obtain h mi s ms where w: "hb_timeDecode t = (h, mi, s, ms)" "hb_validTime (h, mi, s, ms)"
    "hb_timeEncode h mi s ms = t"
    by (rule decoded_time [OF assms(3,4)])
  have "hb_timeStampStr j t = dg4 y @ ''-'' @ dg2 m @ ''-'' @ dg2 d @ '' '' @
      dg2 h @ '':'' @ dg2 mi @ '':'' @ dg2 s @ ''.'' @ dg3 ms"
    using validDate_bounds [OF v(2)] validTime_bounds [OF w(2)]
    by (simp add: hb_timeStampStr_def v(1) w(1) fmt_dg)
  then show ?thesis
    using hb_timeStampStrGet_dg [OF v(2) w(2)] v(3) w(3) by (simp add: hb_timeStampStrGetDT_def)
qed

lemma hb_timeStampStr_roundtrip_witness:
  "hb_timeStampStrGetDT (Some (hb_timeStampStr 2460000 45296789)) = (True, 2460000, 45296789)"
  by (rule hb_timeStampStr_roundtrip) (simp_all add: HB_MILLISECS_PER_DAY_def)

text \<open>The 17 digit raw timestamp written by \<open>hb_timeStampStrRawPut\<close> is read back by
  \<open>hb_timeStampStrRawGet\<close>.\<close>

lemma hb_timeStampStrRaw_roundtrip:
  assumes "1721060 \<le> j" "j \<le> 5373484" "0 \<le> t" "t < HB_MILLISECS_PER_DAY"
  shows "hb_timeStampStrRawGet (hb_timeStampStrRawPut j t) = (j, t)"
proof -
  obtain y m d where v: "hb_dateDecode j = (y, m, d)" "hb_validDate (y, m, d)" "hb_dateEncode y m d = j"
    by (rule decoded_date [OF assms(1,2)])
  obtain h mi s ms where w: "hb_timeDecode t = (h, mi, s, ms)" "hb_validTime (h, mi, s, ms)"
    "hb_timeEncode h mi s ms = t"
    by (rule decoded_time [OF assms(3,4)])
  note b = validDate_bounds [OF v(2)] and bt = validTime_bounds [OF w(2)]
  define ts where "ts = dg2 h @ dg2 mi @ dg2 s @ dg3 ms"
  define S where "S = dg4 y @ dg2 m @ dg2 d @ ts"
  have S: "hb_timeStampStrRawPut j t = S"
    using b bt by (simp add: hb_timeStampStrRawPut_def v(1) w(1) fmt_dg hb_dateStrPut_dg [OF v(2)] S_def ts_def)
  have "\<forall>c \<in> set S. HB_ISDIGIT c"
    using b bt dg_digits(3) [of y] dg_digits(1) [of m] dg_digits(1) [of d] dg_digits(1) [of h]
      dg_digits(1) [of mi] dg_digits(1) [of s] dg_digits(2) [of ms]
    by (simp add: S_def ts_def ball_Un)
  then have "count_digits 10 S = 10" by (rule count_digits_ge) (simp add: S_def ts_def)
  moreover have "hb_dateStrGet (Some S) = (y, m, d)"
    unfolding S_def by (rule hb_dateStrGet_dg [OF v(2)])
  moreover have "drop 8 S = ts" by (simp add: S_def)
  ultimately show ?thesis
    unfolding S using hb_timeStrRawGet_dg [OF w(2), folded ts_def] v(3) w(3)
    by (simp add: hb_timeStampStrRawGet_def)
qed

lemma hb_timeStampStrRaw_roundtrip_witness:
  "hb_timeStampStrRawGet (hb_timeStampStrRawPut 2460000 45296789) = (2460000, 45296789)"
  by (rule hb_timeStampStrRaw_roundtrip) (simp_all add: HB_MILLISECS_PER_DAY_def)

end
