(* ===== verification/HbStrWild.thy ===== *)
theory HbStrWild
  imports HbPrelude
begin

text \<open>
  The wildcard matcher of \<open>src/common/strwild.c\<close>. \<open>hb_strMatchWildRaw\<close> walks a pattern with \<open>*\<close>
  and \<open>?\<close> over a string and keeps the places it can go back to in two arrays that grow on
  demand; here they are one list of position pairs, its head the last entry. \<open>wildLoop\<close> is the
  loop, with the state \<open>(nPosP, nPosV, fAny, stack)\<close>.

  \<open>wildSpec\<close> says what the pattern means, by recursion on it. The loop returns exactly that
  (\<open>wildLoop_spec\<close>), and it always returns: \<open>wildCost\<close> bounds the work that a position and the
  saved positions can still cause.
\<close>

subsection \<open>The program\<close>

text \<open>\<open>hb_charUpper\<close> uses the upper case table of the active code page when there is one.\<close>

definition hb_charUpper :: "(char \<Rightarrow> char) option \<Rightarrow> char \<Rightarrow> char" where
  "hb_charUpper cdp c = (case cdp of Some upper \<Rightarrow> upper c | None \<Rightarrow> HB_TOUPPER c)"

definition wildCharEq :: "(char \<Rightarrow> char) option \<Rightarrow> bool \<Rightarrow> char \<Rightarrow> char \<Rightarrow> bool" where
  "wildCharEq cdp fCase p c \<longleftrightarrow>
     p = CHR ''?'' \<or> (if \<not> fCase then p = c else hb_charUpper cdp p = hb_charUpper cdp c)"

definition wildCost :: "string \<Rightarrow> string \<Rightarrow> nat \<Rightarrow> nat \<Rightarrow> nat" where
  "wildCost szString szPattern p v =
     (length szString + 3) ^ (length szPattern - p) * Suc (length szString - v)"

function wildLoop ::
  "(char \<Rightarrow> char) option \<Rightarrow> bool \<Rightarrow> bool \<Rightarrow> bool \<Rightarrow> string \<Rightarrow> string \<Rightarrow>
   nat \<Rightarrow> nat \<Rightarrow> bool \<Rightarrow> (nat \<times> nat) list \<Rightarrow> bool" where
  "wildLoop cdp fExact fCase fFile szString szPattern nPosP nPosV fAny stack =
     (let nLen = length szString; nSize = length szPattern in
      if nPosP < nSize \<or> fExact \<and> \<not> fAny \<and> nPosV < nLen then
        (if nPosP < nSize \<and> szPattern ! nPosP = CHR ''*'' then
           wildLoop cdp fExact fCase fFile szString szPattern (nPosP + 1) nPosV True stack
         else if nPosV < nLen \<and> nPosP < nSize \<and>
                 wildCharEq cdp fCase (szPattern ! nPosP) (szString ! nPosV) then
           wildLoop cdp fExact fCase fFile szString szPattern (nPosP + 1) (nPosV + 1) False
             (if fAny then (nPosP, nPosV) # stack else stack)
         else if fFile \<and> nPosV = nLen \<and> nPosP < nSize \<and> szPattern ! nPosP = CHR ''.'' \<and>
                 (nPosP + 1 = nSize \<or> nPosP + 2 = nSize \<and> szPattern ! (nPosP + 1) = CHR ''*'') then
           True
         else if fAny \<and> nPosV < nLen then
           wildLoop cdp fExact fCase fFile szString szPattern nPosP (nPosV + 1) fAny stack
         else
           (case stack of
              (p, v) # stack' \<Rightarrow> wildLoop cdp fExact fCase fFile szString szPattern p (v + 1) True stack'
            | [] \<Rightarrow> False))
      else True)"
  by pat_completeness auto

lemma wildCost_pos: "0 < wildCost s p i j"
  by (simp add: wildCost_def)

lemma wildCost_next:
  assumes "i < length p"
  shows "wildCost s p (i + 1) j < wildCost s p i j"
proof -
  define k where "k = (length s + 3) ^ (length p - (i + 1)) * Suc (length s - j)"
  have "length p - i = Suc (length p - (i + 1))" using assms by simp
  then have "wildCost s p i j = (length s + 3) * k" by (simp only: wildCost_def k_def power_Suc mult.assoc)
  moreover have "wildCost s p (i + 1) j = k" by (simp only: wildCost_def k_def)
  moreover have "0 < k" by (simp add: k_def)
  ultimately show ?thesis by simp
qed

lemma wildCost_skip: "j < length s \<Longrightarrow> wildCost s p i (j + 1) < wildCost s p i j"
  by (simp add: wildCost_def)

lemma wildCost_push:
  assumes "i < length p" "j < length s"
  shows "wildCost s p (i + 1) (j + 1) + (wildCost s p i (j + 1) + 1) < wildCost s p i j"
proof -
  define a where "a = (length s + 3) ^ (length p - (i + 1))"
  define b where "b = length s - j"
  have a: "0 < a" by (simp add: a_def)
  have b: "Suc (length s - (j + 1)) = b" "b \<le> length s" using assms(2) by (simp_all add: b_def)
  have e: "(length s + 3) ^ (length p - i) = (length s + 3) * a"
    using assms(1) by (simp add: a_def flip: power_Suc)
  have "a * b \<le> a * length s" using b(2) by simp
  moreover have "(length s + 3) * a = a * length s + 3 * a" by (simp add: algebra_simps)
  ultimately have "a * b + 1 < (length s + 3) * a" using a by linarith
  then show ?thesis
    unfolding wildCost_def e b(1) a_def [symmetric] b_def [symmetric] by (simp add: algebra_simps)
qed

definition wildMeasure :: "string \<Rightarrow> string \<Rightarrow> nat \<Rightarrow> nat \<Rightarrow> (nat \<times> nat) list \<Rightarrow> nat" where
  "wildMeasure s p i j stack =
     wildCost s p i j + sum_list (map (\<lambda>(x, y). wildCost s p x (y + 1) + 1) stack)"

termination wildLoop
proof (relation "measure (\<lambda>(cdp, fExact, fCase, fFile, s, p, i, j, fAny, stack). wildMeasure s p i j stack)",
    goal_cases)
  case 1
  show ?case by simp
next
  case 2
  then show ?case using wildCost_next by (simp add: wildMeasure_def)
next
  case (3 cdp fExact fCase fFile s p i j fAny stack)
  then have "i < length p" "j < length s" by simp_all
  then show ?case
    using wildCost_push [of i p j s] by (simp add: wildMeasure_def)
next
  case 4
  then show ?case using wildCost_skip by (simp add: wildMeasure_def)
next
  case 5
  then show ?case using wildCost_pos by (auto simp: wildMeasure_def split: prod.splits)
qed

declare wildLoop.simps [simp del]

definition hb_strMatchWildRaw :: "(char \<Rightarrow> char) option \<Rightarrow> string \<Rightarrow> string \<Rightarrow> bool \<Rightarrow> bool \<Rightarrow> bool \<Rightarrow> bool" where
  "hb_strMatchWildRaw cdp szString szPattern fExact fCase fFile =
     wildLoop cdp fExact fCase fFile szString szPattern 0 0 False []"

text \<open>The public functions, for a code page without character indexes.\<close>

definition hb_strMatchWild :: "(char \<Rightarrow> char) option \<Rightarrow> string \<Rightarrow> string \<Rightarrow> bool" where
  "hb_strMatchWild cdp szString szPattern = hb_strMatchWildRaw cdp szString szPattern False False False"

definition hb_strMatchWildExact :: "(char \<Rightarrow> char) option \<Rightarrow> string \<Rightarrow> string \<Rightarrow> bool" where
  "hb_strMatchWildExact cdp szString szPattern = hb_strMatchWildRaw cdp szString szPattern True False False"

definition hb_strMatchCaseWildExact :: "(char \<Rightarrow> char) option \<Rightarrow> string \<Rightarrow> string \<Rightarrow> bool" where
  "hb_strMatchCaseWildExact cdp szString szPattern = hb_strMatchWildRaw cdp szString szPattern True True False"

subsection \<open>The meaning of a pattern\<close>

fun wildSpec :: "(char \<Rightarrow> char) option \<Rightarrow> bool \<Rightarrow> bool \<Rightarrow> bool \<Rightarrow> string \<Rightarrow> string \<Rightarrow> bool" where
  "wildSpec cdp fExact fCase fFile [] s \<longleftrightarrow> \<not> fExact \<or> s = []"
| "wildSpec cdp fExact fCase fFile (c # p) s \<longleftrightarrow>
     (if c = CHR ''*'' then \<exists>k \<le> length s. wildSpec cdp fExact fCase fFile p (drop k s)
      else if s = [] then fFile \<and> c = CHR ''.'' \<and> (p = [] \<or> p = ''*'')
      else wildCharEq cdp fCase c (hd s) \<and> wildSpec cdp fExact fCase fFile p (tl s))"

lemma wildSpec_star_Nil [simp]:
  "wildSpec cdp ex ci fl (CHR ''*'' # p) [] = wildSpec cdp ex ci fl p []"
  by simp

lemma wildSpec_star:
  "wildSpec cdp ex ci fl (CHR ''*'' # p) (x # s) \<longleftrightarrow>
     wildSpec cdp ex ci fl p (x # s) \<or> wildSpec cdp ex ci fl (CHR ''*'' # p) s"
proof -
  have "(\<exists>k \<le> Suc n. P k) \<longleftrightarrow> P 0 \<or> (\<exists>k \<le> n. P (Suc k))" for P n
    by (metis (no_types, lifting) Suc_le_mono le0 not0_implies_Suc)
  then show ?thesis by simp
qed

lemma wildSpec_star_star:
  "wildSpec cdp ex ci fl (CHR ''*'' # CHR ''*'' # p) s = wildSpec cdp ex ci fl (CHR ''*'' # p) s"
  by (induction s) (simp_all only: wildSpec_star wildSpec_star_Nil, blast)

lemma wildSpec_star_end: "wildSpec cdp ex ci fl ''*'' s"
  by auto

text \<open>What is still to be decided at a position, with or without a pending \<open>*\<close>.\<close>

definition wildAt :: "(char \<Rightarrow> char) option \<Rightarrow> bool \<Rightarrow> bool \<Rightarrow> bool \<Rightarrow> string \<Rightarrow> string \<Rightarrow> nat \<Rightarrow> nat \<Rightarrow> bool \<Rightarrow> bool" where
  "wildAt cdp ex ci fl s p i j fAny \<longleftrightarrow>
     wildSpec cdp ex ci fl ((if fAny then ''*'' else []) @ drop i p) (drop j s)"

lemma wildAt_star:
  assumes "i < length p" "p ! i = CHR ''*''"
  shows "wildAt cdp ex ci fl s p i j fAny = wildAt cdp ex ci fl s p (i + 1) j True"
  using assms wildSpec_star_star
  by (simp add: wildAt_def Cons_nth_drop_Suc [symmetric] del: wildSpec.simps)

lemma wildAt_char:
  assumes "i < length p" "p ! i \<noteq> CHR ''*''" "j < length s"
  shows "wildAt cdp ex ci fl s p i j False \<longleftrightarrow>
    wildCharEq cdp ci (p ! i) (s ! j) \<and> wildAt cdp ex ci fl s p (i + 1) (j + 1) False"
  using assms by (simp add: wildAt_def Cons_nth_drop_Suc [symmetric])

lemma wildAt_any:
  assumes "j < length s"
  shows "wildAt cdp ex ci fl s p i j True \<longleftrightarrow>
    wildAt cdp ex ci fl s p i j False \<or> wildAt cdp ex ci fl s p i (j + 1) True"
  using assms wildSpec_star [of cdp ex ci fl "drop i p" "s ! j" "drop (Suc j) s"]
  by (simp add: wildAt_def Cons_nth_drop_Suc del: wildSpec.simps)

lemma wildAt_string_end:
  assumes "i < length p" "p ! i \<noteq> CHR ''*''" "length s \<le> j"
  shows "wildAt cdp ex ci fl s p i j fAny \<longleftrightarrow>
    fl \<and> p ! i = CHR ''.'' \<and> (i + 1 = length p \<or> i + 2 = length p \<and> p ! (i + 1) = CHR ''*'')"
proof -
  have "drop (Suc i) p = ''*'' \<longleftrightarrow> i + 2 = length p \<and> p ! (i + 1) = CHR ''*''"
  proof (cases "Suc i < length p")
    case True
    then have "drop (Suc i) p = p ! Suc i # drop (Suc (Suc i)) p" by (simp add: Cons_nth_drop_Suc)
    with True show ?thesis by auto
  qed (auto)
  with assms show ?thesis
    by (cases fAny) (auto simp: wildAt_def Cons_nth_drop_Suc [symmetric])
qed

lemma wildAt_pattern_end:
  assumes "length p \<le> i"
  shows "wildAt cdp ex ci fl s p i j fAny \<longleftrightarrow> fAny \<or> \<not> ex \<or> length s \<le> j"
  using assms wildSpec_star_end by (cases fAny) (auto simp: wildAt_def simp del: wildSpec.simps(2))

lemma wildLoop_spec:
  "wildLoop cdp ex ci fl s p i j fAny stack \<longleftrightarrow>
     wildAt cdp ex ci fl s p i j fAny \<or> (\<exists>(x, y) \<in> set stack. wildAt cdp ex ci fl s p x (y + 1) True)"
  if "j \<le> length s" "\<forall>(x, y) \<in> set stack. y < length s"
  using that
proof (induction cdp ex ci fl s p i j fAny stack rule: wildLoop.induct)
  case (1 cdp ex ci fl s p i j fAny stack)
  note eq = wildLoop.simps [of cdp ex ci fl s p i j fAny stack]
  let ?at = "wildAt cdp ex ci fl s p" and ?loop = "wildLoop cdp ex ci fl s p"
  let ?file = "fl \<and> j = length s \<and> i < length p \<and> p ! i = CHR ''.'' \<and>
    (i + 1 = length p \<or> i + 2 = length p \<and> p ! (i + 1) = CHR ''*'')"
  let ?match = "j < length s \<and> i < length p \<and> wildCharEq cdp ci (p ! i) (s ! j)"
  note IH = "1.IH" [OF refl refl]
  consider (stop) "\<not> (i < length p \<or> ex \<and> \<not> fAny \<and> j < length s)"
    | (star) "i < length p" "p ! i = CHR ''*''"
    | (char) "i < length p" "p ! i \<noteq> CHR ''*''" "?match"
    | (dot) "i < length p" "p ! i \<noteq> CHR ''*''" "\<not> ?match" "?file"
    | (skip) "i < length p" "p ! i \<noteq> CHR ''*''" "\<not> ?match" "\<not> ?file" "fAny" "j < length s"
    | (pop) "i < length p \<or> ex \<and> \<not> fAny \<and> j < length s" "i < length p \<longrightarrow> p ! i \<noteq> CHR ''*''"
        "\<not> ?match" "\<not> ?file" "\<not> (fAny \<and> j < length s)"
    by blast
  then show ?case
  proof cases
    case stop
    have "?loop i j fAny stack" unfolding eq Let_def if_not_P [OF stop] ..
    moreover have "?at i j fAny" using stop by (auto simp: wildAt_pattern_end)
    ultimately show ?thesis by simp
  next
    case star
    have "?loop i j fAny stack = ?loop (i + 1) j True stack"
      unfolding eq Let_def using star by simp
    then show ?thesis using IH(1) star "1.prems" by (simp add: wildAt_star)
  next
    case char
    have "?loop i j fAny stack = ?loop (i + 1) (j + 1) False (if fAny then (i, j) # stack else stack)"
      unfolding eq Let_def using char by simp
    also have "\<dots> \<longleftrightarrow> ?at (i + 1) (j + 1) False \<or>
        (\<exists>(x, y) \<in> set (if fAny then (i, j) # stack else stack). ?at x (y + 1) True)"
      using char "1.prems" by (intro IH(2)) auto
    finally show ?thesis
      using char wildAt_any [of j s cdp ex ci fl p i] wildAt_char [of i p j s cdp ex ci fl]
      by (cases fAny) auto
  next
    case dot
    have "?loop i j fAny stack" unfolding eq Let_def using dot by simp
    moreover have "?at i j fAny" using dot by (auto simp: wildAt_string_end)
    ultimately show ?thesis by simp
  next
    case skip
    have "?loop i j fAny stack = ?loop i (j + 1) fAny stack"
      unfolding eq Let_def using skip by simp
    also have "\<dots> \<longleftrightarrow> ?at i (j + 1) fAny \<or> (\<exists>(x, y) \<in> set stack. ?at x (y + 1) True)"
      using skip "1.prems" by (intro IH(3)) auto
    finally show ?thesis
      using skip wildAt_any [of j s cdp ex ci fl p i] wildAt_char [of i p j s cdp ex ci fl] by simp
  next
    case pop
    have no: "\<not> ?at i j fAny"
    proof (cases "i < length p")
      case True
      show ?thesis
      proof (cases "j < length s")
        case j: True
        with True pop show ?thesis by (simp add: wildAt_char)
      next
        case False
        with True pop "1.prems" show ?thesis by (simp add: wildAt_string_end)
      qed
    next
      case False
      with pop show ?thesis by (simp add: wildAt_pattern_end)
    qed
    show ?thesis
    proof (cases stack)
      case Nil
      have "\<not> ?loop i j fAny stack" unfolding eq Let_def using pop Nil by auto
      with no Nil show ?thesis by simp
    next
      case (Cons e stack')
      obtain x y where e: "e = (x, y)" by fastforce
      have "?loop i j fAny stack = ?loop x (y + 1) True stack'"
        unfolding eq Let_def using pop Cons e by auto
      also have "\<dots> \<longleftrightarrow> ?at x (y + 1) True \<or> (\<exists>(x, y) \<in> set stack'. ?at x (y + 1) True)"
        using pop Cons e "1.prems" by (intro IH(4)) auto
      finally show ?thesis using no Cons e by simp
    qed
  qed
qed

lemma wildSpec_prefix:
  "wildSpec cdp False ci False p s \<longleftrightarrow> (\<exists>k \<le> length s. wildSpec cdp True ci False p (take k s))"
proof (induction p arbitrary: s)
  case Nil
  show ?case by auto
next
  case (Cons c p)
  show ?case
  proof (cases "c = CHR ''*''")
    case True
    have "(\<exists>k \<le> length s. \<exists>j \<le> length (drop k s). wildSpec cdp True ci False p (take j (drop k s))) \<longleftrightarrow>
        (\<exists>m \<le> length s. \<exists>k \<le> length (take m s). wildSpec cdp True ci False p (drop k (take m s)))"
      (is "?L = ?R")
    proof
      assume ?L
      then obtain k j where "k \<le> length s" "j \<le> length (drop k s)" "wildSpec cdp True ci False p (take j (drop k s))"
        by blast
      then show ?R by (intro exI [of _ "k + j"] conjI exI [of _ k]) (auto simp: drop_take)
    next
      assume ?R
      then obtain m k where "m \<le> length s" "k \<le> length (take m s)" "wildSpec cdp True ci False p (drop k (take m s))"
        by blast
      then show ?L by (intro exI [of _ k] conjI exI [of _ "m - k"]) (auto simp: drop_take)
    qed
    with True Cons.IH show ?thesis by simp
  next
    case False
    show ?thesis
    proof (cases s)
      case (Cons x t)
      have "(\<exists>k \<le> Suc (length t). P k) \<longleftrightarrow> P 0 \<or> (\<exists>k \<le> length t. P (Suc k))" for P
        by (metis (no_types, lifting) Suc_le_mono le0 not0_implies_Suc)
      with False Cons Cons.IH show ?thesis by auto
    qed (use False in simp)
  qed
qed

subsection \<open>Properties\<close>

text \<open>C9. The backtracking matcher computes the meaning of the pattern: for every string, pattern and
  mode the loop ends with the answer \<open>wildSpec\<close> defines by recursion on the pattern.\<close>

theorem hb_strMatchWildRaw_spec:
  "hb_strMatchWildRaw cdp szString szPattern fExact fCase fFile = wildSpec cdp fExact fCase fFile szPattern szString"
  using wildLoop_spec [of 0 szString "[]" cdp fExact fCase fFile szPattern 0 False]
  by (simp add: hb_strMatchWildRaw_def wildAt_def)

text \<open>Without the exact mode a pattern matches a string exactly when it matches one of its
  prefixes in the exact mode.\<close>

theorem hb_strMatchWild_prefix:
  "hb_strMatchWild cdp szString szPattern \<longleftrightarrow>
    (\<exists>k. hb_strMatchWildExact cdp (take k szString) szPattern)"
proof -
  have r: "wildLoop cdp ex ci fl s p 0 0 False [] = wildSpec cdp ex ci fl p s" for ex ci fl s p
    using wildLoop_spec [of 0 s "[]" cdp ex ci fl p 0 False] by (simp add: wildAt_def)
  have "(\<exists>k. Q (take k szString)) \<longleftrightarrow> (\<exists>k \<le> length szString. Q (take k szString))" for Q
    by (metis order_refl nat_le_linear take_all_iff)
  then show ?thesis
    by (simp add: hb_strMatchWild_def hb_strMatchWildExact_def hb_strMatchWildRaw_def r wildSpec_prefix)
qed

end
