(* ===== verification/HbBisect.thy ===== *)
theory HbBisect
  imports HbPrelude
begin

text \<open>
  The binary search that the symbol table (\<open>dynsym.c\<close>) and the hash arrays (\<open>hashes.c\<close>) share:
  two bounds, a probe in the middle, and a three way comparison of the probe with the key. The
  locale states what a search loop over a table has to satisfy and derives what its callers use:
  a hit is a position that compares equal, a miss returns the place where the key belongs.

  \<open>cmp t k i\<close> compares position \<open>i\<close> of table \<open>t\<close> with the key; it is positive on the positions
  before the key and negative on those after it, which is what the invariant \<open>inv\<close> provides.
\<close>

locale bisect =
  fixes inv :: "'t \<Rightarrow> 'k \<Rightarrow> bool"
    and size_of :: "'t \<Rightarrow> nat"
    and cmp :: "'t \<Rightarrow> 'k \<Rightarrow> nat \<Rightarrow> int"
    and val :: "'t \<Rightarrow> nat \<Rightarrow> 'r"
    and loop :: "'t \<Rightarrow> 'k \<Rightarrow> nat \<Rightarrow> nat \<Rightarrow> 'r option \<times> nat"
  assumes hit: "lo < hi \<Longrightarrow> cmp t k ((lo + hi) div 2) = 0 \<Longrightarrow>
      loop t k lo hi = (Some (val t ((lo + hi) div 2)), (lo + hi) div 2)"
    and left: "lo < hi \<Longrightarrow> cmp t k ((lo + hi) div 2) < 0 \<Longrightarrow> loop t k lo hi = loop t k lo ((lo + hi) div 2)"
    and right: "lo < hi \<Longrightarrow> 0 < cmp t k ((lo + hi) div 2) \<Longrightarrow>
      loop t k lo hi = loop t k ((lo + hi) div 2 + 1) hi"
    and miss: "loop t k lo lo = (None, lo)"
    and mono: "inv t k \<Longrightarrow> i < j \<Longrightarrow> j < size_of t \<Longrightarrow> cmp t k i \<le> 0 \<Longrightarrow> cmp t k j < 0"
begin

definition place :: "'t \<Rightarrow> 'k \<Rightarrow> nat \<Rightarrow> bool" where
  "place t k p \<longleftrightarrow> p \<le> size_of t \<and> (\<forall>i < p. 0 < cmp t k i) \<and> (\<forall>i. p \<le> i \<longrightarrow> i < size_of t \<longrightarrow> cmp t k i < 0)"

lemma mono_left:
  assumes "inv t k" "i < j" "j < size_of t" "0 \<le> cmp t k j"
  shows "0 < cmp t k i"
  using mono [OF assms(1-3)] assms(4) by force

lemma loop_cases:
  assumes "inv t k" "lo \<le> hi" "hi \<le> size_of t" "\<forall>i < lo. 0 < cmp t k i"
    "\<forall>i. hi \<le> i \<longrightarrow> i < size_of t \<longrightarrow> cmp t k i < 0"
  shows "(\<exists>m < size_of t. cmp t k m = 0 \<and> loop t k lo hi = (Some (val t m), m)) \<or>
    (\<exists>p. place t k p \<and> loop t k lo hi = (None, p))"
  using assms(2-5)
proof (induction "hi - lo" arbitrary: lo hi rule: less_induct)
  case less
  define m where "m = (lo + hi) div 2"
  show ?case
  proof (cases "lo < hi")
    case True
    then have m: "lo \<le> m" "m < hi" "m < size_of t" using less.prems by (auto simp: m_def)
    consider "cmp t k m = 0" | "cmp t k m < 0" | "0 < cmp t k m" by linarith
    then show ?thesis
    proof cases
      case 1
      then show ?thesis using m hit [OF True] by (auto simp: m_def)
    next
      case 2
      then have "\<forall>i. m \<le> i \<longrightarrow> i < size_of t \<longrightarrow> cmp t k i < 0"
        using mono [OF assms(1)] by (metis le_neq_implies_less less_le_not_le)
      then show ?thesis
        using less.hyps [of m lo] less.prems m left [OF True] 2 by (simp add: m_def)
    next
      case 3
      then have "\<forall>i < m + 1. 0 < cmp t k i"
        using mono_left [OF assms(1) _ m(3)] by (metis Suc_eq_plus1 less_Suc_eq less_imp_le)
      then show ?thesis
        using less.hyps [of hi "m + 1"] less.prems m right [OF True] 3 by (simp add: m_def)
    qed
  next
    case False
    then have "lo = hi" using less.prems by simp
    then show ?thesis using miss less.prems by (auto simp: place_def)
  qed
qed

lemma search_cases:
  assumes "inv t k"
  obtains (found) m where "m < size_of t" "cmp t k m = 0" "loop t k 0 (size_of t) = (Some (val t m), m)"
  | (absent) p where "place t k p" "loop t k 0 (size_of t) = (None, p)"
  using loop_cases [OF assms, of 0 "size_of t"] by auto

lemma place_absent: "place t k p \<Longrightarrow> i < size_of t \<Longrightarrow> cmp t k i \<noteq> 0"
  unfolding place_def by (metis less_irrefl not_le)

lemma search_hit:
  assumes "inv t k" "m < size_of t" "cmp t k m = 0"
  shows "loop t k 0 (size_of t) = (Some (val t m), m)"
proof (rule search_cases [OF assms(1)])
  fix j assume j: "j < size_of t" "cmp t k j = 0" "loop t k 0 (size_of t) = (Some (val t j), j)"
  have "j = m"
    using mono [OF assms(1), of j m] mono [OF assms(1), of m j] j assms(2,3) by (metis less_irrefl linorder_cases order_refl)
  with j show ?thesis by simp
next
  fix p assume "place t k p" then show ?thesis using place_absent assms by blast
qed

lemma search_some:
  assumes "inv t k" "loop t k 0 (size_of t) = (Some v, m)"
  shows "m < size_of t \<and> cmp t k m = 0 \<and> v = val t m"
  using assms(2) by (rule_tac search_cases [OF assms(1)]) auto

lemma search_none:
  assumes "inv t k" "loop t k 0 (size_of t) = (None, p)"
  shows "place t k p"
  using assms(2) by (rule_tac search_cases [OF assms(1)]) auto

end

end
