(* ===== verification/HbDynSym.thy ===== *)
theory HbDynSym
  imports HbBisect "HOL-Library.List_Lexorder" "HOL-Library.Char_ord"
begin

text \<open>
  The dynamic symbol table of \<open>src/vm/dynsym.c\<close>: one entry per name, in an array that the C code
  keeps sorted by descending name and searches with a binary search, and the table that maps
  symbol numbers back to entries.

  Pointers are indexes into two stores: \<open>symbs\<close> holds the \<open>HB_SYMB\<close> structures and \<open>dyns\<close> the
  \<open>HB_DYNS\<close> structures. \<open>items\<close> is the array \<open>s_pDynItems\<close>, whose length is \<open>s_uiDynSymbols\<close>, and
  \<open>dynIndex\<close> is \<open>s_pDynIndex\<close>, whose length is \<open>s_iDynIdxSize\<close>. The lock is not modelled: each
  function is one step. The fatal error of an overflowing table is \<open>Inl\<close>.
\<close>

subsection \<open>The structures\<close>

record HB_SYMB =
  szName :: string
  scope :: int
  pFunPtr :: "nat option"
  symDyn :: "nat option"

record HB_DYNS =
  dynSymb :: nat
  uiSymNum :: nat
  ulCalls :: int
  ulTime :: int
  ulRecurse :: int

record dynTable =
  symbs :: "HB_SYMB list"
  dyns :: "HB_DYNS list"
  items :: "nat list"
  dynIndex :: "nat option list"
  allocSyms :: "nat list"

datatype fatal = ERR_INTERNAL nat

definition dynsymInit :: dynTable where
  "dynsymInit = \<lparr>symbs = [], dyns = [], items = [], dynIndex = [], allocSyms = []\<rparr>"

text \<open>The sign of \<open>strcmp\<close>.\<close>

fun c_strcmp :: "string \<Rightarrow> string \<Rightarrow> int" where
  "c_strcmp [] [] = 0"
| "c_strcmp [] (y # ys) = -1"
| "c_strcmp (x # xs) [] = 1"
| "c_strcmp (x # xs) (y # ys) =
     (if (of_char x :: nat) < of_char y then -1 else if (of_char y :: nat) < of_char x then 1
      else c_strcmp xs ys)"

abbreviation dynName :: "dynTable \<Rightarrow> nat \<Rightarrow> string" where
  "dynName d p \<equiv> szName (symbs d ! dynSymb (dyns d ! p))"

subsection \<open>Searching\<close>

function hb_dynsymPos_loop :: "dynTable \<Rightarrow> string \<Rightarrow> nat \<Rightarrow> nat \<Rightarrow> nat option \<times> nat" where
  "hb_dynsymPos_loop d nm uiFirst uiLast =
     (let uiMiddle = (uiFirst + uiLast) div 2 in
      if uiFirst < uiLast then
        (let iCmp = c_strcmp (dynName d (items d ! uiMiddle)) nm in
         if iCmp = 0 then (Some (items d ! uiMiddle), uiMiddle)
         else if iCmp < 0 then hb_dynsymPos_loop d nm uiFirst uiMiddle
         else hb_dynsymPos_loop d nm (uiMiddle + 1) uiLast)
      else (None, uiMiddle))"
  by pat_completeness auto
termination
  by (relation "measure (\<lambda>(d, nm, f, l). l - f)") auto

declare hb_dynsymPos_loop.simps [simp del]

definition hb_dynsymPos :: "dynTable \<Rightarrow> string \<Rightarrow> nat option \<times> nat" where
  "hb_dynsymPos d nm = hb_dynsymPos_loop d nm 0 (length (items d))"

function hb_dynsymFind_loop :: "dynTable \<Rightarrow> string \<Rightarrow> nat \<Rightarrow> nat \<Rightarrow> nat option" where
  "hb_dynsymFind_loop d nm uiFirst uiLast =
     (if uiFirst < uiLast then
        (let uiMiddle = (uiFirst + uiLast) div 2;
             iCmp = c_strcmp (dynName d (items d ! uiMiddle)) nm in
         if iCmp = 0 then Some (items d ! uiMiddle)
         else if iCmp < 0 then hb_dynsymFind_loop d nm uiFirst uiMiddle
         else hb_dynsymFind_loop d nm (uiMiddle + 1) uiLast)
      else None)"
  by pat_completeness auto
termination
  by (relation "measure (\<lambda>(d, nm, f, l). l - f)") auto

declare hb_dynsymFind_loop.simps [simp del]

definition hb_dynsymFind :: "dynTable \<Rightarrow> string \<Rightarrow> nat option" where
  "hb_dynsymFind d nm = hb_dynsymFind_loop d nm 0 (length (items d))"

subsection \<open>Creating symbols\<close>

definition hb_dynsymInsert :: "dynTable \<Rightarrow> nat \<Rightarrow> nat \<Rightarrow> fatal + nat \<times> dynTable" where
  "hb_dynsymInsert d pSymbol uiPos =
     (let n = (length (items d) + 1) mod 2 ^ 16 in
      if n = 0 then Inl (ERR_INTERNAL 6004)
      else
        (let p = length (dyns d) in
         Inr (p, d\<lparr>symbs := (symbs d)[pSymbol := (symbs d ! pSymbol)\<lparr>symDyn := Some p\<rparr>],
                   dyns := dyns d @ [\<lparr>dynSymb = pSymbol, uiSymNum = n, ulCalls = 0, ulTime = 0, ulRecurse = 0\<rparr>],
                   items := take uiPos (items d) @ p # drop uiPos (items d)\<rparr>)))"

definition hb_symbolAlloc :: "dynTable \<Rightarrow> string \<Rightarrow> nat \<times> dynTable" where
  "hb_symbolAlloc d nm =
     (let s = length (symbs d) in
      (s, d\<lparr>symbs := symbs d @ [\<lparr>szName = nm, scope = 0, pFunPtr = None, symDyn = None\<rparr>],
            allocSyms := s # allocSyms d\<rparr>))"

definition hb_symbolNew :: "dynTable \<Rightarrow> string \<Rightarrow> nat \<times> dynTable" where
  "hb_symbolNew d nm = hb_symbolAlloc d nm"

definition HB_FS_PCODEFUNC :: int where "HB_FS_PCODEFUNC = 0x0100"
definition HB_FS_LOCAL :: int where "HB_FS_LOCAL = 0x0200"
definition HB_FS_DEFERRED :: int where "HB_FS_DEFERRED = 0x0800"

definition setScope :: "dynTable \<Rightarrow> nat \<Rightarrow> int \<Rightarrow> dynTable" where
  "setScope d s v = d\<lparr>symbs := (symbs d)[s := (symbs d ! s)\<lparr>scope := v\<rparr>]\<rparr>"

text \<open>The symbol is already registered: two \<open>HB_FS_LOCAL\<close> functions of one name are resolved
  first (\<open>None\<close> when the new one is left unregistered), then the new symbol may become the main one.
  The scope changes are those of a GCC build.\<close>

definition dynsymNew_multiple :: "dynTable \<Rightarrow> nat \<Rightarrow> nat \<Rightarrow> dynTable option" where
  "dynsymNew_multiple d p s =
     (let m = dynSymb (dyns d ! p) in
      if and (and (scope (symbs d ! m)) (scope (symbs d ! s))) HB_FS_LOCAL \<noteq> 0 \<and> m \<noteq> s then
        (if pFunPtr (symbs d ! m) = pFunPtr (symbs d ! s) then
           Some (setScope d m (and (scope (symbs d ! m)) (not HB_FS_LOCAL)))
         else if and (scope (symbs d ! s)) HB_FS_PCODEFUNC \<noteq> 0 then None
         else Some (setScope d m (or (and (scope (symbs d ! m)) (not HB_FS_LOCAL)) HB_FS_DEFERRED)))
      else Some d)"

definition hb_dynsymNew :: "dynTable \<Rightarrow> nat \<Rightarrow> fatal + nat \<times> dynTable" where
  "hb_dynsymNew d s =
     (case hb_dynsymPos d (szName (symbs d ! s)) of
        (None, uiPos) \<Rightarrow> hb_dynsymInsert d s uiPos
      | (Some p, uiPos) \<Rightarrow>
          (let d = d\<lparr>symbs := (symbs d)[s := (symbs d ! s)\<lparr>symDyn := Some p\<rparr>]\<rparr> in
           case dynsymNew_multiple d p s of
             None \<Rightarrow> Inr (p, d)
           | Some d \<Rightarrow>
               Inr (p,
                 if pFunPtr (symbs d ! dynSymb (dyns d ! p)) = None \<and> pFunPtr (symbs d ! s) \<noteq> None \<or>
                    and (scope (symbs d ! s)) HB_FS_LOCAL \<noteq> 0
                 then d\<lparr>dyns := (dyns d)[p := (dyns d ! p)\<lparr>dynSymb := s, ulCalls := 0, ulTime := 0, ulRecurse := 0\<rparr>]\<rparr>
                 else d)))"

definition hb_dynsymGetCase :: "dynTable \<Rightarrow> string \<Rightarrow> fatal + nat \<times> dynTable" where
  "hb_dynsymGetCase d nm =
     (case hb_dynsymPos d nm of
        (Some p, uiPos) \<Rightarrow> Inr (p, d)
      | (None, uiPos) \<Rightarrow> (let (s, d) = hb_symbolAlloc d nm in hb_dynsymInsert d s uiPos))"

text \<open>The upper case copy both \<open>hb_dynsymGet\<close> and \<open>hb_dynsymFindName\<close> make: at most 63
  characters, up to a blank or a tab.\<close>

definition HB_SYMBOL_NAME_LEN :: nat where "HB_SYMBOL_NAME_LEN = 63"

fun symUprName :: "nat \<Rightarrow> string \<Rightarrow> string" where
  "symUprName 0 s = []"
| "symUprName (Suc n) [] = []"
| "symUprName (Suc n) (c # s) =
     (if c = CHR 0x00 \<or> c = CHR '' '' \<or> c = CHR 0x09 then []
      else HB_TOUPPER c # symUprName n s)"

definition hb_dynsymGet :: "dynTable \<Rightarrow> string \<Rightarrow> fatal + nat \<times> dynTable" where
  "hb_dynsymGet d nm = hb_dynsymGetCase d (symUprName HB_SYMBOL_NAME_LEN nm)"

definition hb_dynsymFindName :: "dynTable \<Rightarrow> string \<Rightarrow> nat option" where
  "hb_dynsymFindName d nm = hb_dynsymFind d (symUprName HB_SYMBOL_NAME_LEN nm)"

definition hb_dynsymGetSymbol :: "dynTable \<Rightarrow> string \<Rightarrow> fatal + nat \<times> dynTable" where
  "hb_dynsymGetSymbol d nm =
     (case hb_dynsymGet d nm of Inl e \<Rightarrow> Inl e | Inr (p, d) \<Rightarrow> Inr (dynSymb (dyns d ! p), d))"

definition hb_dynsymFindSymbol :: "dynTable \<Rightarrow> string \<Rightarrow> nat option" where
  "hb_dynsymFindSymbol d nm =
     (case hb_dynsymFind d nm of Some p \<Rightarrow> Some (dynSymb (dyns d ! p)) | None \<Rightarrow> None)"

definition hb_dynsymIsFunction :: "dynTable \<Rightarrow> nat \<Rightarrow> bool" where
  "hb_dynsymIsFunction d p \<longleftrightarrow> pFunPtr (symbs d ! dynSymb (dyns d ! p)) \<noteq> None"

subsection \<open>Positions and numbers\<close>

definition hb_dynsymGetByIndex :: "dynTable \<Rightarrow> int \<Rightarrow> nat option" where
  "hb_dynsymGetByIndex d lIndex =
     (if 1 \<le> lIndex \<and> lIndex \<le> int (length (items d)) then Some (items d ! nat (lIndex - 1)) else None)"

definition hb_dynsymCount :: "dynTable \<Rightarrow> nat" where
  "hb_dynsymCount d = length (items d)"

definition hb_dynsymToNum :: "dynTable \<Rightarrow> nat \<Rightarrow> nat \<times> dynTable" where
  "hb_dynsymToNum d p =
     (let n = uiSymNum (dyns d ! p);
          d = (if length (dynIndex d) < n
               then d\<lparr>dynIndex := dynIndex d @ replicate (n - length (dynIndex d)) None\<rparr> else d);
          d = (if dynIndex d ! (n - 1) = None then d\<lparr>dynIndex := (dynIndex d)[n - 1 := Some p]\<rparr> else d)
      in (n, d))"

definition hb_dynsymFromNum :: "dynTable \<Rightarrow> int \<Rightarrow> nat option" where
  "hb_dynsymFromNum d iSymNum =
     (if 0 < iSymNum \<and> iSymNum \<le> int (length (dynIndex d)) then dynIndex d ! nat (iSymNum - 1) else None)"

definition hb_dynsymGetIndex :: "dynTable \<Rightarrow> string \<Rightarrow> nat" where
  "hb_dynsymGetIndex d nm =
     (case hb_dynsymFindName d nm of
        None \<Rightarrow> 0
      | Some p \<Rightarrow> (case hb_dynsymPos d (dynName d p) of (Some _, uiPos) \<Rightarrow> uiPos + 1 | (None, _) \<Rightarrow> 0))"

text \<open>\<open>hb_dynsymEval\<close>, without a concurrent change of the table, and \<open>hb_dynsymProtectEval\<close>: the
  entries the callback is called with, in order. \<open>pFunction\<close> gives its result.\<close>

fun dynsymEval_from :: "(nat \<Rightarrow> bool) \<Rightarrow> dynTable \<Rightarrow> nat \<Rightarrow> nat \<Rightarrow> nat list" where
  "dynsymEval_from pFunction d uiPos 0 = []"
| "dynsymEval_from pFunction d uiPos (Suc k) =
     (let uiPos = uiPos + 1 in
      if uiPos < length (items d) then
        (let p = items d ! uiPos in
         p # (if \<not> pFunction p then [] else dynsymEval_from pFunction d uiPos k))
      else [])"

definition hb_dynsymEval :: "(nat \<Rightarrow> bool) \<Rightarrow> dynTable \<Rightarrow> nat list" where
  "hb_dynsymEval pFunction d = dynsymEval_from pFunction d 0 (length (items d) + 1)"

fun dynsymProtectEval_from :: "(nat \<Rightarrow> bool) \<Rightarrow> dynTable \<Rightarrow> nat \<Rightarrow> nat \<Rightarrow> nat list" where
  "dynsymProtectEval_from pFunction d uiPos 0 = []"
| "dynsymProtectEval_from pFunction d uiPos (Suc k) =
     (if uiPos < length (items d) then
        (let p = items d ! uiPos in
         p # (if \<not> pFunction p then [] else dynsymProtectEval_from pFunction d (uiPos + 1) k))
      else [])"

definition hb_dynsymProtectEval :: "(nat \<Rightarrow> bool) \<Rightarrow> dynTable \<Rightarrow> nat list" where
  "hb_dynsymProtectEval pFunction d = dynsymProtectEval_from pFunction d 0 (length (items d) + 1)"

text \<open>The integrity check.\<close>

fun dynsymVerify_from :: "dynTable \<Rightarrow> nat \<Rightarrow> nat \<Rightarrow> int" where
  "dynsymVerify_from d uiPos 0 = 0"
| "dynsymVerify_from d uiPos (Suc k) =
     (if uiPos < length (items d) then
        (let p = items d ! uiPos;
             iCmp = c_strcmp (dynName d (items d ! (uiPos - 1))) (dynName d p);
             (at, uiAt) = hb_dynsymPos d (dynName d p) in
         if 0 < uiPos \<and> iCmp \<le> 0 then (if iCmp = 0 then -1 else -2)
         else if at \<noteq> Some p then -3
         else if uiAt \<noteq> uiPos then -4
         else dynsymVerify_from d (uiPos + 1) k)
      else 0)"

definition hb_dynsymVerify :: "dynTable \<Rightarrow> int" where
  "hb_dynsymVerify d = dynsymVerify_from d 0 (length (items d) + 1)"

definition hb_dynsymRelease :: "dynTable \<Rightarrow> dynTable" where
  "hb_dynsymRelease d = d\<lparr>dynIndex := [], items := [], dyns := [], allocSyms := []\<rparr>"

subsection \<open>The order of names\<close>

lemma c_strcmp_order:
  "c_strcmp a b = (if a < b then -1 else if a = b then 0 else 1)"
  by (induction a b rule: c_strcmp.induct) (auto simp: less_char_def)

lemma c_strcmp_simps:
  "c_strcmp a b = 0 \<longleftrightarrow> a = b" "c_strcmp a b < 0 \<longleftrightarrow> a < b" "0 < c_strcmp a b \<longleftrightarrow> b < a"
  "c_strcmp a b \<le> 0 \<longleftrightarrow> a \<le> b"
  by (auto simp: c_strcmp_order)

subsection \<open>The invariant\<close>

definition dynNames :: "dynTable \<Rightarrow> string list" where
  "dynNames d = map (dynName d) (items d)"

definition dynSorted :: "dynTable \<Rightarrow> bool" where
  "dynSorted d \<longleftrightarrow> sorted_wrt (\<lambda>a b. b < a) (dynNames d)"

definition dynInv :: "dynTable \<Rightarrow> bool" where
  "dynInv d \<longleftrightarrow>
     dynSorted d \<and> length (items d) < 2 ^ 16 \<and> length (dyns d) = length (items d) \<and>
     set (items d) = {0..<length (items d)} \<and>
     (\<forall>p < length (dyns d). dynSymb (dyns d ! p) < length (symbs d) \<and> uiSymNum (dyns d ! p) = p + 1) \<and>
     (\<forall>i < length (dynIndex d). dynIndex d ! i = None \<or> dynIndex d ! i = Some i)"

lemma dynNames_nth: "i < length (items d) \<Longrightarrow> dynNames d ! i = dynName d (items d ! i)"
  by (simp add: dynNames_def)

interpretation dynPos: bisect "\<lambda>d nm. dynSorted d" "\<lambda>d. length (items d)"
  "\<lambda>d nm i. c_strcmp (dynName d (items d ! i)) nm" "\<lambda>d i. items d ! i" hb_dynsymPos_loop
proof (unfold_locales, goal_cases)
  case (5 d nm i j)
  then have "dynNames d ! j < dynNames d ! i"
    by (auto simp: dynSorted_def sorted_wrt_iff_nth_less dynNames_def)
  with 5 show ?case by (simp add: dynNames_nth c_strcmp_simps)
qed (subst hb_dynsymPos_loop.simps, simp add: Let_def)+

lemma hb_dynsymFind_loop_pos: "hb_dynsymFind_loop d nm lo hi = fst (hb_dynsymPos_loop d nm lo hi)"
  by (induction d nm lo hi rule: hb_dynsymFind_loop.induct)
    (subst hb_dynsymFind_loop.simps, subst hb_dynsymPos_loop.simps, simp add: Let_def)

lemma hb_dynsymFind_pos: "hb_dynsymFind d nm = fst (hb_dynsymPos d nm)"
  by (simp add: hb_dynsymFind_def hb_dynsymPos_def hb_dynsymFind_loop_pos)

lemma hb_dynsymPos_hit:
  assumes "dynSorted d" "i < length (items d)"
  shows "hb_dynsymPos d (dynName d (items d ! i)) = (Some (items d ! i), i)"
  unfolding hb_dynsymPos_def by (rule dynPos.search_hit [OF assms]) (simp add: c_strcmp_simps)

lemma hb_dynsymPos_some:
  assumes "dynSorted d" "hb_dynsymPos d nm = (Some p, i)"
  shows "i < length (items d) \<and> items d ! i = p \<and> dynName d p = nm"
  using dynPos.search_some [OF assms(1) assms(2) [unfolded hb_dynsymPos_def]] by (auto simp: c_strcmp_simps)

lemma hb_dynsymPos_none:
  assumes "dynSorted d" "hb_dynsymPos d nm = (None, i)"
  shows "i \<le> length (items d)" "\<forall>j < i. nm < dynName d (items d ! j)"
    "\<forall>j. i \<le> j \<longrightarrow> j < length (items d) \<longrightarrow> dynName d (items d ! j) < nm"
  using dynPos.search_none [OF assms(1) assms(2) [unfolded hb_dynsymPos_def]]
  by (auto simp: dynPos.place_def c_strcmp_simps)

lemma hb_dynsymFind_iff:
  assumes "dynSorted d"
  shows "hb_dynsymFind d nm = Some p \<longleftrightarrow> p \<in> set (items d) \<and> dynName d p = nm"
proof
  assume "hb_dynsymFind d nm = Some p"
  then obtain i where "hb_dynsymPos d nm = (Some p, i)"
    by (cases "hb_dynsymPos d nm") (simp add: hb_dynsymFind_pos)
  with hb_dynsymPos_some [OF assms] show "p \<in> set (items d) \<and> dynName d p = nm" by (metis nth_mem)
next
  assume "p \<in> set (items d) \<and> dynName d p = nm"
  then obtain i where "i < length (items d)" "items d ! i = p" "dynName d p = nm" by (auto simp: in_set_conv_nth)
  with hb_dynsymPos_hit [OF assms] show "hb_dynsymFind d nm = Some p" by (auto simp: hb_dynsymFind_pos)
qed

subsection \<open>Every operation keeps the invariant\<close>

lemma dynInvD:
  assumes "dynInv d"
  shows "dynSorted d" "length (items d) < 2 ^ 16" "length (dyns d) = length (items d)"
    "set (items d) = {0..<length (items d)}"
    "p < length (items d) \<Longrightarrow> dynSymb (dyns d ! p) < length (symbs d)"
    "p < length (items d) \<Longrightarrow> uiSymNum (dyns d ! p) = p + 1"
    "i < length (dynIndex d) \<Longrightarrow> dynIndex d ! i = None \<or> dynIndex d ! i = Some i"
  using assms by (simp_all add: dynInv_def)

lemma dynInv_init: "dynInv dynsymInit"
  by (simp add: dynInv_def dynsymInit_def dynSorted_def dynNames_def)

text \<open>What the name of an entry depends on.\<close>

lemma dynSorted_names:
  assumes "items d' = items d" "\<And>p. p \<in> set (items d) \<Longrightarrow> dynName d' p = dynName d p"
  shows "dynSorted d' = dynSorted d"
proof -
  have "dynNames d' = dynNames d" using assms by (simp add: dynNames_def)
  then show ?thesis by (simp add: dynSorted_def)
qed

lemma hb_dynsymFind_names:
  assumes "dynSorted d" "items d' = items d" "\<And>p. p \<in> set (items d) \<Longrightarrow> dynName d' p = dynName d p"
  shows "hb_dynsymFind d' = hb_dynsymFind d"
proof
  fix nm
  have s: "dynSorted d'" using assms dynSorted_names by blast
  have "hb_dynsymFind d' nm = Some p \<longleftrightarrow> hb_dynsymFind d nm = Some p" for p
    using hb_dynsymFind_iff [OF s] hb_dynsymFind_iff [OF assms(1)] assms(2,3) by auto
  then show "hb_dynsymFind d' nm = hb_dynsymFind d nm" by (metis not_Some_eq)
qed

lemma dynInsert:
  assumes inv: "dynInv d" and s: "s < length (symbs d)"
    and pos: "hb_dynsymPos d (szName (symbs d ! s)) = (None, i)" and ok: "hb_dynsymInsert d s i = Inr (p, d')"
  shows "dynInv d'" "p = length (dyns d)" "dynName d' p = szName (symbs d ! s)"
    "hb_dynsymFind d' = (hb_dynsymFind d)(szName (symbs d ! s) \<mapsto> p)"
proof -
  note D = dynInvD [OF inv]
  define nm where "nm = szName (symbs d ! s)"
  have p: "p = length (dyns d)"
    and len: "Suc (length (items d)) < 2 ^ 16"
    and d': "d' = d\<lparr>symbs := (symbs d)[s := (symbs d ! s)\<lparr>symDyn := Some p\<rparr>],
        dyns := dyns d @ [\<lparr>dynSymb = s, uiSymNum = Suc (length (items d)), ulCalls = 0, ulTime = 0, ulRecurse = 0\<rparr>],
        items := take i (items d) @ p # drop i (items d)\<rparr>"
    using ok D(2) by (auto simp: hb_dynsymInsert_def Let_def mod_Suc split: if_splits)
  have sz: "szName (symbs d' ! x) = szName (symbs d ! x)" for x
    using s by (cases "x = s") (simp_all add: d')
  have name: "dynName d' q = (if q = p then nm else dynName d q)" if "q \<le> p" for q
    using that p unfolding sz by (simp add: d' nth_append nm_def)
  have pn: "p \<notin> set (items d)" using D(3,4) p by simp
  have old: "map (dynName d') (items d) = dynNames d"
    unfolding dynNames_def using name D(3,4) p by (intro map_cong) auto
  have names: "dynNames d' = take i (dynNames d) @ nm # drop i (dynNames d)"
  proof -
    have it: "items d' = take i (items d) @ p # drop i (items d)" by (simp add: d')
    have "dynNames d' = take i (map (dynName d') (items d)) @ dynName d' p # drop i (map (dynName d') (items d))"
      by (simp only: dynNames_def it map_append list.map take_map drop_map)
    then show ?thesis using name [of p] by (simp only: old order_refl if_True simp_thms)
  qed
  note P = hb_dynsymPos_none [OF D(1) pos [folded nm_def]]
  have gt: "\<forall>x \<in> set (take i (dynNames d)). nm < x"
    using P(1,2) by (auto simp: dynNames_def in_set_conv_nth)
  have lt: "\<forall>x \<in> set (drop i (dynNames d)). x < nm"
    using P(1,3) by (auto simp: dynNames_def in_set_conv_nth)
  have "sorted_wrt (\<lambda>a b. b < a) (take i (dynNames d) @ drop i (dynNames d))"
    using D(1) by (simp add: dynSorted_def)
  then have sorted: "dynSorted d'"
    unfolding dynSorted_def names using gt lt
    by (auto simp: sorted_wrt_append intro: less_trans [of _ nm])
  have items: "set (items d') = insert p (set (items d))"
  proof -
    have "set (take i (items d)) \<union> set (drop i (items d)) = set (items d)"
      by (metis append_take_drop_id set_append)
    then show ?thesis by (auto simp: d')
  qed
  have l: "length (items d') = Suc p" using D(3) p by (simp add: d')
  show "p = length (dyns d)" "dynName d' p = szName (symbs d ! s)"
    using p name by (simp_all add: nm_def)
  show "dynInv d'"
    unfolding dynInv_def
  proof (intro conjI)
    show "set (items d') = {0..<length (items d')}" using items D(3,4) p l by auto
    show "length (items d') < 2 ^ 16" using len D(3) p l by simp
    show "\<forall>q < length (dyns d'). dynSymb (dyns d' ! q) < length (symbs d') \<and> uiSymNum (dyns d' ! q) = q + 1"
      using D(3,5,6) s p by (auto simp: d' nth_append less_Suc_eq)
    show "\<forall>j < length (dynIndex d'). dynIndex d' ! j = None \<or> dynIndex d' ! j = Some j"
      using D(7) by (simp add: d')
  qed (use sorted D(3) in \<open>simp_all add: d'\<close>)
  show "hb_dynsymFind d' = (hb_dynsymFind d)(szName (symbs d ! s) \<mapsto> p)"
  proof
    fix x
    have "hb_dynsymFind d' x = Some q \<longleftrightarrow> ((hb_dynsymFind d)(nm \<mapsto> p)) x = Some q" for q
      using hb_dynsymFind_iff [OF sorted, of x q] hb_dynsymFind_iff [OF D(1), of x q] items name D(3,4) p P
        hb_dynsymFind_pos [of d nm] pos [folded nm_def]
      by (cases "q = p"; cases "x = nm") (auto simp: hb_dynsymFind_pos)
    then show "hb_dynsymFind d' x = ((hb_dynsymFind d)(szName (symbs d ! s) \<mapsto> p)) x"
      unfolding nm_def by (metis not_Some_eq)
  qed
qed

text \<open>Changes that keep the names keep the invariant and every lookup.\<close>

lemma dynInv_frame:
  assumes inv: "dynInv d"
    and eq: "items d' = items d" "length (dyns d') = length (dyns d)" "length (symbs d) \<le> length (symbs d')"
    and names: "\<And>p. p < length (dyns d) \<Longrightarrow> dynName d' p = dynName d p"
    and dy: "\<And>p. p < length (dyns d) \<Longrightarrow> dynSymb (dyns d' ! p) < length (symbs d') \<and>
      uiSymNum (dyns d' ! p) = uiSymNum (dyns d ! p)"
    and ix: "\<And>i. i < length (dynIndex d') \<Longrightarrow> dynIndex d' ! i = None \<or> dynIndex d' ! i = Some i"
  shows "dynInv d' \<and> hb_dynsymFind d' = hb_dynsymFind d"
proof -
  note D = dynInvD [OF inv]
  have n: "dynName d' p = dynName d p" if "p \<in> set (items d)" for p
    using names D(3,4) that by simp
  have "dynSorted d'" using dynSorted_names [OF eq(1) n] D(1) by simp
  moreover have "hb_dynsymFind d' = hb_dynsymFind d" by (rule hb_dynsymFind_names [OF D(1) eq(1) n])
  ultimately show ?thesis
    using D eq dy ix unfolding dynInv_def by simp
qed

lemma hb_symbolAlloc_frame:
  assumes "dynInv d" "hb_symbolAlloc d nm = (s, d')"
  shows "dynInv d' \<and> hb_dynsymFind d' = hb_dynsymFind d" "s < length (symbs d')" "szName (symbs d' ! s) = nm"
    "dyns d' = dyns d" "items d' = items d" "p < length (items d) \<Longrightarrow> dynName d' p = dynName d p"
proof -
  have d': "d' = d\<lparr>symbs := symbs d @ [\<lparr>szName = nm, scope = 0, pFunPtr = None, symDyn = None\<rparr>],
      allocSyms := s # allocSyms d\<rparr>" "s = length (symbs d)"
    using assms(2) by (auto simp: hb_symbolAlloc_def Let_def)
  note D = dynInvD [OF assms(1)]
  show "p < length (items d) \<Longrightarrow> dynName d' p = dynName d p"
    using D(3,5) by (simp add: d' nth_append)
  show "dynInv d' \<and> hb_dynsymFind d' = hb_dynsymFind d"
    by (rule dynInv_frame [OF assms(1)]) (use D(3,5,7) in \<open>simp_all add: d' nth_append less_SucI\<close>)
  show "s < length (symbs d')" "szName (symbs d' ! s) = nm" "dyns d' = dyns d" "items d' = items d"
    by (simp_all add: d')
qed

lemma szName_setScope [simp]: "szName (symbs (setScope d s v) ! x) = szName (symbs d ! x)"
  by (cases "x = s"; cases "s < length (symbs d)") (simp_all add: setScope_def list_update_beyond not_less)

lemma setScope_simps [simp]:
  "items (setScope d s v) = items d" "dyns (setScope d s v) = dyns d" "dynIndex (setScope d s v) = dynIndex d"
  "length (symbs (setScope d s v)) = length (symbs d)"
  by (simp_all add: setScope_def)

lemma dynsymNew_multiple_frame:
  assumes "dynInv d" "dynsymNew_multiple d p s = Some d'"
  shows "dynInv d' \<and> hb_dynsymFind d' = hb_dynsymFind d" "items d' = items d" "dyns d' = dyns d"
    "length (symbs d') = length (symbs d)" "szName (symbs d' ! x) = szName (symbs d ! x)"
proof -
  have c: "d' = d \<or> (\<exists>t v. d' = setScope d t v)"
    using assms(2) by (auto simp: dynsymNew_multiple_def Let_def split: if_splits)
  then show "items d' = items d" "dyns d' = dyns d" "length (symbs d') = length (symbs d)"
    "szName (symbs d' ! x) = szName (symbs d ! x)" by auto
  have ix: "dynIndex d' = dynIndex d" using c by auto
  show "dynInv d' \<and> hb_dynsymFind d' = hb_dynsymFind d"
    by (rule dynInv_frame [OF assms(1)]) (use c dynInvD(3,5,7) [OF assms(1)] ix in \<open>auto simp del: not_None_eq\<close>)
qed

lemma hb_dynsymNew_frame:
  assumes inv: "dynInv d" and s: "s < length (symbs d)" and new: "hb_dynsymNew d s = Inr (q, d')"
    and pos: "hb_dynsymPos d (szName (symbs d ! s)) = (Some p, i)"
  shows "q = p \<and> dynInv d' \<and> hb_dynsymFind d' = hb_dynsymFind d"
proof -
  note D = dynInvD [OF inv]
  have p: "p < length (items d)" "dynName d p = szName (symbs d ! s)"
    using hb_dynsymPos_some [OF D(1) pos] D(3,4) nth_mem by fastforce+
  define d1 where "d1 = d\<lparr>symbs := (symbs d)[s := (symbs d ! s)\<lparr>symDyn := Some p\<rparr>]\<rparr>"
  have sz: "szName (symbs d1 ! x) = szName (symbs d ! x)" for x
    using s by (cases "x = s") (simp_all add: d1_def)
  have I1: "dynInv d1 \<and> hb_dynsymFind d1 = hb_dynsymFind d"
    by (rule dynInv_frame [OF inv]) (use D sz in \<open>simp_all add: d1_def\<close>)
  show ?thesis
  proof (cases "dynsymNew_multiple d1 p s")
    case None
    with new pos I1 show ?thesis by (auto simp: hb_dynsymNew_def d1_def [symmetric] Let_def)
  next
    case (Some d2)
    have I2: "dynInv d2" "hb_dynsymFind d2 = hb_dynsymFind d1" "items d2 = items d" "dyns d2 = dyns d"
        "length (symbs d2) = length (symbs d)" "\<And>x. szName (symbs d2 ! x) = szName (symbs d ! x)"
      using dynsymNew_multiple_frame [OF conjunct1 [OF I1] Some] sz by (simp_all add: d1_def)
    define d3 where "d3 = d2\<lparr>dyns := (dyns d2)[p := (dyns d2 ! p)\<lparr>dynSymb := s, ulCalls := 0, ulTime := 0, ulRecurse := 0\<rparr>]\<rparr>"
    have I3: "dynInv d3 \<and> hb_dynsymFind d3 = hb_dynsymFind d2"
    proof (rule dynInv_frame [OF I2(1)])
      fix r assume "r < length (dyns d2)"
      then show "dynName d3 r = dynName d2 r"
        using p D(3) I2 by (cases "r = p") (simp_all add: d3_def)
      show "dynSymb (dyns d3 ! r) < length (symbs d3) \<and> uiSymNum (dyns d3 ! r) = uiSymNum (dyns d2 ! r)"
        using p D(3,5) I2(4,5) s \<open>r < length (dyns d2)\<close> by (cases "r = p") (simp_all add: d3_def)
    qed (use dynInvD(7) [OF I2(1)] in \<open>simp_all add: d3_def\<close>)
    have "q = p \<and> (d' = d2 \<or> d' = d3)"
      using new pos Some by (auto simp: hb_dynsymNew_def d1_def [symmetric] d3_def Let_def)
    with I1 I2 I3 show ?thesis by auto
  qed
qed

lemma hb_dynsymInsert_error:
  "length (items d) < 2 ^ 16 \<Longrightarrow> hb_dynsymInsert d s i = Inl e \<longleftrightarrow> e = ERR_INTERNAL 6004 \<and> length (items d) = 2 ^ 16 - 1"
  by (auto simp: hb_dynsymInsert_def Let_def mod_Suc split: if_splits)

lemma hb_dynsymToNum_index:
  assumes "dynInv d" "p < length (items d)" "hb_dynsymToNum d p = (n, d')"
  shows "n = p + 1" "d' = d\<lparr>dynIndex := dynIndex d'\<rparr>" "p < length (dynIndex d')" "dynIndex d' ! p = Some p"
    "\<And>i. i < length (dynIndex d') \<Longrightarrow> dynIndex d' ! i = None \<or> dynIndex d' ! i = Some i"
    "\<And>i. i < length (dynIndex d) \<Longrightarrow> dynIndex d ! i = Some i \<Longrightarrow> i < length (dynIndex d') \<and> dynIndex d' ! i = Some i"
proof -
  note D = dynInvD [OF assms(1)]
  define ix where "ix = (if length (dynIndex d) < p + 1
      then dynIndex d @ replicate (p + 1 - length (dynIndex d)) None else dynIndex d)"
  have ix: "p < length ix" "ix ! i = None \<or> ix ! i = Some i" if "i < length ix" for i
    using that D(7) by (auto simp: ix_def nth_append)
  then have p: "p < length ix" by (auto simp: ix_def)
  have old: "i < length ix \<and> ix ! i = Some i" if "i < length (dynIndex d)" "dynIndex d ! i = Some i" for i
    using that by (auto simp: ix_def nth_append)
  have d': "n = p + 1" "d' = d\<lparr>dynIndex := if ix ! p = None then ix[p := Some p] else ix\<rparr>"
    using assms(3) D(6) [OF assms(2)] by (auto simp: hb_dynsymToNum_def Let_def ix_def split: if_splits)
  show "n = p + 1" "d' = d\<lparr>dynIndex := dynIndex d'\<rparr>" using d' by simp_all
  show "p < length (dynIndex d')" using d' p by simp
  show "dynIndex d' ! p = Some p" using d' p ix(2) [OF p] by auto
  show "i < length (dynIndex d') \<Longrightarrow> dynIndex d' ! i = None \<or> dynIndex d' ! i = Some i" for i
    using d' ix(2) [of i] by (cases "i = p") (auto split: if_splits)
  show "i < length (dynIndex d) \<Longrightarrow> dynIndex d ! i = Some i \<Longrightarrow> i < length (dynIndex d') \<and> dynIndex d' ! i = Some i" for i
    using d' old [of i] by (cases "i = p") auto
qed

lemma hb_dynsymToNum_frame:
  assumes "dynInv d" "p < length (items d)" "hb_dynsymToNum d p = (n, d')"
  shows "dynInv d' \<and> hb_dynsymFind d' = hb_dynsymFind d"
proof -
  note T = hb_dynsymToNum_index [OF assms] and D = dynInvD [OF assms(1)]
  have e: "items d' = items d" "dyns d' = dyns d" "symbs d' = symbs d" by (subst T(2), simp)+
  show ?thesis
    by (rule dynInv_frame [OF assms(1)]) (use D(3,5) T(5) in \<open>simp_all add: e\<close>)
qed

lemma map_upd_same: "m x = Some p \<Longrightarrow> m = m(x \<mapsto> p)"
  by auto

lemma hb_dynsymGetCase_cases:
  assumes inv: "dynInv d"
  shows "case hb_dynsymGetCase d nm of
      Inl e \<Rightarrow> e = ERR_INTERNAL 6004 \<and> length (items d) = 2 ^ 16 - 1 \<and> hb_dynsymFind d nm = None
    | Inr (p, d') \<Rightarrow> dynInv d' \<and> hb_dynsymFind d' = (hb_dynsymFind d)(nm \<mapsto> p) \<and> dynName d' p = nm \<and>
        (\<forall>q. hb_dynsymFind d nm = Some q \<longrightarrow> p = q \<and> d' = d)"
proof (cases "hb_dynsymPos d nm")
  case (Pair r i)
  show ?thesis
  proof (cases r)
    case (Some p)
    then have f: "hb_dynsymFind d nm = Some p" using Pair by (simp add: hb_dynsymFind_pos)
    then have "dynName d p = nm" using hb_dynsymFind_iff [OF dynInvD(1) [OF inv]] by simp
    then show ?thesis
      using map_upd_same [of "hb_dynsymFind d" nm p] Some Pair inv f by (simp add: hb_dynsymGetCase_def)
  next
    case None
    then have find: "hb_dynsymFind d nm = None" using Pair by (simp add: hb_dynsymFind_pos)
    obtain s d1 where al: "hb_symbolAlloc d nm = (s, d1)" by fastforce
    note A = hb_symbolAlloc_frame [OF inv al]
    have "hb_dynsymPos d1 nm = hb_dynsymPos d nm"
    proof -
      obtain r' i' where p1: "hb_dynsymPos d1 nm = (r', i')" by fastforce
      have r': "r' = None" using A(1) find p1 hb_dynsymFind_pos [of d1 nm] by simp
      have lt: "p < length (items d)" if "p \<in> set (items d)" for p using that dynInvD(4) [OF inv] by auto
      have nm: "dynName d1 (items d ! j) = dynName d (items d ! j)" if "j < length (items d)" for j
        using A(6) lt that by simp
      note P = hb_dynsymPos_none [OF dynInvD(1) [OF inv] Pair [unfolded None]]
        and P1 = hb_dynsymPos_none [OF dynInvD(1) [OF conjunct1 [OF A(1)]] p1 [unfolded r'], unfolded A(5)]
      have "\<not> i < i'" using P(1,3) P1(1,2) nm by (metis less_asym order.strict_trans2 order_refl)
      moreover have "\<not> i' < i" using P(1,2) P1(1,3) nm by (metis less_asym order.strict_trans2 order_refl)
      ultimately show ?thesis using Pair p1 r' None by simp
    qed
    then have pos: "hb_dynsymPos d1 (szName (symbs d1 ! s)) = (None, i)" using A(3) Pair None by simp
    have g: "hb_dynsymGetCase d nm = hb_dynsymInsert d1 s i"
      using Pair None al by (simp add: hb_dynsymGetCase_def)
    show ?thesis
    proof (cases "hb_dynsymInsert d1 s i")
      case (Inl e)
      then show ?thesis using g find hb_dynsymInsert_error [of d1 s i e] dynInvD(2) [OF inv] A(5) by simp
    next
      case (Inr b)
      obtain p d' where b: "b = (p, d')" by fastforce
      show ?thesis
        using dynInsert [OF conjunct1 [OF A(1)] A(2) pos Inr [unfolded b]] A(1,3) find g Inr b by simp
    qed
  qed
qed

lemma hb_dynsymNew_cases:
  assumes inv: "dynInv d" and s: "s < length (symbs d)"
  shows "case hb_dynsymNew d s of
      Inl e \<Rightarrow> e = ERR_INTERNAL 6004 \<and> length (items d) = 2 ^ 16 - 1 \<and> hb_dynsymFind d (szName (symbs d ! s)) = None
    | Inr (p, d') \<Rightarrow> dynInv d' \<and> hb_dynsymFind d' = (hb_dynsymFind d)(szName (symbs d ! s) \<mapsto> p) \<and>
        (\<forall>q. hb_dynsymFind d (szName (symbs d ! s)) = Some q \<longrightarrow> p = q)"
proof (cases "hb_dynsymPos d (szName (symbs d ! s))")
  case (Pair r i)
  have find: "hb_dynsymFind d (szName (symbs d ! s)) = r" using Pair by (simp add: hb_dynsymFind_pos)
  show ?thesis
  proof (cases r)
    case None
    then have g: "hb_dynsymNew d s = hb_dynsymInsert d s i" using Pair by (simp add: hb_dynsymNew_def)
    show ?thesis
    proof (cases "hb_dynsymInsert d s i")
      case (Inl e)
      then show ?thesis using g find None hb_dynsymInsert_error [of d s i e] dynInvD(2) [OF inv] by simp
    next
      case (Inr b)
      obtain p d' where b: "b = (p, d')" by fastforce
      show ?thesis using dynInsert [OF inv s Pair [unfolded None] Inr [unfolded b]] g Inr b find None by simp
    qed
  next
    case (Some p)
    have "\<exists>q d'. hb_dynsymNew d s = Inr (q, d')"
      using Pair Some by (simp add: hb_dynsymNew_def Let_def split: option.split)
    then obtain q d' where new: "hb_dynsymNew d s = Inr (q, d')" by blast
    show ?thesis
      using hb_dynsymNew_frame [OF inv s new Pair [unfolded Some]] new find Some
        map_upd_same [of "hb_dynsymFind d" "szName (symbs d ! s)" p] by simp
  qed
qed

subsection \<open>Sequences of operations\<close>

text \<open>\<open>load\<close> stands for a module whose own \<open>HB_SYMB\<close> structures come into being; the other steps are
  calls of the functions above.\<close>

inductive dynStep :: "dynTable \<Rightarrow> dynTable \<Rightarrow> bool" where
  load: "dynStep d (d\<lparr>symbs := symbs d @ [sy]\<rparr>)"
| alloc: "hb_symbolNew d nm = (s, d') \<Longrightarrow> dynStep d d'"
| new: "s < length (symbs d) \<Longrightarrow> hb_dynsymNew d s = Inr (p, d') \<Longrightarrow> dynStep d d'"
| get: "hb_dynsymGetCase d nm = Inr (p, d') \<Longrightarrow> dynStep d d'"
| num: "p < length (items d) \<Longrightarrow> hb_dynsymToNum d p = (n, d') \<Longrightarrow> dynStep d d'"

inductive dynReach :: "dynTable \<Rightarrow> bool" where
  init: "dynReach dynsymInit"
| step: "dynReach d \<Longrightarrow> dynStep d d' \<Longrightarrow> dynReach d'"

lemma dynStep_inv:
  assumes "dynStep d d'" "dynInv d"
  shows "dynInv d' \<and> (\<forall>nm p. hb_dynsymFind d nm = Some p \<longrightarrow> hb_dynsymFind d' nm = Some p)"
  using assms
proof (induction rule: dynStep.induct)
  case (load d sy)
  have "dynInv (d\<lparr>symbs := symbs d @ [sy]\<rparr>) \<and> hb_dynsymFind (d\<lparr>symbs := symbs d @ [sy]\<rparr>) = hb_dynsymFind d"
    by (rule dynInv_frame [OF load]) (use dynInvD(3,5,7) [OF load] in \<open>simp_all add: nth_append less_SucI\<close>)
  then show ?case by simp
next
  case (alloc d nm s d')
  then show ?case using hb_symbolAlloc_frame(1) [of d nm s d'] by (simp add: hb_symbolNew_def)
next
  case (new s d p d')
  then show ?case using hb_dynsymNew_cases [of d s] by auto
next
  case (get d nm p d')
  then show ?case using hb_dynsymGetCase_cases [of d nm] by auto
next
  case (num p d n d')
  then show ?case using hb_dynsymToNum_frame [of d p n d'] by simp
qed

lemma dynReach_inv: "dynReach d \<Longrightarrow> dynInv d"
  by (induction rule: dynReach.induct) (use dynInv_init dynStep_inv in blast)+

inductive_cases dynStepE: "dynStep d d'"

lemma dynsymVerify_from_ok:
  assumes "dynSorted d"
  shows "dynsymVerify_from d i k = 0"
proof (induction k arbitrary: i)
  case (Suc k)
  have "0 < c_strcmp (dynName d (items d ! (i - 1))) (dynName d (items d ! i))"
    if "0 < i" "i < length (items d)"
    using assms that by (simp add: dynSorted_def sorted_wrt_iff_nth_less dynNames_def c_strcmp_simps)
  with Suc.IH [of "i + 1"] hb_dynsymPos_hit [OF assms, of i] show ?case
    by (fastforce simp: Let_def split: prod.split)
qed simp

fun walk :: "(nat \<Rightarrow> bool) \<Rightarrow> nat list \<Rightarrow> nat list" where
  "walk f [] = []"
| "walk f (p # ps) = p # (if f p then walk f ps else [])"

lemma dynsymProtectEval_from_walk:
  "length (items d) < i + k \<Longrightarrow> dynsymProtectEval_from f d i k = walk f (drop i (items d))"
  by (induction k arbitrary: i) (auto simp: Let_def Cons_nth_drop_Suc [symmetric])

lemma dynsymEval_from_walk:
  "length (items d) < i + k \<Longrightarrow> dynsymEval_from f d i k = walk f (drop (i + 1) (items d))"
  by (induction k arbitrary: i) (auto simp: Let_def Cons_nth_drop_Suc [symmetric])

subsection \<open>Properties\<close>

text \<open>C23. Looking up or creating a symbol: afterwards the table maps the name to the entry returned
  and every other name as before, an existing entry is returned without a change, and the only
  failure is a table of 65535 symbols without the name, which is the internal error 6004.\<close>

theorem hb_dynsymGetCase_spec:
  assumes "dynInv d"
  shows "case hb_dynsymGetCase d nm of
      Inl e \<Rightarrow> e = ERR_INTERNAL 6004 \<and> length (items d) = 2 ^ 16 - 1 \<and> hb_dynsymFind d nm = None
    | Inr (p, d') \<Rightarrow> dynInv d' \<and> hb_dynsymFind d' = (hb_dynsymFind d)(nm \<mapsto> p) \<and> dynName d' p = nm \<and>
        (\<forall>q. hb_dynsymFind d nm = Some q \<longrightarrow> p = q \<and> d' = d)"
  by (rule hb_dynsymGetCase_cases [OF assms])

theorem hb_dynsymGetCase_spec_witness:
  "case hb_dynsymGetCase dynsymInit ''MAIN'' of
      Inl e \<Rightarrow> e = ERR_INTERNAL 6004 \<and> length (items dynsymInit) = 2 ^ 16 - 1 \<and> hb_dynsymFind dynsymInit ''MAIN'' = None
    | Inr (p, d') \<Rightarrow> dynInv d' \<and> hb_dynsymFind d' = (hb_dynsymFind dynsymInit)(''MAIN'' \<mapsto> p) \<and>
        dynName d' p = ''MAIN'' \<and> (\<forall>q. hb_dynsymFind dynsymInit ''MAIN'' = Some q \<longrightarrow> p = q \<and> d' = dynsymInit)"
  by (rule hb_dynsymGetCase_spec [OF dynInv_init])

text \<open>C7. Along every sequence of operations from the empty table the array stays strictly sorted
  with one entry per name, the internal check \<open>hb_dynsymVerify\<close> reports no error, and a lookup finds
  exactly the entries of the table by their names.\<close>

theorem dynReach_verify:
  assumes "dynReach d"
  shows "dynInv d \<and> hb_dynsymVerify d = 0 \<and>
    (\<forall>nm p. hb_dynsymFind d nm = Some p \<longleftrightarrow> p \<in> set (items d) \<and> dynName d p = nm)"
  using dynReach_inv [OF assms] hb_dynsymFind_iff dynsymVerify_from_ok dynInvD(1)
  by (auto simp: hb_dynsymVerify_def simp del: dynsymVerify_from.simps)

theorem dynReach_verify_witness:
  "dynInv dynsymInit \<and> hb_dynsymVerify dynsymInit = 0 \<and>
    (\<forall>nm p. hb_dynsymFind dynsymInit nm = Some p \<longleftrightarrow> p \<in> set (items dynsymInit) \<and> dynName dynsymInit p = nm)"
  by (rule dynReach_verify [OF dynReach.init])

text \<open>C22. Pointers to dynamic symbols are stable: what a name resolves to never changes, whatever
  operation follows.\<close>

theorem dynStep_stable:
  assumes "dynReach d" "dynStep d d'" "hb_dynsymFind d nm = Some p"
  shows "hb_dynsymFind d' nm = Some p \<and> dynName d' p = nm"
  using dynStep_inv [OF assms(2) dynReach_inv [OF assms(1)]] assms(3) hb_dynsymFind_iff dynInvD(1) by blast

theorem dynStep_stable_witness:
  "\<exists>d d'. dynReach d \<and> dynStep d d' \<and> hb_dynsymFind d ''A'' = Some 0 \<and> hb_dynsymFind d' ''A'' = Some 0 \<and>
    dynName d' 0 = ''A''"
proof -
  define s where "s = snd (hb_symbolNew dynsymInit ''A'')"
  obtain p d where g: "hb_dynsymGetCase dynsymInit ''A'' = Inr (p, d)"
    by (simp add: hb_dynsymGetCase_def hb_dynsymPos_def hb_dynsymPos_loop.simps dynsymInit_def
        hb_symbolAlloc_def hb_dynsymInsert_def Let_def)
  then have p: "p = 0"
    by (auto simp: hb_dynsymGetCase_def hb_dynsymPos_def hb_dynsymPos_loop.simps dynsymInit_def
        hb_symbolAlloc_def hb_dynsymInsert_def Let_def)
  have r: "dynReach d" by (rule dynReach.step [OF dynReach.init dynStep.get [OF g]])
  have f: "hb_dynsymFind d ''A'' = Some 0"
    using hb_dynsymGetCase_cases [OF dynInv_init, of "''A''"] g p by simp
  obtain t d' where a: "hb_symbolNew d ''B'' = (t, d')" by fastforce
  show ?thesis
    using dynStep_stable [OF r dynStep.alloc [OF a] f] r dynStep.alloc [OF a] f by blast
qed

text \<open>A symbol number identifies its symbol: \<open>hb_dynsymFromNum\<close> gives back the symbol whose
  number \<open>hb_dynsymToNum\<close> returned, also after further numbers were asked for.\<close>

theorem hb_dynsymNum_roundtrip:
  assumes "dynReach d" "p < length (items d)" "q < length (items d)"
    and "hb_dynsymToNum d p = (n, d1)" "hb_dynsymToNum d1 q = (m, d2)"
  shows "hb_dynsymFromNum d1 (int n) = Some p \<and> hb_dynsymFromNum d2 (int n) = Some p"
proof -
  note I = dynReach_inv [OF assms(1)]
  note T = hb_dynsymToNum_index [OF I assms(2,4)]
  have it: "items d1 = items d" by (subst T(2)) simp
  note T2 = hb_dynsymToNum_index [OF conjunct1 [OF hb_dynsymToNum_frame [OF I assms(2,4)]] _ assms(5), unfolded it, OF assms(3)]
  show ?thesis using T(1,3,4) T2(6) [OF T(3,4)] by (simp add: hb_dynsymFromNum_def)
qed

theorem hb_dynsymNum_roundtrip_witness:
  "\<exists>d p n d1 d2. hb_dynsymGetCase dynsymInit ''A'' = Inr (p, d) \<and> hb_dynsymToNum d p = (n, d1) \<and>
    hb_dynsymFromNum d1 (int n) = Some p \<and> hb_dynsymFromNum d2 (int n) = Some p"
proof -
  obtain p d where g: "hb_dynsymGetCase dynsymInit ''A'' = Inr (p, d)" and l: "length (items d) = 1" "p = 0"
    by (simp add: hb_dynsymGetCase_def hb_dynsymPos_def hb_dynsymPos_loop.simps dynsymInit_def
        hb_symbolAlloc_def hb_dynsymInsert_def Let_def)
  have r: "dynReach d" by (rule dynReach.step [OF dynReach.init dynStep.get [OF g]])
  obtain n d1 where n: "hb_dynsymToNum d p = (n, d1)" by fastforce
  obtain m d2 where m: "hb_dynsymToNum d1 p = (m, d2)" by fastforce
  have p: "p < length (items d)" using l by simp
  show ?thesis using hb_dynsymNum_roundtrip [OF r p p n m] g n by blast
qed

text \<open>\<open>hb_dynsymProtectEval\<close> visits the entries from the first one on until the callback stops it;
  \<open>hb_dynsymEval\<close> does the same but never visits the first entry of the table.\<close>

theorem hb_dynsymEval_skips_first:
  "hb_dynsymProtectEval f d = walk f (items d) \<and> hb_dynsymEval f d = walk f (tl (items d))"
  by (simp add: hb_dynsymProtectEval_def hb_dynsymEval_def dynsymProtectEval_from_walk
      dynsymEval_from_walk drop_Suc del: dynsymProtectEval_from.simps dynsymEval_from.simps)

end
