(* ===== verification/HbDouble.thy ===== *)
theory HbDouble
  imports HbPrelude "HOL-Library.Log_Nat" Complex_Main
begin

text \<open>
  The C type \<open>double\<close>: IEEE 754 binary64 with round to nearest even, over rational numbers. A
  finite value is the rational number it stands for, so the two zeros are one value; infinities
  and NaN are values of their own. \<open>fround\<close> rounds a rational number to the nearest double;
  the operations compute exactly and round once, as the hardware does. The C \<open>long double\<close> is
  only used to compare, where every double and every 64 bit integer is exact.
\<close>

datatype dbl = DFin rat | DPosInf | DNegInf | DNaN

definition exp2r :: "int \<Rightarrow> rat" where
  "exp2r e = (if 0 \<le> e then 2 ^ nat e else 1 / 2 ^ nat (- e))"

text \<open>The exponent of a positive rational number: \<open>2 ^ blog x \<le> x < 2 ^ (blog x + 1)\<close>.\<close>

definition blog :: "rat \<Rightarrow> int" where
  "blog x = (let (n, d) = quotient_of x; e = bitlen n - bitlen d in if exp2r e \<le> x then e else e - 1)"

definition round_even :: "rat \<Rightarrow> int" where
  "round_even q =
     (let f = \<lfloor>q\<rfloor>; r = q - of_int f in
      if r < 1 / 2 then f else if 1 / 2 < r then f + 1 else if even f then f else f + 1)"

definition fround :: "rat \<Rightarrow> dbl" where
  "fround x =
     (if x = 0 then DFin 0
      else
        (let e = max (blog \<bar>x\<bar> - 52) (-1074);
             v = of_int (round_even (\<bar>x\<bar> / exp2r e)) * exp2r e
         in if exp2r 1024 \<le> v then (if x < 0 then DNegInf else DPosInf)
            else DFin (if x < 0 then - v else v)))"

definition dbl_of_int :: "int \<Rightarrow> dbl" where
  "dbl_of_int n = fround (of_int n)"

fun dneg :: "dbl \<Rightarrow> dbl" where
  "dneg (DFin a) = DFin (- a)"
| "dneg DPosInf = DNegInf"
| "dneg DNegInf = DPosInf"
| "dneg DNaN = DNaN"

fun dadd :: "dbl \<Rightarrow> dbl \<Rightarrow> dbl" where
  "dadd (DFin a) (DFin b) = fround (a + b)"
| "dadd DNaN y = DNaN"
| "dadd x DNaN = DNaN"
| "dadd DPosInf DNegInf = DNaN"
| "dadd DNegInf DPosInf = DNaN"
| "dadd DPosInf y = DPosInf"
| "dadd DNegInf y = DNegInf"
| "dadd x DPosInf = DPosInf"
| "dadd x DNegInf = DNegInf"

definition dsub :: "dbl \<Rightarrow> dbl \<Rightarrow> dbl" where
  "dsub x y = dadd x (dneg y)"

definition dinf :: "bool \<Rightarrow> dbl" where
  "dinf neg = (if neg then DNegInf else DPosInf)"

fun dmul :: "dbl \<Rightarrow> dbl \<Rightarrow> dbl" where
  "dmul (DFin a) (DFin b) = fround (a * b)"
| "dmul DNaN y = DNaN"
| "dmul x DNaN = DNaN"
| "dmul (DFin a) DPosInf = (if a = 0 then DNaN else dinf (a < 0))"
| "dmul (DFin a) DNegInf = (if a = 0 then DNaN else dinf (0 < a))"
| "dmul DPosInf (DFin b) = (if b = 0 then DNaN else dinf (b < 0))"
| "dmul DNegInf (DFin b) = (if b = 0 then DNaN else dinf (0 < b))"
| "dmul DPosInf DPosInf = DPosInf"
| "dmul DPosInf DNegInf = DNegInf"
| "dmul DNegInf DPosInf = DNegInf"
| "dmul DNegInf DNegInf = DPosInf"

text \<open>Division and \<open>fmod\<close>; the callers exclude a zero divisor.\<close>

fun ddiv :: "dbl \<Rightarrow> dbl \<Rightarrow> dbl" where
  "ddiv (DFin a) (DFin b) = (if b = 0 then (if a = 0 then DNaN else dinf (a < 0)) else fround (a / b))"
| "ddiv DNaN y = DNaN"
| "ddiv x DNaN = DNaN"
| "ddiv (DFin a) y = DFin 0"
| "ddiv DPosInf (DFin b) = dinf (b < 0)"
| "ddiv DNegInf (DFin b) = dinf (\<not> b < 0)"
| "ddiv x y = DNaN"

definition rtrunc :: "rat \<Rightarrow> int" where
  "rtrunc r = (if 0 \<le> r then \<lfloor>r\<rfloor> else - \<lfloor>- r\<rfloor>)"

fun dfmod :: "dbl \<Rightarrow> dbl \<Rightarrow> dbl" where
  "dfmod (DFin a) (DFin b) = (if b = 0 then DNaN else DFin (a - of_int (rtrunc (a / b)) * b))"
| "dfmod (DFin a) DPosInf = DFin a"
| "dfmod (DFin a) DNegInf = DFin a"
| "dfmod x y = DNaN"

fun dlt :: "dbl \<Rightarrow> dbl \<Rightarrow> bool" where
  "dlt (DFin a) (DFin b) \<longleftrightarrow> a < b"
| "dlt DNaN y \<longleftrightarrow> False"
| "dlt x DNaN \<longleftrightarrow> False"
| "dlt DNegInf y \<longleftrightarrow> y \<noteq> DNegInf"
| "dlt DPosInf y \<longleftrightarrow> False"
| "dlt x DPosInf \<longleftrightarrow> True"
| "dlt x DNegInf \<longleftrightarrow> False"

definition deq :: "dbl \<Rightarrow> dbl \<Rightarrow> bool" where
  "deq x y \<longleftrightarrow> x = y \<and> x \<noteq> DNaN"

definition dle :: "dbl \<Rightarrow> dbl \<Rightarrow> bool" where
  "dle x y \<longleftrightarrow> dlt x y \<or> deq x y"

text \<open>The cast to a 64 bit integer truncates. Out of range values are undefined in C; the value
  here is the one of the x86-64 conversion instruction.\<close>

definition int64_of_dbl :: "dbl \<Rightarrow> int" where
  "int64_of_dbl d =
     (case d of DFin r \<Rightarrow> (if is_int64 (rtrunc r) then rtrunc r else int64_min) | _ \<Rightarrow> int64_min)"

subsection \<open>Small integers are exact\<close>

lemma exp2r_pos [simp]: "0 < exp2r e"
  by (simp add: exp2r_def)

lemma exp2r_Suc: "exp2r (e + 1) = 2 * exp2r e"
proof (cases "0 \<le> e")
  case True
  then show ?thesis by (simp add: exp2r_def nat_add_distrib)
next
  case False
  then have "nat (- e) = Suc (nat (- (e + 1)))" by simp
  with False show ?thesis by (cases "e = -1") (simp_all add: exp2r_def)
qed

lemma exp2r_add_nat: "exp2r (e + int k) = 2 ^ k * exp2r e"
proof (induction k)
  case (Suc k)
  have "e + int (Suc k) = (e + int k) + 1" by simp
  with Suc show ?case by (simp only: exp2r_Suc power_Suc mult.assoc)
qed simp

lemma exp2r_mono: "a \<le> b \<Longrightarrow> exp2r a \<le> exp2r b"
  using exp2r_add_nat [of a "nat (b - a)"] by simp

lemma exp2r_less_imp: "exp2r a < exp2r b \<Longrightarrow> a < b"
  using exp2r_mono [of b a] by linarith

lemma exp2r_diff: "exp2r (a - b) = exp2r a / exp2r b"
proof (cases "b \<le> a")
  case True
  with exp2r_add_nat [of b "nat (a - b)"] show ?thesis
    by (simp add: field_simps) (simp add: exp2r_def)
next
  case False
  have "exp2r b = 2 ^ nat (b - a) * exp2r a" using False exp2r_add_nat [of a "nat (b - a)"] by simp
  moreover have "exp2r (a - b) = 1 / 2 ^ nat (b - a)" using False by (simp add: exp2r_def)
  moreover have "exp2r a \<noteq> 0" using exp2r_pos [of a] by (metis less_irrefl)
  ultimately show ?thesis by simp
qed

lemma bitlen_bounds_rat:
  assumes "0 < n"
  shows "exp2r (bitlen n - 1) \<le> of_int n" "of_int n < exp2r (bitlen n)"
proof -
  have "bitlen n \<noteq> 0" "0 \<le> bitlen n" using assms by (simp_all add: bitlen_eq_zero_iff bitlen_nonneg)
  then have b: "0 < bitlen n" "0 \<le> bitlen n - 1" by simp_all
  have "2 ^ nat (bitlen n - 1) \<le> n \<and> n < 2 ^ nat (bitlen n)" using bitlen_bounds [OF assms] by simp
  then have "(of_int (2 ^ nat (bitlen n - 1)) :: rat) \<le> of_int n" "(of_int n :: rat) < of_int (2 ^ nat (bitlen n))"
    by (simp_all only: of_int_le_iff of_int_less_iff)
  then show "exp2r (bitlen n - 1) \<le> of_int n" "of_int n < exp2r (bitlen n)"
    using b by (simp_all add: exp2r_def)
qed

lemma blog_le:
  assumes "0 < x"
  shows "exp2r (blog x) \<le> x"
proof -
  obtain n d where q: "quotient_of x = (n, d)" by fastforce
  have x: "x = of_int n / of_int d" and d: "0 < d"
    using quotient_of_div [OF q] quotient_of_denom_pos [OF q] by auto
  then have n: "0 < n" using assms by (simp add: zero_less_divide_iff)
  have "exp2r (bitlen n - bitlen d - 1) = exp2r (bitlen n - 1) / exp2r (bitlen d)"
    by (simp add: exp2r_diff [symmetric] algebra_simps)
  also have "\<dots> \<le> of_int n / of_int d"
    using bitlen_bounds_rat [OF n] bitlen_bounds_rat [OF d] d n by (intro frac_le) simp_all
  finally have "exp2r (bitlen n - bitlen d - 1) \<le> x" by (simp only: x)
  then show ?thesis
    by (simp add: blog_def q Let_def)
qed

lemma round_even_int [simp]: "round_even (of_int n) = n"
  by (simp add: round_even_def)

lemma fround_exact:
  assumes "x \<noteq> 0" "\<bar>x\<bar> < exp2r 1024"
    and "\<bar>x\<bar> / exp2r (max (blog \<bar>x\<bar> - 52) (-1074)) = of_int m"
  shows "fround x = DFin x"
proof -
  define E where "E = exp2r (max (blog \<bar>x\<bar> - 52) (-1074))"
  have "E \<noteq> 0" unfolding E_def by (metis exp2r_pos less_irrefl)
  then have v: "of_int m * E = \<bar>x\<bar>" using assms(3) [folded E_def] by (metis nonzero_eq_divide_eq)
  have "fround x = (if exp2r 1024 \<le> of_int (round_even (\<bar>x\<bar> / E)) * E then (if x < 0 then DNegInf else DPosInf)
      else DFin (if x < 0 then - (of_int (round_even (\<bar>x\<bar> / E)) * E) else of_int (round_even (\<bar>x\<bar> / E)) * E))"
    using assms(1) by (simp only: fround_def Let_def E_def if_False)
  also have "\<dots> = DFin x"
    unfolding assms(3) [folded E_def] round_even_int v using assms(2) by simp
  finally show ?thesis .
qed

lemma dbl_of_int_exact:
  assumes "\<bar>n\<bar> \<le> 2 ^ 53"
  shows "dbl_of_int n = DFin (of_int n)"
proof (cases "n = 0")
  case True
  then show ?thesis by (simp add: dbl_of_int_def fround_def)
next
  case False
  define x where "x = \<bar>of_int n :: rat\<bar>"
  have xi: "x = of_int \<bar>n\<bar>" by (simp add: x_def)
  have x: "0 < x" "x \<le> exp2r 53" using False assms by (simp_all add: xi exp2r_def flip: of_int_abs)
  define e where "e = max (blog x - 52) (-1074)"
  have bl: "exp2r (blog x) \<le> x" by (rule blog_le [OF x(1)])
  have "\<exists>m. x / exp2r e = of_int m"
  proof (cases "e \<le> 0")
    case True
    then have "x / exp2r e = of_int (\<bar>n\<bar> * 2 ^ nat (- e))"
      by (cases "e = 0") (simp_all add: xi exp2r_def)
    then show ?thesis by blast
  next
    case False
    have "\<not> 53 < blog x"
    proof
      assume "53 < blog x"
      then have "exp2r 54 \<le> exp2r (blog x)" by (intro exp2r_mono) simp
      with bl x(2) show False by (simp add: exp2r_def)
    qed
    with False have b: "blog x = 53" "e = 1" by (auto simp: e_def)
    then have "x = exp2r 53" using bl x(2) by simp
    then have "x / exp2r e = of_int (2 ^ 52)" using b by (simp add: exp2r_def)
    then show ?thesis by blast
  qed
  then obtain m where "x / exp2r e = of_int m" ..
  moreover have "x < exp2r 1024" using x(2) by (rule order_le_less_trans) (simp add: exp2r_def)
  ultimately show ?thesis
    unfolding dbl_of_int_def using False by (intro fround_exact) (simp_all add: x_def e_def)
qed

lemma dlt_trichotomy:
  assumes "x \<noteq> DNaN" "y \<noteq> DNaN"
  shows "(dlt x y \<and> \<not> deq x y \<and> \<not> dlt y x) \<or> (\<not> dlt x y \<and> deq x y \<and> \<not> dlt y x) \<or>
    (\<not> dlt x y \<and> \<not> deq x y \<and> dlt y x)"
  using assms by (cases x; cases y) (auto simp: deq_def)

lemma dlt_trans: "dlt x y \<Longrightarrow> dlt y z \<Longrightarrow> dlt x z"
  by (cases x; cases y; cases z) auto

lemma dneg_dneg [simp]: "dneg (dneg x) = x"
  by (cases x) auto

subsection \<open>Rounding errors\<close>

lemma round_even_near: "\<bar>of_int (round_even q) - q\<bar> \<le> 1 / 2"
proof -
  define r where "r = q - of_int \<lfloor>q\<rfloor>"
  have r: "0 \<le> r" "r < 1" "q = of_int \<lfloor>q\<rfloor> + r" by (simp_all add: r_def floor_less_iff) linarith+
  show ?thesis
    unfolding round_even_def Let_def r_def [symmetric] using r by (auto simp: abs_if)
qed

lemma fround_near:
  assumes "\<bar>x\<bar> < exp2r k" "-1021 \<le> k" "k \<le> 1000"
  obtains v where "fround x = DFin v" "\<bar>v - x\<bar> \<le> exp2r (k - 54)"
proof (cases "x = 0")
  case True
  then show ?thesis using that [of 0] by (simp add: fround_def less_imp_le)
next
  case False
  define e where "e = max (blog \<bar>x\<bar> - 52) (-1074)"
  define w where "w = of_int (round_even (\<bar>x\<bar> / exp2r e)) * exp2r e"
  have "exp2r (blog \<bar>x\<bar>) < exp2r k"
    using blog_le [of "\<bar>x\<bar>"] False assms(1) by simp
  then have "blog \<bar>x\<bar> < k" by (rule exp2r_less_imp)
  then have e: "e \<le> k - 53" using assms(2) by (simp add: e_def)
  have E: "0 < exp2r e" "exp2r e \<noteq> 0" by (simp, metis exp2r_pos less_irrefl)
  have "\<bar>w - \<bar>x\<bar>\<bar> = \<bar>of_int (round_even (\<bar>x\<bar> / exp2r e)) - \<bar>x\<bar> / exp2r e\<bar> * exp2r e"
  proof -
    have "w - \<bar>x\<bar> = (of_int (round_even (\<bar>x\<bar> / exp2r e)) - \<bar>x\<bar> / exp2r e) * exp2r e"
      using E(2) by (simp add: w_def left_diff_distrib)
    then show ?thesis using E(1) by (simp only: abs_mult abs_of_pos)
  qed
  also have "\<dots> \<le> 1 / 2 * exp2r e"
    by (rule mult_right_mono [OF round_even_near less_imp_le [OF E(1)]])
  also have "\<dots> = exp2r (e - 1)" using exp2r_Suc [of "e - 1"] by simp
  also have "\<dots> \<le> exp2r (k - 54)" using e by (intro exp2r_mono) simp
  finally have near: "\<bar>w - \<bar>x\<bar>\<bar> \<le> exp2r (k - 54)" .
  have "exp2r (k - 54) \<le> exp2r k" by (rule exp2r_mono) simp
  then have "w < 2 * exp2r k" using near assms(1) by linarith
  also have "\<dots> = exp2r (k + 1)" by (simp only: exp2r_Suc)
  also have "\<dots> \<le> exp2r 1024" using assms(3) by (intro exp2r_mono) simp
  finally have "fround x = DFin (if x < 0 then - w else w)"
    using False by (simp only: fround_def Let_def e_def [symmetric] w_def [symmetric] if_False not_le [symmetric])
  moreover have "\<bar>(if x < 0 then - w else w) - x\<bar> \<le> exp2r (k - 54)"
    using near by (auto simp: abs_if split: if_splits)
  ultimately show ?thesis using that by blast
qed

lemma rtrunc_half:
  assumes "\<bar>r - of_int n - 1 / 2\<bar> < 1 / 2" "0 \<le> n"
  shows "rtrunc r = n"
proof -
  have "of_int n < r" "r < of_int n + 1" using assms(1) unfolding abs_less_iff by linarith+
  moreover from this assms(2) have "0 \<le> r" by (metis less_imp_le of_int_0_le_iff order_trans)
  ultimately show ?thesis by (simp add: rtrunc_def floor_eq_iff)
qed

end
