(* ===== verification/HbItem.thy ===== *)
theory HbItem
  imports HbDouble HbDate "HOL-Library.List_Lexorder" "HOL-Library.Char_ord" "HOL-Library.Sublist"
begin

text \<open>
  The values of the virtual machine (\<open>HB_ITEM\<close> of \<open>include/hbapi.h\<close>) and the item functions of
  \<open>src/vm/itemapi.c\<close> the operators use, with the timestamp packing of \<open>src/common/hbdate.c\<close> and
  the substring search of \<open>src/common/hbstr.c\<close>.

  A numeric item carries the display width and, for doubles, the number of decimals next to its
  value. Arrays, hashes, code blocks, pointers and symbols are references; an array item also says
  whether it is an object. The type flags \<open>HB_IT_DEFAULT\<close> and \<open>HB_IT_MEMOFLAG\<close> are left out.
\<close>

subsection \<open>Items\<close>

datatype HB_ITEM =
    INil
  | ILogical bool
  | IInteger int nat
  | ILong int nat
  | IDouble dbl nat nat
  | IDate int
  | ITimeStamp int int
  | IString string
  | IPointer nat
  | IHash nat
  | IBlock nat
  | ISymbol nat "nat option"
  | IArray nat bool

text \<open>What the functions read from the environment: the \<open>SET\<close> values and the active collation
  (\<open>None\<close> when the code page sorts by byte), with the one that ignores case next to it.\<close>

record hbSet =
  HB_SET_DECIMALS :: nat
  HB_SET_EXACT :: bool
  cdpSort :: "(string \<Rightarrow> string \<Rightarrow> bool \<Rightarrow> int) option"
  cdpSortI :: "string \<Rightarrow> string \<Rightarrow> bool \<Rightarrow> int"

fun HB_IS_NUMINT :: "HB_ITEM \<Rightarrow> bool" where
  "HB_IS_NUMINT (IInteger v l) = True"
| "HB_IS_NUMINT (ILong v l) = True"
| "HB_IS_NUMINT _ = False"

fun HB_IS_NUMERIC :: "HB_ITEM \<Rightarrow> bool" where
  "HB_IS_NUMERIC (IDouble v l d) = True"
| "HB_IS_NUMERIC p = HB_IS_NUMINT p"

fun HB_IS_DOUBLE :: "HB_ITEM \<Rightarrow> bool" where
  "HB_IS_DOUBLE (IDouble v l d) = True"
| "HB_IS_DOUBLE _ = False"

fun HB_IS_INTEGER :: "HB_ITEM \<Rightarrow> bool" where
  "HB_IS_INTEGER (IInteger v l) = True"
| "HB_IS_INTEGER _ = False"

fun HB_IS_STRING :: "HB_ITEM \<Rightarrow> bool" where
  "HB_IS_STRING (IString s) = True"
| "HB_IS_STRING _ = False"

fun HB_IS_TIMESTAMP :: "HB_ITEM \<Rightarrow> bool" where
  "HB_IS_TIMESTAMP (ITimeStamp j t) = True"
| "HB_IS_TIMESTAMP _ = False"

fun HB_IS_DATETIME :: "HB_ITEM \<Rightarrow> bool" where
  "HB_IS_DATETIME (IDate j) = True"
| "HB_IS_DATETIME (ITimeStamp j t) = True"
| "HB_IS_DATETIME _ = False"

fun HB_IS_LOGICAL :: "HB_ITEM \<Rightarrow> bool" where
  "HB_IS_LOGICAL (ILogical b) = True"
| "HB_IS_LOGICAL _ = False"

fun strVal :: "HB_ITEM \<Rightarrow> string" where
  "strVal (IString s) = s"
| "strVal _ = []"

fun logVal :: "HB_ITEM \<Rightarrow> bool" where
  "logVal (ILogical b) = b"
| "logVal _ = False"

fun julianVal :: "HB_ITEM \<Rightarrow> int" where
  "julianVal (IDate j) = j"
| "julianVal (ITimeStamp j t) = j"
| "julianVal _ = 0"

fun timeVal :: "HB_ITEM \<Rightarrow> int" where
  "timeVal (ITimeStamp j t) = t"
| "timeVal _ = 0"

subsection \<open>Numbers\<close>

definition HB_INT_LENGTH :: "int \<Rightarrow> nat" where
  "HB_INT_LENGTH i = (if i < -999999999 \<or> 999999999 < i then 20 else 10)"
definition HB_INT_EXPLENGTH :: "int \<Rightarrow> nat" where
  "HB_INT_EXPLENGTH i = (if i < -999999999 then 20 else 10)"
definition HB_LONG_LENGTH :: "int \<Rightarrow> nat" where
  "HB_LONG_LENGTH l = (if l < -999999999 \<or> 9999999999 < l then 20 else 10)"
definition HB_LONG_EXPLENGTH :: "int \<Rightarrow> nat" where
  "HB_LONG_EXPLENGTH l = HB_LONG_LENGTH l"
definition HB_DBL_LENGTH :: "dbl \<Rightarrow> nat" where
  "HB_DBL_LENGTH d = (if dlt (DFin 9999999999) d \<or> dlt d (DFin (-999999999)) then 20 else 10)"
definition HB_DEFAULT_DECIMALS :: nat where "HB_DEFAULT_DECIMALS = 255"

fun HB_ITEM_GET_NUMINTRAW :: "HB_ITEM \<Rightarrow> int" where
  "HB_ITEM_GET_NUMINTRAW (IInteger v l) = v"
| "HB_ITEM_GET_NUMINTRAW (ILong v l) = v"
| "HB_ITEM_GET_NUMINTRAW _ = 0"

definition HB_ITEM_PUT_NUMINTRAW :: "int \<Rightarrow> HB_ITEM" where
  "HB_ITEM_PUT_NUMINTRAW v =
     (if is_int32 v then IInteger v (HB_INT_EXPLENGTH v) else ILong v (HB_LONG_EXPLENGTH v))"

definition HB_ITEM_PUT_LONGRAW :: "int \<Rightarrow> HB_ITEM" where
  "HB_ITEM_PUT_LONGRAW v = ILong v (HB_LONG_LENGTH v)"

fun hb_itemGetND :: "HB_ITEM \<Rightarrow> dbl" where
  "hb_itemGetND (IDouble v l d) = v"
| "hb_itemGetND (IInteger v l) = dbl_of_int v"
| "hb_itemGetND (ILong v l) = dbl_of_int v"
| "hb_itemGetND _ = DFin 0"

definition HB_ITEM_GET_NUMDBLRAW :: "HB_ITEM \<Rightarrow> dbl" where
  "HB_ITEM_GET_NUMDBLRAW p = hb_itemGetND p"

fun hb_itemGetNDDec :: "HB_ITEM \<Rightarrow> dbl \<times> nat" where
  "hb_itemGetNDDec (IInteger v l) = (dbl_of_int v, 0)"
| "hb_itemGetNDDec (ILong v l) = (dbl_of_int v, 0)"
| "hb_itemGetNDDec (IDouble v l d) = (v, d)"
| "hb_itemGetNDDec _ = (DFin 0, 0)"

fun hb_itemGetNL :: "HB_ITEM \<Rightarrow> int" where
  "hb_itemGetNL (ILong v l) = v"
| "hb_itemGetNL (IInteger v l) = v"
| "hb_itemGetNL (IDouble v l d) = int64_of_dbl v"
| "hb_itemGetNL _ = 0"

definition hb_itemGetDL :: "HB_ITEM \<Rightarrow> int" where
  "hb_itemGetDL p = (if HB_IS_DATETIME p then julianVal p else 0)"

definition hb_itemPutDL :: "int \<Rightarrow> HB_ITEM" where
  "hb_itemPutDL lJulian = IDate lJulian"

definition hb_itemPutTDT :: "int \<Rightarrow> int \<Rightarrow> HB_ITEM" where
  "hb_itemPutTDT lJulian lMilliSec = ITimeStamp lJulian lMilliSec"

definition hb_itemPutNI :: "int \<Rightarrow> HB_ITEM" where
  "hb_itemPutNI v = IInteger v (HB_INT_LENGTH v)"

definition hb_itemPutNLL :: "int \<Rightarrow> HB_ITEM" where
  "hb_itemPutNLL v = ILong v (HB_LONG_LENGTH v)"

definition hb_itemPutND :: "hbSet \<Rightarrow> dbl \<Rightarrow> HB_ITEM" where
  "hb_itemPutND st dNumber = IDouble dNumber (HB_DBL_LENGTH dNumber) (HB_SET_DECIMALS st mod 2 ^ 16)"

definition hb_itemPutNDDec :: "hbSet \<Rightarrow> dbl \<Rightarrow> nat \<Rightarrow> HB_ITEM" where
  "hb_itemPutNDDec st dNumber iDec =
     IDouble dNumber (HB_DBL_LENGTH dNumber)
       (if iDec = HB_DEFAULT_DECIMALS then HB_SET_DECIMALS st mod 2 ^ 16 else iDec mod 2 ^ 16)"

text \<open>The limits are compared in \<open>long double\<close>, which holds both sides exactly.\<close>

definition HB_DBL_LIM :: "int \<Rightarrow> int \<Rightarrow> dbl \<Rightarrow> bool" where
  "HB_DBL_LIM lo hi d \<longleftrightarrow> (case d of DFin r \<Rightarrow> of_int lo \<le> r \<and> r \<le> of_int hi | _ \<Rightarrow> False)"

definition hb_itemPutNumType :: "hbSet \<Rightarrow> dbl \<Rightarrow> nat \<Rightarrow> bool \<Rightarrow> bool \<Rightarrow> HB_ITEM" where
  "hb_itemPutNumType st dNumber iDec fDouble1 fDouble2 =
     (if iDec \<noteq> 0 \<or> fDouble1 \<or> fDouble2 then hb_itemPutNDDec st dNumber iDec
      else if HB_DBL_LIM int32_min int32_max dNumber then hb_itemPutNI (int64_of_dbl dNumber)
      else if HB_DBL_LIM int64_min int64_max dNumber then hb_itemPutNLL (int64_of_dbl dNumber)
      else hb_itemPutND st dNumber)"

subsection \<open>Packed timestamps\<close>

definition hb_timeStampPackDT :: "int \<Rightarrow> int \<Rightarrow> dbl" where
  "hb_timeStampPackDT lJulian lMilliSec =
     dadd (dbl_of_int lJulian) (ddiv (dbl_of_int lMilliSec) (dbl_of_int HB_MILLISECS_PER_DAY))"

definition hb_timeStampUnpackDT :: "dbl \<Rightarrow> int \<times> int" where
  "hb_timeStampUnpackDT dTimeStamp =
     (let llMilliSec = int64_of_dbl (dadd (dmul dTimeStamp (dbl_of_int HB_MILLISECS_PER_DAY)) (DFin (1 / 2)))
      in (llMilliSec sdiv HB_MILLISECS_PER_DAY, llMilliSec smod HB_MILLISECS_PER_DAY))"

definition hb_timeStampPack :: "int \<Rightarrow> int \<Rightarrow> int \<Rightarrow> int \<Rightarrow> int \<Rightarrow> int \<Rightarrow> int \<Rightarrow> dbl" where
  "hb_timeStampPack iYear iMonth iDay iHour iMinutes iSeconds iMSec =
     (if 0 \<le> iHour \<and> iHour < 24 \<and> 0 \<le> iMinutes \<and> iMinutes < 60 \<and> 0 \<le> iSeconds \<and> iSeconds < 60 \<and>
         0 \<le> iMSec \<and> iMSec < 1000 then
        (let lJulian = hb_dateEncode iYear iMonth iDay in
         if lJulian \<noteq> 0 \<or> iYear = 0 \<and> iMonth = 0 \<and> iDay = 0 then
           dadd (dbl_of_int lJulian)
             (ddiv (dbl_of_int (((iHour * 60 + iMinutes) * 60 + iSeconds) * 1000 + iMSec))
                (dbl_of_int HB_MILLISECS_PER_DAY))
         else DFin 0)
      else DFin 0)"

definition hb_timeStampUnpack :: "dbl \<Rightarrow> (int \<times> int \<times> int) \<times> (int \<times> int \<times> int \<times> int)" where
  "hb_timeStampUnpack dTimeStamp =
     (let (lJulian, lMilliSec) = hb_timeStampUnpackDT dTimeStamp
      in (hb_dateDecode lJulian, hb_timeDecode lMilliSec))"

subsection \<open>Strings\<close>

text \<open>\<open>hb_strAt\<close>: the inner loop compares the bytes after the first one from the end.\<close>

fun strAt_sub :: "string \<Rightarrow> string \<Rightarrow> nat \<Rightarrow> nat \<Rightarrow> bool" where
  "strAt_sub szText szSub nPos 0 = False"
| "strAt_sub szText szSub nPos (Suc n) =
     (if n = 0 then True
      else if szText ! (nPos + n) = szSub ! n then strAt_sub szText szSub nPos n
      else False)"

function strAt_loop :: "string \<Rightarrow> string \<Rightarrow> nat \<Rightarrow> nat \<Rightarrow> nat" where
  "strAt_loop szText szSub nLen nPos =
     (if szText ! nPos = szSub ! 0 \<and> strAt_sub szText szSub nPos (length szSub) then nPos + 1
      else if nPos < nLen then strAt_loop szText szSub nLen (nPos + 1)
      else 0)"
  by pat_completeness auto
termination
  by (relation "measure (\<lambda>(t, s, n, p). n - p)") auto

declare strAt_loop.simps [simp del]

definition hb_strAt :: "string \<Rightarrow> string \<Rightarrow> nat" where
  "hb_strAt szSub szText =
     (if 0 < length szSub \<and> length szSub \<le> length szText
      then strAt_loop szText szSub (length szText - length szSub) 0 else 0)"

text \<open>\<open>hb_itemStrCmp\<close>, without its shortcut for two items that share one buffer: with \<open>SET EXACT\<close> the longer string first loses trailing blanks.\<close>

fun trim_len :: "string \<Rightarrow> nat \<Rightarrow> nat \<Rightarrow> nat" where
  "trim_len s 0 m = 0"
| "trim_len s (Suc n) m = (if m < Suc n \<and> s ! n = CHR '' '' then trim_len s n m else Suc n)"

fun cmp_bytes :: "string \<Rightarrow> string \<Rightarrow> int" where
  "cmp_bytes (x # xs) (y # ys) =
     (if x \<noteq> y then (if (of_char x :: nat) < of_char y then -1 else 1) else cmp_bytes xs ys)"
| "cmp_bytes _ _ = 0"

definition hb_itemStrCmp :: "hbSet \<Rightarrow> string \<Rightarrow> string \<Rightarrow> bool \<Rightarrow> int" where
  "hb_itemStrCmp st szFirst szSecond bForceExact =
     (let trim = \<not> bForceExact \<and> HB_SET_EXACT st;
          nLenFirst = (if trim then trim_len szFirst (length szFirst) (length szSecond) else length szFirst);
          nLenSecond = (if trim then trim_len szSecond (length szSecond) nLenFirst else length szSecond);
          exact = bForceExact \<or> trim;
          nMinLen = (if nLenFirst < nLenSecond then nLenFirst else nLenSecond)
      in if nMinLen \<noteq> 0 then
           (case cdpSort st of
              Some cdpcmp \<Rightarrow> cdpcmp (take nLenFirst szFirst) (take nLenSecond szSecond) exact
            | None \<Rightarrow>
                (let iRet = cmp_bytes (take nMinLen szFirst) (take nMinLen szSecond) in
                 if iRet = 0 \<and> nLenFirst \<noteq> nLenSecond \<and> (exact \<or> nLenFirst < nLenSecond)
                 then (if nLenFirst < nLenSecond then -1 else 1) else iRet))
         else if nLenFirst \<noteq> nLenSecond then
           (if exact then (if nLenFirst < nLenSecond then -1 else 1) else if nLenSecond = 0 then 0 else -1)
         else 0)"

subsection \<open>Substring search and string order\<close>

lemma strAt_sub_iff:
  "0 < n \<Longrightarrow> strAt_sub t s p n \<longleftrightarrow> (\<forall>k. 0 < k \<longrightarrow> k < n \<longrightarrow> t ! (p + k) = s ! k)"
proof (induction n)
  case (Suc n)
  show ?case
  proof (cases "n = 0")
    case False
    with Suc.IH have "strAt_sub t s p n \<longleftrightarrow> (\<forall>k. 0 < k \<longrightarrow> k < n \<longrightarrow> t ! (p + k) = s ! k)" by simp
    with False show ?thesis by (auto simp: less_Suc_eq)
  qed simp
qed simp

definition occurs_at :: "string \<Rightarrow> string \<Rightarrow> nat \<Rightarrow> bool" where
  "occurs_at s t p \<longleftrightarrow> p + length s \<le> length t \<and> take (length s) (drop p t) = s"

lemma occurs_at_iff:
  assumes "s \<noteq> []" "p + length s \<le> length t"
  shows "occurs_at s t p \<longleftrightarrow> t ! p = s ! 0 \<and> strAt_sub t s p (length s)"
proof -
  have "take (length s) (drop p t) = s \<longleftrightarrow> (\<forall>k < length s. t ! (p + k) = s ! k)"
    using assms(2) by (auto simp: list_eq_iff_nth_eq)
  also have "\<dots> \<longleftrightarrow> t ! p = s ! 0 \<and> (\<forall>k. 0 < k \<longrightarrow> k < length s \<longrightarrow> t ! (p + k) = s ! k)"
    using assms(1) by (metis add.right_neutral length_greater_0_conv neq0_conv)
  finally show ?thesis using assms by (simp add: occurs_at_def strAt_sub_iff)
qed

lemma strAt_loop_spec:
  assumes "s \<noteq> []" "n + length s = length t" "p \<le> n"
  shows "case strAt_loop t s n p of
      0 \<Rightarrow> \<forall>q. p \<le> q \<longrightarrow> \<not> occurs_at s t q
    | Suc q \<Rightarrow> p \<le> q \<and> occurs_at s t q \<and> (\<forall>r. p \<le> r \<longrightarrow> r < q \<longrightarrow> \<not> occurs_at s t r)"
  using assms
proof (induction t s n p rule: strAt_loop.induct)
  case (1 t s n p)
  have o: "occurs_at s t p \<longleftrightarrow> t ! p = s ! 0 \<and> strAt_sub t s p (length s)"
    using occurs_at_iff [of s p t] "1.prems" by simp
  note eq = strAt_loop.simps [of t s n p]
  show ?case
  proof (cases "occurs_at s t p")
    case True
    then show ?thesis unfolding eq using o by simp
  next
    case False
    then have no: "\<not> (t ! p = s ! 0 \<and> strAt_sub t s p (length s))" using o by blast
    show ?thesis
    proof (cases "p < n")
      case True
      have step: "strAt_loop t s n p = strAt_loop t s n (p + 1)" unfolding eq if_not_P [OF no] using True by simp
      have "\<And>q. p \<le> q \<Longrightarrow> q = p \<or> p + 1 \<le> q" by linarith
      with "1.IH" False o True "1.prems" show ?thesis
        unfolding step by (auto split: nat.splits)
    next
      case out: False
      have "\<not> occurs_at s t q" if "p \<le> q" for q
        using False out that "1.prems" by (cases "q = p") (auto simp: occurs_at_def)
      moreover have "strAt_loop t s n p = 0" unfolding eq if_not_P [OF no] using out by simp
      ultimately show ?thesis by simp
    qed
  qed
qed

lemma cmp_bytes_order:
  assumes "length a = length b"
  shows "cmp_bytes a b = (if a < b then -1 else if a = b then 0 else 1)"
  using assms by (induction a b rule: list_induct2) (auto simp: less_char_def order_less_le)

lemma cmp_bytes_prefix:
  "cmp_bytes (take (min (length a) (length b)) a) (take (min (length a) (length b)) b) =
    (if prefix a b \<or> prefix b a then 0 else if a < b then -1 else 1)"
proof (induction a arbitrary: b)
  case (Cons x a)
  show ?case
  proof (cases b)
    case (Cons y b')
    then show ?thesis using Cons.IH [of b'] by (auto simp: less_char_def order_less_le)
  qed simp
qed simp

lemma cmp_bytes_0: "length a = length b \<Longrightarrow> cmp_bytes a b = 0 \<longleftrightarrow> a = b"
  by (simp add: cmp_bytes_order)

lemma strCmp_exact_order:
  assumes "cdpSort st = None"
  shows "hb_itemStrCmp st a b True = (if a < b then -1 else if a = b then 0 else 1)"
proof -
  have p: "prefix a b \<Longrightarrow> a \<noteq> b \<Longrightarrow> a < b" for a b :: string
  proof -
    assume "prefix a b" "a \<noteq> b"
    then obtain c z where "b = a @ c # z" by (metis append_self_conv neq_Nil_conv prefixE)
    then show "a < b" by (simp add: list_less_def lexord_append_rightI)
  qed
  have m: "(if length a < length b then length a else length b) = min (length a) (length b)" by simp
  note c = cmp_bytes_prefix [of a b]
  show ?thesis
  proof (cases "min (length a) (length b) = 0")
    case True
    then have "a = [] \<or> b = []" by (auto simp: min_def split: if_splits)
    then show ?thesis using p [of a b] p [of b a] by (auto simp: hb_itemStrCmp_def Let_def)
  next
    case False
    then have h: "hb_itemStrCmp st a b True =
        (let iRet = cmp_bytes (take (min (length a) (length b)) a) (take (min (length a) (length b)) b) in
         if iRet = 0 \<and> length a \<noteq> length b then (if length a < length b then -1 else 1) else iRet)"
      by (simp only: hb_itemStrCmp_def Let_def assms not_True_eq_False simp_thms if_False if_True option.case m)
    consider (eq) "a = b" | (pa) "prefix a b" "a \<noteq> b" | (pb) "prefix b a" "a \<noteq> b" | (no) "\<not> prefix a b" "\<not> prefix b a"
      by blast
    then show ?thesis
    proof cases
      case eq
      then show ?thesis unfolding h c by simp
    next
      case pa
      then have "length a < length b" by (simp add: prefix_length_less strict_prefix_def)
      then show ?thesis unfolding h c Let_def using pa p [OF pa] by simp
    next
      case pb
      then have l: "length b < length a" by (simp add: prefix_length_less strict_prefix_def)
      have "b < a" using p [of b a] pb by simp
      then show ?thesis unfolding h c Let_def using pb l by (auto dest: less_asym)
    next
      case no
      then have "a \<noteq> b" by auto
      with no show ?thesis unfolding h c Let_def by simp
    qed
  qed
qed

lemma strCmp_prefix:
  assumes "cdpSort st = None" "\<not> HB_SET_EXACT st"
  shows "hb_itemStrCmp st a b False = 0 \<longleftrightarrow> prefix b a"
proof -
  have m: "(if length a < length b then length a else length b) = min (length a) (length b)" by simp
  note c = cmp_bytes_prefix [of a b]
  show ?thesis
  proof (cases "min (length a) (length b) = 0")
    case True
    then have "a = [] \<or> b = []" by (auto simp: min_def split: if_splits)
    then show ?thesis using assms by (auto simp: hb_itemStrCmp_def Let_def)
  next
    case False
    then have h: "hb_itemStrCmp st a b False =
        (let iRet = cmp_bytes (take (min (length a) (length b)) a) (take (min (length a) (length b)) b) in
         if iRet = 0 \<and> length a \<noteq> length b \<and> length a < length b then (if length a < length b then -1 else 1)
         else iRet)"
      using assms(2)
      by (simp only: hb_itemStrCmp_def Let_def assms(1) not_False_eq_True simp_thms if_False if_True option.case m)
    show ?thesis
    proof (cases "prefix b a")
      case True
      then have "\<not> length a < length b" using prefix_length_le by fastforce
      with True show ?thesis unfolding h c Let_def by simp
    next
      case nb: False
      show ?thesis
      proof (cases "prefix a b")
        case True
        then have "length a < length b" using nb by (metis prefix_length_less prefix_order.order_refl strict_prefix_def)
        with True nb show ?thesis unfolding h c Let_def by simp
      next
        case na: False
        show ?thesis unfolding h c Let_def using na nb by simp
      qed
    qed
  qed
qed

definition rtrim :: "string \<Rightarrow> string" where
  "rtrim s = rev (dropWhile (\<lambda>c. c = CHR '' '') (rev s))"

lemma rtrim_append [simp]: "rtrim (s @ [c]) = (if c = CHR '' '' then rtrim s else s @ [c])"
  by (simp add: rtrim_def)

lemma rtrim_Nil [simp]: "rtrim [] = []"
  by (simp add: rtrim_def)

lemma rtrim_blanks: "rtrim (s @ replicate k (CHR '' '')) = rtrim s"
  by (induction k) (simp_all add: replicate_append_same [symmetric] flip: append_assoc)

lemma rtrim_decomp: "\<exists>k. s = rtrim s @ replicate k (CHR '' '')"
proof (induction s rule: rev_induct)
  case (snoc c s)
  then obtain k where "s = rtrim s @ replicate k (CHR '' '')" ..
  then have "s @ [CHR '' ''] = rtrim s @ replicate (Suc k) (CHR '' '')"
    by (metis append.assoc replicate_Suc replicate_append_same)
  then show ?case
    by (cases "c = CHR '' ''") (metis rtrim_append, auto intro: exI [of _ 0])
qed simp

lemma rtrim_rtrim [simp]: "rtrim (rtrim s) = rtrim s"
  by (metis rtrim_blanks rtrim_decomp)

lemma length_rtrim: "length (rtrim s) \<le> length s"
  by (metis length_append le_add1 rtrim_decomp)

lemma take_rtrim:
  assumes "length (rtrim s) \<le> k"
  shows "take k s = rtrim s @ replicate (min k (length s) - length (rtrim s)) (CHR '' '')"
proof -
  obtain n where n: "s = rtrim s @ replicate n (CHR '' '')" using rtrim_decomp by blast
  then have l: "length s = length (rtrim s) + n" by (metis length_append length_replicate)
  have "take k s = take k (rtrim s @ replicate n (CHR '' ''))" using n by simp
  also have "\<dots> = rtrim s @ replicate (min k (length s) - length (rtrim s)) (CHR '' '')"
    using assms l by (simp add: min_def) arith
  finally show ?thesis .
qed

lemma rtrim_take: "length (rtrim s) \<le> k \<Longrightarrow> rtrim (take k s) = rtrim s"
  by (simp add: take_rtrim rtrim_blanks)

lemma trim_len:
  "n \<le> length s \<Longrightarrow> trim_len s n m = (if n \<le> m then n else max m (length (rtrim (take n s))))"
proof (induction n)
  case (Suc n)
  then show ?case using length_rtrim [of "take n s"]
    by (auto simp: take_Suc_conv_app_nth max_def not_le less_Suc_eq)
qed simp

lemma strCmp_trim:
  assumes "cdpSort st = None" "HB_SET_EXACT st"
  defines "la \<equiv> \<lambda>a b :: string. if length a \<le> length b then length a else max (length b) (length (rtrim a))"
  shows "hb_itemStrCmp st a b False =
    hb_itemStrCmp st (take (la a b) a) (take (if length b \<le> la a b then length b else max (la a b) (length (rtrim b))) b) True"
proof -
  define k where "k = la a b"
  have k: "trim_len a (length a) (length b) = k" by (simp add: trim_len la_def k_def)
  define j where "j = (if length b \<le> k then length b else max k (length (rtrim b)))"
  have j: "trim_len b (length b) k = j" by (simp add: trim_len j_def)
  have l: "length (take k a) = k" "length (take j b) = j"
    using length_rtrim [of a] length_rtrim [of b] by (auto simp: k_def la_def j_def)
  have t: "take (if k < j then k else j) (take k a) = take (if k < j then k else j) a"
    "take (if k < j then k else j) (take j b) = take (if k < j then k else j) b" by simp_all
  show ?thesis
    unfolding k_def [symmetric] j_def [symmetric] using assms(2)
    by (simp only: hb_itemStrCmp_def Let_def assms(1) simp_thms not_True_eq_False not_False_eq_True
        if_True if_False option.case k j l t)
qed

lemma strCmp_exact_on:
  assumes "cdpSort st = None" "HB_SET_EXACT st"
  shows "hb_itemStrCmp st a b False = 0 \<longleftrightarrow> rtrim a = rtrim b"
proof -
  define k where "k = (if length a \<le> length b then length a else max (length b) (length (rtrim a)))"
  define j where "j = (if length b \<le> k then length b else max k (length (rtrim b)))"
  have "hb_itemStrCmp st a b False = 0 \<longleftrightarrow> take k a = take j b"
    unfolding strCmp_trim [OF assms] k_def [symmetric] j_def [symmetric] strCmp_exact_order [OF assms(1)] by simp
  also have "\<dots> \<longleftrightarrow> rtrim a = rtrim b"
  proof
    have ka: "length (rtrim a) \<le> k" "length (rtrim b) \<le> j"
      using length_rtrim [of a] length_rtrim [of b] by (auto simp: k_def j_def)
    show "rtrim a = rtrim b" if "take k a = take j b"
      using rtrim_take [OF ka(1)] rtrim_take [OF ka(2)] that by simp
    show "take k a = take j b" if r: "rtrim a = rtrim b"
    proof -
      have "min k (length a) = min j (length b)"
        using length_rtrim [of a] length_rtrim [of b] r by (auto simp: k_def j_def)
      then show ?thesis unfolding take_rtrim [OF ka(1)] take_rtrim [OF ka(2)] using r by simp
    qed
  qed
  finally show ?thesis .
qed

lemma pack_near:
  assumes "0 \<le> j" "j < 2 ^ 23" "0 \<le> t" "t < HB_MILLISECS_PER_DAY"
  obtains p where "hb_timeStampPackDT j t = DFin p"
    "\<bar>p * of_int HB_MILLISECS_PER_DAY - of_int (j * HB_MILLISECS_PER_DAY + t)\<bar> \<le> 1 / 8"
proof -
  define D :: int where "D = HB_MILLISECS_PER_DAY"
  have D: "D = 86400000" by (simp add: D_def HB_MILLISECS_PER_DAY_def)
  have t: "0 \<le> t" "t < D" using assms(3,4) by (simp_all add: D_def)
  have ex: "dbl_of_int j = DFin (of_int j)" "dbl_of_int t = DFin (of_int t)" "dbl_of_int D = DFin (of_int D)"
    using assms t by (simp_all add: dbl_of_int_exact D)
  define q where "q = (of_int t / of_int D :: rat)"
  have q: "0 \<le> q" "q < 1" using t by (simp_all add: q_def D)
  obtain a where a: "fround q = DFin a" "\<bar>a - q\<bar> \<le> exp2r (1 - 54)"
    by (rule fround_near [of q 1]) (use q in \<open>simp_all add: exp2r_def\<close>)
  have a2: "\<bar>of_int j + a\<bar> < exp2r 24"
  proof -
    have "of_int j < (2 ^ 23 :: rat)" using assms(2) by (metis of_int_less_iff of_int_numeral of_int_power)
    moreover have "0 \<le> (of_int j :: rat)" using assms(1) by simp
    ultimately show ?thesis using a(2) q by (simp add: exp2r_def abs_if split: if_splits)
  qed
  obtain p where p: "fround (of_int j + a) = DFin p" "\<bar>p - (of_int j + a)\<bar> \<le> exp2r (24 - 54)"
    by (rule fround_near [OF a2]) simp_all
  have pack: "hb_timeStampPackDT j t = DFin p"
    unfolding hb_timeStampPackDT_def D_def [symmetric] ex using a(1) p(1) t by (simp add: q_def D)
  define x where "x = (of_int j + q :: rat)"
  have xn: "x * of_int D = of_int (j * D + t)" by (simp add: x_def q_def D field_simps)
  have px: "\<bar>p - x\<bar> \<le> exp2r (-30) + exp2r (-53)"
    using p(2) a(2) unfolding x_def abs_le_iff by simp
  have "\<bar>p * of_int D - of_int (j * D + t)\<bar> = \<bar>p - x\<bar> * of_int D"
    unfolding xn [symmetric] left_diff_distrib [symmetric] abs_mult by (simp add: D)
  also have "\<dots> \<le> (exp2r (-30) + exp2r (-53)) * of_int D" using px by (intro mult_right_mono) (simp_all add: D)
  also have "\<dots> \<le> 1 / 8" by (simp add: exp2r_def D)
  finally show ?thesis using that pack by (simp add: D_def)
qed

lemma unpack_near:
  assumes "\<bar>p * of_int HB_MILLISECS_PER_DAY - of_int n\<bar> \<le> 1 / 8" "\<bar>n\<bar> < 724775731200000"
  obtains s where "dadd (dmul (DFin p) (dbl_of_int HB_MILLISECS_PER_DAY)) (DFin (1 / 2)) = DFin s"
    "\<bar>s - of_int n - 1 / 2\<bar> \<le> 3 / 8"
proof -
  define D :: int where "D = HB_MILLISECS_PER_DAY"
  have ex: "dbl_of_int D = DFin (of_int D)"
    by (simp add: dbl_of_int_exact D_def HB_MILLISECS_PER_DAY_def)
  note pD = assms(1) [folded D_def]
  have nr: "\<bar>of_int n :: rat\<bar> < 724775731200000"
    using assms(2) by (metis of_int_abs of_int_less_iff of_int_numeral)
  have b1: "\<bar>p * of_int D\<bar> < exp2r 50"
    using pD nr unfolding abs_le_iff abs_less_iff by (simp add: exp2r_def)
  obtain m where m: "fround (p * of_int D) = DFin m" "\<bar>m - p * of_int D\<bar> \<le> exp2r (50 - 54)"
    by (rule fround_near [OF b1]) simp_all
  have mn: "\<bar>m - of_int n\<bar> \<le> 3 / 16" using m(2) pD unfolding abs_le_iff by (simp add: exp2r_def)
  have b2: "\<bar>m + 1 / 2\<bar> < exp2r 50"
    using mn nr unfolding abs_le_iff abs_less_iff by (simp add: exp2r_def)
  obtain s where s: "fround (m + 1 / 2) = DFin s" "\<bar>s - (m + 1 / 2)\<bar> \<le> exp2r (50 - 54)"
    by (rule fround_near [OF b2]) simp_all
  have "\<bar>s - of_int n - 1 / 2\<bar> \<le> 3 / 8"
    using s(2) mn unfolding abs_le_iff by (simp add: exp2r_def)
  then show ?thesis using that s(1) m(1) ex by (simp add: D_def)
qed

lemma ms_bound:
  assumes "0 \<le> j" "j < 2 ^ 23" "0 \<le> t" "t < HB_MILLISECS_PER_DAY"
  shows "0 \<le> j * HB_MILLISECS_PER_DAY + t" "j * HB_MILLISECS_PER_DAY + t < 724775731200000"
  using assms by (simp_all add: HB_MILLISECS_PER_DAY_def)

lemma rtrunc_half_neg:
  assumes "\<bar>r + of_int n - 1 / 2\<bar> \<le> 3 / 8" "1 \<le> n"
  shows "rtrunc r = - (n - 1)"
proof -
  have n: "1 \<le> (of_int n :: rat)" using assms(2) by simp
  have "r < 0" "of_int n - 1 < - r" "- r < of_int n" using assms(1) n unfolding abs_le_iff by linarith+
  then have "\<lfloor>- r\<rfloor> = n - 1" by (simp add: floor_eq_iff)
  with \<open>r < 0\<close> show ?thesis by (simp add: rtrunc_def)
qed

subsection \<open>Properties\<close>

text \<open>C31. A date between the Julian days 0 and 2^23 and a time of day packed into one \<open>double\<close> unpack
  to the same day and the same milliseconds: the three roundings never reach half a millisecond.\<close>

theorem hb_timeStampUnpack_pack:
  assumes "0 \<le> j" "j < 2 ^ 23" "0 \<le> t" "t < HB_MILLISECS_PER_DAY"
  shows "hb_timeStampUnpackDT (hb_timeStampPackDT j t) = (j, t)"
proof -
  define n where "n = j * HB_MILLISECS_PER_DAY + t"
  note n = ms_bound [OF assms, folded n_def]
  obtain p where p: "hb_timeStampPackDT j t = DFin p" "\<bar>p * of_int HB_MILLISECS_PER_DAY - of_int n\<bar> \<le> 1 / 8"
    by (rule pack_near [OF assms]) (simp add: n_def)
  obtain s where s: "dadd (dmul (DFin p) (dbl_of_int HB_MILLISECS_PER_DAY)) (DFin (1 / 2)) = DFin s"
    "\<bar>s - of_int n - 1 / 2\<bar> \<le> 3 / 8"
    by (rule unpack_near [OF p(2)]) (use n in simp_all)
  have "rtrunc s = n" by (rule rtrunc_half [OF _ n(1)]) (use s(2) in linarith)
  moreover have "is_int64 n" using n by (simp add: is_int64_def int64_min_def int64_max_def)
  moreover have "n sdiv HB_MILLISECS_PER_DAY = j" "n smod HB_MILLISECS_PER_DAY = t"
    using n(1) assms(3,4) by (simp_all add: sdiv_nonneg smod_nonneg HB_MILLISECS_PER_DAY_def n_def)
  ultimately show ?thesis
    by (simp add: p(1) hb_timeStampUnpackDT_def s(1) int64_of_dbl_def)
qed

theorem hb_timeStampUnpack_pack_witness:
  "hb_timeStampUnpackDT (hb_timeStampPackDT 2460000 45296789) = (2460000, 45296789)"
  by (rule hb_timeStampUnpack_pack) (simp_all add: HB_MILLISECS_PER_DAY_def)

text \<open>A negative packed timestamp unpacks one millisecond short: adding one half before the
  truncation rounds positive values only. This is what subtracting a number from a timestamp uses.\<close>

theorem hb_timeStampUnpack_negative:
  assumes "0 \<le> j" "j < 2 ^ 23" "0 \<le> t" "t < HB_MILLISECS_PER_DAY" "0 < j + t"
  defines "n \<equiv> j * HB_MILLISECS_PER_DAY + t"
  shows "hb_timeStampUnpackDT (dneg (hb_timeStampPackDT j t)) =
    (- (n - 1) sdiv HB_MILLISECS_PER_DAY, - (n - 1) smod HB_MILLISECS_PER_DAY)"
proof -
  note n = ms_bound [OF assms(1-4), folded n_def]
  have n1: "1 \<le> n" using assms(1,3,5) by (cases "t = 0") (simp_all add: n_def HB_MILLISECS_PER_DAY_def)
  obtain p where p: "hb_timeStampPackDT j t = DFin p" "\<bar>p * of_int HB_MILLISECS_PER_DAY - of_int n\<bar> \<le> 1 / 8"
    by (rule pack_near [OF assms(1-4)]) (simp add: n_def)
  have p': "\<bar>- p * of_int HB_MILLISECS_PER_DAY - of_int (- n)\<bar> \<le> 1 / 8"
    using p(2) unfolding abs_le_iff by simp
  obtain s where s: "dadd (dmul (DFin (- p)) (dbl_of_int HB_MILLISECS_PER_DAY)) (DFin (1 / 2)) = DFin s"
    "\<bar>s - of_int (- n) - 1 / 2\<bar> \<le> 3 / 8"
    by (rule unpack_near [OF p']) (use n in simp_all)
  have "rtrunc s = - (n - 1)" by (rule rtrunc_half_neg [OF _ n1]) (use s(2) in simp)
  moreover have "is_int64 (- (n - 1))" using n by (simp add: is_int64_def int64_min_def int64_max_def)
  ultimately show ?thesis
    by (simp add: p(1) hb_timeStampUnpackDT_def s(1) int64_of_dbl_def Let_def)
qed

theorem hb_timeStampUnpack_negative_witness:
  "hb_timeStampUnpackDT (dneg (hb_timeStampPackDT 0 5)) =
    (- (0 * HB_MILLISECS_PER_DAY + 5 - 1) sdiv HB_MILLISECS_PER_DAY,
     - (0 * HB_MILLISECS_PER_DAY + 5 - 1) smod HB_MILLISECS_PER_DAY)"
  by (rule hb_timeStampUnpack_negative) (simp_all add: HB_MILLISECS_PER_DAY_def)

text \<open>C25. \<open>hb_strAt\<close> returns the position of the first occurrence of a string in a text, counted from
  one, and zero when there is none or the string is empty.\<close>

theorem hb_strAt_first:
  "case hb_strAt szSub szText of
      0 \<Rightarrow> szSub = [] \<or> (\<nexists>p. occurs_at szSub szText p)
    | Suc p \<Rightarrow> occurs_at szSub szText p \<and> (\<nexists>q. q < p \<and> occurs_at szSub szText q)"
proof (cases "szSub \<noteq> [] \<and> length szSub \<le> length szText")
  case True
  then show ?thesis
    using strAt_loop_spec [of szSub "length szText - length szSub" szText 0]
    by (auto simp: hb_strAt_def split: nat.splits)
next
  case False
  then show ?thesis by (auto simp: hb_strAt_def occurs_at_def)
qed

theorem hb_strAt_first_witness:
  "case hb_strAt ''b'' ''abc'' of
      0 \<Rightarrow> ''b'' = [] \<or> (\<nexists>p. occurs_at ''b'' ''abc'' p)
    | Suc p \<Rightarrow> occurs_at ''b'' ''abc'' p \<and> (\<nexists>q. q < p \<and> occurs_at ''b'' ''abc'' q)"
  by (rule hb_strAt_first)

text \<open>The exact string comparison (\<open>==\<close>) is the lexicographic order of the bytes, with values
  -1, 0 and 1.\<close>

theorem hb_itemStrCmp_exact:
  assumes "cdpSort st = None"
  shows "hb_itemStrCmp st szFirst szSecond True =
    (if szFirst < szSecond then -1 else if szFirst = szSecond then 0 else 1)"
  by (rule strCmp_exact_order [OF assms])

definition set_default :: hbSet where
  "set_default = \<lparr>HB_SET_DECIMALS = 2, HB_SET_EXACT = False, cdpSort = None, cdpSortI = (\<lambda>_ _ _. 0)\<rparr>"

theorem hb_itemStrCmp_exact_witness:
  "hb_itemStrCmp set_default ''AB'' ''A'' True = (if ''AB'' < ''A'' then -1 else if ''AB'' = ''A'' then 0 else 1)"
  by (rule hb_itemStrCmp_exact) (simp add: set_default_def)

text \<open>The equality operator \<open>=\<close> on strings: with \<open>SET EXACT OFF\<close> it asks whether the right
  string is a prefix of the left one, with \<open>SET EXACT ON\<close> it ignores trailing blanks.\<close>

theorem hb_itemStrCmp_equal:
  assumes "cdpSort st = None"
  shows "hb_itemStrCmp st szFirst szSecond False = 0 \<longleftrightarrow>
    (if HB_SET_EXACT st then rtrim szFirst = rtrim szSecond else prefix szSecond szFirst)"
  using strCmp_prefix [OF assms] strCmp_exact_on [OF assms] by simp

theorem hb_itemStrCmp_equal_witness:
  "hb_itemStrCmp set_default ''AB'' ''A'' False = 0 \<longleftrightarrow>
    (if HB_SET_EXACT set_default then rtrim ''AB'' = rtrim ''A'' else prefix ''A'' ''AB'')"
  by (rule hb_itemStrCmp_equal) (simp add: set_default_def)

end
