(* ===== verification/HbVmOps.thy ===== *)
theory HbVmOps
  imports HbItem
begin

text \<open>
  The operators of the virtual machine, \<open>src/vm/hvm.c\<close>. An operator takes its operands from the
  stack and leaves its result there; here it is a function from the items to the result. A runtime
  error that the error handler does not replace by a value is \<open>Inl (RTErr gen sub op args)\<close>, with
  the codes of the source; \<open>HwTrap\<close> is a C operation that stops the process.

  What the operators call outside the machine is in \<open>vmEnv\<close>: the \<open>SET\<close> values, the operator
  methods a class can define (\<open>hb_objOperatorCall\<close>), the search in a hash and the length of a
  hash, and the C library function \<open>pow\<close>.
\<close>

subsection \<open>Environment and errors\<close>

definition EG_ARG :: nat where "EG_ARG = 1"
definition EG_STROVERFLOW :: nat where "EG_STROVERFLOW = 3"
definition EG_ZERODIV :: nat where "EG_ZERODIV = 5"

definition HB_OO_OP_PLUS :: nat where "HB_OO_OP_PLUS = 0"
definition HB_OO_OP_MINUS :: nat where "HB_OO_OP_MINUS = 1"
definition HB_OO_OP_MULT :: nat where "HB_OO_OP_MULT = 2"
definition HB_OO_OP_DIVIDE :: nat where "HB_OO_OP_DIVIDE = 3"
definition HB_OO_OP_MOD :: nat where "HB_OO_OP_MOD = 4"
definition HB_OO_OP_POWER :: nat where "HB_OO_OP_POWER = 5"
definition HB_OO_OP_INC :: nat where "HB_OO_OP_INC = 6"
definition HB_OO_OP_DEC :: nat where "HB_OO_OP_DEC = 7"
definition HB_OO_OP_EQUAL :: nat where "HB_OO_OP_EQUAL = 8"
definition HB_OO_OP_EXACTEQUAL :: nat where "HB_OO_OP_EXACTEQUAL = 9"
definition HB_OO_OP_NOTEQUAL :: nat where "HB_OO_OP_NOTEQUAL = 10"
definition HB_OO_OP_LESS :: nat where "HB_OO_OP_LESS = 11"
definition HB_OO_OP_LESSEQUAL :: nat where "HB_OO_OP_LESSEQUAL = 12"
definition HB_OO_OP_GREATER :: nat where "HB_OO_OP_GREATER = 13"
definition HB_OO_OP_GREATEREQUAL :: nat where "HB_OO_OP_GREATEREQUAL = 14"
definition HB_OO_OP_INSTRING :: nat where "HB_OO_OP_INSTRING = 16"
definition HB_OO_OP_INCLUDE :: nat where "HB_OO_OP_INCLUDE = 17"
definition HB_OO_OP_NOT :: nat where "HB_OO_OP_NOT = 18"
definition HB_OO_OP_AND :: nat where "HB_OO_OP_AND = 19"
definition HB_OO_OP_OR :: nat where "HB_OO_OP_OR = 20"

datatype vmError = RTErr nat nat string "HB_ITEM list" | HwTrap

record vmEnv =
  vset :: hbSet
  hasOperator :: "nat \<Rightarrow> HB_ITEM \<Rightarrow> bool"
  operatorCall :: "nat \<Rightarrow> HB_ITEM \<Rightarrow> HB_ITEM option \<Rightarrow> HB_ITEM option"
  hashScan :: "nat \<Rightarrow> HB_ITEM \<Rightarrow> bool"
  hashLen :: "HB_ITEM \<Rightarrow> nat"
  cpow :: "dbl \<Rightarrow> dbl \<Rightarrow> dbl"

text \<open>\<open>if( ! hb_objOperatorCall( op, ... ) ) hb_errRT_BASE_Subst( ... );\<close>\<close>

definition operatorOr :: "vmEnv \<Rightarrow> nat \<Rightarrow> HB_ITEM \<Rightarrow> HB_ITEM option \<Rightarrow> vmError \<Rightarrow> vmError + HB_ITEM" where
  "operatorOr env op p1 p2 err =
     (case operatorCall env op p1 p2 of Some r \<Rightarrow> Inr r | None \<Rightarrow> Inl err)"

subsection \<open>Arithmetic operators\<close>

definition hb_vmAddInt :: "vmEnv \<Rightarrow> HB_ITEM \<Rightarrow> int \<Rightarrow> vmError + HB_ITEM" where
  "hb_vmAddInt env pResult lAdd =
     (if HB_IS_NUMINT pResult then
        (let nVal = HB_ITEM_GET_NUMINTRAW pResult; nResult = wrap64 (nVal + lAdd) in
         if (if 0 \<le> lAdd then nVal \<le> nResult else nResult < nVal) then Inr (HB_ITEM_PUT_NUMINTRAW nResult)
         else (let d = dadd (dbl_of_int nVal) (dbl_of_int lAdd) in Inr (IDouble d (HB_DBL_LENGTH d) 0)))
      else
        (case pResult of
           IDouble v l dec \<Rightarrow> (let d = dadd v (dbl_of_int lAdd) in Inr (IDouble d (HB_DBL_LENGTH d) dec))
         | IDate j \<Rightarrow> Inr (IDate (wrap64 (j + lAdd)))
         | ITimeStamp j t \<Rightarrow> Inr (ITimeStamp (wrap64 (j + lAdd)) t)
         | _ \<Rightarrow>
             (let pAdd = HB_ITEM_PUT_LONGRAW lAdd in
              if hasOperator env HB_OO_OP_PLUS pResult then
                (case operatorCall env HB_OO_OP_PLUS pResult (Some pAdd) of
                   Some r \<Rightarrow> Inr r | None \<Rightarrow> Inr pResult)
              else Inl (RTErr EG_ARG 1081 ''+'' [pResult, pAdd]))))"

definition hb_vmNegate :: "HB_ITEM \<Rightarrow> vmError + HB_ITEM" where
  "hb_vmNegate pItem =
     (case pItem of
        IInteger v l \<Rightarrow>
          (if v < - int32_max then Inr (ILong (- v) (HB_LONG_EXPLENGTH (- v)))
           else Inr (IInteger (- v) (HB_INT_EXPLENGTH (- v))))
      | ILong v l \<Rightarrow>
          (if v < - int64_max then
             (let d = dneg (dbl_of_int v) in Inr (IDouble d (HB_DBL_LENGTH d) 0))
           else Inr (ILong (- v) (HB_LONG_EXPLENGTH (- v))))
      | IDouble v l dec \<Rightarrow> Inr (IDouble (dneg v) (HB_DBL_LENGTH (dneg v)) dec)
      | _ \<Rightarrow> Inl (RTErr EG_ARG 1080 ''-'' [pItem]))"

definition hb_vmTimeStampPut :: "int \<Rightarrow> int \<Rightarrow> HB_ITEM" where
  "hb_vmTimeStampPut lJulian lMilliSec =
     (let D = HB_MILLISECS_PER_DAY;
          (lJulian, lMilliSec) =
            (if lJulian < 0 then
               (if lMilliSec \<le> - D then (lJulian - 1, lMilliSec + D)
                else if 0 < lMilliSec then
                  (let lMilliSec = lMilliSec - D; lJulian = lJulian + 1 in
                   if 0 < lMilliSec then (lJulian + 1, lMilliSec - D) else (lJulian, lMilliSec))
                else (lJulian, lMilliSec))
             else
               (if D \<le> lMilliSec then (lJulian + 1, lMilliSec - D)
                else if lMilliSec < 0 then
                  (let lMilliSec = lMilliSec + D; lJulian = lJulian - 1 in
                   if lMilliSec < 0 then (lJulian - 1, lMilliSec + D) else (lJulian, lMilliSec))
                else (lJulian, lMilliSec)))
      in hb_itemPutTDT lJulian lMilliSec)"

definition hb_vmTimeStampAdd :: "HB_ITEM \<Rightarrow> dbl \<Rightarrow> HB_ITEM" where
  "hb_vmTimeStampAdd pItem dValue =
     (let (lJulian, lMilliSec) = hb_timeStampUnpackDT dValue
      in hb_vmTimeStampPut (wrap64 (lJulian + julianVal pItem)) (wrap64 (lMilliSec + timeVal pItem)))"

definition HB_SIZE_MAX :: nat where "HB_SIZE_MAX = 2 ^ 64 - 1"

definition hb_vmPlus :: "vmEnv \<Rightarrow> HB_ITEM \<Rightarrow> HB_ITEM \<Rightarrow> vmError + HB_ITEM" where
  "hb_vmPlus env p1 p2 =
     (if HB_IS_NUMINT p1 \<and> HB_IS_NUMINT p2 then
        (let n1 = HB_ITEM_GET_NUMINTRAW p1; n2 = HB_ITEM_GET_NUMINTRAW p2; nResult = wrap64 (n1 + n2) in
         if (if 0 \<le> n2 then n1 \<le> nResult else nResult < n1) then Inr (HB_ITEM_PUT_NUMINTRAW nResult)
         else (let d = dadd (dbl_of_int n1) (dbl_of_int n2) in Inr (IDouble d (HB_DBL_LENGTH d) 0)))
      else if HB_IS_NUMERIC p1 \<and> HB_IS_NUMERIC p2 then
        (let (d1, iDec1) = hb_itemGetNDDec p1; (d2, iDec2) = hb_itemGetNDDec p2
         in Inr (hb_itemPutNDDec (vset env) (dadd d1 d2) (max iDec1 iDec2)))
      else if HB_IS_STRING p1 \<and> HB_IS_STRING p2 then
        (let n1 = length (strVal p1); n2 = length (strVal p2) in
         if n2 \<noteq> 0 then
           (if n1 \<noteq> 0 then
              (if n1 < HB_SIZE_MAX - n2 then Inr (IString (strVal p1 @ strVal p2))
               else Inl (RTErr EG_STROVERFLOW 1209 ''+'' [p1, p2]))
            else Inr p2)
         else Inr p1)
      else if HB_IS_DATETIME p1 \<and> HB_IS_DATETIME p2 then
        (if HB_IS_TIMESTAMP p1 \<or> HB_IS_TIMESTAMP p2 then
           Inr (hb_vmTimeStampPut (wrap64 (julianVal p1 + julianVal p2)) (wrap64 (timeVal p1 + timeVal p2)))
         else Inr (hb_itemPutDL (wrap64 (julianVal p1 + julianVal p2))))
      else if HB_IS_DATETIME p1 \<and> HB_IS_NUMERIC p2 then
        (if HB_IS_TIMESTAMP p1 then
           (if HB_IS_NUMINT p2 then
              Inr (hb_vmTimeStampPut (wrap64 (julianVal p1 + HB_ITEM_GET_NUMINTRAW p2)) (timeVal p1))
            else Inr (hb_vmTimeStampAdd p1 (hb_itemGetND p2)))
         else Inr (hb_itemPutDL (wrap64 (hb_itemGetDL p1 + hb_itemGetNL p2))))
      else if HB_IS_NUMERIC p1 \<and> HB_IS_DATETIME p2 then
        (if HB_IS_TIMESTAMP p2 then
           (if HB_IS_NUMINT p1 then
              Inr (hb_vmTimeStampPut (wrap64 (HB_ITEM_GET_NUMINTRAW p1 + julianVal p2)) (timeVal p2))
            else Inr (hb_vmTimeStampAdd p2 (hb_itemGetND p1)))
         else Inr (hb_itemPutDL (wrap64 (hb_itemGetNL p1 + hb_itemGetDL p2))))
      else operatorOr env HB_OO_OP_PLUS p1 (Some p2) (RTErr EG_ARG 1081 ''+'' [p1, p2]))"

definition HB_TIMEDIFF_DEC :: nat where "HB_TIMEDIFF_DEC = 6"

definition hb_vmMinus :: "vmEnv \<Rightarrow> HB_ITEM \<Rightarrow> HB_ITEM \<Rightarrow> vmError + HB_ITEM" where
  "hb_vmMinus env p1 p2 =
     (if HB_IS_NUMINT p1 \<and> HB_IS_NUMINT p2 then
        (let n1 = HB_ITEM_GET_NUMINTRAW p1; n2 = HB_ITEM_GET_NUMINTRAW p2; nResult = wrap64 (n1 - n2) in
         if (if n2 \<le> 0 then n1 \<le> nResult else nResult < n1) then Inr (HB_ITEM_PUT_NUMINTRAW nResult)
         else (let d = dsub (dbl_of_int n1) (dbl_of_int n2) in Inr (IDouble d (HB_DBL_LENGTH d) 0)))
      else if HB_IS_NUMERIC p1 \<and> HB_IS_NUMERIC p2 then
        (let (d1, iDec1) = hb_itemGetNDDec p1; (d2, iDec2) = hb_itemGetNDDec p2
         in Inr (hb_itemPutNDDec (vset env) (dsub d1 d2) (max iDec1 iDec2)))
      else if HB_IS_DATETIME p1 \<and> HB_IS_DATETIME p2 then
        (let lTime = wrap64 (timeVal p1 - timeVal p2); lJulian = wrap64 (julianVal p1 - julianVal p2) in
         if lTime \<noteq> 0
         then Inr (hb_itemPutNDDec (vset env) (hb_timeStampPackDT lJulian lTime) HB_TIMEDIFF_DEC)
         else Inr (HB_ITEM_PUT_LONGRAW lJulian))
      else if HB_IS_DATETIME p1 \<and> HB_IS_NUMERIC p2 then
        (if HB_IS_TIMESTAMP p1 then
           (if HB_IS_NUMINT p2 then
              Inr (hb_vmTimeStampPut (wrap64 (julianVal p1 - HB_ITEM_GET_NUMINTRAW p2)) (timeVal p1))
            else Inr (hb_vmTimeStampAdd p1 (dneg (hb_itemGetND p2))))
         else Inr (hb_itemPutDL (wrap64 (hb_itemGetDL p1 - hb_itemGetNL p2))))
      else if HB_IS_STRING p1 \<and> HB_IS_STRING p2 then
        (let n1 = length (strVal p1); n2 = length (strVal p2) in
         if n1 = 0 then Inr p2
         else if n2 = 0 then Inr p1
         else if n1 < HB_SIZE_MAX - n2 then
           (let nTrim = trim_len (strVal p1) n1 0
            in Inr (IString (take nTrim (strVal p1) @ strVal p2 @
                 replicate (n1 + n2 - nTrim - n2) (CHR '' ''))))
         else Inl (RTErr EG_STROVERFLOW 1210 ''-'' [p1, p2]))
      else operatorOr env HB_OO_OP_MINUS p1 (Some p2) (RTErr EG_ARG 1082 ''-'' [p1, p2]))"

definition hb_vmMult :: "vmEnv \<Rightarrow> HB_ITEM \<Rightarrow> HB_ITEM \<Rightarrow> vmError + HB_ITEM" where
  "hb_vmMult env p1 p2 =
     (if HB_IS_INTEGER p1 \<and> HB_IS_INTEGER p2 then
        Inr (HB_ITEM_PUT_NUMINTRAW (wrap64 (HB_ITEM_GET_NUMINTRAW p1 * HB_ITEM_GET_NUMINTRAW p2)))
      else if HB_IS_NUMERIC p1 \<and> HB_IS_NUMERIC p2 then
        (let (d1, iDec1) = hb_itemGetNDDec p1; (d2, iDec2) = hb_itemGetNDDec p2
         in Inr (hb_itemPutNumType (vset env) (dmul d1 d2) (iDec1 + iDec2) (HB_IS_DOUBLE p1) (HB_IS_DOUBLE p2)))
      else operatorOr env HB_OO_OP_MULT p1 (Some p2) (RTErr EG_ARG 1083 ''*'' [p1, p2]))"

definition hb_vmDivide :: "vmEnv \<Rightarrow> HB_ITEM \<Rightarrow> HB_ITEM \<Rightarrow> vmError + HB_ITEM" where
  "hb_vmDivide env p1 p2 =
     (if HB_IS_NUMINT p1 \<and> HB_IS_NUMINT p2 then
        (let nDivisor = HB_ITEM_GET_NUMINTRAW p2 in
         if nDivisor = 0 then Inl (RTErr EG_ZERODIV 1340 ''/'' [p1, p2])
         else Inr (hb_itemPutND (vset env) (ddiv (dbl_of_int (HB_ITEM_GET_NUMINTRAW p1)) (dbl_of_int nDivisor))))
      else if HB_IS_NUMERIC p1 \<and> HB_IS_NUMERIC p2 then
        (let dDivisor = hb_itemGetND p2 in
         if deq dDivisor (DFin 0) then Inl (RTErr EG_ZERODIV 1340 ''/'' [p1, p2])
         else Inr (hb_itemPutND (vset env) (ddiv (hb_itemGetND p1) dDivisor)))
      else operatorOr env HB_OO_OP_DIVIDE p1 (Some p2) (RTErr EG_ARG 1084 ''/'' [p1, p2]))"

text \<open>The integer \<open>%\<close> of C stops the process when the quotient does not fit: the smallest 64 bit
  number by minus one.\<close>

definition hb_vmModulus :: "vmEnv \<Rightarrow> HB_ITEM \<Rightarrow> HB_ITEM \<Rightarrow> vmError + HB_ITEM" where
  "hb_vmModulus env p1 p2 =
     (if HB_IS_NUMINT p1 \<and> HB_IS_NUMINT p2 then
        (let nDivisor = HB_ITEM_GET_NUMINTRAW p2; n1 = HB_ITEM_GET_NUMINTRAW p1 in
         if nDivisor = 0 then Inl (RTErr EG_ZERODIV 1341 ''%'' [p1, p2])
         else if n1 = int64_min \<and> nDivisor = -1 then Inl HwTrap
         else Inr (hb_itemPutND (vset env) (dbl_of_int (n1 smod nDivisor))))
      else if HB_IS_NUMERIC p1 \<and> HB_IS_NUMERIC p2 then
        (let dDivisor = hb_itemGetND p2 in
         if deq dDivisor (DFin 0) then Inl (RTErr EG_ZERODIV 1341 ''%'' [p1, p2])
         else Inr (hb_itemPutND (vset env) (dfmod (hb_itemGetND p1) dDivisor)))
      else operatorOr env HB_OO_OP_MOD p1 (Some p2) (RTErr EG_ARG 1085 ''%'' [p1, p2]))"

definition hb_vmPower :: "vmEnv \<Rightarrow> HB_ITEM \<Rightarrow> HB_ITEM \<Rightarrow> vmError + HB_ITEM" where
  "hb_vmPower env p1 p2 =
     (if HB_IS_NUMERIC p1 \<and> HB_IS_NUMERIC p2 then
        Inr (hb_itemPutND (vset env) (cpow env (hb_itemGetND p1) (hb_itemGetND p2)))
      else operatorOr env HB_OO_OP_POWER p1 (Some p2) (RTErr EG_ARG 1088 ''^'' [p1, p2]))"

definition hb_vmInc :: "vmEnv \<Rightarrow> HB_ITEM \<Rightarrow> vmError + HB_ITEM" where
  "hb_vmInc env pItem =
     (case pItem of
        IInteger v l \<Rightarrow>
          (if v < int32_max then Inr (IInteger (v + 1) (HB_INT_EXPLENGTH (v + 1)))
           else Inr (ILong (v + 1) (HB_LONG_EXPLENGTH (v + 1))))
      | ILong v l \<Rightarrow>
          (if v < int64_max then Inr (ILong (v + 1) (HB_LONG_EXPLENGTH (v + 1)))
           else (let d = dadd (dbl_of_int v) (DFin 1) in Inr (IDouble d (HB_DBL_LENGTH d) 0)))
      | IDouble v l dec \<Rightarrow> (let d = dadd v (DFin 1) in Inr (IDouble d (HB_DBL_LENGTH d) dec))
      | IDate j \<Rightarrow> Inr (IDate (wrap64 (j + 1)))
      | ITimeStamp j t \<Rightarrow> Inr (ITimeStamp (wrap64 (j + 1)) t)
      | _ \<Rightarrow> operatorOr env HB_OO_OP_INC pItem None (RTErr EG_ARG 1086 ''++'' [pItem]))"

definition hb_vmDec :: "vmEnv \<Rightarrow> HB_ITEM \<Rightarrow> vmError + HB_ITEM" where
  "hb_vmDec env pItem =
     (case pItem of
        IInteger v l \<Rightarrow>
          (if int32_min < v then Inr (IInteger (v - 1) (HB_INT_EXPLENGTH (v - 1)))
           else Inr (ILong (v - 1) (HB_LONG_EXPLENGTH (v - 1))))
      | ILong v l \<Rightarrow>
          (if int64_min < v then Inr (ILong (v - 1) (HB_LONG_EXPLENGTH (v - 1)))
           else (let d = dadd (dbl_of_int v) (DFin (-1)) in Inr (IDouble d (HB_DBL_LENGTH d) 0)))
      | IDouble v l dec \<Rightarrow> (let d = dadd v (DFin (-1)) in Inr (IDouble d (HB_DBL_LENGTH d) dec))
      | IDate j \<Rightarrow> Inr (IDate (wrap64 (j - 1)))
      | ITimeStamp j t \<Rightarrow> Inr (ITimeStamp (wrap64 (j - 1)) t)
      | _ \<Rightarrow> operatorOr env HB_OO_OP_DEC pItem None (RTErr EG_ARG 1087 ''--'' [pItem]))"

subsection \<open>Relational operators\<close>

fun HB_IS_NIL :: "HB_ITEM \<Rightarrow> bool" where
  "HB_IS_NIL INil = True"
| "HB_IS_NIL _ = False"

fun HB_IS_POINTER :: "HB_ITEM \<Rightarrow> bool" where
  "HB_IS_POINTER (IPointer a) = True"
| "HB_IS_POINTER _ = False"

definition hb_vmExactlyEqual :: "vmEnv \<Rightarrow> HB_ITEM \<Rightarrow> HB_ITEM \<Rightarrow> vmError + HB_ITEM" where
  "hb_vmExactlyEqual env p1 p2 =
     (if HB_IS_NIL p1 then Inr (ILogical (HB_IS_NIL p2))
      else if HB_IS_NIL p2 then Inr (ILogical False)
      else if HB_IS_STRING p1 \<and> HB_IS_STRING p2 then
        Inr (ILogical (length (strVal p1) = length (strVal p2) \<and> strVal p1 = strVal p2))
      else if HB_IS_NUMINT p1 \<and> HB_IS_NUMINT p2 then
        Inr (ILogical (HB_ITEM_GET_NUMINTRAW p1 = HB_ITEM_GET_NUMINTRAW p2))
      else if HB_IS_NUMERIC p1 \<and> HB_IS_NUMERIC p2 then
        Inr (ILogical (deq (HB_ITEM_GET_NUMDBLRAW p1) (HB_ITEM_GET_NUMDBLRAW p2)))
      else if HB_IS_DATETIME p1 \<and> HB_IS_DATETIME p2 then
        Inr (ILogical (julianVal p1 = julianVal p2 \<and> timeVal p1 = timeVal p2))
      else
        (case (p1, p2) of
           (ILogical a, ILogical b) \<Rightarrow> Inr (ILogical (if a then b else \<not> b))
         | (IPointer a, IPointer b) \<Rightarrow> Inr (ILogical (a = b))
         | (IHash a, IHash b) \<Rightarrow> Inr (ILogical (a = b))
         | (IBlock a, IBlock b) \<Rightarrow> Inr (ILogical (a = b))
         | (ISymbol a da, ISymbol b db) \<Rightarrow> Inr (ILogical (a = b \<or> da \<noteq> None \<and> da = db))
         | (IArray a oa, IArray b ob) \<Rightarrow>
             (if \<not> hasOperator env HB_OO_OP_EXACTEQUAL p1 then Inr (ILogical (a = b))
              else operatorOr env HB_OO_OP_EXACTEQUAL p1 (Some p2) (RTErr EG_ARG 1070 ''=='' [p1, p2]))
         | _ \<Rightarrow> operatorOr env HB_OO_OP_EXACTEQUAL p1 (Some p2) (RTErr EG_ARG 1070 ''=='' [p1, p2])))"

text \<open>Two timestamps compare with their times, a date and a timestamp by the day alone.\<close>

definition hb_vmEqual :: "vmEnv \<Rightarrow> HB_ITEM \<Rightarrow> HB_ITEM \<Rightarrow> vmError + HB_ITEM" where
  "hb_vmEqual env p1 p2 =
     (if HB_IS_NIL p1 then Inr (ILogical (HB_IS_NIL p2))
      else if HB_IS_NIL p2 then Inr (ILogical False)
      else if HB_IS_STRING p1 \<and> HB_IS_STRING p2 then
        Inr (ILogical (hb_itemStrCmp (vset env) (strVal p1) (strVal p2) False = 0))
      else if HB_IS_NUMINT p1 \<and> HB_IS_NUMINT p2 then
        Inr (ILogical (HB_ITEM_GET_NUMINTRAW p1 = HB_ITEM_GET_NUMINTRAW p2))
      else if HB_IS_NUMERIC p1 \<and> HB_IS_NUMERIC p2 then
        Inr (ILogical (deq (HB_ITEM_GET_NUMDBLRAW p1) (HB_ITEM_GET_NUMDBLRAW p2)))
      else if HB_IS_DATETIME p1 \<and> HB_IS_DATETIME p2 then
        Inr (ILogical
          (if HB_IS_TIMESTAMP p1 \<and> HB_IS_TIMESTAMP p2
           then julianVal p1 = julianVal p2 \<and> timeVal p1 = timeVal p2
           else julianVal p1 = julianVal p2))
      else
        (case (p1, p2) of
           (ILogical a, ILogical b) \<Rightarrow> Inr (ILogical (if a then b else \<not> b))
         | (IPointer a, IPointer b) \<Rightarrow> Inr (ILogical (a = b))
         | _ \<Rightarrow> operatorOr env HB_OO_OP_EQUAL p1 (Some p2) (RTErr EG_ARG 1071 ''='' [p1, p2])))"

definition hb_vmNotEqual :: "vmEnv \<Rightarrow> HB_ITEM \<Rightarrow> HB_ITEM \<Rightarrow> vmError + HB_ITEM" where
  "hb_vmNotEqual env p1 p2 =
     (if HB_IS_NIL p1 then Inr (ILogical (\<not> HB_IS_NIL p2))
      else if HB_IS_NIL p2 then Inr (ILogical True)
      else if HB_IS_STRING p1 \<and> HB_IS_STRING p2 then
        Inr (ILogical (hb_itemStrCmp (vset env) (strVal p1) (strVal p2) False \<noteq> 0))
      else if HB_IS_NUMINT p1 \<and> HB_IS_NUMINT p2 then
        Inr (ILogical (HB_ITEM_GET_NUMINTRAW p1 \<noteq> HB_ITEM_GET_NUMINTRAW p2))
      else if HB_IS_NUMERIC p1 \<and> HB_IS_NUMERIC p2 then
        Inr (ILogical (\<not> deq (HB_ITEM_GET_NUMDBLRAW p1) (HB_ITEM_GET_NUMDBLRAW p2)))
      else if HB_IS_DATETIME p1 \<and> HB_IS_DATETIME p2 then
        Inr (ILogical
          (if HB_IS_TIMESTAMP p1 \<and> HB_IS_TIMESTAMP p2
           then julianVal p1 \<noteq> julianVal p2 \<or> timeVal p1 \<noteq> timeVal p2
           else julianVal p1 \<noteq> julianVal p2))
      else
        (case (p1, p2) of
           (ILogical a, ILogical b) \<Rightarrow> Inr (ILogical (if a then \<not> b else b))
         | (IPointer a, IPointer b) \<Rightarrow> Inr (ILogical (a \<noteq> b))
         | _ \<Rightarrow> operatorOr env HB_OO_OP_NOTEQUAL p1 (Some p2) (RTErr EG_ARG 1072 ''<>'' [p1, p2])))"

definition hb_vmLess :: "vmEnv \<Rightarrow> HB_ITEM \<Rightarrow> HB_ITEM \<Rightarrow> vmError + HB_ITEM" where
  "hb_vmLess env p1 p2 =
     (if HB_IS_STRING p1 \<and> HB_IS_STRING p2 then
        (let i = hb_itemStrCmp (vset env) (strVal p1) (strVal p2) False in Inr (ILogical (i < 0)))
      else if HB_IS_NUMINT p1 \<and> HB_IS_NUMINT p2 then
        (let n1 = HB_ITEM_GET_NUMINTRAW p1; n2 = HB_ITEM_GET_NUMINTRAW p2 in Inr (ILogical (n1 < n2)))
      else if HB_IS_NUMERIC p1 \<and> HB_IS_NUMERIC p2 then
        (let d1 = HB_ITEM_GET_NUMDBLRAW p1; d2 = HB_ITEM_GET_NUMDBLRAW p2 in Inr (ILogical (dlt d1 d2)))
      else if HB_IS_DATETIME p1 \<and> HB_IS_DATETIME p2 then
        Inr (ILogical
          (if HB_IS_TIMESTAMP p1 \<and> HB_IS_TIMESTAMP p2 then
             julianVal p1 < julianVal p2 \<or> julianVal p1 = julianVal p2 \<and> timeVal p1 < timeVal p2
           else julianVal p1 < julianVal p2))
      else if HB_IS_LOGICAL p1 \<and> HB_IS_LOGICAL p2 then Inr (ILogical (\<not> logVal p1 \<and> logVal p2))
      else operatorOr env HB_OO_OP_LESS p1 (Some p2) (RTErr EG_ARG 1073 ''<'' [p1, p2]))"

definition hb_vmLessEqual :: "vmEnv \<Rightarrow> HB_ITEM \<Rightarrow> HB_ITEM \<Rightarrow> vmError + HB_ITEM" where
  "hb_vmLessEqual env p1 p2 =
     (if HB_IS_STRING p1 \<and> HB_IS_STRING p2 then
        (let i = hb_itemStrCmp (vset env) (strVal p1) (strVal p2) False in Inr (ILogical (i \<le> 0)))
      else if HB_IS_NUMINT p1 \<and> HB_IS_NUMINT p2 then
        (let n1 = HB_ITEM_GET_NUMINTRAW p1; n2 = HB_ITEM_GET_NUMINTRAW p2 in Inr (ILogical (n1 \<le> n2)))
      else if HB_IS_NUMERIC p1 \<and> HB_IS_NUMERIC p2 then
        (let d1 = HB_ITEM_GET_NUMDBLRAW p1; d2 = HB_ITEM_GET_NUMDBLRAW p2 in Inr (ILogical (dle d1 d2)))
      else if HB_IS_DATETIME p1 \<and> HB_IS_DATETIME p2 then
        Inr (ILogical
          (if HB_IS_TIMESTAMP p1 \<and> HB_IS_TIMESTAMP p2 then
             julianVal p1 < julianVal p2 \<or> julianVal p1 = julianVal p2 \<and> timeVal p1 \<le> timeVal p2
           else julianVal p1 \<le> julianVal p2))
      else if HB_IS_LOGICAL p1 \<and> HB_IS_LOGICAL p2 then Inr (ILogical (\<not> logVal p1 \<or> logVal p2))
      else operatorOr env HB_OO_OP_LESSEQUAL p1 (Some p2) (RTErr EG_ARG 1074 ''<='' [p1, p2]))"

definition hb_vmGreater :: "vmEnv \<Rightarrow> HB_ITEM \<Rightarrow> HB_ITEM \<Rightarrow> vmError + HB_ITEM" where
  "hb_vmGreater env p1 p2 =
     (if HB_IS_STRING p1 \<and> HB_IS_STRING p2 then
        (let i = hb_itemStrCmp (vset env) (strVal p1) (strVal p2) False in Inr (ILogical (0 < i)))
      else if HB_IS_NUMINT p1 \<and> HB_IS_NUMINT p2 then
        (let n1 = HB_ITEM_GET_NUMINTRAW p1; n2 = HB_ITEM_GET_NUMINTRAW p2 in Inr (ILogical (n2 < n1)))
      else if HB_IS_NUMERIC p1 \<and> HB_IS_NUMERIC p2 then
        (let d1 = HB_ITEM_GET_NUMDBLRAW p1; d2 = HB_ITEM_GET_NUMDBLRAW p2 in Inr (ILogical (dlt d2 d1)))
      else if HB_IS_DATETIME p1 \<and> HB_IS_DATETIME p2 then
        Inr (ILogical
          (if HB_IS_TIMESTAMP p1 \<and> HB_IS_TIMESTAMP p2 then
             julianVal p2 < julianVal p1 \<or> julianVal p1 = julianVal p2 \<and> timeVal p2 < timeVal p1
           else julianVal p2 < julianVal p1))
      else if HB_IS_LOGICAL p1 \<and> HB_IS_LOGICAL p2 then Inr (ILogical (logVal p1 \<and> \<not> logVal p2))
      else operatorOr env HB_OO_OP_GREATER p1 (Some p2) (RTErr EG_ARG 1075 ''>'' [p1, p2]))"

definition hb_vmGreaterEqual :: "vmEnv \<Rightarrow> HB_ITEM \<Rightarrow> HB_ITEM \<Rightarrow> vmError + HB_ITEM" where
  "hb_vmGreaterEqual env p1 p2 =
     (if HB_IS_STRING p1 \<and> HB_IS_STRING p2 then
        (let i = hb_itemStrCmp (vset env) (strVal p1) (strVal p2) False in Inr (ILogical (0 \<le> i)))
      else if HB_IS_NUMINT p1 \<and> HB_IS_NUMINT p2 then
        (let n1 = HB_ITEM_GET_NUMINTRAW p1; n2 = HB_ITEM_GET_NUMINTRAW p2 in Inr (ILogical (n2 \<le> n1)))
      else if HB_IS_NUMERIC p1 \<and> HB_IS_NUMERIC p2 then
        (let d1 = HB_ITEM_GET_NUMDBLRAW p1; d2 = HB_ITEM_GET_NUMDBLRAW p2 in Inr (ILogical (dle d2 d1)))
      else if HB_IS_DATETIME p1 \<and> HB_IS_DATETIME p2 then
        Inr (ILogical
          (if HB_IS_TIMESTAMP p1 \<and> HB_IS_TIMESTAMP p2 then
             julianVal p2 < julianVal p1 \<or> julianVal p1 = julianVal p2 \<and> timeVal p2 \<le> timeVal p1
           else julianVal p2 \<le> julianVal p1))
      else if HB_IS_LOGICAL p1 \<and> HB_IS_LOGICAL p2 then Inr (ILogical (logVal p1 \<or> \<not> logVal p2))
      else operatorOr env HB_OO_OP_GREATEREQUAL p1 (Some p2) (RTErr EG_ARG 1076 ''>='' [p1, p2]))"

definition hb_vmInstring :: "vmEnv \<Rightarrow> HB_ITEM \<Rightarrow> HB_ITEM \<Rightarrow> vmError + HB_ITEM" where
  "hb_vmInstring env p1 p2 =
     (if HB_IS_STRING p1 \<and> HB_IS_STRING p2 then
        Inr (ILogical (hb_strAt (strVal p1) (strVal p2) \<noteq> 0))
      else
        (let other =
           (case operatorCall env HB_OO_OP_INCLUDE p2 (Some p1) of
              Some r \<Rightarrow> Inr r
            | None \<Rightarrow> operatorOr env HB_OO_OP_INSTRING p1 (Some p2) (RTErr EG_ARG 1109 ''$'' [p1, p2]))
         in case p2 of
              IHash h \<Rightarrow>
                (if HB_IS_NUMERIC p1 \<or> HB_IS_DATETIME p1 \<or> HB_IS_STRING p1 \<or> HB_IS_POINTER p1 \<or> hashLen env p1 = 1
                 then Inr (ILogical (hashScan env h p1)) else other)
            | _ \<Rightarrow> other))"

text \<open>The end test of a \<open>FOR\<close> loop: \<open>counter < end\<close> for a negative step, else \<open>counter > end\<close>.
  A step that is not a number is compared with zero by the error handler, so it is an error.\<close>

definition hb_vmForTest :: "vmEnv \<Rightarrow> HB_ITEM \<Rightarrow> HB_ITEM \<Rightarrow> HB_ITEM \<Rightarrow> vmError + HB_ITEM" where
  "hb_vmForTest env pCounter pEnd pStep =
     (if HB_IS_NUMERIC pStep then
        (if dlt (HB_ITEM_GET_NUMDBLRAW pStep) (DFin 0)
         then hb_vmLess env pCounter pEnd else hb_vmGreater env pCounter pEnd)
      else Inl (RTErr EG_ARG 1073 ''<'' [pStep, hb_itemPutNI 0]))"

subsection \<open>Logical operators\<close>

definition hb_vmNot :: "vmEnv \<Rightarrow> HB_ITEM \<Rightarrow> vmError + HB_ITEM" where
  "hb_vmNot env pItem =
     (case pItem of
        ILogical b \<Rightarrow> Inr (ILogical (\<not> b))
      | _ \<Rightarrow> operatorOr env HB_OO_OP_NOT pItem None (RTErr EG_ARG 1077 ''.NOT.'' [pItem]))"

definition hb_vmAnd :: "vmEnv \<Rightarrow> HB_ITEM \<Rightarrow> HB_ITEM \<Rightarrow> vmError + HB_ITEM" where
  "hb_vmAnd env p1 p2 =
     (if HB_IS_LOGICAL p1 \<and> HB_IS_LOGICAL p2 then Inr (ILogical (logVal p1 \<and> logVal p2))
      else operatorOr env HB_OO_OP_AND p1 (Some p2) (RTErr EG_ARG 1078 ''.AND.'' [p1, p2]))"

definition hb_vmOr :: "vmEnv \<Rightarrow> HB_ITEM \<Rightarrow> HB_ITEM \<Rightarrow> vmError + HB_ITEM" where
  "hb_vmOr env p1 p2 =
     (if HB_IS_LOGICAL p1 \<and> HB_IS_LOGICAL p2 then Inr (ILogical (logVal p1 \<or> logVal p2))
      else operatorOr env HB_OO_OP_OR p1 (Some p2) (RTErr EG_ARG 1079 ''.OR.'' [p1, p2]))"

subsection \<open>Facts on the operators\<close>

lemma wrap64_add_check:
  assumes "is_int64 a" "is_int64 b"
  shows "(if 0 \<le> b then a \<le> wrap64 (a + b) else wrap64 (a + b) < a) \<longleftrightarrow> is_int64 (a + b)"
    "is_int64 (a + b) \<Longrightarrow> wrap64 (a + b) = a + b"
proof -
  show "is_int64 (a + b) \<Longrightarrow> wrap64 (a + b) = a + b" by (rule wrap64_id)
  have b: "- (2 ^ 63) \<le> a" "a < 2 ^ 63" "- (2 ^ 63) \<le> b" "b < 2 ^ 63"
    using assms by (simp_all add: is_int64_def c_defs)
  show "(if 0 \<le> b then a \<le> wrap64 (a + b) else wrap64 (a + b) < a) \<longleftrightarrow> is_int64 (a + b)"
  proof (cases "is_int64 (a + b)")
    case True
    then show ?thesis by (simp add: wrap64_id)
  next
    case False
    then consider "2 ^ 63 \<le> a + b" | "a + b < - (2 ^ 63)" using b by (force simp: is_int64_def c_defs)
    then show ?thesis
    proof cases
      case 1
      have "wrap64 (a + b) = a + b - 2 ^ 64"
        using 1 b unfolding wrap64_def by (simp add: mod_pos_geq)
      then show ?thesis using False b 1 by simp
    next
      case 2
      have "(a + b + 2 ^ 63) mod 2 ^ 64 = a + b + 2 ^ 63 + 2 ^ 64"
        using 2 b by (intro int_mod_pos_eq [where q = "-1"]) simp_all
      then have "wrap64 (a + b) = a + b + 2 ^ 64" by (simp add: wrap64_def)
      then show ?thesis using False b 2 by simp
    qed
  qed
qed

lemma wrap64_sub_check:
  assumes "is_int64 a" "is_int64 b"
  shows "(if b \<le> 0 then a \<le> wrap64 (a - b) else wrap64 (a - b) < a) \<longleftrightarrow> is_int64 (a - b)"
proof -
  have b: "- (2 ^ 63) \<le> a" "a < 2 ^ 63" "- (2 ^ 63) \<le> b" "b < 2 ^ 63"
    using assms by (simp_all add: is_int64_def c_defs)
  show ?thesis
  proof (cases "is_int64 (a - b)")
    case True
    then show ?thesis by (simp add: wrap64_id)
  next
    case False
    then consider "2 ^ 63 \<le> a - b" | "a - b < - (2 ^ 63)" using b by (force simp: is_int64_def c_defs)
    then show ?thesis
    proof cases
      case 1
      have "wrap64 (a - b) = a - b - 2 ^ 64"
        using 1 b unfolding wrap64_def by (simp add: mod_pos_geq)
      then show ?thesis using False b 1 by simp
    next
      case 2
      have "(a - b + 2 ^ 63) mod 2 ^ 64 = a - b + 2 ^ 63 + 2 ^ 64"
        using 2 b by (intro int_mod_pos_eq [where q = "-1"]) simp_all
      then have "wrap64 (a - b) = a - b + 2 ^ 64" by (simp add: wrap64_def)
      then show ?thesis using False b 2 by simp
    qed
  qed
qed

text \<open>Items whose numbers fit their C type.\<close>

fun wfItem :: "HB_ITEM \<Rightarrow> bool" where
  "wfItem (IInteger v l) = is_int32 v"
| "wfItem (ILong v l) = is_int64 v"
| "wfItem _ = True"

lemma is_int64_0: "is_int64 0"
  by (simp add: is_int64_def c_defs)

lemma wfItem_int64: "wfItem p \<Longrightarrow> is_int64 (HB_ITEM_GET_NUMINTRAW p)"
  by (cases p) (simp_all add: is_int32_is_int64 is_int64_0)

lemma wfItem_put: "is_int64 v \<Longrightarrow> wfItem (HB_ITEM_PUT_NUMINTRAW v)"
  by (simp add: HB_ITEM_PUT_NUMINTRAW_def)

lemma get_put_numint [simp]: "HB_ITEM_GET_NUMINTRAW (HB_ITEM_PUT_NUMINTRAW v) = v"
  by (simp add: HB_ITEM_PUT_NUMINTRAW_def)

text \<open>What the relational operators accept.\<close>

definition comparable :: "HB_ITEM \<Rightarrow> HB_ITEM \<Rightarrow> bool" where
  "comparable p1 p2 \<longleftrightarrow>
     HB_IS_STRING p1 \<and> HB_IS_STRING p2 \<or> HB_IS_DATETIME p1 \<and> HB_IS_DATETIME p2 \<or>
     HB_IS_LOGICAL p1 \<and> HB_IS_LOGICAL p2 \<or>
     HB_IS_NUMERIC p1 \<and> HB_IS_NUMERIC p2 \<and> hb_itemGetND p1 \<noteq> DNaN \<and> hb_itemGetND p2 \<noteq> DNaN"

definition rel :: "vmError + HB_ITEM \<Rightarrow> bool option" where
  "rel r = (case r of Inr (ILogical b) \<Rightarrow> Some b | _ \<Rightarrow> None)"

lemmas rel_defs = hb_vmLess_def hb_vmLessEqual_def hb_vmGreater_def hb_vmGreaterEqual_def
  hb_vmEqual_def hb_vmNotEqual_def rel_def

definition consistent :: "vmEnv \<Rightarrow> HB_ITEM \<Rightarrow> HB_ITEM \<Rightarrow> bool \<Rightarrow> bool \<Rightarrow> bool \<Rightarrow> bool" where
  "consistent env p1 p2 l e g \<longleftrightarrow>
     rel (hb_vmLess env p1 p2) = Some l \<and> rel (hb_vmEqual env p1 p2) = Some e \<and> rel (hb_vmGreater env p1 p2) = Some g \<and>
     rel (hb_vmLessEqual env p1 p2) = Some (l \<or> e) \<and> rel (hb_vmGreaterEqual env p1 p2) = Some (g \<or> e) \<and>
     rel (hb_vmNotEqual env p1 p2) = Some (\<not> e) \<and>
     ((l \<and> \<not> e \<and> \<not> g) \<or> (\<not> l \<and> e \<and> \<not> g) \<or> (\<not> l \<and> \<not> e \<and> g))"

lemma string_not: "HB_IS_STRING p \<Longrightarrow> \<exists>s. p = IString s"
  by (cases p) auto

lemma trim_len_rtrim: "trim_len s (length s) 0 = length (rtrim s)"
  by (simp add: trim_len)

lemma take_length_rtrim: "take (length (rtrim s)) s = rtrim s"
  using length_rtrim [of s] by (simp add: take_rtrim min_def)

lemma smod_bound: "b \<noteq> 0 \<Longrightarrow> \<bar>a smod b\<bar> < \<bar>b :: int\<bar>"
  by (simp add: signed_modulo_int_def abs_mult sgn_if)

definition env_default :: vmEnv where
  "env_default = \<lparr>vset = set_default, hasOperator = \<lambda>_ _. False, operatorCall = \<lambda>_ _ _. None,
     hashScan = \<lambda>_ _. False, hashLen = \<lambda>_. 0, cpow = \<lambda>_ _. DFin 0\<rparr>"

subsection \<open>Properties\<close>

text \<open>C10. Addition and subtraction of integers: the overflow test after the 64 bit operation is exact.
  When the true result fits, the item holds it in the narrowest integer type; otherwise the result
  is the double of the two operands converted.\<close>

theorem hb_vmPlusMinus_int:
  assumes "wfItem p1" "wfItem p2" "HB_IS_NUMINT p1" "HB_IS_NUMINT p2"
    and n: "HB_ITEM_GET_NUMINTRAW p1 = n1" "HB_ITEM_GET_NUMINTRAW p2 = n2"
  shows "hb_vmPlus env p1 p2 =
      Inr (if is_int64 (n1 + n2) then HB_ITEM_PUT_NUMINTRAW (n1 + n2)
           else IDouble (dadd (dbl_of_int n1) (dbl_of_int n2)) (HB_DBL_LENGTH (dadd (dbl_of_int n1) (dbl_of_int n2))) 0) \<and>
    hb_vmMinus env p1 p2 =
      Inr (if is_int64 (n1 - n2) then HB_ITEM_PUT_NUMINTRAW (n1 - n2)
           else IDouble (dsub (dbl_of_int n1) (dbl_of_int n2)) (HB_DBL_LENGTH (dsub (dbl_of_int n1) (dbl_of_int n2))) 0)"
proof -
  have b: "is_int64 n1" "is_int64 n2" using assms(1,2) wfItem_int64 unfolding n [symmetric] by simp_all
  show ?thesis
    using assms(3,4) wrap64_add_check [OF b] wrap64_sub_check [OF b]
    by (simp add: hb_vmPlus_def hb_vmMinus_def Let_def n wrap64_id)
qed

theorem hb_vmPlusMinus_int_witness:
  "hb_vmPlus env_default (IInteger 2147483647 10) (ILong 1 10) =
      Inr (if is_int64 (2147483647 + 1) then HB_ITEM_PUT_NUMINTRAW (2147483647 + 1)
           else IDouble (dadd (dbl_of_int 2147483647) (dbl_of_int 1)) (HB_DBL_LENGTH (dadd (dbl_of_int 2147483647) (dbl_of_int 1))) 0) \<and>
    hb_vmMinus env_default (IInteger 2147483647 10) (ILong 1 10) =
      Inr (if is_int64 (2147483647 - 1) then HB_ITEM_PUT_NUMINTRAW (2147483647 - 1)
           else IDouble (dsub (dbl_of_int 2147483647) (dbl_of_int 1)) (HB_DBL_LENGTH (dsub (dbl_of_int 2147483647) (dbl_of_int 1))) 0)"
  by (rule hb_vmPlusMinus_int) (simp_all add: is_int32_def is_int64_def c_defs)

text \<open>C32. Multiplication of two \<open>int\<close> items is exact, and negation of an \<open>int\<close> item gives the negated
  number in a type that holds it, the smallest \<open>int\<close> included.\<close>

theorem hb_vmMultNegate_int:
  assumes "is_int32 a" "is_int32 b"
  shows "hb_vmMult env (IInteger a la) (IInteger b lb) = Inr (HB_ITEM_PUT_NUMINTRAW (a * b)) \<and>
    (\<exists>r. hb_vmNegate (IInteger a la) = Inr r \<and> wfItem r \<and> HB_ITEM_GET_NUMINTRAW r = - a)"
proof -
  have b: "\<bar>a\<bar> \<le> 2 ^ 31" "\<bar>b\<bar> \<le> 2 ^ 31" using assms by (auto simp: is_int32_def c_defs)
  have "\<bar>a * b\<bar> \<le> 2 ^ 31 * 2 ^ 31"
    unfolding abs_mult by (intro mult_mono b) simp_all
  then have "is_int64 (a * b)" by (auto simp: is_int64_def c_defs)
  then have "hb_vmMult env (IInteger a la) (IInteger b lb) = Inr (HB_ITEM_PUT_NUMINTRAW (a * b))"
    by (simp add: hb_vmMult_def wrap64_id)
  moreover have "is_int64 (- a)" "\<not> a < - int32_max \<Longrightarrow> is_int32 (- a)"
    using assms(1) by (auto simp: is_int64_def is_int32_def c_defs)
  ultimately show ?thesis by (simp add: hb_vmNegate_def)
qed

theorem hb_vmMultNegate_int_witness:
  "hb_vmMult env_default (IInteger (- (2 ^ 31)) 20) (IInteger (- (2 ^ 31)) 20) =
      Inr (HB_ITEM_PUT_NUMINTRAW (- (2 ^ 31) * - (2 ^ 31))) \<and>
    (\<exists>r. hb_vmNegate (IInteger (- (2 ^ 31)) 20) = Inr r \<and> wfItem r \<and> HB_ITEM_GET_NUMINTRAW r = - (- (2 ^ 31)))"
  by (rule hb_vmMultNegate_int) (simp_all add: is_int32_def c_defs)

text \<open>C19. Division and modulus of integers up to 2^53. By zero both raise the zero divisor error with the
  operands; by any other divisor both leave a \<open>double\<close>: the quotient is the exact quotient rounded once,
  the modulus is the exact remainder with the sign of the dividend, both with the decimals of
  \<open>SET DECIMALS\<close>.\<close>

theorem hb_vmDivMod_int:
  assumes "HB_IS_NUMINT p1" "HB_IS_NUMINT p2"
    and n: "HB_ITEM_GET_NUMINTRAW p1 = n1" "HB_ITEM_GET_NUMINTRAW p2 = n2"
    and "\<bar>n1\<bar> \<le> 2 ^ 53" "\<bar>n2\<bar> \<le> 2 ^ 53"
  shows "if n2 = 0 then
      hb_vmModulus env p1 p2 = Inl (RTErr EG_ZERODIV 1341 ''%'' [p1, p2])
      \<and> hb_vmDivide env p1 p2 = Inl (RTErr EG_ZERODIV 1340 ''/'' [p1, p2])
    else \<exists>lq lr dec. dec = HB_SET_DECIMALS (vset env) mod 2 ^ 16
      \<and> hb_vmModulus env p1 p2 = Inr (IDouble (DFin (of_int (n1 smod n2))) lr dec)
      \<and> hb_vmDivide env p1 p2 = Inr (IDouble (fround (of_int n1 / of_int n2)) lq dec)"
proof (cases "n2 = 0")
  case True
  then show ?thesis using assms(1,2) by (simp add: hb_vmModulus_def hb_vmDivide_def n)
next
  case False
  have m: "\<bar>n1 smod n2\<bar> \<le> 2 ^ 53" using smod_bound [of n2 n1] False assms(6) by simp
  have nt: "\<not> (n1 = int64_min \<and> n2 = -1)" using assms(5) by (auto simp: int64_min_def)
  show ?thesis
    using assms(1,2) False nt
    by (simp add: hb_vmModulus_def hb_vmDivide_def Let_def n
        hb_itemPutND_def dbl_of_int_exact [OF m] dbl_of_int_exact [OF assms(5)] dbl_of_int_exact [OF assms(6)])
qed

theorem hb_vmDivMod_int_witness:
  "(\<exists>lq lr dec. dec = HB_SET_DECIMALS (vset env_default) mod 2 ^ 16
      \<and> hb_vmModulus env_default (IInteger (-7) 10) (IInteger 3 10) = Inr (IDouble (DFin (of_int (- 7 smod 3))) lr dec)
      \<and> hb_vmDivide env_default (IInteger (-7) 10) (IInteger 3 10) = Inr (IDouble (fround (of_int (-7) / of_int 3)) lq dec))
    \<and> hb_vmModulus env_default (IInteger 7 10) (IInteger 0 10) = Inl (RTErr EG_ZERODIV 1341 ''%'' [IInteger 7 10, IInteger 0 10])"
  using hb_vmDivMod_int [of "IInteger (-7) 10" "IInteger 3 10" "-7" 3 env_default]
    hb_vmDivMod_int [of "IInteger 7 10" "IInteger 0 10" 7 0 env_default] by simp

text \<open>The modulus operator stops the process for the smallest 64 bit integer and minus one: the
  divisor is only checked against zero.\<close>

theorem hb_vmModulus_trap:
  "hb_vmModulus env (ILong int64_min l1) (IInteger (-1) l2) = Inl HwTrap"
  by (simp add: hb_vmModulus_def Let_def)

text \<open>C20. The six relational operators are consistent: on operands they accept (two strings, two
  numbers other than NaN, two dates or timestamps, two logicals) exactly one of \<open><\<close>, \<open>=\<close> and \<open>>\<close> holds,
  \<open><=\<close> and \<open>>=\<close> are the unions, and \<open><>\<close> is the negation of \<open>=\<close>.\<close>

theorem hb_vm_trichotomy:
  assumes "comparable p1 p2"
  shows "\<exists>l e g. consistent env p1 p2 l e g"
proof -
  consider (str) a b where "p1 = IString a" "p2 = IString b"
    | (date) "HB_IS_DATETIME p1" "HB_IS_DATETIME p2"
    | (logical) a b where "p1 = ILogical a" "p2 = ILogical b"
    | (int) "HB_IS_NUMINT p1" "HB_IS_NUMINT p2"
    | (num) "HB_IS_NUMERIC p1" "HB_IS_NUMERIC p2" "\<not> (HB_IS_NUMINT p1 \<and> HB_IS_NUMINT p2)"
        "hb_itemGetND p1 \<noteq> DNaN" "hb_itemGetND p2 \<noteq> DNaN"
    using assms unfolding comparable_def by (metis HB_IS_STRING.elims(2) HB_IS_LOGICAL.elims(2))
  then show ?thesis
  proof cases
    case str
    define i where "i = hb_itemStrCmp (vset env) a b False"
    have "consistent env p1 p2 (i < 0) (i = 0) (0 < i)"
      unfolding consistent_def by (auto simp: rel_defs str i_def [symmetric])
    then show ?thesis by blast
  next
    case date
    then show ?thesis
      unfolding consistent_def by (cases p1; cases p2) (auto simp: rel_defs)
  next
    case logical
    then show ?thesis unfolding consistent_def by (cases a; cases b) (auto simp: rel_defs)
  next
    case int
    define n1 n2 where "n1 = HB_ITEM_GET_NUMINTRAW p1" and "n2 = HB_ITEM_GET_NUMINTRAW p2"
    have "consistent env p1 p2 (n1 < n2) (n1 = n2) (n2 < n1)"
      unfolding consistent_def n1_def n2_def using int by (cases p1; cases p2) (auto simp: rel_defs)
    then show ?thesis by blast
  next
    case num
    define d1 d2 where "d1 = hb_itemGetND p1" and "d2 = hb_itemGetND p2"
    have t: "(dlt d1 d2 \<and> \<not> deq d1 d2 \<and> \<not> dlt d2 d1) \<or> (\<not> dlt d1 d2 \<and> deq d1 d2 \<and> \<not> dlt d2 d1) \<or>
        (\<not> dlt d1 d2 \<and> \<not> deq d1 d2 \<and> dlt d2 d1)"
      using num(4,5) unfolding d1_def d2_def by (rule dlt_trichotomy)
    have sy: "deq d2 d1 = deq d1 d2" by (auto simp: deq_def)
    have "consistent env p1 p2 (dlt d1 d2) (deq d1 d2) (dlt d2 d1)"
      unfolding consistent_def using t sy num(1-3) unfolding d1_def d2_def
      by (cases p1; cases p2) (simp_all add: rel_defs dle_def HB_ITEM_GET_NUMDBLRAW_def Let_def)
    then show ?thesis by blast
  qed
qed

theorem hb_vm_trichotomy_witness:
  "\<exists>l e g. consistent env_default (IInteger 3 10) (IDouble (DFin (1 / 2)) 10 1) l e g"
  by (rule hb_vm_trichotomy) (simp add: comparable_def dbl_of_int_exact)

text \<open>Timestamp normalisation keeps the point in time and brings the milliseconds of a day number
  that is not negative into one day, for sums of two times of day.\<close>

theorem hb_vmTimeStampPut_normal:
  assumes "- 2 * HB_MILLISECS_PER_DAY < ms" "ms < 2 * HB_MILLISECS_PER_DAY"
  shows "\<exists>j' t'. hb_vmTimeStampPut j ms = ITimeStamp j' t' \<and>
    j' * HB_MILLISECS_PER_DAY + t' = j * HB_MILLISECS_PER_DAY + ms \<and>
    (if 0 \<le> j then 0 \<le> t' \<and> t' < HB_MILLISECS_PER_DAY else - HB_MILLISECS_PER_DAY < t' \<and> t' \<le> 0)"
  using assms by (auto simp: hb_vmTimeStampPut_def hb_itemPutTDT_def HB_MILLISECS_PER_DAY_def Let_def)

theorem hb_vmTimeStampPut_normal_witness:
  "\<exists>j' t'. hb_vmTimeStampPut 2460000 (-1) = ITimeStamp j' t' \<and>
    j' * HB_MILLISECS_PER_DAY + t' = 2460000 * HB_MILLISECS_PER_DAY + -1 \<and>
    (if 0 \<le> (2460000 :: int) then 0 \<le> t' \<and> t' < HB_MILLISECS_PER_DAY else - HB_MILLISECS_PER_DAY < t' \<and> t' \<le> 0)"
  by (rule hb_vmTimeStampPut_normal) (simp_all add: HB_MILLISECS_PER_DAY_def)

text \<open>\<open>++\<close> is the addition of the constant one, item type and display width included, on numbers
  and dates; only a \<open>long\<close> item whose successor fits an \<open>int\<close> keeps its wider type under \<open>++\<close>.\<close>

theorem hb_vmInc_AddInt:
  assumes "HB_IS_NUMERIC p \<or> HB_IS_DATETIME p" "wfItem p" "\<And>v l. p = ILong v l \<Longrightarrow> \<not> is_int32 (v + 1)"
  shows "hb_vmInc env p = hb_vmAddInt env p 1"
proof (cases p)
  case (IInteger v l)
  then have "is_int64 v" "is_int64 (v + 1)" using assms(2) by (simp_all add: is_int32_def is_int64_def c_defs)
  with IInteger assms(2) show ?thesis
    by (auto simp: hb_vmInc_def hb_vmAddInt_def Let_def wrap64_id HB_ITEM_PUT_NUMINTRAW_def is_int32_def int32_min_def int32_max_def)
next
  case (ILong v l)
  have "is_int64 v" using ILong assms(2) by simp
  moreover have "is_int64 1" by (simp add: is_int64_def c_defs)
  moreover have "v < int64_max \<longleftrightarrow> is_int64 (v + 1)" using \<open>is_int64 v\<close> by (auto simp: is_int64_def)
  ultimately show ?thesis
    using wrap64_add_check [of v 1] assms(3) ILong dbl_of_int_exact [of 1]
    by (auto simp: hb_vmInc_def hb_vmAddInt_def Let_def HB_ITEM_PUT_NUMINTRAW_def)
next
  case (IDouble d l dec)
  then show ?thesis using dbl_of_int_exact [of 1] by (simp add: hb_vmInc_def hb_vmAddInt_def Let_def)
qed (use assms(1) in \<open>simp_all add: hb_vmInc_def hb_vmAddInt_def\<close>)

theorem hb_vmInc_AddInt_witness:
  "hb_vmInc env_default (IInteger 2147483647 10) = hb_vmAddInt env_default (IInteger 2147483647 10) 1"
  by (rule hb_vmInc_AddInt) (simp_all add: is_int32_def c_defs)

text \<open>String operators: \<open>+\<close> concatenates, \<open>-\<close> concatenates with the trailing blanks of the left
  string moved to the end; both results have the length of the two operands together.\<close>

theorem hb_vmMinus_string:
  assumes "length a + length b < HB_SIZE_MAX"
  shows "\<exists>r. hb_vmMinus env (IString a) (IString b) = Inr (IString r) \<and>
    length r = length a + length b \<and> rtrim r = rtrim (rtrim a @ b) \<and>
    hb_vmPlus env (IString a) (IString b) = Inr (IString (a @ b))"
proof -
  have plus: "hb_vmPlus env (IString a) (IString b) = Inr (IString (a @ b))"
    using assms by (auto simp: hb_vmPlus_def Let_def)
  consider "a = []" | "a \<noteq> []" "b = []" | "a \<noteq> []" "b \<noteq> []" by blast
  then show ?thesis
  proof cases
    case 1
    then show ?thesis using plus by (simp add: hb_vmMinus_def)
  next
    case 2
    then show ?thesis using plus by (simp add: hb_vmMinus_def)
  next
    case 3
    define k where "k = length a + length b - length (rtrim a) - length b"
    have "hb_vmMinus env (IString a) (IString b) = Inr (IString (rtrim a @ b @ replicate k (CHR '' '')))"
      using 3 assms by (simp add: hb_vmMinus_def Let_def trim_len_rtrim take_length_rtrim k_def)
    then show ?thesis
      using plus length_rtrim [of a] rtrim_blanks [of "rtrim a @ b" k] by (simp add: k_def)
  qed
qed

theorem hb_vmMinus_string_witness:
  "\<exists>r. hb_vmMinus env_default (IString ''a '') (IString ''b'') = Inr (IString r) \<and>
    length r = length ''a '' + length ''b'' \<and> rtrim r = rtrim (rtrim ''a '' @ ''b'') \<and>
    hb_vmPlus env_default (IString ''a '') (IString ''b'') = Inr (IString (''a '' @ ''b''))"
  by (rule hb_vmMinus_string) (simp add: HB_SIZE_MAX_def)

end
