(* ===== verification/HbHash.thy ===== *)
theory HbHash
  imports HbItem HbBisect "HOL-Library.Word" "HOL-Library.Monad_Syntax" "HOL-Library.Product_Lexorder"
begin

unbundle bit_operations_syntax

text \<open>
  The hash arrays of \<open>src/vm/hashes.c\<close>: their state and operations, in the order of the file.

  A hash keeps an array of pairs and finds a key by binary search. Without \<open>HB_HASH_KEEPORDER\<close> the
  pairs themselves are sorted; with it they stay in the order they were added and \<open>pnPos\<close> lists
  their positions in key order. \<open>HB_HASH_RESORT\<close> says that the order is stale and is rebuilt by the
  next search.

  \<open>pPairs\<close> and \<open>pnPos\<close> hold the used part of the C arrays, so \<open>nLen\<close> is the length of \<open>pPairs\<close>; the
  slots from \<open>nLen\<close> to \<open>nSize\<close> hold nil pairs (\<open>hb_hashPair\<close>). The operations are modelled on the
  hash an item refers to: on an item of another type they do nothing. Values that are references
  (\<open>HB_IT_BYREF\<close>) are left out, and the deep copy of a value is the parameter \<open>clone\<close>. The result
  \<open>None\<close> is an internal error that ends the program, or a loop that does not return.
\<close>

subsection \<open>Flags and keys\<close>

definition HB_HASH_RESORT :: int where "HB_HASH_RESORT = 8"
definition HB_HASH_IGNORECASE :: int where "HB_HASH_IGNORECASE = 16"
definition HB_HASH_BINARY :: int where "HB_HASH_BINARY = 32"
definition HB_HASH_KEEPORDER :: int where "HB_HASH_KEEPORDER = 64"
definition HB_HASH_FLAG_DEFAULT :: int where "HB_HASH_FLAG_DEFAULT = 98"
definition HB_HASH_ITEM_ALLOC :: nat where "HB_HASH_ITEM_ALLOC = 16"

fun HB_IS_HASHKEY :: "HB_ITEM \<Rightarrow> bool" where
  "HB_IS_HASHKEY (IInteger v l) = True"
| "HB_IS_HASHKEY (ILong v l) = True"
| "HB_IS_HASHKEY (IDouble v l d) = True"
| "HB_IS_HASHKEY (IDate j) = True"
| "HB_IS_HASHKEY (ITimeStamp j t) = True"
| "HB_IS_HASHKEY (IString s) = True"
| "HB_IS_HASHKEY (IPointer p) = True"
| "HB_IS_HASHKEY _ = False"

record BASEHASH =
  pPairs :: "(HB_ITEM \<times> HB_ITEM) list"
  pDefault :: "HB_ITEM option"
  pnPos :: "nat list option"
  nSize :: nat
  iFlags :: int

abbreviation nLen :: "BASEHASH \<Rightarrow> nat" where
  "nLen h \<equiv> length (pPairs h)"

definition hb_hashPair :: "BASEHASH \<Rightarrow> nat \<Rightarrow> HB_ITEM \<times> HB_ITEM" where
  "hb_hashPair h i = (if i < nLen h then pPairs h ! i else (INil, INil))"

text \<open>\<open>hb_itemStrICmp\<close> is \<open>hb_itemStrCmp\<close> on letters of one case.\<close>

fun cmp_ibytes :: "string \<Rightarrow> string \<Rightarrow> int" where
  "cmp_ibytes (x # xs) (y # ys) =
     (let i1 = of_char (HB_TOUPPER x) :: nat; i2 = of_char (HB_TOUPPER y) in
      if i1 \<noteq> i2 then (if i1 < i2 then -1 else 1) else cmp_ibytes xs ys)"
| "cmp_ibytes _ _ = 0"

definition hb_itemStrICmp :: "hbSet \<Rightarrow> string \<Rightarrow> string \<Rightarrow> bool \<Rightarrow> int" where
  "hb_itemStrICmp st szFirst szSecond bForceExact =
     (let trim = \<not> bForceExact \<and> HB_SET_EXACT st;
          nLenFirst = (if trim then trim_len szFirst (length szFirst) (length szSecond) else length szFirst);
          nLenSecond = (if trim then trim_len szSecond (length szSecond) nLenFirst else length szSecond);
          exact = bForceExact \<or> trim;
          nMinLen = (if nLenFirst < nLenSecond then nLenFirst else nLenSecond)
      in if nMinLen \<noteq> 0 then
           (case cdpSort st of
              Some _ \<Rightarrow> cdpSortI st (take nLenFirst szFirst) (take nLenSecond szSecond) exact
            | None \<Rightarrow>
                (let iRet = cmp_ibytes (take nMinLen szFirst) (take nMinLen szSecond) in
                 if iRet = 0 \<and> nLenFirst \<noteq> nLenSecond \<and> (exact \<or> nLenFirst < nLenSecond)
                 then (if nLenFirst < nLenSecond then -1 else 1) else iRet))
         else if nLenFirst \<noteq> nLenSecond then
           (if exact then (if nLenFirst < nLenSecond then -1 else 1) else if nLenSecond = 0 then 0 else -1)
         else 0)"

text \<open>\<open>memcmp\<close> is read for its sign: the first byte that differs decides.\<close>

definition hb_hashItemCmp :: "hbSet \<Rightarrow> HB_ITEM \<Rightarrow> HB_ITEM \<Rightarrow> int \<Rightarrow> int" where
  "hb_hashItemCmp st pKey1 pKey2 fl =
     (if HB_IS_STRING pKey1 then
        (if HB_IS_STRING pKey2 then
           (let s1 = strVal pKey1; s2 = strVal pKey2 in
            if fl AND HB_HASH_BINARY \<noteq> 0 then
              (if length s1 < length s2 then -1 else if length s2 < length s1 then 1 else cmp_bytes s1 s2)
            else if fl AND HB_HASH_IGNORECASE \<noteq> 0 then hb_itemStrICmp st s1 s2 True
            else hb_itemStrCmp st s1 s2 True)
         else 1)
      else if HB_IS_DATETIME pKey1 then
        (if HB_IS_DATETIME pKey2 then
           (if julianVal pKey1 < julianVal pKey2 then -1 else if julianVal pKey2 < julianVal pKey1 then 1
            else if timeVal pKey1 < timeVal pKey2 then -1 else if timeVal pKey2 < timeVal pKey1 then 1 else 0)
         else if HB_IS_STRING pKey2 then -1 else 1)
      else
        (case pKey1 of
           IPointer p1 \<Rightarrow>
             (case pKey2 of
                IPointer p2 \<Rightarrow> (if p1 < p2 then -1 else if p2 < p1 then 1 else 0)
              | _ \<Rightarrow> (if HB_IS_STRING pKey2 \<or> HB_IS_DATETIME pKey2 then -1 else 1))
         | _ \<Rightarrow>
             (if HB_IS_NUMINT pKey1 \<and> HB_IS_NUMINT pKey2 then
                (let n1 = HB_ITEM_GET_NUMINTRAW pKey1; n2 = HB_ITEM_GET_NUMINTRAW pKey2 in
                 if n1 < n2 then -1 else if n2 < n1 then 1 else 0)
              else if HB_IS_NUMERIC pKey2 then
                (let d1 = hb_itemGetND pKey1; d2 = hb_itemGetND pKey2 in
                 if dlt d1 d2 then -1 else if dlt d2 d1 then 1 else 0)
              else -1)))"

subsection \<open>Sorting\<close>

definition hb_hashResort :: "BASEHASH \<Rightarrow> BASEHASH option" where
  "hb_hashResort h =
     (if nLen h = 0 then None
      else Some (h\<lparr>pPairs := map (hb_hashPair h) (the (pnPos h)), pnPos := Some [0..<nLen h], nSize := nLen h\<rparr>))"

function sortPos_loop :: "hbSet \<Rightarrow> int \<Rightarrow> (HB_ITEM \<times> HB_ITEM) list \<Rightarrow> nat list \<Rightarrow> HB_ITEM \<Rightarrow> nat \<Rightarrow> nat \<Rightarrow> nat" where
  "sortPos_loop st fl ps idx pKey nLeft nRight =
     (if nLeft < nRight then
        (let nMiddle = (nLeft + nRight) div 2 in
         if 0 < hb_hashItemCmp st (fst (ps ! (idx ! nMiddle))) pKey fl
         then sortPos_loop st fl ps idx pKey nLeft nMiddle
         else sortPos_loop st fl ps idx pKey (nMiddle + 1) nRight)
      else nLeft)"
  by pat_completeness auto
termination
  by (relation "measure (\<lambda>(st, fl, ps, idx, k, l, r). r - l)") auto

declare sortPos_loop.simps [simp del]

definition sortPos_insert :: "hbSet \<Rightarrow> int \<Rightarrow> (HB_ITEM \<times> HB_ITEM) list \<Rightarrow> nat list \<Rightarrow> nat \<Rightarrow> nat list" where
  "sortPos_insert st fl ps idx nFrom =
     (let nLeft = sortPos_loop st fl ps idx (fst (ps ! nFrom)) 0 nFrom
      in take nLeft idx @ nFrom # drop nLeft idx)"

definition sortPos :: "hbSet \<Rightarrow> int \<Rightarrow> (HB_ITEM \<times> HB_ITEM) list \<Rightarrow> nat list" where
  "sortPos st fl ps = (if ps = [] then [] else foldl (sortPos_insert st fl ps) [0] [1..<length ps])"

fun sortPairs_down :: "hbSet \<Rightarrow> int \<Rightarrow> (HB_ITEM \<times> HB_ITEM) list \<Rightarrow> nat \<Rightarrow> (HB_ITEM \<times> HB_ITEM) list" where
  "sortPairs_down st fl ps 0 = ps"
| "sortPairs_down st fl ps (Suc n) =
     (if 0 < hb_hashItemCmp st (fst (ps ! n)) (fst (ps ! Suc n)) fl
      then sortPairs_down st fl (ps[n := ps ! Suc n, Suc n := ps ! n]) n
      else ps)"

definition sortPairs :: "hbSet \<Rightarrow> int \<Rightarrow> (HB_ITEM \<times> HB_ITEM) list \<Rightarrow> (HB_ITEM \<times> HB_ITEM) list" where
  "sortPairs st fl ps = foldl (sortPairs_down st fl) ps [1..<length ps]"

definition hb_hashSortDo :: "hbSet \<Rightarrow> BASEHASH \<Rightarrow> BASEHASH" where
  "hb_hashSortDo st h =
     (case pnPos h of
        Some _ \<Rightarrow> h\<lparr>pnPos := Some (sortPos st (iFlags h) (pPairs h)), iFlags := iFlags h AND NOT HB_HASH_RESORT\<rparr>
      | None \<Rightarrow> h\<lparr>pPairs := sortPairs st (iFlags h) (pPairs h), iFlags := iFlags h AND NOT HB_HASH_RESORT\<rparr>)"

subsection \<open>Search, growth, insertion and removal\<close>

definition hb_hashSlot :: "BASEHASH \<Rightarrow> nat \<Rightarrow> nat" where
  "hb_hashSlot h nMiddle = (case pnPos h of Some xs \<Rightarrow> xs ! nMiddle | None \<Rightarrow> nMiddle)"

function hashFind_loop :: "hbSet \<Rightarrow> int \<Rightarrow> BASEHASH \<Rightarrow> HB_ITEM \<Rightarrow> nat \<Rightarrow> nat \<Rightarrow> nat option \<times> nat" where
  "hashFind_loop st fl h pKey nLeft nRight =
     (if nLeft < nRight then
        (let nMiddle = (nLeft + nRight) div 2;
             i = hb_hashItemCmp st (fst (hb_hashPair h (hb_hashSlot h nMiddle))) pKey fl in
         if i = 0 then (Some (hb_hashSlot h nMiddle), nMiddle)
         else if i < 0 then hashFind_loop st fl h pKey (nMiddle + 1) nRight
         else hashFind_loop st fl h pKey nLeft nMiddle)
      else (None, nLeft))"
  by pat_completeness auto
termination
  by (relation "measure (\<lambda>(st, fl, h, k, l, r). r - l)") auto

declare hashFind_loop.simps [simp del]

definition hb_hashFind :: "hbSet \<Rightarrow> BASEHASH \<Rightarrow> HB_ITEM \<Rightarrow> BASEHASH \<times> bool \<times> nat" where
  "hb_hashFind st h pKey =
     (let fl = iFlags h;
          h = (if fl AND HB_HASH_RESORT \<noteq> 0 then hb_hashSortDo st h else h)
      in case hashFind_loop st fl h pKey 0 (nLen h) of
           (Some p, _) \<Rightarrow> (h, True, p)
         | (None, nLeft) \<Rightarrow> (h, False, nLeft))"

definition hb_hashResize :: "BASEHASH \<Rightarrow> nat \<Rightarrow> BASEHASH" where
  "hb_hashResize h nNewSize =
     (if nSize h < nNewSize then
        (if nSize h \<noteq> 0 then h\<lparr>nSize := nNewSize\<rparr>
         else h\<lparr>pnPos := (if iFlags h AND HB_HASH_KEEPORDER \<noteq> 0 then Some [] else pnPos h), nSize := nNewSize\<rparr>)
      else if nNewSize < nSize h \<and> nLen h \<le> nNewSize then
        (if nNewSize \<noteq> 0 then h\<lparr>nSize := nNewSize\<rparr>
         else h\<lparr>pPairs := [], pnPos := None, nSize := 0\<rparr>)
      else h)"

text \<open>The insertion of a missing key, which \<open>hb_hashValuePtr\<close> and \<open>hb_hashNewValue\<close> share.\<close>

definition hb_hashPlace :: "BASEHASH \<Rightarrow> nat \<Rightarrow> HB_ITEM \<times> HB_ITEM \<Rightarrow> BASEHASH \<times> nat" where
  "hb_hashPlace h0 nPos kv =
     (let h = (if nSize h0 = nLen h0 then hb_hashResize h0 (nSize h0 + HB_HASH_ITEM_ALLOC) else h0)
      in case pnPos h of
           Some xs \<Rightarrow>
             (h\<lparr>pnPos := Some (take nPos xs @ nLen h # drop nPos xs), pPairs := pPairs h @ [kv]\<rparr>, nLen h)
         | None \<Rightarrow> (h\<lparr>pPairs := take nPos (pPairs h) @ kv # drop nPos (pPairs h)\<rparr>, nPos))"

definition hb_hashValuePtr ::
    "hbSet \<Rightarrow> (HB_ITEM \<Rightarrow> HB_ITEM) \<Rightarrow> BASEHASH \<Rightarrow> HB_ITEM \<Rightarrow> bool \<Rightarrow> BASEHASH \<times> nat option" where
  "hb_hashValuePtr st clone h pKey fAdd =
     (let (h, found, nPos) = hb_hashFind st h pKey in
      if found then (h, Some nPos)
      else if \<not> fAdd then (h, None)
      else (let (h, nPos) = hb_hashPlace h nPos (pKey, case pDefault h of Some d \<Rightarrow> clone d | None \<Rightarrow> INil)
            in (h, Some nPos)))"

definition hb_hashNewValue :: "hbSet \<Rightarrow> BASEHASH \<Rightarrow> HB_ITEM \<Rightarrow> HB_ITEM \<Rightarrow> BASEHASH \<times> bool" where
  "hb_hashNewValue st h pKey pValue =
     (let (h, found, nPos) = hb_hashFind st h pKey in
      if \<not> found then (fst (hb_hashPlace h nPos (pKey, pValue)), True) else (h, False))"

text \<open>\<open>hb_hashNewPair\<close> hands out the pair behind the last one; \<open>kv\<close> is what its caller writes there.\<close>

definition hb_hashNewPair :: "BASEHASH \<Rightarrow> HB_ITEM \<times> HB_ITEM \<Rightarrow> BASEHASH" where
  "hb_hashNewPair h0 kv =
     (let h = (if nSize h0 = nLen h0 then hb_hashResize h0 (nSize h0 + HB_HASH_ITEM_ALLOC) else h0)
      in h\<lparr>pnPos := map_option (\<lambda>xs. xs @ [nLen h]) (pnPos h), pPairs := pPairs h @ [kv]\<rparr>)"

text \<open>The loop of \<open>hb_hashDelPair\<close> over the \<open>nEnd + 1\<close> old entries of \<open>pnPos\<close>, with a bound on its
  rounds: \<open>None\<close> when it is used up. The last entry stays behind when the others move down.\<close>

fun delPos_loop :: "nat \<Rightarrow> nat \<Rightarrow> nat \<Rightarrow> nat list \<Rightarrow> nat \<Rightarrow> nat list option" where
  "delPos_loop 0 nEnd nPos xs n = None"
| "delPos_loop (Suc fuel) nEnd nPos xs n =
     (if n < nEnd then
        (if nPos < xs ! n then delPos_loop fuel nEnd nPos (xs[n := xs ! n - 1]) (n + 1)
         else if xs ! n = nPos then
           delPos_loop fuel nEnd nPos (take n xs @ drop (n + 1) xs @ [xs ! nEnd]) n
         else delPos_loop fuel nEnd nPos xs (n + 1))
      else Some xs)"

definition hb_hashDelPair :: "BASEHASH \<Rightarrow> nat \<Rightarrow> BASEHASH option" where
  "hb_hashDelPair h nPos =
     (let n = nLen h - 1 in
      if n = 0 then Some (h\<lparr>pPairs := [], nSize := 0, pnPos := None\<rparr>)
      else do {
        pos \<leftarrow> (case pnPos h of
                 None \<Rightarrow> Some None
               | Some xs \<Rightarrow>
                   (if iFlags h AND HB_HASH_RESORT = 0
                    then map_option (\<lambda>ys. Some (take n ys)) (delPos_loop (2 * n + 2) n nPos xs 0)
                    else Some (Some (take n xs))));
        Some (h\<lparr>pPairs := take nPos (pPairs h) @ drop (nPos + 1) (pPairs h),
                nSize := (if 2 * HB_HASH_ITEM_ALLOC < nSize h - n then nSize h - HB_HASH_ITEM_ALLOC else nSize h),
                pnPos := pos\<rparr>)
      })"

subsection \<open>The operations of the other modules\<close>

definition hb_hashNew :: BASEHASH where
  "hb_hashNew = \<lparr>pPairs = [], pDefault = None, pnPos = None, nSize = 0, iFlags = HB_HASH_FLAG_DEFAULT\<rparr>"

definition hb_hashLen :: "BASEHASH \<Rightarrow> nat" where
  "hb_hashLen h = nLen h"

definition hb_hashPreallocate :: "BASEHASH \<Rightarrow> nat \<Rightarrow> BASEHASH" where
  "hb_hashPreallocate h nNewSize = hb_hashResize h nNewSize"

definition hb_hashAllocNewPair :: "BASEHASH \<Rightarrow> HB_ITEM \<times> HB_ITEM \<Rightarrow> BASEHASH" where
  "hb_hashAllocNewPair h kv = hb_hashNewPair h kv"

definition hb_hashSort :: "hbSet \<Rightarrow> BASEHASH \<Rightarrow> BASEHASH option" where
  "hb_hashSort st h0 =
     (let h = (if iFlags h0 AND HB_HASH_RESORT \<noteq> 0 then hb_hashSortDo st h0 else h0)
      in if pnPos h \<noteq> None then hb_hashResort h else Some h)"

text \<open>The item pointers the searches return are positions of values in \<open>pPairs\<close>.\<close>

definition hb_hashGetItemPtr ::
    "hbSet \<Rightarrow> (HB_ITEM \<Rightarrow> HB_ITEM) \<Rightarrow> BASEHASH \<Rightarrow> HB_ITEM \<Rightarrow> int \<Rightarrow> BASEHASH \<times> nat option" where
  "hb_hashGetItemPtr st clone h pKey fl =
     (if HB_IS_HASHKEY pKey then hb_hashValuePtr st clone h pKey (fl \<noteq> 0 \<and> iFlags h AND fl = fl)
      else (h, None))"

definition hb_hashGetCItemPtr ::
    "hbSet \<Rightarrow> (HB_ITEM \<Rightarrow> HB_ITEM) \<Rightarrow> BASEHASH \<Rightarrow> string \<Rightarrow> BASEHASH \<times> nat option" where
  "hb_hashGetCItemPtr st clone h pszKey = hb_hashValuePtr st clone h (IString pszKey) False"

definition hb_hashGetCItemPos :: "hbSet \<Rightarrow> BASEHASH \<Rightarrow> string \<Rightarrow> BASEHASH \<times> nat" where
  "hb_hashGetCItemPos st h pszKey =
     (let (h, found, nPos) = hb_hashFind st h (IString pszKey) in (h, if found then nPos + 1 else 0))"

definition hb_itemEqual :: "HB_ITEM \<Rightarrow> HB_ITEM \<Rightarrow> bool" where
  "hb_itemEqual pItem1 pItem2 =
     (if HB_IS_NUMERIC pItem1 then
        (if HB_IS_NUMINT pItem1 \<and> HB_IS_NUMINT pItem2
         then HB_ITEM_GET_NUMINTRAW pItem1 = HB_ITEM_GET_NUMINTRAW pItem2
         else HB_IS_NUMERIC pItem2 \<and> deq (hb_itemGetND pItem1) (hb_itemGetND pItem2))
      else
        (case pItem1 of
           IString s1 \<Rightarrow> (case pItem2 of IString s2 \<Rightarrow> length s1 = length s2 \<and> cmp_bytes s1 s2 = 0 | _ \<Rightarrow> False)
         | INil \<Rightarrow> pItem2 = INil
         | IDate _ \<Rightarrow> HB_IS_DATETIME pItem2 \<and> julianVal pItem1 = julianVal pItem2 \<and> timeVal pItem1 = timeVal pItem2
         | ITimeStamp _ _ \<Rightarrow> HB_IS_DATETIME pItem2 \<and> julianVal pItem1 = julianVal pItem2 \<and> timeVal pItem1 = timeVal pItem2
         | ILogical b1 \<Rightarrow> HB_IS_LOGICAL pItem2 \<and> (if b1 then logVal pItem2 else \<not> logVal pItem2)
         | IArray a1 _ \<Rightarrow> (case pItem2 of IArray a2 _ \<Rightarrow> a1 = a2 | _ \<Rightarrow> False)
         | IHash h1 \<Rightarrow> (case pItem2 of IHash h2 \<Rightarrow> h1 = h2 | _ \<Rightarrow> False)
         | IPointer p1 \<Rightarrow> (case pItem2 of IPointer p2 \<Rightarrow> p1 = p2 | _ \<Rightarrow> False)
         | IBlock b1 \<Rightarrow> (case pItem2 of IBlock b2 \<Rightarrow> b1 = b2 | _ \<Rightarrow> False)
         | ISymbol v1 d1 \<Rightarrow> (case pItem2 of ISymbol v2 d2 \<Rightarrow> v1 = v2 \<or> d1 \<noteq> None \<and> d1 = d2 | _ \<Rightarrow> False)
         | _ \<Rightarrow> False))"

text \<open>An argument that may be a key, an array of keys or a hash; for a hash, whether it is the
  same one as the first argument.\<close>

datatype hashArg = AItem HB_ITEM | AArray "HB_ITEM list" | AHash bool BASEHASH

definition hb_hashScan :: "hbSet \<Rightarrow> BASEHASH \<Rightarrow> hashArg \<Rightarrow> BASEHASH \<times> bool \<times> nat" where
  "hb_hashScan st h pKey =
     (case pKey of
        AItem k \<Rightarrow>
          (if HB_IS_HASHKEY k then
             (let (h, found, nPos) = hb_hashFind st h k in if found then (h, True, nPos + 1) else (h, False, 0))
           else (h, False, 0))
      | AHash same h2 \<Rightarrow>
          (if nLen h2 = 1 then
             (let (h, found, nPos) = hb_hashFind st h (fst (pPairs h2 ! 0)) in
              if found \<and> hb_itemEqual (snd (pPairs h ! nPos)) (snd (pPairs h2 ! 0)) then (h, True, nPos + 1)
              else (h, False, 0))
           else (h, False, 0))
      | AArray _ \<Rightarrow> (h, False, 0))"

definition hb_hashScanSoft :: "hbSet \<Rightarrow> BASEHASH \<Rightarrow> HB_ITEM \<Rightarrow> BASEHASH \<times> bool \<times> nat" where
  "hb_hashScanSoft st h pKey =
     (if HB_IS_HASHKEY pKey then
        (let (h, found, nPos) = hb_hashFind st h pKey in
         if found then (h, True, nPos + 1)
         else (h, False, case pnPos h of
                           Some xs \<Rightarrow> (if nPos \<noteq> 0 then xs ! (nPos - 1) + 1 else nPos)
                         | None \<Rightarrow> nPos))
      else (h, False, 0))"

definition hb_hashClear :: "BASEHASH \<Rightarrow> BASEHASH" where
  "hb_hashClear h = (if nSize h \<noteq> 0 then h\<lparr>pPairs := [], nSize := 0, pnPos := None\<rparr> else h)"

definition hb_hashDel :: "hbSet \<Rightarrow> BASEHASH \<Rightarrow> HB_ITEM \<Rightarrow> (BASEHASH \<times> bool) option" where
  "hb_hashDel st h pKey =
     (if HB_IS_HASHKEY pKey then
        (let (h, found, nPos) = hb_hashFind st h pKey in
         if found then map_option (\<lambda>h. (h, True)) (hb_hashDelPair h nPos) else Some (h, False))
      else Some (h, False))"

fun hashDel_all :: "hbSet \<Rightarrow> BASEHASH \<Rightarrow> HB_ITEM list \<Rightarrow> BASEHASH option" where
  "hashDel_all st h [] = Some h"
| "hashDel_all st h (k # ks) = do { (h, b) \<leftarrow> hb_hashDel st h k; hashDel_all st h ks }"

definition hb_hashRemove :: "hbSet \<Rightarrow> BASEHASH \<Rightarrow> hashArg \<Rightarrow> (BASEHASH \<times> bool) option" where
  "hb_hashRemove st h pItem =
     (case pItem of
        AItem k \<Rightarrow> (if HB_IS_HASHKEY k then map_option (\<lambda>(h, b). (h, True)) (hb_hashDel st h k) else Some (h, False))
      | AArray ks \<Rightarrow> map_option (\<lambda>h. (h, True)) (hashDel_all st h ks)
      | AHash same h2 \<Rightarrow>
          (if same then Some (hb_hashClear h, True)
           else map_option (\<lambda>h. (h, True)) (hashDel_all st h (map fst (pPairs h2)))))"

definition hb_hashAdd ::
    "hbSet \<Rightarrow> (HB_ITEM \<Rightarrow> HB_ITEM) \<Rightarrow> BASEHASH \<Rightarrow> HB_ITEM \<Rightarrow> HB_ITEM option \<Rightarrow> BASEHASH \<times> bool" where
  "hb_hashAdd st clone h pKey pValue =
     (if HB_IS_HASHKEY pKey then
        (case hb_hashValuePtr st clone h pKey True of
           (h, Some p) \<Rightarrow>
             (h\<lparr>pPairs := (pPairs h)[p := (fst (pPairs h ! p), case pValue of Some v \<Rightarrow> v | None \<Rightarrow> INil)]\<rparr>, True)
         | (h, None) \<Rightarrow> (h, False))
      else (h, False))"

definition hb_hashAddNew :: "hbSet \<Rightarrow> BASEHASH \<Rightarrow> HB_ITEM \<Rightarrow> HB_ITEM \<Rightarrow> BASEHASH \<times> bool" where
  "hb_hashAddNew st h pKey pValue =
     (if HB_IS_HASHKEY pKey then hb_hashNewValue st h pKey pValue else (h, False))"

definition hb_hashGetKeyAt :: "BASEHASH \<Rightarrow> nat \<Rightarrow> HB_ITEM option" where
  "hb_hashGetKeyAt h nPos = (if 0 < nPos \<and> nPos \<le> nLen h then Some (fst (pPairs h ! (nPos - 1))) else None)"

definition hb_hashGetValueAt :: "BASEHASH \<Rightarrow> nat \<Rightarrow> HB_ITEM option" where
  "hb_hashGetValueAt h nPos = (if 0 < nPos \<and> nPos \<le> nLen h then Some (snd (pPairs h ! (nPos - 1))) else None)"

definition hb_hashDelAt :: "BASEHASH \<Rightarrow> nat \<Rightarrow> (BASEHASH \<times> bool) option" where
  "hb_hashDelAt h nPos =
     (if 0 < nPos \<and> nPos \<le> nLen h then map_option (\<lambda>h. (h, True)) (hb_hashDelPair h (nPos - 1))
      else Some (h, False))"

definition hb_hashCloneBody :: "(HB_ITEM \<Rightarrow> HB_ITEM) \<Rightarrow> BASEHASH \<Rightarrow> BASEHASH option" where
  "hb_hashCloneBody clone h =
     (let d = hb_hashResize (hb_hashNew\<lparr>iFlags := iFlags h\<rparr>) (nLen h) in
      if nLen h \<noteq> 0 \<and> (pnPos d = None) \<noteq> (pnPos h = None) then None
      else Some (d\<lparr>pDefault := pDefault h,
                   pnPos := (if nLen h = 0 then pnPos d else pnPos h),
                   pPairs := map (\<lambda>(k, v). (k, clone v)) (pPairs h)\<rparr>))"

fun hashGetKeys_from :: "BASEHASH \<Rightarrow> nat \<Rightarrow> nat \<Rightarrow> HB_ITEM list" where
  "hashGetKeys_from h 0 nPos = []"
| "hashGetKeys_from h (Suc n) nPos =
     (case hb_hashGetKeyAt h (nPos + 1) of Some k \<Rightarrow> k # hashGetKeys_from h n (nPos + 1) | None \<Rightarrow> replicate (Suc n) INil)"

definition hb_hashGetKeys :: "BASEHASH \<Rightarrow> HB_ITEM list" where
  "hb_hashGetKeys h = hashGetKeys_from h (hb_hashLen h) 0"

fun hashGetValues_from :: "BASEHASH \<Rightarrow> nat \<Rightarrow> nat \<Rightarrow> HB_ITEM list" where
  "hashGetValues_from h 0 nPos = []"
| "hashGetValues_from h (Suc n) nPos =
     (case hb_hashGetValueAt h (nPos + 1) of Some k \<Rightarrow> k # hashGetValues_from h n (nPos + 1) | None \<Rightarrow> replicate (Suc n) INil)"

definition hb_hashGetValues :: "BASEHASH \<Rightarrow> HB_ITEM list" where
  "hb_hashGetValues h = hashGetValues_from h (hb_hashLen h) 0"

text \<open>\<open>self\<close> is the address of the hash.\<close>

definition hb_hashSetDefault :: "(HB_ITEM \<Rightarrow> HB_ITEM) \<Rightarrow> nat \<Rightarrow> BASEHASH \<Rightarrow> HB_ITEM option \<Rightarrow> BASEHASH" where
  "hb_hashSetDefault clone self h pValue =
     h\<lparr>pDefault := (case pValue of
                      None \<Rightarrow> None
                    | Some v \<Rightarrow> (if v \<noteq> INil \<and> v \<noteq> IHash self then Some (clone v) else None))\<rparr>"

definition hb_hashGetDefault :: "BASEHASH \<Rightarrow> HB_ITEM option" where
  "hb_hashGetDefault h = pDefault h"

definition hb_hashSetFlags :: "BASEHASH \<Rightarrow> int \<Rightarrow> BASEHASH" where
  "hb_hashSetFlags h fl =
     (let h = h\<lparr>iFlags := iFlags h OR fl\<rparr> in
      if pnPos h = None \<and> nSize h \<noteq> 0 \<and> iFlags h AND HB_HASH_KEEPORDER \<noteq> 0
      then h\<lparr>pnPos := Some [0..<nLen h]\<rparr> else h)"

definition hb_hashClearFlags :: "BASEHASH \<Rightarrow> int \<Rightarrow> BASEHASH option" where
  "hb_hashClearFlags h fl =
     (let h = h\<lparr>iFlags := iFlags h AND NOT fl\<rparr> in
      if pnPos h \<noteq> None \<and> iFlags h AND HB_HASH_KEEPORDER = 0
      then map_option (\<lambda>h. h\<lparr>pnPos := None\<rparr>) (hb_hashResort h) else Some h)"

definition hb_hashGetFlags :: "BASEHASH \<Rightarrow> int" where
  "hb_hashGetFlags h = iFlags h"

subsection \<open>Joining two hashes\<close>

fun joinUnion :: "hbSet \<Rightarrow> (HB_ITEM \<Rightarrow> HB_ITEM) \<Rightarrow> BASEHASH \<Rightarrow> (HB_ITEM \<times> HB_ITEM) list \<Rightarrow> BASEHASH" where
  "joinUnion st clone d [] = d"
| "joinUnion st clone d ((k, v) # ps) = joinUnion st clone (fst (hb_hashAdd st clone d k (Some v))) ps"

fun joinIntersect :: "nat \<Rightarrow> hbSet \<Rightarrow> BASEHASH \<Rightarrow> BASEHASH \<Rightarrow> nat \<Rightarrow> (BASEHASH \<times> BASEHASH) option" where
  "joinIntersect fuel st d s nPos =
     (if nPos < nLen d then
        (case fuel of
           0 \<Rightarrow> None
         | Suc n \<Rightarrow>
             (let (s, found, nSrcPos) = hb_hashFind st s (fst (pPairs d ! nPos)) in
              if found then
                joinIntersect n st
                  (d\<lparr>pPairs := (pPairs d)[nPos := (fst (pPairs d ! nPos), snd (pPairs s ! nSrcPos))]\<rparr>) s (nPos + 1)
              else do { d \<leftarrow> hb_hashDelPair d nPos; joinIntersect n st d s nPos }))
      else Some (d, s))"

declare joinIntersect.simps [simp del]

fun joinDifference ::
    "hbSet \<Rightarrow> (HB_ITEM \<Rightarrow> HB_ITEM) \<Rightarrow> BASEHASH \<Rightarrow> (HB_ITEM \<times> HB_ITEM) list \<Rightarrow> BASEHASH option" where
  "joinDifference st clone d [] = Some d"
| "joinDifference st clone d ((k, v) # ps) =
     do { (d, deleted) \<leftarrow> hb_hashDel st d k;
          joinDifference st clone (if deleted then d else fst (hb_hashAdd st clone d k (Some v))) ps }"

text \<open>\<open>hb_hashJoin\<close> of a destination and a source, which may be the same hash. The rounds of the
  intersection are bounded by the length of the destination.\<close>

definition hb_hashJoin ::
    "hbSet \<Rightarrow> (HB_ITEM \<Rightarrow> HB_ITEM) \<Rightarrow> bool \<Rightarrow> BASEHASH \<Rightarrow> BASEHASH \<Rightarrow> nat \<Rightarrow> (BASEHASH \<times> BASEHASH) option" where
  "hb_hashJoin st clone same pDest pSource iType =
     (if iType = 0 then
        (if same then Some (pDest, pDest) else Some (joinUnion st clone pDest (pPairs pSource), pSource))
      else if iType = 1 then
        (if same then Some (pDest, pDest) else joinIntersect (nLen pDest) st pDest pSource 0)
      else if iType = 2 then
        (if same then Some (hb_hashClear pDest, hb_hashClear pDest)
         else map_option (\<lambda>d. (d, pSource)) (joinDifference st clone pDest (pPairs pSource)))
      else if iType = 3 then
        (if same then Some (hb_hashClear pDest, hb_hashClear pDest)
         else map_option (\<lambda>d. (d, pSource)) (hashDel_all st pDest (map fst (pPairs pSource))))
      else Some (pDest, pSource))"

subsection \<open>The functions of \<open>hashfunc.c\<close> that change the order of the keys\<close>

text \<open>The result is the old setting; \<open>pValue\<close> is the optional new one.\<close>

definition HB_HSORT :: "hbSet \<Rightarrow> BASEHASH \<Rightarrow> BASEHASH option" where
  "HB_HSORT st h = hb_hashSort st h"

definition HB_HCASEMATCH :: "BASEHASH \<Rightarrow> bool option \<Rightarrow> (bool \<times> BASEHASH) option" where
  "HB_HCASEMATCH h pValue =
     (let fl = hb_hashGetFlags h; ret = (fl AND HB_HASH_IGNORECASE = 0) in
      case pValue of
        None \<Rightarrow> Some (ret, h)
      | Some True \<Rightarrow>
          (if fl AND HB_HASH_IGNORECASE \<noteq> 0
           then do { h \<leftarrow> hb_hashClearFlags h HB_HASH_IGNORECASE; Some (ret, hb_hashSetFlags h HB_HASH_RESORT) }
           else Some (ret, h))
      | Some False \<Rightarrow>
          (if fl AND HB_HASH_IGNORECASE = 0
           then do { h \<leftarrow> hb_hashClearFlags h HB_HASH_BINARY;
                     Some (ret, hb_hashSetFlags h (HB_HASH_IGNORECASE OR HB_HASH_RESORT)) }
           else Some (ret, h)))"

definition HB_HBINARY :: "BASEHASH \<Rightarrow> bool option \<Rightarrow> (bool \<times> BASEHASH) option" where
  "HB_HBINARY h pValue =
     (let fl = hb_hashGetFlags h; ret = (fl AND HB_HASH_BINARY \<noteq> 0) in
      case pValue of
        None \<Rightarrow> Some (ret, h)
      | Some True \<Rightarrow>
          (if fl AND HB_HASH_BINARY = 0
           then do { h \<leftarrow> hb_hashClearFlags h HB_HASH_IGNORECASE;
                     Some (ret, hb_hashSetFlags h (HB_HASH_BINARY OR HB_HASH_RESORT)) }
           else Some (ret, h))
      | Some False \<Rightarrow>
          (if fl AND HB_HASH_BINARY \<noteq> 0
           then do { h \<leftarrow> hb_hashClearFlags h HB_HASH_BINARY; Some (ret, hb_hashSetFlags h HB_HASH_RESORT) }
           else Some (ret, h)))"

definition HB_HKEEPORDER :: "BASEHASH \<Rightarrow> bool option \<Rightarrow> (bool \<times> BASEHASH) option" where
  "HB_HKEEPORDER h pValue =
     (let fl = hb_hashGetFlags h; ret = (fl AND HB_HASH_KEEPORDER \<noteq> 0) in
      case pValue of
        None \<Rightarrow> Some (ret, h)
      | Some True \<Rightarrow>
          Some (ret, if fl AND HB_HASH_KEEPORDER = 0 then hb_hashSetFlags h HB_HASH_KEEPORDER else h)
      | Some False \<Rightarrow>
          (if fl AND HB_HASH_KEEPORDER \<noteq> 0 then map_option (\<lambda>h. (ret, h)) (hb_hashClearFlags h HB_HASH_KEEPORDER)
           else Some (ret, h)))"

end
