(* ===== verification/HbHashCorrect.thy ===== *)
theory HbHashCorrect
  imports HbHash "HOL-Library.Multiset"
begin

text \<open>
  Keys of a hash as a linear order, the two sorts of \<open>hb_hashSortDo\<close>, the invariant of a hash and its
  binary search, obtained from the locale \<open>bisect\<close>.
\<close>

subsection \<open>Keys as a linear order\<close>

datatype hashKey = HKNum int rat | HKPtr nat | HKTime int int | HKStr nat string

fun hkRank :: "hashKey \<Rightarrow> nat \<times> int \<times> rat \<times> int \<times> string" where
  "hkRank (HKNum c r) = (0, c, r, 0, [])"
| "hkRank (HKPtr p) = (1, int p, 0, 0, [])"
| "hkRank (HKTime j t) = (2, j, 0, t, [])"
| "hkRank (HKStr n s) = (3, int n, 0, 0, s)"

lemma hkRank_inj: "hkRank x = hkRank y \<longleftrightarrow> x = y"
  by (cases x; cases y) auto

instantiation hashKey :: linorder
begin

definition less_eq_hashKey :: "hashKey \<Rightarrow> hashKey \<Rightarrow> bool" where
  "less_eq_hashKey x y \<longleftrightarrow> hkRank x \<le> hkRank y"

definition less_hashKey :: "hashKey \<Rightarrow> hashKey \<Rightarrow> bool" where
  "less_hashKey x y \<longleftrightarrow> hkRank x < hkRank y"

instance
  by standard (auto simp: less_eq_hashKey_def less_hashKey_def hkRank_inj less_le_not_le [symmetric] simp flip: not_le)

end

fun numKey :: "dbl \<Rightarrow> hashKey" where
  "numKey (DFin r) = HKNum 0 r"
| "numKey DPosInf = HKNum 1 0"
| "numKey DNegInf = HKNum (-1) 0"
| "numKey DNaN = HKNum 2 0"

fun hashKeyOf :: "int \<Rightarrow> HB_ITEM \<Rightarrow> hashKey" where
  "hashKeyOf fl (IString s) =
     (if fl AND HB_HASH_BINARY \<noteq> 0 then HKStr (length s) s
      else if fl AND HB_HASH_IGNORECASE \<noteq> 0 then HKStr 0 (map HB_TOUPPER s)
      else HKStr 0 s)"
| "hashKeyOf fl (IDate j) = HKTime j 0"
| "hashKeyOf fl (ITimeStamp j t) = HKTime j t"
| "hashKeyOf fl (IPointer p) = HKPtr p"
| "hashKeyOf fl p = numKey (hb_itemGetND p)"

fun goodKey :: "HB_ITEM \<Rightarrow> bool" where
  "goodKey (IInteger v l) \<longleftrightarrow> \<bar>v\<bar> \<le> 2 ^ 53"
| "goodKey (ILong v l) \<longleftrightarrow> \<bar>v\<bar> \<le> 2 ^ 53"
| "goodKey (IDouble v l d) \<longleftrightarrow> v \<noteq> DNaN"
| "goodKey p \<longleftrightarrow> HB_IS_HASHKEY p"

lemma goodKey_hashkey: "goodKey p \<Longrightarrow> HB_IS_HASHKEY p"
  by (cases p) auto

definition goodOrder :: "hbSet \<Rightarrow> int \<Rightarrow> bool" where
  "goodOrder st fl \<longleftrightarrow> fl AND HB_HASH_BINARY \<noteq> 0 \<or> cdpSort st = None"

lemma cmp_ibytes: "cmp_ibytes a b = cmp_bytes (map HB_TOUPPER a) (map HB_TOUPPER b)"
  by (induction a b rule: cmp_ibytes.induct) (auto simp: Let_def)

lemma strICmp_exact_order:
  assumes "cdpSort st = None"
  shows "hb_itemStrICmp st a b True =
    (if map HB_TOUPPER a < map HB_TOUPPER b then -1
     else if map HB_TOUPPER a = map HB_TOUPPER b then 0 else 1)"
proof -
  have "hb_itemStrICmp st a b True = hb_itemStrCmp st (map HB_TOUPPER a) (map HB_TOUPPER b) True"
    using assms by (simp add: hb_itemStrICmp_def hb_itemStrCmp_def Let_def cmp_ibytes take_map)
  then show ?thesis using strCmp_exact_order [OF assms] by simp
qed

definition cmp3 :: "'a::linorder \<Rightarrow> 'a \<Rightarrow> int" where
  "cmp3 x y = (if x < y then -1 else if x = y then 0 else 1)"

lemma hk_less:
  "HKNum c r < HKNum c' r' \<longleftrightarrow> (c, r) < (c', r')"
  "HKPtr p < HKPtr p' \<longleftrightarrow> p < p'"
  "HKTime j t < HKTime j' t' \<longleftrightarrow> (j, t) < (j', t')"
  "HKStr n s < HKStr n' s' \<longleftrightarrow> (n, s) < (n', s')"
  by (auto simp: less_hashKey_def)

lemma hk_less_class:
  "HKNum c r < HKPtr p" "HKNum c r < HKTime j t" "HKNum c r < HKStr n s"
  "HKPtr p < HKTime j t" "HKPtr p < HKStr n s" "HKTime j t < HKStr n s"
  "\<not> HKPtr p < HKNum c r" "\<not> HKTime j t < HKNum c r" "\<not> HKStr n s < HKNum c r"
  "\<not> HKTime j t < HKPtr p" "\<not> HKStr n s < HKPtr p" "\<not> HKStr n s < HKTime j t"
  by (auto simp: less_hashKey_def)

lemma dlt_numKey: "x \<noteq> DNaN \<Longrightarrow> y \<noteq> DNaN \<Longrightarrow> dlt x y \<longleftrightarrow> numKey x < numKey y"
  by (cases x; cases y) (auto simp: hk_less)

lemma numKey_eq: "numKey x = numKey y \<longleftrightarrow> x = y"
  by (cases x; cases y) auto

lemma numKey_less:
  "numKey d < HKPtr p" "numKey d < HKTime j t" "numKey d < HKStr n s"
  "\<not> HKPtr p < numKey d" "\<not> HKTime j t < numKey d" "\<not> HKStr n s < numKey d"
  "numKey d \<noteq> HKPtr p" "numKey d \<noteq> HKTime j t" "numKey d \<noteq> HKStr n s"
  "HKPtr p \<noteq> numKey d" "HKTime j t \<noteq> numKey d" "HKStr n s \<noteq> numKey d"
  by (cases d; simp add: hk_less_class)+

lemma dcmp_numKey:
  assumes "x \<noteq> DNaN" "y \<noteq> DNaN"
  shows "(if dlt x y then -1 else if dlt y x then 1 else 0) = cmp3 (numKey x) (numKey y)"
  using dlt_numKey [OF assms] dlt_numKey [OF assms(2,1)] numKey_eq [of x y] by (auto simp: cmp3_def)

lemma icmp_numKey:
  assumes "\<bar>a\<bar> \<le> 2 ^ 53" "\<bar>b\<bar> \<le> 2 ^ 53"
  shows "(if a < b then -1 else if b < a then 1 else 0) = cmp3 (numKey (dbl_of_int a)) (numKey (dbl_of_int b))"
  using assms by (auto simp: dbl_of_int_exact cmp3_def hk_less)

lemma hb_hashItemCmp_key:
  assumes "goodKey a" "goodKey b" "goodOrder st fl"
  shows "hb_hashItemCmp st a b fl = cmp3 (hashKeyOf fl a) (hashKeyOf fl b)"
proof -
  have num: "hb_hashItemCmp st p q fl = cmp3 (hashKeyOf fl p) (hashKeyOf fl q)"
    if "HB_IS_NUMERIC p" "HB_IS_NUMERIC q" "goodKey p" "goodKey q" for p q
    using that
    by (cases p; cases q)
      (auto simp: hb_hashItemCmp_def Let_def dcmp_numKey icmp_numKey dbl_of_int_exact simp del: numKey.simps)
  have str: "hb_hashItemCmp st (IString s) (IString t) fl = cmp3 (hashKeyOf fl (IString s)) (hashKeyOf fl (IString t))"
    if "goodOrder st fl" for s t
  proof (cases "fl AND HB_HASH_BINARY \<noteq> 0")
    case True
    then show ?thesis
      by (auto simp: hb_hashItemCmp_def Let_def cmp3_def hk_less cmp_bytes_order)
  next
    case False
    then have "cdpSort st = None" using that by (simp add: goodOrder_def)
    then show ?thesis using False
      by (simp add: hb_hashItemCmp_def Let_def cmp3_def hk_less strICmp_exact_order strCmp_exact_order)
  qed
  show ?thesis
  proof (cases "HB_IS_NUMERIC a \<and> HB_IS_NUMERIC b")
    case True
    then show ?thesis using num assms by blast
  next
    case False
    show ?thesis
    proof (cases "HB_IS_STRING a \<and> HB_IS_STRING b")
      case True
      then obtain s t where "a = IString s" "b = IString t" by (cases a; cases b) auto
      then show ?thesis using assms(3) str by blast
    next
      case nstr: False
      show ?thesis
        using assms False nstr
        by (cases a; cases b)
          (auto simp: hb_hashItemCmp_def Let_def cmp3_def hk_less hk_less_class numKey_less simp del: numKey.simps)
    qed
  qed
qed

subsection \<open>Sorting\<close>

abbreviation pairKey :: "int \<Rightarrow> HB_ITEM \<times> 'v \<Rightarrow> hashKey" where
  "pairKey fl p \<equiv> hashKeyOf fl (fst p)"

definition goodPairs :: "(HB_ITEM \<times> 'v) list \<Rightarrow> bool" where
  "goodPairs ps \<longleftrightarrow> (\<forall>p \<in> set ps. goodKey (fst p))"

lemma cmp3_pos [simp]: "0 < cmp3 x y \<longleftrightarrow> y < x"
  by (auto simp: cmp3_def)

lemma cmp3_neg [simp]: "cmp3 x y < 0 \<longleftrightarrow> x < y"
  by (auto simp: cmp3_def)

lemma cmp3_zero [simp]: "cmp3 x y = 0 \<longleftrightarrow> x = y"
  by (auto simp: cmp3_def)

lemma sortPairs_down_insert:
  assumes "goodOrder st fl" "goodPairs (xs @ [x])" "sorted (map (pairKey fl) xs)"
  shows "\<exists>us vs. xs = us @ vs \<and> sortPairs_down st fl (xs @ x # ys) (length xs) = us @ x # vs @ ys \<and>
    sorted (map (pairKey fl) (us @ x # vs))"
  using assms(2,3)
proof (induction xs arbitrary: ys rule: rev_induct)
  case Nil
  then show ?case by simp
next
  case (snoc z xs)
  have cmp: "hb_hashItemCmp st (fst z) (fst x) fl = cmp3 (pairKey fl z) (pairKey fl x)"
    using snoc.prems(1) assms(1) by (simp add: goodPairs_def hb_hashItemCmp_key)
  have nth: "(xs @ z # x # ys) ! length xs = z" "(xs @ z # x # ys) ! Suc (length xs) = x"
    by (simp_all add: nth_append)
  have swap: "(xs @ x # x # ys)[Suc (length xs) := z] = xs @ x # z # ys"
    by (simp add: list_update_append)
  show ?case
  proof (cases "pairKey fl x < pairKey fl z")
    case True
    obtain us vs where ih: "xs = us @ vs" "sortPairs_down st fl (xs @ x # z # ys) (length xs) = us @ x # vs @ z # ys"
      "sorted (map (pairKey fl) (us @ x # vs))"
      using snoc.IH [of "z # ys"] snoc.prems by (auto simp: goodPairs_def sorted_append)
    have "sortPairs_down st fl ((xs @ [z]) @ x # ys) (length (xs @ [z])) = us @ x # vs @ z # ys"
      using True ih(2) by (simp add: nth cmp swap)
    moreover have "sorted (map (pairKey fl) (us @ x # vs @ [z]))"
      using ih snoc.prems(2) True by (auto simp: sorted_append)
    ultimately show ?thesis using ih(1) by (intro exI [of _ us] exI [of _ "vs @ [z]"]) simp
  next
    case False
    then have "sortPairs_down st fl ((xs @ [z]) @ x # ys) (length (xs @ [z])) = xs @ z # x # ys"
      by (simp add: nth cmp)
    moreover have "sorted (map (pairKey fl) (xs @ [z, x]))"
      using snoc.prems(2) False by (auto simp: sorted_append)
    ultimately show ?thesis by (intro exI [of _ "xs @ [z]"] exI [of _ "[]"]) simp
  qed
qed

lemma sortPairs_upto:
  assumes "goodOrder st fl" "goodPairs ps" "m \<le> length ps" "0 < m"
  shows "let r = foldl (sortPairs_down st fl) ps [1..<m] in
    mset r = mset ps \<and> drop m r = drop m ps \<and> sorted (map (pairKey fl) (take m r))"
  using assms(3,4)
proof (induction m)
  case (Suc m)
  show ?case
  proof (cases "m = 0")
    case True
    then show ?thesis by (cases ps) auto
  next
    case False
    define r where "r = foldl (sortPairs_down st fl) ps [1..<m]"
    have ih: "mset r = mset ps" "drop m r = drop m ps" "sorted (map (pairKey fl) (take m r))"
      using Suc False by (auto simp: r_def Let_def)
    have len: "length r = length ps" using ih(1) by (rule mset_eq_length)
    have r: "r = take m r @ (ps ! m) # drop (Suc m) ps"
      using Suc.prems len ih(2) by (metis Cons_nth_drop_Suc Suc_le_lessD append_take_drop_id)
    have mem: "set (take m r @ [ps ! m]) \<subseteq> set ps"
      using ih(1) Suc.prems by (metis Suc_le_lessD append.right_neutral insert_subset le_supI list.simps(15)
          mset_eq_setD nth_mem set_append set_take_subset empty_subsetI empty_set)
    then have good: "goodPairs (take m r @ [ps ! m])"
      using assms(2) by (auto simp: goodPairs_def)
    obtain us vs where d: "take m r = us @ vs"
        "sortPairs_down st fl (take m r @ ps ! m # drop (Suc m) ps) (length (take m r)) = us @ ps ! m # vs @ drop (Suc m) ps"
        "sorted (map (pairKey fl) (us @ ps ! m # vs))"
      using sortPairs_down_insert [OF assms(1) good ih(3)] by blast
    have lm: "length (take m r) = m" using len Suc.prems by simp
    then have "length us + length vs = m" using d(1) by (metis length_append)
    then have l': "Suc m - length us = Suc (length vs)" "length us \<le> m" by auto
    have q: "foldl (sortPairs_down st fl) ps [1..<Suc m] = us @ ps ! m # vs @ drop (Suc m) ps"
      using d(2) lm r False by (simp add: r_def)
    have "mset (us @ ps ! m # vs @ drop (Suc m) ps) = mset ps"
      using arg_cong [OF r, of mset] d(1) ih(1) by simp
    then show ?thesis
      unfolding q Let_def using d(3) l' by simp
  qed
qed simp

lemma sortPairs_spec:
  assumes "goodOrder st fl" "goodPairs ps"
  shows "mset (sortPairs st fl ps) = mset ps" "sorted (map (pairKey fl) (sortPairs st fl ps))"
proof -
  have "mset (sortPairs st fl ps) = mset ps \<and> sorted (map (pairKey fl) (sortPairs st fl ps))"
  proof (cases "ps = []")
    case False
    then show ?thesis
      using sortPairs_upto [OF assms, of "length ps"]
      by (auto simp: sortPairs_def Let_def dest: mset_eq_length)
  qed (simp add: sortPairs_def)
  then show "mset (sortPairs st fl ps) = mset ps" "sorted (map (pairKey fl) (sortPairs st fl ps))" by auto
qed

lemma sortPos_loop_spec:
  assumes "goodOrder st fl" "goodPairs ps" "goodKey k" "set idx \<subseteq> {..<length ps}"
    "sorted (map (\<lambda>i. pairKey fl (ps ! i)) idx)" "lo \<le> hi" "hi \<le> length idx"
    "\<forall>i < lo. pairKey fl (ps ! (idx ! i)) \<le> hashKeyOf fl k"
    "\<forall>i. hi \<le> i \<longrightarrow> i < length idx \<longrightarrow> hashKeyOf fl k < pairKey fl (ps ! (idx ! i))"
  shows "let p = sortPos_loop st fl ps idx k lo hi in p \<le> length idx \<and>
    (\<forall>i < p. pairKey fl (ps ! (idx ! i)) \<le> hashKeyOf fl k) \<and>
    (\<forall>i. p \<le> i \<longrightarrow> i < length idx \<longrightarrow> hashKeyOf fl k < pairKey fl (ps ! (idx ! i)))"
  using assms(6-9)
proof (induction "hi - lo" arbitrary: lo hi rule: less_induct)
  case less
  define m where "m = (lo + hi) div 2"
  show ?case
  proof (cases "lo < hi")
    case True
    then have m: "lo \<le> m" "m < hi" "m < length idx" using less.prems by (auto simp: m_def)
    then have "goodKey (fst (ps ! (idx ! m)))"
      using assms(2,4) by (meson goodPairs_def lessThan_iff nth_mem subsetD)
    then have cmp: "hb_hashItemCmp st (fst (ps ! (idx ! m))) k fl = cmp3 (pairKey fl (ps ! (idx ! m))) (hashKeyOf fl k)"
      by (rule hb_hashItemCmp_key [OF _ assms(3,1)])
    have mono: "pairKey fl (ps ! (idx ! i)) \<le> pairKey fl (ps ! (idx ! j))" if "i \<le> j" "j < length idx" for i j
      using assms(5) that by (simp add: sorted_iff_nth_mono)
    show ?thesis
    proof (cases "hashKeyOf fl k < pairKey fl (ps ! (idx ! m))")
      case c: True
      then have "\<forall>i. m \<le> i \<longrightarrow> i < length idx \<longrightarrow> hashKeyOf fl k < pairKey fl (ps ! (idx ! i))"
        using mono by (meson less_le_trans)
      moreover have "sortPos_loop st fl ps idx k lo hi = sortPos_loop st fl ps idx k lo m"
        using True c by (subst sortPos_loop.simps) (simp add: cmp m_def [symmetric])
      ultimately show ?thesis using less.hyps [of m lo] less.prems m by simp
    next
      case c: False
      then have "\<forall>i < m + 1. pairKey fl (ps ! (idx ! i)) \<le> hashKeyOf fl k"
        using mono [of _ m] m(3) by (auto simp: not_less less_Suc_eq_le intro: order_trans)
      moreover have "sortPos_loop st fl ps idx k lo hi = sortPos_loop st fl ps idx k (m + 1) hi"
        using True c by (subst sortPos_loop.simps) (simp add: cmp m_def [symmetric])
      ultimately show ?thesis using less.hyps [of hi "m + 1"] less.prems m by simp
    qed
  next
    case False
    then show ?thesis using less.prems by (simp add: sortPos_loop.simps)
  qed
qed

lemma sorted_insert_at:
  assumes "sorted (map f xs)" "p \<le> length xs" "\<forall>i < p. f (xs ! i) \<le> f x"
    "\<forall>i. p \<le> i \<longrightarrow> i < length xs \<longrightarrow> f x < f (xs ! i)"
  shows "sorted (map f (take p xs @ x # drop p xs))"
proof -
  have "\<forall>y \<in> set (take p xs). f y \<le> f x" using assms(2,3) by (auto simp: in_set_conv_nth)
  moreover have "\<forall>y \<in> set (drop p xs). f x \<le> f y"
    using assms(2,4) by (auto simp: in_set_conv_nth less_imp_le)
  moreover have "sorted (map f (take p xs) @ map f (drop p xs))"
    using assms(1) by (simp flip: map_append)
  ultimately show ?thesis by (auto simp: sorted_append)
qed

lemma insert_upt:
  assumes "distinct xs" "set xs = {..<m}"
  shows "set (take p xs @ m # drop p xs) = {..<Suc m}" "distinct (take p xs @ m # drop p xs)"
proof -
  have "set (take p xs) \<union> set (drop p xs) = {..<m}" using assms(2) by (metis append_take_drop_id set_append)
  then show "set (take p xs @ m # drop p xs) = {..<Suc m}" by (auto simp: lessThan_Suc)
  show "distinct (take p xs @ m # drop p xs)"
    using assms by (auto simp: set_take_disj_set_drop_if_distinct dest: in_set_takeD in_set_dropD)
qed

lemma sortPos_upto:
  assumes "goodOrder st fl" "goodPairs ps" "m \<le> length ps" "0 < m"
  shows "let r = foldl (sortPos_insert st fl ps) [0] [1..<m] in
    distinct r \<and> set r = {..<m} \<and> sorted (map (\<lambda>i. pairKey fl (ps ! i)) r)"
  using assms(3,4)
proof (induction m)
  case (Suc m)
  show ?case
  proof (cases "m = 0")
    case True
    then show ?thesis by auto
  next
    case False
    define r where "r = foldl (sortPos_insert st fl ps) [0] [1..<m]"
    have ih: "distinct r" "set r = {..<m}" "sorted (map (\<lambda>i. pairKey fl (ps ! i)) r)"
      using Suc False by (auto simp: r_def Let_def)
    have len: "length r = m" using ih(1,2) by (metis card_lessThan distinct_card)
    define p where "p = sortPos_loop st fl ps r (fst (ps ! m)) 0 m"
    have "goodKey (fst (ps ! m))" using assms(2) Suc.prems by (auto simp: goodPairs_def)
    then have p: "p \<le> length r" "\<forall>i < p. pairKey fl (ps ! (r ! i)) \<le> pairKey fl (ps ! m)"
        "\<forall>i. p \<le> i \<longrightarrow> i < length r \<longrightarrow> pairKey fl (ps ! m) < pairKey fl (ps ! (r ! i))"
      using sortPos_loop_spec [OF assms(1,2), of "fst (ps ! m)" r 0 m] ih len Suc.prems
      by (auto simp: p_def Let_def)
    have q: "foldl (sortPos_insert st fl ps) [0] [1..<Suc m] = take p r @ m # drop p r"
      using False by (simp add: sortPos_insert_def p_def r_def Let_def)
    have "set (take p r @ m # drop p r) = {..<Suc m}" "distinct (take p r @ m # drop p r)"
      by (rule insert_upt [OF ih(1,2)])+
    moreover have "sorted (map (\<lambda>i. pairKey fl (ps ! i)) (take p r @ m # drop p r))"
      using sorted_insert_at [OF ih(3) p] .
    ultimately show ?thesis unfolding q Let_def by simp
  qed
qed simp

lemma sortPos_spec:
  assumes "goodOrder st fl" "goodPairs ps"
  shows "distinct (sortPos st fl ps)" "set (sortPos st fl ps) = {..<length ps}"
    "sorted (map (\<lambda>i. pairKey fl (ps ! i)) (sortPos st fl ps))"
  using sortPos_upto [OF assms, of "length ps"] by (auto simp: sortPos_def Let_def)

subsection \<open>Well-formed hashes and what they mean\<close>

definition resort :: "BASEHASH \<Rightarrow> bool" where
  "resort h \<longleftrightarrow> iFlags h AND HB_HASH_RESORT \<noteq> 0"

definition keepOrder :: "BASEHASH \<Rightarrow> bool" where
  "keepOrder h \<longleftrightarrow> iFlags h AND HB_HASH_KEEPORDER \<noteq> 0"

definition hashOrder :: "BASEHASH \<Rightarrow> nat list" where
  "hashOrder h = (case pnPos h of Some xs \<Rightarrow> xs | None \<Rightarrow> [0..<nLen h])"

definition keyAt :: "BASEHASH \<Rightarrow> nat \<Rightarrow> hashKey" where
  "keyAt h i = pairKey (iFlags h) (pPairs h ! i)"

definition hashSorted :: "BASEHASH \<Rightarrow> bool" where
  "hashSorted h \<longleftrightarrow> distinct (hashOrder h) \<and> set (hashOrder h) = {..<nLen h} \<and> sorted (map (keyAt h) (hashOrder h))"

text \<open>The keys are in the range where the order of keys is a linear one and pairwise different; the
  index is there exactly when the order of insertion is kept; and unless the order is marked stale,
  it is the order of the keys.\<close>

definition wfHash :: "hbSet \<Rightarrow> BASEHASH \<Rightarrow> bool" where
  "wfHash st h \<longleftrightarrow> goodOrder st (iFlags h) \<and> goodPairs (pPairs h) \<and> distinct (map (pairKey (iFlags h)) (pPairs h)) \<and>
     nLen h \<le> nSize h \<and> (pnPos h \<noteq> None \<longleftrightarrow> nSize h \<noteq> 0 \<and> keepOrder h) \<and>
     length (hashOrder h) = nLen h \<and> (\<not> resort h \<longrightarrow> hashSorted h)"

definition hashMap :: "BASEHASH \<Rightarrow> hashKey \<rightharpoonup> HB_ITEM" where
  "hashMap h = map_of (map (\<lambda>(k, v). (hashKeyOf (iFlags h) k, v)) (pPairs h))"

lemma flags_clear_resort:
  "(fl AND NOT HB_HASH_RESORT) AND HB_HASH_RESORT = 0"
  "(fl AND NOT HB_HASH_RESORT) AND HB_HASH_KEEPORDER = fl AND HB_HASH_KEEPORDER"
  "(fl AND NOT HB_HASH_RESORT) AND HB_HASH_BINARY = fl AND HB_HASH_BINARY"
  "(fl AND NOT HB_HASH_RESORT) AND HB_HASH_IGNORECASE = fl AND HB_HASH_IGNORECASE"
  by (simp_all add: HB_HASH_RESORT_def HB_HASH_KEEPORDER_def HB_HASH_BINARY_def HB_HASH_IGNORECASE_def and.assoc)

lemma hashKeyOf_cong:
  assumes "fl AND HB_HASH_BINARY = fl' AND HB_HASH_BINARY" "fl AND HB_HASH_IGNORECASE = fl' AND HB_HASH_IGNORECASE"
  shows "hashKeyOf fl = hashKeyOf fl'"
proof
  fix p show "hashKeyOf fl p = hashKeyOf fl' p" using assms by (cases p) auto
qed

lemma hashKeyOf_clear_resort [simp]: "hashKeyOf (fl AND NOT HB_HASH_RESORT) = hashKeyOf fl"
  by (rule hashKeyOf_cong) (simp_all add: flags_clear_resort)

lemma goodOrder_clear_resort [simp]: "goodOrder st (fl AND NOT HB_HASH_RESORT) = goodOrder st fl"
  by (simp add: goodOrder_def flags_clear_resort)

lemma hb_hashItemCmp_clear_resort [simp]:
  "hb_hashItemCmp st a b (fl AND NOT HB_HASH_RESORT) = hb_hashItemCmp st a b fl"
  by (simp add: hb_hashItemCmp_def flags_clear_resort cong: if_cong)

lemma hashFind_loop_clear_resort [simp]:
  "hashFind_loop st (fl AND NOT HB_HASH_RESORT) h k lo hi = hashFind_loop st fl h k lo hi"
proof (induction st fl h k lo hi rule: hashFind_loop.induct)
  case (1 st fl h k lo hi)
  show ?case
    by (subst (1 2) hashFind_loop.simps) (auto simp: Let_def 1 simp del: One_nat_def)
qed

lemma map_of_perm:
  assumes "mset xs = mset ys" "distinct (map fst xs)"
  shows "map_of xs = map_of ys"
proof -
  have "distinct (map fst ys)" using assms by (metis mset_eq_imp_distinct_iff mset_map)
  moreover have "set xs = set ys" using assms(1) by (rule mset_eq_setD)
  ultimately show ?thesis using assms(2) by (metis map_of_inject_set)
qed

lemma keyAt_inj:
  assumes "distinct (map (pairKey (iFlags h)) (pPairs h))" "i < nLen h" "j < nLen h" "keyAt h i = keyAt h j"
  shows "i = j"
  using assms by (simp add: keyAt_def distinct_conv_nth) (metis length_map nth_map)

lemma hashSorted_strict:
  assumes "wfHash st h" "\<not> resort h" "i < j" "j < nLen h"
  shows "keyAt h (hashOrder h ! i) < keyAt h (hashOrder h ! j)"
proof -
  have s: "hashSorted h" and d: "distinct (map (pairKey (iFlags h)) (pPairs h))" and l: "length (hashOrder h) = nLen h"
    using assms(1,2) by (auto simp: wfHash_def)
  then have "keyAt h (hashOrder h ! i) \<le> keyAt h (hashOrder h ! j)"
    using assms(3,4) by (simp add: hashSorted_def sorted_iff_nth_mono)
  moreover have "hashOrder h ! i \<noteq> hashOrder h ! j"
    using s l assms(3,4) by (simp add: hashSorted_def nth_eq_iff_index_eq)
  moreover have mem: "hashOrder h ! n < nLen h" if "n < nLen h" for n
    using s l that nth_mem [of n "hashOrder h"] by (simp add: hashSorted_def)
  have "keyAt h (hashOrder h ! i) \<noteq> keyAt h (hashOrder h ! j)" if "hashOrder h ! i \<noteq> hashOrder h ! j"
    using keyAt_inj [OF d, of "hashOrder h ! i" "hashOrder h ! j"] mem [of i] mem [of j] assms(3,4) that by linarith
  ultimately show ?thesis by (simp add: order_less_le)
qed

lemma hashSlot_order: "i < nLen h \<Longrightarrow> hb_hashSlot h i = hashOrder h ! i"
  by (simp add: hb_hashSlot_def hashOrder_def split: option.splits)

lemma order_less: "wfHash st h \<Longrightarrow> \<not> resort h \<Longrightarrow> i < nLen h \<Longrightarrow> hashOrder h ! i < nLen h"
  by (metis hashSorted_def lessThan_iff nth_mem wfHash_def)

lemma order_index: "wfHash st h \<Longrightarrow> \<not> resort h \<Longrightarrow> i < nLen h \<Longrightarrow> \<exists>j < nLen h. hashOrder h ! j = i"
  by (metis hashSorted_def in_set_conv_nth lessThan_iff wfHash_def)

definition hashProbe :: "hbSet \<times> BASEHASH \<Rightarrow> HB_ITEM \<Rightarrow> nat \<Rightarrow> int" where
  "hashProbe t k i =
     - hb_hashItemCmp (fst t) (fst (hb_hashPair (snd t) (hb_hashSlot (snd t) i))) k (iFlags (snd t))"

definition hashInv :: "hbSet \<times> BASEHASH \<Rightarrow> HB_ITEM \<Rightarrow> bool" where
  "hashInv t k \<longleftrightarrow> wfHash (fst t) (snd t) \<and> \<not> resort (snd t) \<and> goodKey k"

definition hashSearch :: "hbSet \<times> BASEHASH \<Rightarrow> HB_ITEM \<Rightarrow> nat \<Rightarrow> nat \<Rightarrow> nat option \<times> nat" where
  "hashSearch t k lo hi = hashFind_loop (fst t) (iFlags (snd t)) (snd t) k lo hi"

lemma hashProbe_key:
  assumes "hashInv t k" "i < nLen (snd t)"
  shows "hashProbe t k i = - cmp3 (keyAt (snd t) (hashOrder (snd t) ! i)) (hashKeyOf (iFlags (snd t)) k)"
proof -
  have l: "hashOrder (snd t) ! i < nLen (snd t)" using assms order_less by (auto simp: hashInv_def)
  then have "goodKey (fst (pPairs (snd t) ! (hashOrder (snd t) ! i)))"
    using assms(1) by (auto simp: hashInv_def wfHash_def goodPairs_def)
  then show ?thesis
    using assms l by (simp add: hashProbe_def hashInv_def wfHash_def hashSlot_order hb_hashPair_def keyAt_def hb_hashItemCmp_key)
qed

interpretation hashPos: bisect hashInv "\<lambda>t. nLen (snd t)" hashProbe "\<lambda>t. hb_hashSlot (snd t)" hashSearch
proof
  fix t :: "hbSet \<times> BASEHASH" and k and lo hi :: nat
  let ?m = "(lo + hi) div 2"
  show "hashProbe t k ?m = 0 \<Longrightarrow> lo < hi \<Longrightarrow> hashSearch t k lo hi = (Some (hb_hashSlot (snd t) ?m), ?m)"
    by (simp add: hashSearch_def hashProbe_def hashFind_loop.simps [of _ _ _ _ lo hi] Let_def)
  show "hashProbe t k ?m < 0 \<Longrightarrow> lo < hi \<Longrightarrow> hashSearch t k lo hi = hashSearch t k lo ?m"
    by (simp add: hashSearch_def hashProbe_def hashFind_loop.simps [of _ _ _ _ lo hi] Let_def)
  show "0 < hashProbe t k ?m \<Longrightarrow> lo < hi \<Longrightarrow> hashSearch t k lo hi = hashSearch t k (?m + 1) hi"
    by (simp add: hashSearch_def hashProbe_def hashFind_loop.simps [of _ _ _ _ lo hi] Let_def)
  show "hashSearch t k lo lo = (None, lo)"
    by (simp add: hashSearch_def hashFind_loop.simps)
next
  fix t :: "hbSet \<times> BASEHASH" and k i j
  assume "hashInv t k" "i < j" "j < nLen (snd t)" "hashProbe t k i \<le> 0"
  then show "hashProbe t k j < 0"
    using hashSorted_strict [of "fst t" "snd t" i j] hashProbe_key [of t k i] hashProbe_key [of t k j]
    by (fastforce simp: hashInv_def cmp3_def split: if_splits)
qed

subsection \<open>The search\<close>

lemma resort_clear [simp]: "iFlags h' = iFlags h AND NOT HB_HASH_RESORT \<Longrightarrow> \<not> resort h'"
  by (simp add: resort_def flags_clear_resort)

lemma hashMap_keys: "wfHash st h \<Longrightarrow> distinct (map fst (map (\<lambda>(k, v). (hashKeyOf (iFlags h) k, v)) (pPairs h)))"
  by (simp add: wfHash_def case_prod_beta comp_def)

lemma hashMap_nth:
  assumes "wfHash st h" "i < nLen h"
  shows "hashMap h (keyAt h i) = Some (snd (pPairs h ! i))"
  unfolding hashMap_def
proof (rule map_of_is_SomeI [OF hashMap_keys [OF assms(1)]])
  show "(keyAt h i, snd (pPairs h ! i)) \<in> set (map (\<lambda>(k, v). (hashKeyOf (iFlags h) k, v)) (pPairs h))"
    using assms(2) nth_mem [OF assms(2)] by (auto simp: keyAt_def image_iff case_prod_beta intro!: bexI [of _ "pPairs h ! i"])
qed

lemma hashMap_None: "hashMap h kk = None \<longleftrightarrow> (\<forall>i < nLen h. keyAt h i \<noteq> kk)"
proof -
  have "map fst (map (\<lambda>(k, v). (hashKeyOf (iFlags h) k, v)) (pPairs h)) = map (keyAt h) [0..<nLen h]"
    by (rule nth_equalityI) (simp_all add: keyAt_def case_prod_beta)
  then show ?thesis
    unfolding hashMap_def map_of_eq_None_iff set_map [symmetric] by (auto simp del: map_map)
qed

definition refreshed :: "hbSet \<Rightarrow> BASEHASH \<Rightarrow> BASEHASH \<Rightarrow> bool" where
  "refreshed st h h' \<longleftrightarrow> wfHash st h' \<and> \<not> resort h' \<and> mset (pPairs h') = mset (pPairs h) \<and>
     pDefault h' = pDefault h \<and> nSize h' = nSize h \<and> hashKeyOf (iFlags h') = hashKeyOf (iFlags h) \<and>
     goodOrder st (iFlags h') = goodOrder st (iFlags h) \<and>
     (keepOrder h' \<longleftrightarrow> keepOrder h) \<and> (keepOrder h \<longrightarrow> pPairs h' = pPairs h)"

lemma refreshed_map: "wfHash st h \<Longrightarrow> refreshed st h h' \<Longrightarrow> hashMap h' = hashMap h"
  unfolding hashMap_def refreshed_def
  by (rule map_of_perm) (auto simp: wfHash_def case_prod_beta comp_def)

lemma refreshed_len: "refreshed st h h' \<Longrightarrow> nLen h' = nLen h"
  unfolding refreshed_def by (metis size_mset)

lemma refreshed_refl: "wfHash st h \<Longrightarrow> \<not> resort h \<Longrightarrow> refreshed st h h"
  by (simp add: refreshed_def)

lemma hb_hashSortDo_refreshed:
  assumes "wfHash st h"
  shows "refreshed st h (hb_hashSortDo st h)"
proof (cases "pnPos h")
  case (Some xs)
  have g: "goodOrder st (iFlags h)" "goodPairs (pPairs h)" using assms by (auto simp: wfHash_def)
  have l: "length (sortPos st (iFlags h) (pPairs h)) = nLen h"
    using sortPos_spec [OF g] by (metis card_lessThan distinct_card)
  define h' where "h' = hb_hashSortDo st h"
  have h': "h' = h\<lparr>pnPos := Some (sortPos st (iFlags h) (pPairs h)), iFlags := iFlags h AND NOT HB_HASH_RESORT\<rparr>"
    using Some by (simp add: h'_def hb_hashSortDo_def)
  have "hashSorted h'"
    using sortPos_spec [OF g] by (simp add: h' hashSorted_def hashOrder_def keyAt_def [abs_def])
  moreover have "keepOrder h' = keepOrder h"
    by (simp add: h' keepOrder_def flags_clear_resort)
  ultimately show ?thesis
    unfolding h'_def [symmetric] using assms Some l
    by (auto simp: refreshed_def wfHash_def h' resort_def flags_clear_resort hashOrder_def)
next
  case None
  have g: "goodOrder st (iFlags h)" "goodPairs (pPairs h)" using assms by (auto simp: wfHash_def)
  define ps where "ps = sortPairs st (iFlags h) (pPairs h)"
  have ps: "mset ps = mset (pPairs h)" "sorted (map (pairKey (iFlags h)) ps)"
    using sortPairs_spec [OF g] by (simp_all add: ps_def)
  have len: "length ps = nLen h" using ps(1) by (metis size_mset)
  have set: "set ps = set (pPairs h)" using ps(1) by (rule mset_eq_setD)
  have dist: "distinct (map (pairKey (iFlags h)) ps)"
    using ps(1) assms by (metis mset_eq_imp_distinct_iff mset_map wfHash_def)
  define h' where "h' = hb_hashSortDo st h"
  have h': "h' = h\<lparr>pPairs := ps, iFlags := iFlags h AND NOT HB_HASH_RESORT\<rparr>"
    using None by (simp add: h'_def hb_hashSortDo_def ps_def)
  have "map (keyAt h') [0..<nLen h'] = map (pairKey (iFlags h)) ps"
    by (rule nth_equalityI) (simp_all add: h' keyAt_def)
  then have "hashSorted h'"
    using ps(2) None by (auto simp: hashSorted_def hashOrder_def h')
  moreover have "keepOrder h' = keepOrder h"
    by (simp add: h' keepOrder_def flags_clear_resort)
  ultimately show ?thesis
    unfolding h'_def [symmetric] using assms None len ps(1) dist set
    by (auto simp: refreshed_def wfHash_def h' resort_def flags_clear_resort hashOrder_def goodPairs_def)
qed

lemma hb_hashFind_unfold:
  "hb_hashFind st h k =
    (let h' = (if resort h then hb_hashSortDo st h else h) in
     case hashSearch (st, h') k 0 (nLen h') of
       (Some p, _) \<Rightarrow> (h', True, p) | (None, nLeft) \<Rightarrow> (h', False, nLeft))"
proof -
  have "iFlags (hb_hashSortDo st h) = iFlags h AND NOT HB_HASH_RESORT"
    by (simp add: hb_hashSortDo_def split: option.splits)
  then show ?thesis by (simp add: hb_hashFind_def resort_def hashSearch_def Let_def)
qed

lemma hb_hashFind_cases:
  assumes "wfHash st h" "goodKey k"
  obtains (found) h' p where "hb_hashFind st h k = (h', True, p)" "refreshed st h h'" "p < nLen h'"
      "keyAt h' p = hashKeyOf (iFlags h) k"
  | (absent) h' p where "hb_hashFind st h k = (h', False, p)" "refreshed st h h'" "p \<le> nLen h'"
      "\<forall>i < p. keyAt h' (hashOrder h' ! i) < hashKeyOf (iFlags h) k"
      "\<forall>i. p \<le> i \<longrightarrow> i < nLen h' \<longrightarrow> hashKeyOf (iFlags h) k < keyAt h' (hashOrder h' ! i)"
      "\<forall>i < nLen h'. keyAt h' i \<noteq> hashKeyOf (iFlags h) k"
proof -
  define h' where "h' = (if resort h then hb_hashSortDo st h else h)"
  have r: "refreshed st h h'"
    using hb_hashSortDo_refreshed [OF assms(1)] refreshed_refl [OF assms(1)] by (auto simp: h'_def)
  then have inv: "hashInv (st, h') k" using assms(2) by (auto simp: hashInv_def refreshed_def)
  have fl: "hashKeyOf (iFlags h') k = hashKeyOf (iFlags h) k" using r by (simp add: refreshed_def)
  have wf: "wfHash st h'" "\<not> resort h'" using r by (auto simp: refreshed_def)
  note probe = hashProbe_key [OF inv, simplified, unfolded fl]
  show thesis
  proof (rule hashPos.search_cases [OF inv], goal_cases)
    case (1 m)
    then have m: "m < nLen h'" "keyAt h' (hashOrder h' ! m) = hashKeyOf (iFlags h) k"
      using probe [of m] by auto
    show thesis
      using found [of h' "hashOrder h' ! m"] r 1 m order_less [OF wf m(1)]
      by (simp add: hb_hashFind_unfold h'_def [symmetric] hashSlot_order)
  next
    case (2 p)
    have p: "p \<le> nLen h'" "\<forall>i < p. keyAt h' (hashOrder h' ! i) < hashKeyOf (iFlags h) k"
      "\<forall>i. p \<le> i \<longrightarrow> i < nLen h' \<longrightarrow> hashKeyOf (iFlags h) k < keyAt h' (hashOrder h' ! i)"
      using 2(1) probe by (auto simp: hashPos.place_def)
    have "keyAt h' i \<noteq> hashKeyOf (iFlags h) k" if lt: "i < nLen h'" for i
    proof -
      obtain j where "j < nLen h'" "hashOrder h' ! j = i"
        using order_index [OF wf lt] by blast
      then show ?thesis using p(2,3) by (metis less_irrefl not_le)
    qed
    then show thesis
      using absent [of h' p] r 2 p by (simp add: hb_hashFind_unfold h'_def [symmetric])
  qed
qed

lemma hb_hashFind_map:
  assumes "wfHash st h" "goodKey k" "hb_hashFind st h k = (h', b, p)"
  shows "refreshed st h h'" "b \<longleftrightarrow> hashMap h (hashKeyOf (iFlags h) k) \<noteq> None"
    "b \<Longrightarrow> p < nLen h' \<and> hashMap h (hashKeyOf (iFlags h) k) = Some (snd (pPairs h' ! p))"
proof -
  have "refreshed st h h' \<and> (b \<longleftrightarrow> hashMap h (hashKeyOf (iFlags h) k) \<noteq> None) \<and>
    (b \<longrightarrow> p < nLen h' \<and> hashMap h (hashKeyOf (iFlags h) k) = Some (snd (pPairs h' ! p)))"
  proof (rule hb_hashFind_cases [OF assms(1,2)], goal_cases)
    case (1 h1 p1)
    then have e: "h1 = h'" "b" "p1 = p" using assms(3) by auto
    have "hashMap h' (keyAt h' p) = Some (snd (pPairs h' ! p))"
      using 1 e by (intro hashMap_nth) (auto simp: refreshed_def)
    then show ?case using 1 e refreshed_map [OF assms(1)] by simp
  next
    case (2 h1 p1)
    then have e: "h1 = h'" "\<not> b" "p1 = p" using assms(3) by auto
    have "hashMap h' (hashKeyOf (iFlags h) k) = None" using 2 e by (simp add: hashMap_None)
    then show ?case using 2 e refreshed_map [OF assms(1)] by simp
  qed
  then show "refreshed st h h'" "b \<longleftrightarrow> hashMap h (hashKeyOf (iFlags h) k) \<noteq> None"
    "b \<Longrightarrow> p < nLen h' \<and> hashMap h (hashKeyOf (iFlags h) k) = Some (snd (pPairs h' ! p))" by auto
qed

end
