(* ===== verification/HbMapStore.thy ===== *)
theory HbMapStore
  imports HbPrelude
begin

text \<open>
  The interface of a store of values under keys, as the hash arrays offer it: \<open>add\<close> sets the value
  of a key, \<open>del\<close> removes a key and says whether it was there, and \<open>content\<close> is what the store means.
  The key of an item depends on settings of the store (\<open>keyOf\<close>), which the operations keep. The lemmas
  are about adding, removing and toggling the keys of a whole list, which is how two hashes are joined.
\<close>

locale map_store =
  fixes inv :: "'h \<Rightarrow> bool"
    and keyOf :: "'h \<Rightarrow> 'k \<Rightarrow> 'a"
    and good :: "'k \<Rightarrow> bool"
    and content :: "'h \<Rightarrow> 'a \<Rightarrow> 'v option"
    and add :: "'h \<Rightarrow> 'k \<Rightarrow> 'v \<Rightarrow> 'h"
    and del :: "'h \<Rightarrow> 'k \<Rightarrow> ('h \<times> bool) option"
  assumes add_law: "inv h \<Longrightarrow> good k \<Longrightarrow>
      inv (add h k v) \<and> keyOf (add h k v) = keyOf h \<and> content (add h k v) = (content h)(keyOf h k \<mapsto> v)"
    and del_law: "inv h \<Longrightarrow> good k \<Longrightarrow>
      \<exists>h'. del h k = Some (h', content h (keyOf h k) \<noteq> None) \<and> inv h' \<and> keyOf h' = keyOf h \<and>
        content h' = (content h)(keyOf h k := None)"
begin

definition entries :: "'h \<Rightarrow> ('k \<times> 'v) list \<Rightarrow> ('a \<times> 'v) list" where
  "entries h ps = map (\<lambda>(k, v). (keyOf h k, v)) ps"

lemma entries_simps [simp]: "entries h [] = []" "entries h (p # ps) = (keyOf h (fst p), snd p) # entries h ps"
  by (simp_all add: entries_def case_prod_beta)

primrec addAll :: "'h \<Rightarrow> ('k \<times> 'v) list \<Rightarrow> 'h" where
  "addAll h [] = h"
| "addAll h (p # ps) = addAll (add h (fst p) (snd p)) ps"

primrec delAll :: "'h \<Rightarrow> 'k list \<Rightarrow> 'h option" where
  "delAll h [] = Some h"
| "delAll h (k # ks) = Option.bind (del h k) (\<lambda>(h', b). delAll h' ks)"

primrec toggleAll :: "'h \<Rightarrow> ('k \<times> 'v) list \<Rightarrow> 'h option" where
  "toggleAll h [] = Some h"
| "toggleAll h (p # ps) =
     Option.bind (del h (fst p)) (\<lambda>(h', b). toggleAll (if b then h' else add h' (fst p) (snd p)) ps)"

lemma addAll_content:
  assumes "inv h" "\<forall>p \<in> set ps. good (fst p)"
  shows "inv (addAll h ps) \<and> keyOf (addAll h ps) = keyOf h \<and>
    content (addAll h ps) = content h ++ map_of (rev (entries h ps))"
  using assms
proof (induction ps arbitrary: h)
  case (Cons p ps)
  note a = add_law [OF Cons.prems(1), of "fst p" "snd p"]
  have "entries (add h (fst p) (snd p)) ps = entries h ps" using a Cons.prems by (simp add: entries_def)
  moreover have "(content h)(keyOf h (fst p) \<mapsto> snd p) ++ map_of (rev (entries h ps)) =
      content h ++ map_of (rev (entries h (p # ps)))"
    by (rule ext) (auto simp: map_add_def split: option.splits)
  ultimately show ?case using Cons.IH [of "add h (fst p) (snd p)"] Cons.prems a
    by (simp add: fun_upd_def)
qed simp

lemma delAll_content:
  assumes "inv h" "\<forall>k \<in> set ks. good k"
  shows "\<exists>h'. delAll h ks = Some h' \<and> inv h' \<and> keyOf h' = keyOf h \<and> content h' = content h |` (- keyOf h ` set ks)"
  using assms
proof (induction ks arbitrary: h)
  case (Cons k ks)
  obtain h1 where h1: "del h k = Some (h1, content h (keyOf h k) \<noteq> None)" "inv h1" "keyOf h1 = keyOf h"
      "content h1 = (content h)(keyOf h k := None)"
    using del_law [OF Cons.prems(1), of k] Cons.prems(2) by auto
  have eq: "content h1 |` (- keyOf h ` set ks) = content h |` (- keyOf h ` set (k # ks))"
    by (rule ext) (auto simp: h1(4) restrict_map_def)
  obtain h' where "delAll h1 ks = Some h'" "inv h'" "keyOf h' = keyOf h1"
      "content h' = content h1 |` (- keyOf h1 ` set ks)"
    using Cons.IH [OF h1(2)] Cons.prems(2) by auto
  then show ?case using h1(1,3) eq by (intro exI [of _ h']) simp
qed (simp add: restrict_map_def)

text \<open>Toggling the entries of a list keeps the keys that are in exactly one of the two.\<close>

definition xor_map :: "('a \<Rightarrow> 'v option) \<Rightarrow> ('a \<Rightarrow> 'v option) \<Rightarrow> 'a \<Rightarrow> 'v option" where
  "xor_map m1 m2 x = (if m1 x = None then m2 x else if m2 x = None then m1 x else None)"

lemma toggleAll_content:
  assumes "inv h" "\<forall>p \<in> set ps. good (fst p)" "distinct (map fst (entries h ps))"
  shows "\<exists>h'. toggleAll h ps = Some h' \<and> inv h' \<and> keyOf h' = keyOf h \<and>
    content h' = xor_map (content h) (map_of (entries h ps))"
  using assms
proof (induction ps arbitrary: h)
  case Nil
  then show ?case by (auto simp: xor_map_def)
next
  case (Cons p ps)
  obtain k v where p: "p = (k, v)" by (cases p)
  have gk: "good k" using Cons.prems(2) p by simp
  obtain h1 where h1: "del h k = Some (h1, content h (keyOf h k) \<noteq> None)" "inv h1" "keyOf h1 = keyOf h"
      "content h1 = (content h)(keyOf h k := None)"
    using del_law [OF Cons.prems(1) gk] by auto
  define h2 where "h2 = (if content h (keyOf h k) \<noteq> None then h1 else add h1 k v)"
  have h2: "inv h2" "keyOf h2 = keyOf h"
      "content h2 = (content h)(keyOf h k := (if content h (keyOf h k) \<noteq> None then None else Some v))"
    using add_law [OF h1(2) gk, of v] h1 by (auto simp: h2_def fun_upd_def)
  have e: "entries h2 ps = entries h ps" using h2(2) by (simp add: entries_def)
  have new: "map_of (entries h ps) (keyOf h k) = None"
    using Cons.prems(3) by (simp add: p map_of_eq_None_iff)
  obtain h' where h': "toggleAll h2 ps = Some h'" "inv h'" "keyOf h' = keyOf h2"
      "content h' = xor_map (content h2) (map_of (entries h ps))"
    using Cons.IH [OF h2(1)] Cons.prems(2,3) e by auto
  have "xor_map (content h2) (map_of (entries h ps)) = xor_map (content h) (map_of (entries h (p # ps)))"
    using new by (intro ext) (auto simp: xor_map_def h2(3) p)
  moreover have "toggleAll h (p # ps) = toggleAll h2 ps"
    using h1(1) by (simp add: p h2_def)
  ultimately show ?case using h' h2(2) by (auto simp: fun_upd_def)
qed

end

end
