(* ===== verification/HbHashMap.thy ===== *)
theory HbHashMap
  imports HbHashCorrect HbMapStore
begin

text \<open>
  The hash arrays as finite maps: what the operations of \<open>HbHash\<close> do to \<open>hashMap\<close>, and that they keep
  \<open>wfHash\<close>.
\<close>

subsection \<open>Insertion\<close>

lemma wfHash_parts:
  assumes "wfHash st h"
  shows "goodOrder st (iFlags h)" "goodPairs (pPairs h)" "distinct (map (pairKey (iFlags h)) (pPairs h))"
    "nLen h \<le> nSize h" "pnPos h \<noteq> None \<longleftrightarrow> nSize h \<noteq> 0 \<and> keepOrder h" "length (hashOrder h) = nLen h"
    "\<not> resort h \<Longrightarrow> hashSorted h"
  using assms by (auto simp: wfHash_def)

definition grown :: "BASEHASH \<Rightarrow> BASEHASH" where
  "grown h = (if nSize h = nLen h then hb_hashResize h (nSize h + HB_HASH_ITEM_ALLOC) else h)"

lemma grown_fields [simp]:
  "pPairs (grown h) = pPairs h" "iFlags (grown h) = iFlags h" "pDefault (grown h) = pDefault h"
  by (auto simp: grown_def hb_hashResize_def HB_HASH_ITEM_ALLOC_def)

lemma grown_order: "wfHash st h \<Longrightarrow> hashOrder (grown h) = hashOrder h"
  by (auto simp: grown_def hb_hashResize_def HB_HASH_ITEM_ALLOC_def hashOrder_def wfHash_def split: option.splits)

lemma grown_room: "wfHash st h \<Longrightarrow> nLen h < nSize (grown h)"
  by (auto simp: grown_def hb_hashResize_def HB_HASH_ITEM_ALLOC_def wfHash_def)

lemma grown_pnPos: "wfHash st h \<Longrightarrow> pnPos (grown h) \<noteq> None \<longleftrightarrow> keepOrder h"
  by (auto simp: grown_def hb_hashResize_def HB_HASH_ITEM_ALLOC_def wfHash_def keepOrder_def split: if_splits)

lemma keyAt_append: "iFlags h' = iFlags h \<Longrightarrow> pPairs h' = pPairs h @ [kv] \<Longrightarrow>
    keyAt h' i = (if i < nLen h then keyAt h i else if i = nLen h then pairKey (iFlags h) kv else keyAt h' i)"
  by (simp add: keyAt_def nth_append)

lemma map_keyAt_upt: "map (keyAt h) [0..<nLen h] = map (pairKey (iFlags h)) (pPairs h)"
  by (rule nth_equalityI) (simp_all add: keyAt_def)

lemma sorted_keyAt_None: "pnPos h = None \<Longrightarrow> hashSorted h \<longleftrightarrow> sorted (map (pairKey (iFlags h)) (pPairs h))"
  by (auto simp: hashSorted_def hashOrder_def map_keyAt_upt [symmetric])

text \<open>Where a key that is not in the hash belongs.\<close>

definition hashGap :: "BASEHASH \<Rightarrow> hashKey \<Rightarrow> nat \<Rightarrow> bool" where
  "hashGap h kk p \<longleftrightarrow> p \<le> nLen h \<and> (\<forall>i < p. keyAt h (hashOrder h ! i) < kk) \<and>
     (\<forall>i. p \<le> i \<longrightarrow> i < nLen h \<longrightarrow> kk < keyAt h (hashOrder h ! i)) \<and> (\<forall>i < nLen h. keyAt h i \<noteq> kk)"

lemma hashMap_add:
  assumes "wfHash st h" "mset (pPairs h') = add_mset (k, v) (mset (pPairs h))" "iFlags h' = iFlags h"
    "distinct (map (pairKey (iFlags h')) (pPairs h'))"
  shows "hashMap h' = (hashMap h)(hashKeyOf (iFlags h) k \<mapsto> v)"
proof -
  have "hashMap h' = map_of (map (\<lambda>(k, v). (hashKeyOf (iFlags h) k, v)) ((k, v) # pPairs h))"
    unfolding hashMap_def
    by (rule map_of_perm) (use assms in \<open>simp_all add: case_prod_beta comp_def\<close>)
  then show ?thesis by (simp add: hashMap_def)
qed

lemma sorted_gap:
  assumes "wfHash st h" "\<not> resort h" "hashGap h kk p" "\<forall>i < nLen h. f (hashOrder h ! i) = keyAt h (hashOrder h ! i)" "f x = kk"
  shows "sorted (map f (take p (hashOrder h) @ x # drop p (hashOrder h)))"
proof (rule sorted_insert_at)
  note w = wfHash_parts [OF assms(1)]
  have eq: "map f (hashOrder h) = map (keyAt h) (hashOrder h)"
    using assms(4) w(6) by (intro nth_equalityI) simp_all
  show "sorted (map f (hashOrder h))" unfolding eq using w(7) assms(2) by (simp add: hashSorted_def)
  show "p \<le> length (hashOrder h)" using assms(3) w(6) by (simp add: hashGap_def)
  show "\<forall>i<p. f (hashOrder h ! i) \<le> f x"
    using assms(3-5) by (auto simp: hashGap_def less_imp_le)
  show "\<forall>i\<ge>p. i < length (hashOrder h) \<longrightarrow> f x < f (hashOrder h ! i)"
    using assms(3-5) w(6) by (auto simp: hashGap_def)
qed

definition placed :: "hbSet \<Rightarrow> BASEHASH \<Rightarrow> HB_ITEM \<times> HB_ITEM \<Rightarrow> BASEHASH \<Rightarrow> nat \<Rightarrow> bool" where
  "placed st h kv h' q \<longleftrightarrow> wfHash st h' \<and> \<not> resort h' \<and> q < nLen h' \<and> pPairs h' ! q = kv \<and>
     iFlags h' = iFlags h \<and> pDefault h' = pDefault h \<and>
     hashMap h' = (hashMap h)(pairKey (iFlags h) kv \<mapsto> snd kv) \<and>
     (keepOrder h \<longrightarrow> pPairs h' = pPairs h @ [kv])"

lemma keepOrder_cong: "iFlags h' = iFlags h \<Longrightarrow> keepOrder h' = keepOrder h"
  by (simp add: keepOrder_def)

lemma resort_cong: "iFlags h' = iFlags h \<Longrightarrow> resort h' = resort h"
  by (simp add: resort_def)

lemma hb_hashPlace_placed:
  assumes "wfHash st h" "\<not> resort h" "goodKey (fst kv)" "hashGap h (pairKey (iFlags h) kv) p"
  shows "case hb_hashPlace h p kv of (h', q) \<Rightarrow> placed st h kv h' q"
proof -
  note w = wfHash_parts [OF assms(1)]
  define kk where "kk = pairKey (iFlags h) kv"
  have gap: "hashGap h kk p" using assms(4) by (simp add: kk_def)
  have new: "kk \<notin> set (map (pairKey (iFlags h)) (pPairs h))"
    using gap unfolding hashGap_def map_keyAt_upt [symmetric] by auto
  obtain h' q where hq: "hb_hashPlace h p kv = (h', q)" by fastforce
  have ord: "set (hashOrder h) = {..<nLen h}" "distinct (hashOrder h)" using w(7) assms(2) by (auto simp: hashSorted_def)
  have room: "Suc (nLen h) \<le> nSize (grown h)" using grown_room [OF assms(1)] by simp
  show ?thesis
  proof (cases "pnPos (grown h)")
    case (Some xs)
    have xs: "xs = hashOrder h" using grown_order [OF assms(1)] Some by (simp add: hashOrder_def)
    have h': "h' = (grown h)\<lparr>pnPos := Some (take p xs @ nLen h # drop p xs), pPairs := pPairs h @ [kv]\<rparr>" "q = nLen h"
      using hq Some by (auto simp: hb_hashPlace_def grown_def [symmetric])
    have key: "keyAt h' i = (if i < nLen h then keyAt h i else if i = nLen h then kk else keyAt h' i)" for i
      unfolding kk_def by (rule keyAt_append) (simp_all add: h')
    have ko: "keepOrder h" using grown_pnPos [OF assms(1)] Some by simp
    have nth: "hashOrder h ! i < nLen h" if "i < nLen h" for i
      using order_less [OF assms(1,2) that] .
    have len: "nLen h' = Suc (nLen h)" by (simp add: h')
    have old: "\<forall>i < nLen h. keyAt h' (hashOrder h ! i) = keyAt h (hashOrder h ! i)"
    proof (intro allI impI)
      fix i assume "i < nLen h"
      then show "keyAt h' (hashOrder h ! i) = keyAt h (hashOrder h ! i)"
        using key [of "hashOrder h ! i"] nth by simp
    qed
    have o: "hashOrder h' = take p (hashOrder h) @ nLen h # drop p (hashOrder h)"
      by (simp add: hashOrder_def h' xs [unfolded hashOrder_def, symmetric])
    have "sorted (map (keyAt h') (hashOrder h'))"
      unfolding o by (rule sorted_gap [OF assms(1,2) gap old]) (use key [of "nLen h"] in simp)
    moreover have "set (hashOrder h') = {..<nLen h'}" "distinct (hashOrder h')"
      unfolding o len by (rule insert_upt [OF ord(2,1)])+
    moreover have "length (hashOrder h') = nLen h'" unfolding o len using w(6) gap by (simp add: hashGap_def)
    moreover have "distinct (map (pairKey (iFlags h')) (pPairs h'))" using w(3) new by (auto simp: h' kk_def)
    moreover have "goodPairs (pPairs h')" using w(2) assms(3) by (auto simp: h' goodPairs_def)
    ultimately have "wfHash st h'"
      using w(1) room ko keepOrder_cong [of h' h] by (simp add: wfHash_def hashSorted_def h')
    moreover have "hashMap h' = (hashMap h)(kk \<mapsto> snd kv)"
      unfolding kk_def by (rule hashMap_add [OF assms(1)]) (use w(3) new in \<open>auto simp: h' kk_def\<close>)
    ultimately show ?thesis
      using assms(2) resort_cong [of h' h] unfolding hq by (simp add: placed_def h' kk_def)
  next
    case None
    have h': "h' = (grown h)\<lparr>pPairs := take p (pPairs h) @ kv # drop p (pPairs h)\<rparr>" "q = p"
      using hq None by (auto simp: hb_hashPlace_def grown_def [symmetric])
    have ko: "\<not> keepOrder h" using grown_pnPos [OF assms(1)] None by simp
    then have on: "hashOrder h = [0..<nLen h]" using w(5) by (auto simp: hashOrder_def split: option.splits)
    have p: "p \<le> nLen h" using gap by (simp add: hashGap_def)
    have "sorted (map (pairKey (iFlags h)) (take p (pPairs h) @ kv # drop p (pPairs h)))"
      by (rule sorted_insert_at)
        (use w(7) assms(2) gap on in \<open>auto simp: hashSorted_def map_keyAt_upt hashGap_def keyAt_def kk_def less_imp_le\<close>)
    moreover have "pnPos h' = None" using None by (simp add: h')
    ultimately have srt: "hashSorted h'" by (simp add: sorted_keyAt_None h')
    have perm: "mset (pPairs h') = add_mset kv (mset (pPairs h))"
      by (simp add: h') (metis append_take_drop_id mset_append union_commute)
    have fl: "iFlags h' = iFlags h" by (simp add: h')
    have pm: "mset (map (pairKey (iFlags h)) (pPairs h')) = mset (map (pairKey (iFlags h)) (kv # pPairs h))"
      using perm by simp
    have dist: "distinct (map (pairKey (iFlags h')) (pPairs h'))"
      unfolding fl mset_eq_imp_distinct_iff [OF pm] using w(3) new by (simp add: kk_def)
    have "set (pPairs h') = insert kv (set (pPairs h))" using perm by (metis set_mset_add_mset_insert set_mset_mset)
    then have "goodPairs (pPairs h')" using w(2) assms(3) by (auto simp: goodPairs_def)
    then have "wfHash st h'"
      using w(1) room ko p None srt dist keepOrder_cong [of h' h]
      by (simp add: wfHash_def h' hashOrder_def)
    moreover have "hashMap h' = (hashMap h)(kk \<mapsto> snd kv)"
      unfolding kk_def by (rule hashMap_add [OF assms(1) _ _ dist]) (use perm in \<open>auto simp: h'\<close>)
    ultimately show ?thesis
      using assms(2) ko p resort_cong [of h' h] unfolding hq by (simp add: placed_def h' kk_def nth_append)
  qed
qed

subsection \<open>Removal\<close>

definition idxDown :: "nat \<Rightarrow> nat \<Rightarrow> nat" where
  "idxDown nPos i = (if nPos < i then i - 1 else i)"

lemma delPos_loop_rest:
  assumes "length xs + length ys = nEnd" "nPos \<notin> set ys" "length ys < fuel"
  shows "delPos_loop fuel nEnd nPos (xs @ ys @ zs) (length xs) = Some (xs @ map (idxDown nPos) ys @ zs)"
  using assms
proof (induction ys arbitrary: xs fuel)
  case Nil
  then show ?case by (cases fuel) auto
next
  case (Cons y ys)
  then obtain f where f: "fuel = Suc f" by (cases fuel) auto
  have upd: "(xs @ y # ys @ zs)[length xs := v] = (xs @ [v]) @ ys @ zs" for v by simp
  have step: "delPos_loop f nEnd nPos ((xs @ [v]) @ ys @ zs) (length (xs @ [v])) =
      Some ((xs @ [v]) @ map (idxDown nPos) ys @ zs)" for v
    using Cons.prems f by (intro Cons.IH) auto
  have "delPos_loop fuel nEnd nPos (xs @ (y # ys) @ zs) (length xs) =
      delPos_loop f nEnd nPos ((xs @ [idxDown nPos y]) @ ys @ zs) (length (xs @ [idxDown nPos y]))"
    using Cons.prems f by (auto simp: nth_append idxDown_def)
  then show ?case by (simp only: step) simp
qed

lemma delPos_loop_hit:
  assumes "length xs + length ys + 1 + length zs = nEnd" "nPos \<notin> set ys" "nPos \<notin> set (zs @ [z])" "length ys + length zs + 3 \<le> fuel"
  shows "delPos_loop fuel nEnd nPos (xs @ ys @ nPos # zs @ [z]) (length xs) =
    Some (xs @ map (idxDown nPos) (ys @ zs @ [z]) @ [z])"
  using assms
proof (induction ys arbitrary: xs fuel)
  case Nil
  then obtain f where f: "fuel = Suc f" by (cases fuel) auto
  have nth: "(xs @ nPos # zs @ [z]) ! nEnd = z"
    using Nil.prems(1) nth_append_length [of "xs @ nPos # zs" z "[]"] by simp
  have "delPos_loop fuel nEnd nPos (xs @ [] @ nPos # zs @ [z]) (length xs) =
      delPos_loop f nEnd nPos (xs @ (zs @ [z]) @ [z]) (length xs)"
    using Nil.prems(1) f nth by simp
  also have "\<dots> = Some (xs @ map (idxDown nPos) (zs @ [z]) @ [z])"
    using Nil.prems f by (intro delPos_loop_rest) auto
  finally show ?case by simp
next
  case (Cons y ys)
  then obtain f where f: "fuel = Suc f" by (cases fuel) auto
  have g: "delPos_loop fuel nEnd nPos (xs @ (y # ys) @ nPos # zs @ [z]) (length xs) =
      delPos_loop f nEnd nPos ((xs @ [idxDown nPos y]) @ ys @ nPos # zs @ [z]) (length (xs @ [idxDown nPos y]))"
    using Cons.prems f by (auto simp: nth_append idxDown_def)
  show ?case
    unfolding g using Cons.IH [of "xs @ [idxDown nPos y]" f] Cons.prems f by simp
qed

lemma delPos_loop_spec:
  assumes "distinct xs" "nPos \<in> set xs" "length xs = Suc n" "n \<noteq> 0"
  shows "\<exists>ys. delPos_loop (2 * n + 2) n nPos xs 0 = Some ys \<and>
    take n ys = map (idxDown nPos) (filter (\<lambda>i. i \<noteq> nPos) xs)"
proof -
  obtain as bs where xs: "xs = as @ nPos # bs" using assms(2) by (meson split_list)
  have "filter (\<lambda>i. i \<noteq> nPos) as = as" "filter (\<lambda>i. i \<noteq> nPos) bs = bs"
    using assms(1) by (auto simp: xs intro!: filter_True)
  then have f: "filter (\<lambda>i. i \<noteq> nPos) xs = as @ bs" by (simp add: xs)
  show ?thesis
  proof (cases bs rule: rev_cases)
    case Nil
    have "delPos_loop (2 * n + 2) n nPos ([] @ as @ [nPos]) (length ([] :: nat list)) = Some ([] @ map (idxDown nPos) as @ [nPos])"
      using assms Nil by (intro delPos_loop_rest) (auto simp: xs)
    moreover have "length as = n" using assms(3) Nil by (simp add: xs)
    ultimately show ?thesis unfolding f unfolding xs Nil by simp
  next
    case (snoc zs z)
    have "delPos_loop (2 * n + 2) n nPos ([] @ as @ nPos # zs @ [z]) (length ([] :: nat list)) =
        Some ([] @ map (idxDown nPos) (as @ zs @ [z]) @ [z])"
      using assms snoc by (intro delPos_loop_hit) (auto simp: xs)
    moreover have "length (map (idxDown nPos) (as @ zs @ [z])) = n" using assms(3) snoc by (simp add: xs)
    ultimately show ?thesis unfolding f unfolding xs snoc by (simp del: map_append)
  qed
qed

declare delPos_loop.simps [simp del]

lemma idxDown_inj: "i \<noteq> nPos \<Longrightarrow> j \<noteq> nPos \<Longrightarrow> idxDown nPos i = idxDown nPos j \<Longrightarrow> i = j"
  by (auto simp: idxDown_def split: if_splits)

lemma idxDown_image: "nPos \<le> n \<Longrightarrow> idxDown nPos ` ({..<Suc n} - {nPos}) = {..<n}"
proof
  assume "nPos \<le> n"
  show "{..<n} \<subseteq> idxDown nPos ` ({..<Suc n} - {nPos})"
  proof
    fix i assume "i \<in> {..<n}"
    then show "i \<in> idxDown nPos ` ({..<Suc n} - {nPos})"
      by (intro image_eqI [of _ _ "if i < nPos then i else Suc i"]) (auto simp: idxDown_def)
  qed
qed (auto simp: idxDown_def)

lemma nth_remove: "i \<noteq> nPos \<Longrightarrow> i < length ps \<Longrightarrow> nPos < length ps \<Longrightarrow>
    (take nPos ps @ drop (nPos + 1) ps) ! idxDown nPos i = ps ! i"
  by (auto simp: idxDown_def nth_append min_def)

lemma map_of_remove_nth:
  assumes "distinct (map fst xs)" "n < length xs"
  shows "map_of (take n xs @ drop (n + 1) xs) = (map_of xs)(fst (xs ! n) := None)"
proof -
  define as bs x where "as = take n xs" and "bs = drop (n + 1) xs" and "x = xs ! n"
  have xs: "xs = as @ x # bs" using assms(2) by (simp add: as_def bs_def x_def id_take_nth_drop [symmetric])
  have "map_of (as @ bs) = (map_of (as @ x # bs))(fst x := None)"
  proof
    fix k
    have "map_of as (fst x) = None" "map_of bs (fst x) = None"
      using assms(1) unfolding xs by (auto simp: map_of_eq_None_iff)
    then show "map_of (as @ bs) k = ((map_of (as @ x # bs))(fst x := None)) k"
      by (cases x) (auto simp: map_add_def split: option.splits)
  qed
  then have "map_of (as @ bs) = (map_of xs)(fst x := None)" by (simp only: xs)
  then show ?thesis by (simp only: as_def bs_def x_def)
qed

lemma remove_nth_map:
  assumes "n < length ps"
  shows "sorted (map f ps) \<Longrightarrow> sorted (map f (take n ps @ drop (n + 1) ps))"
    "distinct (map f ps) \<Longrightarrow> distinct (map f (take n ps @ drop (n + 1) ps))"
proof -
  have ps: "map f ps = map f (take n ps) @ f (ps ! n) # map f (drop (n + 1) ps)"
    using arg_cong [OF id_take_nth_drop [OF assms], of "map f"] by simp
  show "sorted (map f ps) \<Longrightarrow> sorted (map f (take n ps @ drop (n + 1) ps))"
    unfolding ps by (auto simp: sorted_append)
  show "distinct (map f ps) \<Longrightarrow> distinct (map f (take n ps @ drop (n + 1) ps))"
    unfolding ps by auto
qed

definition removed :: "hbSet \<Rightarrow> BASEHASH \<Rightarrow> nat \<Rightarrow> BASEHASH \<Rightarrow> bool" where
  "removed st h nPos h' \<longleftrightarrow> wfHash st h' \<and> iFlags h' = iFlags h \<and> pDefault h' = pDefault h \<and>
     pPairs h' = take nPos (pPairs h) @ drop (nPos + 1) (pPairs h) \<and>
     hashMap h' = (hashMap h)(keyAt h nPos := None)"

lemma hashMap_remove:
  assumes "wfHash st h" "nPos < nLen h" "iFlags h' = iFlags h"
    "pPairs h' = take nPos (pPairs h) @ drop (nPos + 1) (pPairs h)"
  shows "hashMap h' = (hashMap h)(keyAt h nPos := None)"
  using map_of_remove_nth [OF hashMap_keys [OF assms(1)], of nPos] assms(2-4)
  by (simp add: hashMap_def take_map drop_map keyAt_def case_prod_beta)

lemma hb_hashDelPair_pos:
  assumes "wfHash st h" "nPos < nLen h" "nLen h = Suc n" "n \<noteq> 0" "pnPos h = Some xs"
  shows "\<exists>ys. hb_hashDelPair h nPos =
      Some (h\<lparr>pPairs := take nPos (pPairs h) @ drop (nPos + 1) (pPairs h),
              nSize := (if 2 * HB_HASH_ITEM_ALLOC < nSize h - n then nSize h - HB_HASH_ITEM_ALLOC else nSize h),
              pnPos := Some ys\<rparr>) \<and> length ys = n \<and>
    (\<not> resort h \<longrightarrow> ys = map (idxDown nPos) (filter (\<lambda>i. i \<noteq> nPos) xs))"
proof (cases "resort h")
  case True
  have "length (take n xs) = n" using wfHash_parts(6) [OF assms(1)] assms(3,5) by (simp add: hashOrder_def)
  then show ?thesis
    using True assms by (intro exI [of _ "take n xs"]) (simp add: hb_hashDelPair_def Let_def resort_def)
next
  case False
  have xs: "distinct xs" "set xs = {..<Suc n}" "length xs = Suc n"
    using wfHash_parts(6,7) [OF assms(1)] False assms(3,5) by (auto simp: hashOrder_def hashSorted_def)
  then obtain ys where ys: "delPos_loop (2 * n + 2) n nPos xs 0 = Some ys"
      "take n ys = map (idxDown nPos) (filter (\<lambda>i. i \<noteq> nPos) xs)"
    using delPos_loop_spec [of xs nPos n] assms(2-4) by auto
  have "length (filter (\<lambda>i. i \<noteq> nPos) xs) = card ({..<Suc n} - {nPos})"
    using distinct_card [of "filter (\<lambda>i. i \<noteq> nPos) xs"] xs by (simp add: set_diff_eq)
  then have "length (filter (\<lambda>i. i \<noteq> nPos) xs) = n" using assms(2,3) by (simp add: card_Diff_singleton)
  then show ?thesis
    using False assms(3-5) ys by (simp add: hb_hashDelPair_def Let_def resort_def)
qed

lemma hb_hashDelPair_removed:
  assumes "wfHash st h" "nPos < nLen h"
  shows "\<exists>h'. hb_hashDelPair h nPos = Some h' \<and> removed st h nPos h'"
proof -
  note w = wfHash_parts [OF assms(1)]
  define n where "n = nLen h - 1"
  have n: "nLen h = Suc n" using assms(2) by (simp add: n_def)
  have sub: "set (take nPos (pPairs h) @ drop (nPos + 1) (pPairs h)) \<subseteq> set (pPairs h)"
    using set_take_subset set_drop_subset by fastforce
  have dist: "distinct (map (pairKey (iFlags h)) (take nPos (pPairs h) @ drop (nPos + 1) (pPairs h)))"
    by (rule remove_nth_map(2) [OF assms(2) w(3)])
  show ?thesis
  proof (cases "n = 0")
    case True
    define h' where "h' = h\<lparr>pPairs := [], nSize := 0, pnPos := None\<rparr>"
    have l: "take nPos (pPairs h) @ drop (nPos + 1) (pPairs h) = []" using True n assms(2) by simp
    have "removed st h nPos h'"
      unfolding removed_def using hashMap_remove [OF assms, of h'] l w(1)
      by (simp add: h'_def wfHash_def goodPairs_def hashOrder_def hashSorted_def)
    then show ?thesis using True n by (simp add: hb_hashDelPair_def h'_def)
  next
    case False
    have size: "n \<le> nSize h" "n \<noteq> 0 \<Longrightarrow> nSize h \<noteq> 0" using w(4) n by auto
    show ?thesis
    proof (cases "pnPos h")
      case None
      define h' where "h' = h\<lparr>pPairs := take nPos (pPairs h) @ drop (nPos + 1) (pPairs h),
          nSize := (if 2 * HB_HASH_ITEM_ALLOC < nSize h - n then nSize h - HB_HASH_ITEM_ALLOC else nSize h), pnPos := None\<rparr>"
      have e: "hb_hashDelPair h nPos = Some h'" using None False n by (simp add: hb_hashDelPair_def h'_def)
      have "sorted (map (pairKey (iFlags h)) (pPairs h'))" if "\<not> resort h"
        using remove_nth_map(1) [OF assms(2), of "pairKey (iFlags h)"] w(7) that sorted_keyAt_None [OF None]
        by (simp add: h'_def)
      then have "hashSorted h'" if "\<not> resort h"
        using that sorted_keyAt_None [of h'] by (simp add: h'_def)
      then have "wfHash st h'"
        using w False None n assms(2) sub dist keepOrder_cong [of h' h] resort_cong [of h' h]
        by (auto simp: wfHash_def h'_def goodPairs_def hashOrder_def HB_HASH_ITEM_ALLOC_def)
      then show ?thesis
        using e hashMap_remove [OF assms, of h'] by (simp add: removed_def h'_def)
    next
      case (Some xs)
      obtain ys where e: "hb_hashDelPair h nPos =
          Some (h\<lparr>pPairs := take nPos (pPairs h) @ drop (nPos + 1) (pPairs h),
              nSize := (if 2 * HB_HASH_ITEM_ALLOC < nSize h - n then nSize h - HB_HASH_ITEM_ALLOC else nSize h),
              pnPos := Some ys\<rparr>)"
        and ys: "length ys = n" "\<not> resort h \<Longrightarrow> ys = map (idxDown nPos) (filter (\<lambda>i. i \<noteq> nPos) xs)"
        using hb_hashDelPair_pos [OF assms n False Some] by blast
      define h' where "h' = h\<lparr>pPairs := take nPos (pPairs h) @ drop (nPos + 1) (pPairs h),
          nSize := (if 2 * HB_HASH_ITEM_ALLOC < nSize h - n then nSize h - HB_HASH_ITEM_ALLOC else nSize h), pnPos := Some ys\<rparr>"
      have len: "nLen h' = n" using n assms(2) by (simp add: h'_def)
      have "hashSorted h'" if "\<not> resort h"
      proof -
        have o: "hashOrder h' = map (idxDown nPos) (filter (\<lambda>i. i \<noteq> nPos) xs)"
          using ys(2) that by (simp add: h'_def hashOrder_def)
        have xs: "distinct xs" "set xs = {..<Suc n}" "sorted (map (keyAt h) xs)"
          using w(7) that Some n by (auto simp: hashSorted_def hashOrder_def)
        have key: "keyAt h' (idxDown nPos i) = keyAt h i" if "i \<noteq> nPos" "i < nLen h" for i
          using nth_remove [OF that assms(2)] by (simp add: keyAt_def h'_def)
        have "map (keyAt h') (hashOrder h') = map (keyAt h) (filter (\<lambda>i. i \<noteq> nPos) xs)"
          unfolding o map_map by (rule map_cong [OF refl]) (use key xs(2) n in auto)
        moreover have "sorted (map (keyAt h) (filter (\<lambda>i. i \<noteq> nPos) xs))"
          using xs(3) by (rule sorted_filter)
        moreover have "distinct (hashOrder h')"
          unfolding o using xs(1) by (auto simp: distinct_map inj_on_def dest: idxDown_inj)
        moreover have "set (hashOrder h') = {..<n}"
          unfolding o using idxDown_image [of nPos n] assms(2) n xs(2) by (simp add: set_diff_eq)
        ultimately show ?thesis by (simp add: hashSorted_def len)
      qed
      then have "wfHash st h'"
        using w False Some n assms(2) sub dist len ys(1) keepOrder_cong [of h' h] resort_cong [of h' h]
        by (auto simp: wfHash_def h'_def goodPairs_def hashOrder_def HB_HASH_ITEM_ALLOC_def)
      then show ?thesis
        using e hashMap_remove [OF assms, of h'] by (simp add: removed_def h'_def)
    qed
  qed
qed

subsection \<open>Adding and deleting keys\<close>

lemma map_of_update_nth:
  assumes "distinct (map fst xs)" "n < length xs"
  shows "map_of (xs[n := (fst (xs ! n), v)]) = (map_of xs)(fst (xs ! n) \<mapsto> v)"
  using assms
proof (induction xs arbitrary: n)
  case (Cons x xs)
  show ?case
  proof (cases n)
    case (Suc m)
    then have "xs ! m \<in> set xs" using Cons.prems by simp
    then have "fst (xs ! m) \<noteq> fst x" using Cons.prems by (auto simp: image_iff)
    then show ?thesis using Suc Cons by (cases x) (auto simp: fun_upd_twist)
  qed (cases x; auto simp: fun_eq_iff)
qed simp

definition setValue :: "BASEHASH \<Rightarrow> nat \<Rightarrow> HB_ITEM \<Rightarrow> BASEHASH" where
  "setValue h p v = h\<lparr>pPairs := (pPairs h)[p := (fst (pPairs h ! p), v)]\<rparr>"

lemma setValue_keys:
  assumes "p < nLen h"
  shows "map (pairKey fl) (pPairs (setValue h p v)) = map (pairKey fl) (pPairs h)"
  by (simp add: setValue_def map_update assms list_update_same_conv)

lemma setValue_keyAt: "i < nLen h \<Longrightarrow> keyAt (setValue h p v) i = keyAt h i"
  by (cases "i = p") (auto simp: keyAt_def setValue_def)

lemma setValue_wf:
  assumes "wfHash st h" "p < nLen h"
  shows "wfHash st (setValue h p v)" "hashMap (setValue h p v) = (hashMap h)(keyAt h p \<mapsto> v)"
proof -
  note w = wfHash_parts [OF assms(1)]
  have f: "iFlags (setValue h p v) = iFlags h" "pnPos (setValue h p v) = pnPos h" "nSize (setValue h p v) = nSize h"
      "nLen (setValue h p v) = nLen h"
    by (simp_all add: setValue_def)
  have o: "hashOrder (setValue h p v) = hashOrder h" by (simp add: hashOrder_def setValue_def split: option.split)
  have "hashSorted (setValue h p v)" if "\<not> resort h"
  proof -
    have eq: "map (keyAt (setValue h p v)) (hashOrder h) = map (keyAt h) (hashOrder h)"
      by (rule map_cong [OF refl]) (use w(7) [OF that] in \<open>auto simp: hashSorted_def setValue_keyAt\<close>)
    show ?thesis unfolding hashSorted_def o f(4) eq using w(7) [OF that] by (simp add: hashSorted_def)
  qed
  moreover have "goodPairs (pPairs (setValue h p v))"
    using w(2) assms(2) by (auto simp: goodPairs_def setValue_def dest!: set_update_subset_insert [THEN subsetD])
  ultimately show "wfHash st (setValue h p v)"
    using w keepOrder_cong [OF f(1)] resort_cong [OF f(1)] setValue_keys [OF assms(2)] f o
    by (auto simp: wfHash_def)
  show "hashMap (setValue h p v) = (hashMap h)(keyAt h p \<mapsto> v)"
    using map_of_update_nth [OF hashMap_keys [OF assms(1)], of p v] assms(2)
    by (simp add: hashMap_def setValue_def map_update keyAt_def case_prod_beta)
qed

text \<open>What an operation does that keeps the settings of the hash.\<close>

definition hashOp :: "hbSet \<Rightarrow> BASEHASH \<Rightarrow> BASEHASH \<Rightarrow> (hashKey \<rightharpoonup> HB_ITEM) \<Rightarrow> bool" where
  "hashOp st h h' m \<longleftrightarrow> wfHash st h' \<and> hashKeyOf (iFlags h') = hashKeyOf (iFlags h) \<and>
     pDefault h' = pDefault h \<and> keepOrder h' = keepOrder h \<and> hashMap h' = m"

lemma refreshed_op: "wfHash st h \<Longrightarrow> refreshed st h h' \<Longrightarrow> hashOp st h h' (hashMap h)"
  using refreshed_map by (auto simp: refreshed_def hashOp_def)

lemma find_place:
  assumes "wfHash st h" "goodKey k" "hb_hashFind st h k = (h1, False, p)" "fst kv = k" "hb_hashPlace h1 p kv = (h', q)"
  shows "hashOp st h h' ((hashMap h)(hashKeyOf (iFlags h) k \<mapsto> snd kv)) \<and> q < nLen h' \<and> pPairs h' ! q = kv \<and>
    keyAt h' q = hashKeyOf (iFlags h) k \<and> (keepOrder h \<longrightarrow> pPairs h' = pPairs h @ [kv])"
proof (rule hb_hashFind_cases [OF assms(1,2)], goal_cases)
  case (1 h2 p2)
  then show ?case using assms(3) by simp
next
  case (2 h2 p2)
  then have e: "h2 = h1" "p2 = p" using assms(3) by auto
  have r: "refreshed st h h1" using 2 e by simp
  then have fl: "hashKeyOf (iFlags h1) = hashKeyOf (iFlags h)" by (simp add: refreshed_def)
  have "hashGap h1 (pairKey (iFlags h1) kv) p"
    using 2 e assms(4) by (simp add: hashGap_def fl)
  then have pl: "placed st h1 kv h' q"
    using hb_hashPlace_placed [of st h1 kv p] r assms(2,4,5) by (simp add: refreshed_def)
  have "hashMap h1 = hashMap h" using refreshed_map [OF assms(1) r] .
  then show ?case
    using pl r assms(4) keepOrder_cong [of h' h1]
    by (auto simp: placed_def refreshed_def hashOp_def keyAt_def)
qed

lemma hb_hashAdd_spec:
  assumes "wfHash st h" "goodKey k"
  shows "\<exists>h'. hb_hashAdd st clone h k v = (h', True) \<and>
    hashOp st h h' ((hashMap h)(hashKeyOf (iFlags h) k \<mapsto> (case v of Some x \<Rightarrow> x | None \<Rightarrow> INil)))"
proof -
  define x where "x = (case v of Some x \<Rightarrow> x | None \<Rightarrow> INil)"
  have hk: "HB_IS_HASHKEY k" using assms(2) by (rule goodKey_hashkey)
  show ?thesis
  proof (rule hb_hashFind_cases [OF assms], goal_cases)
    case (1 h1 p)
    have "hb_hashAdd st clone h k v = (setValue h1 p x, True)"
      using 1 hk by (simp add: hb_hashAdd_def hb_hashValuePtr_def setValue_def x_def)
    moreover have "hashOp st h (setValue h1 p x) ((hashMap h)(hashKeyOf (iFlags h) k \<mapsto> x))"
      using setValue_wf [of st h1 p x] 1 refreshed_map [OF assms(1) 1(2)] keepOrder_cong [of "setValue h1 p x" h1]
      by (auto simp: hashOp_def refreshed_def) (auto simp: setValue_def)
    ultimately show ?case by (auto simp: x_def)
  next
    case (2 h1 p)
    define kv where "kv = (k, case pDefault h1 of Some d \<Rightarrow> clone d | None \<Rightarrow> INil)"
    obtain h2 q where pl: "hb_hashPlace h1 p kv = (h2, q)" by fastforce
    note fp = find_place [OF assms 2(1) _ pl, unfolded kv_def, simplified]
    have "hb_hashAdd st clone h k v = (setValue h2 q x, True)"
      using 2 hk pl by (simp add: hb_hashAdd_def hb_hashValuePtr_def kv_def setValue_def x_def)
    moreover have "hashOp st h (setValue h2 q x) ((hashMap h)(hashKeyOf (iFlags h) k \<mapsto> x))"
      using setValue_wf [of st h2 q x] fp keepOrder_cong [of "setValue h2 q x" h2]
      by (auto simp: hashOp_def) (auto simp: setValue_def)
    ultimately show ?case by (auto simp: x_def)
  qed
qed

lemma hb_hashAddNew_spec:
  assumes "wfHash st h" "goodKey k"
  shows "\<exists>h'. hb_hashAddNew st h k v = (h', hashMap h (hashKeyOf (iFlags h) k) = None) \<and>
    hashOp st h h' (if hashMap h (hashKeyOf (iFlags h) k) = None
                    then (hashMap h)(hashKeyOf (iFlags h) k \<mapsto> v) else hashMap h)"
proof -
  have hk: "HB_IS_HASHKEY k" using assms(2) by (rule goodKey_hashkey)
  obtain h1 b p where f: "hb_hashFind st h k = (h1, b, p)" by (metis prod_cases3)
  note m = hb_hashFind_map [OF assms f]
  show ?thesis
  proof (cases b)
    case True
    then show ?thesis
      using m f hk refreshed_op [OF assms(1) m(1)] by (simp add: hb_hashAddNew_def hb_hashNewValue_def)
  next
    case False
    obtain h2 q where pl: "hb_hashPlace h1 p (k, v) = (h2, q)" by fastforce
    show ?thesis
      using find_place [OF assms f [unfolded False [THEN eq_False [THEN iffD2]]] _ pl] m(2) False f hk pl
      by (simp add: hb_hashAddNew_def hb_hashNewValue_def)
  qed
qed

lemma hb_hashDel_spec:
  assumes "wfHash st h" "goodKey k"
  shows "\<exists>h'. hb_hashDel st h k = Some (h', hashMap h (hashKeyOf (iFlags h) k) \<noteq> None) \<and>
    hashOp st h h' ((hashMap h)(hashKeyOf (iFlags h) k := None))"
proof -
  have hk: "HB_IS_HASHKEY k" using assms(2) by (rule goodKey_hashkey)
  show ?thesis
  proof (rule hb_hashFind_cases [OF assms], goal_cases)
    case (1 h1 p)
    have w1: "wfHash st h1" using 1(2) by (simp add: refreshed_def)
    obtain h2 where h2: "hb_hashDelPair h1 p = Some h2" "removed st h1 p h2"
      using hb_hashDelPair_removed [OF w1 1(3)] by blast
    have "hashMap h (hashKeyOf (iFlags h) k) \<noteq> None" using hb_hashFind_map(2) [OF assms 1(1)] by simp
    moreover have "hashOp st h h2 ((hashMap h)(hashKeyOf (iFlags h) k := None))"
      using h2(2) 1 refreshed_map [OF assms(1) 1(2)] keepOrder_cong [of h2 h1]
      by (auto simp: removed_def hashOp_def refreshed_def)
    ultimately show ?case using 1(1) hk h2(1) by (simp add: hb_hashDel_def)
  next
    case (2 h1 p)
    have n: "hashMap h (hashKeyOf (iFlags h) k) = None" using hb_hashFind_map(2) [OF assms 2(1)] by simp
    then have "(hashMap h)(hashKeyOf (iFlags h) k := None) = hashMap h" by (rule fun_upd_idem)
    then show ?case using 2(1) hk n refreshed_op [OF assms(1) 2(2)] by (simp add: hb_hashDel_def)
  qed
qed

interpretation hashOps: map_store "wfHash st" "\<lambda>h. hashKeyOf (iFlags h)" goodKey hashMap
    "\<lambda>h k v. fst (hb_hashAdd st clone h k (Some v))" "hb_hashDel st"
  for st clone
proof
  fix h k v assume a: "wfHash st h" "goodKey k"
  show "wfHash st (fst (hb_hashAdd st clone h k (Some v))) \<and>
      hashKeyOf (iFlags (fst (hb_hashAdd st clone h k (Some v)))) = hashKeyOf (iFlags h) \<and>
      hashMap (fst (hb_hashAdd st clone h k (Some v))) = (hashMap h)(hashKeyOf (iFlags h) k \<mapsto> v)"
    using hb_hashAdd_spec [OF a, of clone "Some v"] by (auto simp: hashOp_def)
next
  fix h k assume a: "wfHash st h" "goodKey k"
  show "\<exists>h'. hb_hashDel st h k = Some (h', hashMap h (hashKeyOf (iFlags h) k) \<noteq> None) \<and> wfHash st h' \<and>
      hashKeyOf (iFlags h') = hashKeyOf (iFlags h) \<and> hashMap h' = (hashMap h)(hashKeyOf (iFlags h) k := None)"
    using hb_hashDel_spec [OF a] by (auto simp: hashOp_def)
qed

subsection \<open>Joining\<close>

lemma joinUnion_addAll: "joinUnion st clone d ps = hashOps.addAll st clone d ps"
  by (induction ps arbitrary: d) auto

lemma hashDel_all_delAll: "hashDel_all st d ks = hashOps.delAll st d ks"
  by (induction ks arbitrary: d) (auto split: Option.bind_splits)

lemma joinDifference_toggleAll: "joinDifference st clone d ps = hashOps.toggleAll st clone d ps"
  by (induction ps arbitrary: d) (auto split: Option.bind_splits)

lemma hashMap_entries:
  assumes "hashKeyOf (iFlags s) = hashKeyOf (iFlags d)"
  shows "map_of (hashOps.entries d (pPairs s)) = hashMap s"
  using assms by (simp add: hashMap_def hashOps.entries_def)

lemma entries_distinct:
  assumes "wfHash st s" "hashKeyOf (iFlags s) = hashKeyOf (iFlags d)"
  shows "distinct (map fst (hashOps.entries d (pPairs s)))"
  using assms by (simp add: hashOps.entries_def wfHash_def comp_def case_prod_beta)

lemma keyAt_removed:
  assumes "removed st d p d'" "p < nLen d"
  shows "nLen d' = nLen d - 1" "keyAt d' ` {p..<nLen d'} = keyAt d ` {p + 1..<nLen d}"
proof -
  show l: "nLen d' = nLen d - 1" using assms by (simp add: removed_def)
  have "keyAt d' i = keyAt d (Suc i)" if "p \<le> i" "i < nLen d'" for i
    using assms that l by (simp add: removed_def keyAt_def nth_append)
  then have "keyAt d' ` {p..<nLen d'} = (\<lambda>i. keyAt d (Suc i)) ` {p..<nLen d'}" by (intro image_cong) auto
  also have "\<dots> = keyAt d ` Suc ` {p..<nLen d'}" by (simp only: image_image)
  also have "Suc ` {p..<nLen d'} = {p + 1..<nLen d}"
    using l assms(2) by (cases "nLen d") (auto simp: image_Suc_atLeastLessThan)
  finally show "keyAt d' ` {p..<nLen d'} = keyAt d ` {p + 1..<nLen d}" .
qed

lemma hashOp_trans: "hashOp st h h1 m1 \<Longrightarrow> hashOp st h1 h2 m2 \<Longrightarrow> hashOp st h h2 m2"
  by (auto simp: hashOp_def)

lemma joinIntersect_spec:
  assumes "wfHash st d" "wfHash st s" "hashKeyOf (iFlags s) = hashKeyOf (iFlags d)" "nLen d - nPos \<le> fuel"
  shows "\<exists>d' s'. joinIntersect fuel st d s nPos = Some (d', s') \<and> hashOp st s s' (hashMap s) \<and>
    hashOp st d d' (\<lambda>k. if k \<in> keyAt d ` {nPos..<nLen d} then hashMap s k else hashMap d k)"
  using assms
proof (induction "nLen d - nPos" arbitrary: fuel d s nPos)
  case 0
  then have "joinIntersect fuel st d s nPos = Some (d, s)" by (simp add: joinIntersect.simps)
  then show ?case using 0 by (auto simp: hashOp_def)
next
  case (Suc n)
  then obtain f where f: "fuel = Suc f" by (cases fuel) auto
  have lt: "nPos < nLen d" using Suc(2) by simp
  define k where "k = fst (pPairs d ! nPos)"
  have gk: "goodKey k" using Suc.prems(1) lt by (auto simp: wfHash_def goodPairs_def k_def)
  have ka: "hashKeyOf (iFlags s) k = keyAt d nPos" using Suc.prems(3) by (simp add: keyAt_def k_def)
  have ivl: "{nPos..<nLen d} = insert nPos {nPos + 1..<nLen d}" using lt by auto
  obtain s1 b p where fd: "hb_hashFind st s k = (s1, b, p)" by (metis prod_cases3)
  note m = hb_hashFind_map [OF Suc.prems(2) gk fd, unfolded ka]
  have s1: "hashOp st s s1 (hashMap s)" by (rule refreshed_op [OF Suc.prems(2) m(1)])
  then have w: "wfHash st s1" "hashKeyOf (iFlags s1) = hashKeyOf (iFlags d)" "hashMap s1 = hashMap s"
    using Suc.prems(3) by (auto simp: hashOp_def)
  show ?case
  proof (cases b)
    case True
    define d1 where "d1 = setValue d nPos (snd (pPairs s1 ! p))"
    have d1: "wfHash st d1" "hashMap d1 = (hashMap d)(keyAt d nPos := hashMap s (keyAt d nPos))"
      using setValue_wf [OF Suc.prems(1) lt] m(3) [OF True] by (auto simp: d1_def)
    have f1: "iFlags d1 = iFlags d" "nLen d1 = nLen d" "pDefault d1 = pDefault d" by (simp_all add: d1_def setValue_def)
    have e: "joinIntersect fuel st d s nPos = joinIntersect f st d1 s1 (nPos + 1)"
      using lt True fd by (subst joinIntersect.simps) (simp add: f d1_def setValue_def k_def)
    have nn: "n = nLen d1 - (nPos + 1)" using Suc(2) f1 by simp
    have le: "nLen d1 - (nPos + 1) \<le> f" using Suc.prems(4) f f1(2) by linarith
    have im: "keyAt d1 ` {nPos + 1..<nLen d1} = keyAt d ` {nPos + 1..<nLen d}"
      unfolding f1(2) by (rule image_cong [OF refl]) (simp add: d1_def setValue_keyAt)
    obtain d' s' where ih: "joinIntersect f st d1 s1 (nPos + 1) = Some (d', s')" "hashOp st s1 s' (hashMap s1)"
        "hashOp st d1 d' (\<lambda>k. if k \<in> keyAt d1 ` {nPos + 1..<nLen d1} then hashMap s1 k else hashMap d1 k)"
      using Suc(1) [OF nn d1(1) w(1) _ le] w(2) f1(1) by auto
    have "hashOp st d d1 (hashMap d1)" using d1(1) f1 keepOrder_cong [OF f1(1)] by (simp add: hashOp_def)
    then have "hashOp st d d' (\<lambda>k. if k \<in> keyAt d1 ` {nPos + 1..<nLen d1} then hashMap s1 k else hashMap d1 k)"
      using ih(3) by (rule hashOp_trans)
    moreover have "(\<lambda>k. if k \<in> keyAt d1 ` {nPos + 1..<nLen d1} then hashMap s1 k else hashMap d1 k) =
        (\<lambda>k. if k \<in> keyAt d ` {nPos..<nLen d} then hashMap s k else hashMap d k)"
      unfolding im w(3) ivl by (rule ext) (simp add: d1(2))
    moreover have "hashOp st s s' (hashMap s)" using hashOp_trans [OF s1 ih(2)] w(3) by simp
    ultimately show ?thesis using e ih(1) by auto
  next
    case False
    have none: "hashMap s (keyAt d nPos) = None" using m(2) False by simp
    obtain d1 where d1: "hb_hashDelPair d nPos = Some d1" "removed st d nPos d1"
      using hb_hashDelPair_removed [OF Suc.prems(1) lt] by blast
    note im = keyAt_removed [OF d1(2) lt]
    have e: "joinIntersect fuel st d s nPos = joinIntersect f st d1 s1 nPos"
      using lt False fd d1(1) by (subst joinIntersect.simps) (simp add: f k_def)
    have wd: "wfHash st d1" "iFlags d1 = iFlags d" using d1(2) by (auto simp: removed_def)
    have nn: "n = nLen d1 - nPos" using Suc(2) im(1) by linarith
    have le: "nLen d1 - nPos \<le> f" using Suc.prems(4) f im(1) lt by linarith
    obtain d' s' where ih: "joinIntersect f st d1 s1 nPos = Some (d', s')" "hashOp st s1 s' (hashMap s1)"
        "hashOp st d1 d' (\<lambda>k. if k \<in> keyAt d1 ` {nPos..<nLen d1} then hashMap s1 k else hashMap d1 k)"
      using Suc(1) [OF nn wd(1) w(1) _ le] w(2) wd(2) by auto
    have "hashOp st d d1 (hashMap d1)" using d1(2) keepOrder_cong [of d1 d] by (auto simp: hashOp_def removed_def)
    then have "hashOp st d d' (\<lambda>k. if k \<in> keyAt d1 ` {nPos..<nLen d1} then hashMap s1 k else hashMap d1 k)"
      using ih(3) by (rule hashOp_trans)
    moreover have "(\<lambda>k. if k \<in> keyAt d1 ` {nPos..<nLen d1} then hashMap s1 k else hashMap d1 k) =
        (\<lambda>k. if k \<in> keyAt d ` {nPos..<nLen d} then hashMap s k else hashMap d k)"
      unfolding im(2) w(3) ivl using d1(2) none by (intro ext) (simp add: removed_def)
    moreover have "hashOp st s s' (hashMap s)" using hashOp_trans [OF s1 ih(2)] w(3) by simp
    ultimately show ?thesis using e ih(1) by auto
  qed
qed

lemma hb_hashClear_wf:
  assumes "wfHash st h"
  shows "hashOp st h (hb_hashClear h) Map.empty"
proof (cases "nSize h = 0")
  case True
  then have "pPairs h = []" using assms by (simp add: wfHash_def)
  then show ?thesis using assms True by (simp add: hb_hashClear_def hashOp_def hashMap_def)
next
  case False
  then show ?thesis
    using assms by (auto simp: hb_hashClear_def hashOp_def hashMap_def wfHash_def goodPairs_def hashOrder_def
        hashSorted_def keepOrder_def)
qed

lemma hb_hashResize_wf:
  assumes "wfHash st h"
  shows "hashOp st h (hb_hashResize h n) (hashMap h)"
proof -
  note w = wfHash_parts [OF assms]
  have f: "iFlags (hb_hashResize h n) = iFlags h" "pDefault (hb_hashResize h n) = pDefault h"
    by (auto simp: hb_hashResize_def)
  have p: "pPairs (hb_hashResize h n) = pPairs h" by (auto simp: hb_hashResize_def)
  have o: "hashOrder (hb_hashResize h n) = hashOrder h"
    using w(4-6) by (auto simp: hb_hashResize_def hashOrder_def split: option.splits)
  have s: "hashSorted (hb_hashResize h n) = hashSorted h"
    using p f by (simp add: hashSorted_def o keyAt_def [abs_def])
  have "wfHash st (hb_hashResize h n)"
    unfolding wfHash_def f p o s resort_cong [OF f(1)] keepOrder_cong [OF f(1)]
    using w by (auto simp: hb_hashResize_def keepOrder_def)
  then show ?thesis using f p keepOrder_cong [OF f(1)] by (simp add: hashOp_def hashMap_def)
qed

end
