(* ===== verification/HbHashProps.thy ===== *)
theory HbHashProps
  imports HbHashMap
begin

text \<open>
  The properties of the hash arrays: they implement finite maps, joining them is an operation on
  maps, sorting is a stable rearrangement, and two ways to leave a hash inconsistent.
\<close>

subsection \<open>Sorting and flags\<close>

lemma mset_permute:
  assumes "distinct xs" "set xs = {..<length ps}"
  shows "mset (map ((!) ps) xs) = mset ps"
proof -
  have "mset xs = mset [0..<length ps]"
    using assms by (metis distinct_upt mset_set_set set_upt atLeast_upt)
  then have "mset (map ((!) ps) xs) = mset (map ((!) ps) [0..<length ps])" by simp
  then show ?thesis by (simp add: map_nth)
qed

definition sortedPairs :: "BASEHASH \<Rightarrow> bool" where
  "sortedPairs h \<longleftrightarrow> sorted (map (pairKey (iFlags h)) (pPairs h))"

lemma hb_hashResort_sorted:
  assumes "wfHash st h" "\<not> resort h" "pnPos h = Some xs" "nLen h \<noteq> 0"
  shows "\<exists>h'. hb_hashResort h = Some h' \<and> mset (pPairs h') = mset (pPairs h) \<and> sortedPairs h' \<and>
    pnPos h' = Some [0..<nLen h'] \<and> nSize h' = nLen h' \<and> iFlags h' = iFlags h \<and> pDefault h' = pDefault h"
proof -
  have xs: "distinct xs" "set xs = {..<nLen h}" "sorted (map (keyAt h) xs)"
    using wfHash_parts(7) [OF assms(1,2)] assms(3) by (auto simp: hashSorted_def hashOrder_def)
  define ps where "ps = map ((!) (pPairs h)) xs"
  have ps: "map (hb_hashPair h) xs = ps"
    unfolding ps_def by (rule map_cong [OF refl]) (use xs(2) in \<open>simp add: hb_hashPair_def\<close>)
  have m: "mset ps = mset (pPairs h)" unfolding ps_def by (rule mset_permute [OF xs(1,2)])
  have l: "length ps = nLen h" using m by (metis size_mset)
  have "map (pairKey (iFlags h)) ps = map (keyAt h) xs" by (simp add: ps_def keyAt_def)
  then have "sorted (map (pairKey (iFlags h)) ps)" using xs(3) by simp
  then show ?thesis
    using assms(3,4) m l by (simp add: hb_hashResort_def ps sortedPairs_def)
qed

lemma wfHash_permuted:
  assumes "wfHash st h" "mset (pPairs h') = mset (pPairs h)" "iFlags h' = iFlags h" "pDefault h' = pDefault h"
    "sortedPairs h'" "pnPos h' = (if keepOrder h then Some [0..<nLen h'] else None)" "nLen h' \<noteq> 0" "nLen h' \<le> nSize h'"
  shows "hashOp st h h' (hashMap h)"
proof -
  note w = wfHash_parts [OF assms(1)]
  have ko: "keepOrder h' = keepOrder h" by (rule keepOrder_cong [OF assms(3)])
  have o: "hashOrder h' = [0..<nLen h']" using assms(6) by (simp add: hashOrder_def)
  have "hashSorted h'"
    using assms(5) unfolding hashSorted_def o map_keyAt_upt sortedPairs_def by auto
  moreover have "distinct (map (pairKey (iFlags h')) (pPairs h'))"
    using w(3) assms(2,3) by (metis mset_eq_imp_distinct_iff mset_map)
  moreover have "goodPairs (pPairs h')" using w(2) mset_eq_setD [OF assms(2)] by (simp add: goodPairs_def)
  moreover have "nSize h' \<noteq> 0" using assms(7,8) by linarith
  then have "pnPos h' \<noteq> None \<longleftrightarrow> nSize h' \<noteq> 0 \<and> keepOrder h'" using assms(6) ko by simp
  ultimately have wf: "wfHash st h'" unfolding wfHash_def using w(1) assms(3,8) o by simp
  moreover have "hashMap h' = hashMap h"
    unfolding hashMap_def by (rule map_of_perm) (use assms(2,3) hashMap_keys [OF wf] in simp_all)
  ultimately show ?thesis using assms(3,4) ko by (simp add: hashOp_def)
qed

lemma hb_hashClearFlags_unfold:
  "hb_hashClearFlags h HB_HASH_KEEPORDER =
    (let h1 = h\<lparr>iFlags := iFlags h AND NOT HB_HASH_KEEPORDER\<rparr> in
     if pnPos h \<noteq> None then map_option (\<lambda>h. h\<lparr>pnPos := None\<rparr>) (hb_hashResort h1) else Some h1)"
  by (simp add: hb_hashClearFlags_def Let_def HB_HASH_KEEPORDER_def and.assoc)

lemma hb_hashSort_cases:
  assumes "wfHash st h"
  shows "(hb_hashSort st h = None \<longleftrightarrow> pnPos h \<noteq> None \<and> nLen h = 0) \<and>
    (\<forall>h'. hb_hashSort st h = Some h' \<longrightarrow>
      hashOp st h h' (hashMap h) \<and> mset (pPairs h') = mset (pPairs h) \<and> sortedPairs h' \<and> \<not> resort h')"
proof -
  define h1 where "h1 = (if resort h then hb_hashSortDo st h else h)"
  have r: "refreshed st h h1"
    using hb_hashSortDo_refreshed [OF assms] refreshed_refl [OF assms] by (auto simp: h1_def)
  have w1: "wfHash st h1" "\<not> resort h1" using r by (auto simp: refreshed_def)
  have op1: "hashOp st h h1 (hashMap h)" by (rule refreshed_op [OF assms r])
  have e: "hb_hashSort st h = (if pnPos h1 \<noteq> None then hb_hashResort h1 else Some h1)"
    by (simp add: hb_hashSort_def h1_def resort_def Let_def)
  have same: "pnPos h1 \<noteq> None \<longleftrightarrow> pnPos h \<noteq> None" "nLen h1 = nLen h"
    using wfHash_parts(5) [OF assms] wfHash_parts(5) [OF w1(1)] r refreshed_len [OF r] by (auto simp: refreshed_def)
  show ?thesis
  proof (cases "pnPos h1")
    case None
    then have "sortedPairs h1"
      using wfHash_parts(7) [OF w1] sorted_keyAt_None [OF None] by (simp add: sortedPairs_def)
    then show ?thesis using None e same op1 r w1 by (auto simp: refreshed_def)
  next
    case (Some xs)
    show ?thesis
    proof (cases "nLen h1 = 0")
      case True
      then have "hb_hashSort st h = None" using e Some by (simp add: hb_hashResort_def)
      then show ?thesis using Some True same by simp
    next
      case False
      obtain h' where h': "hb_hashResort h1 = Some h'" "mset (pPairs h') = mset (pPairs h1)" "sortedPairs h'"
          "pnPos h' = Some [0..<nLen h']" "nSize h' = nLen h'" "iFlags h' = iFlags h1" "pDefault h' = pDefault h1"
        using hb_hashResort_sorted [OF w1 Some False] by blast
      have l: "nLen h' = nLen h1" using h'(2) by (metis size_mset)
      have ko: "keepOrder h1" using wfHash_parts(5) [OF w1(1)] Some by simp
      have op2: "hashOp st h1 h' (hashMap h1)"
        by (rule wfHash_permuted [OF w1(1) h'(2,6,7,3)]) (use h'(4,5) ko l False in auto)
      have "hashMap h1 = hashMap h" using op1 by (simp add: hashOp_def)
      then have "hashOp st h h' (hashMap h)" using hashOp_trans [OF op1 op2] by simp
      moreover have "mset (pPairs h') = mset (pPairs h)" using h'(2) r by (simp add: refreshed_def)
      moreover have "\<not> resort h'" using resort_cong [OF h'(6)] w1(2) by simp
      moreover have "hb_hashSort st h = Some h'" using e Some h'(1) by simp
      ultimately show ?thesis using h'(3) False same(2) by simp
    qed
  qed
qed

subsection \<open>Runs of operations\<close>

datatype hashCmd = CAdd HB_ITEM "HB_ITEM option" | CAddNew HB_ITEM HB_ITEM | CDel HB_ITEM
  | CGet HB_ITEM | CScan HB_ITEM | CClear | CPreallocate nat

datatype hashOut = OBool bool | OValue "HB_ITEM option" | ONone

fun hashExec :: "hbSet \<Rightarrow> (HB_ITEM \<Rightarrow> HB_ITEM) \<Rightarrow> BASEHASH \<Rightarrow> hashCmd \<Rightarrow> (BASEHASH \<times> hashOut) option" where
  "hashExec st clone h (CAdd k v) = (let (h, b) = hb_hashAdd st clone h k v in Some (h, OBool b))"
| "hashExec st clone h (CAddNew k v) = (let (h, b) = hb_hashAddNew st h k v in Some (h, OBool b))"
| "hashExec st clone h (CDel k) = map_option (\<lambda>(h, b). (h, OBool b)) (hb_hashDel st h k)"
| "hashExec st clone h (CGet k) =
     (let (h, p) = hb_hashGetItemPtr st clone h k 0 in Some (h, OValue (map_option (\<lambda>p. snd (pPairs h ! p)) p)))"
| "hashExec st clone h (CScan k) = (let (h, b, p) = hb_hashScan st h (AItem k) in Some (h, OBool b))"
| "hashExec st clone h CClear = Some (hb_hashClear h, ONone)"
| "hashExec st clone h (CPreallocate n) = Some (hb_hashPreallocate h n, ONone)"

fun mapExec :: "(HB_ITEM \<Rightarrow> 'a) \<Rightarrow> ('a \<rightharpoonup> HB_ITEM) \<Rightarrow> hashCmd \<Rightarrow> ('a \<rightharpoonup> HB_ITEM) \<times> hashOut" where
  "mapExec K m (CAdd k v) = (m(K k \<mapsto> (case v of Some x \<Rightarrow> x | None \<Rightarrow> INil)), OBool True)"
| "mapExec K m (CAddNew k v) = (if m (K k) = None then (m(K k \<mapsto> v), OBool True) else (m, OBool False))"
| "mapExec K m (CDel k) = (m(K k := None), OBool (m (K k) \<noteq> None))"
| "mapExec K m (CGet k) = (m, OValue (m (K k)))"
| "mapExec K m (CScan k) = (m, OBool (m (K k) \<noteq> None))"
| "mapExec K m CClear = (Map.empty, ONone)"
| "mapExec K m (CPreallocate n) = (m, ONone)"

fun cmdKey :: "hashCmd \<Rightarrow> HB_ITEM option" where
  "cmdKey (CAdd k v) = Some k"
| "cmdKey (CAddNew k v) = Some k"
| "cmdKey (CDel k) = Some k"
| "cmdKey (CGet k) = Some k"
| "cmdKey (CScan k) = Some k"
| "cmdKey _ = None"

definition goodCmd :: "hashCmd \<Rightarrow> bool" where
  "goodCmd c \<longleftrightarrow> (case cmdKey c of Some k \<Rightarrow> goodKey k | None \<Rightarrow> True)"

fun hashRun :: "hbSet \<Rightarrow> (HB_ITEM \<Rightarrow> HB_ITEM) \<Rightarrow> BASEHASH \<Rightarrow> hashCmd list \<Rightarrow> (BASEHASH \<times> hashOut list) option" where
  "hashRun st clone h [] = Some (h, [])"
| "hashRun st clone h (c # cs) =
     do { (h, r) \<leftarrow> hashExec st clone h c; (h, rs) \<leftarrow> hashRun st clone h cs; Some (h, r # rs) }"

fun mapRun :: "(HB_ITEM \<Rightarrow> 'a) \<Rightarrow> ('a \<rightharpoonup> HB_ITEM) \<Rightarrow> hashCmd list \<Rightarrow> ('a \<rightharpoonup> HB_ITEM) \<times> hashOut list" where
  "mapRun K m [] = (m, [])"
| "mapRun K m (c # cs) = (let (m, r) = mapExec K m c; (m, rs) = mapRun K m cs in (m, r # rs))"

lemma hashExec_map:
  assumes "wfHash st h" "goodCmd c"
  shows "\<exists>h' r. hashExec st clone h c = Some (h', r) \<and> mapExec (hashKeyOf (iFlags h)) (hashMap h) c = (hashMap h', r) \<and>
    hashOp st h h' (hashMap h')"
proof -
  have find: "\<exists>h' b p. hb_hashFind st h k = (h', b, p) \<and> hashOp st h h' (hashMap h) \<and>
      (if b then hashMap h (hashKeyOf (iFlags h) k) = Some (snd (pPairs h' ! p))
       else hashMap h (hashKeyOf (iFlags h) k) = None)" if "goodKey k" for k
  proof -
    obtain h' b p where f: "hb_hashFind st h k = (h', b, p)" by (metis prod_cases3)
    then show ?thesis
      using hb_hashFind_map [OF assms(1) that f] refreshed_op [OF assms(1)] by (cases b) auto
  qed
  show ?thesis
  proof (cases c)
    case (CAdd k v)
    then show ?thesis
      using hb_hashAdd_spec [OF assms(1), of k clone v] assms(2) by (auto simp: goodCmd_def hashOp_def)
  next
    case (CAddNew k v)
    then show ?thesis
      using hb_hashAddNew_spec [OF assms(1), of k v] assms(2) by (auto simp: goodCmd_def hashOp_def)
  next
    case (CDel k)
    then show ?thesis
      using hb_hashDel_spec [OF assms(1), of k] assms(2) by (auto simp: goodCmd_def hashOp_def)
  next
    case (CGet k)
    then have g: "goodKey k" using assms(2) by (simp add: goodCmd_def)
    then show ?thesis
      using find [OF g] goodKey_hashkey [OF g]
      by (auto simp: CGet hb_hashGetItemPtr_def hb_hashValuePtr_def hashOp_def split: if_splits)
  next
    case (CScan k)
    then have g: "goodKey k" using assms(2) by (simp add: goodCmd_def)
    then show ?thesis
      using find [OF g] goodKey_hashkey [OF g]
      by (auto simp: CScan hb_hashScan_def hashOp_def split: if_splits)
  next
    case CClear
    then show ?thesis using hb_hashClear_wf [OF assms(1)] by (simp add: hashOp_def)
  next
    case (CPreallocate n)
    then show ?thesis using hb_hashResize_wf [OF assms(1), of n] by (simp add: hashOp_def hb_hashPreallocate_def)
  qed
qed

lemma hashRun_map:
  assumes "wfHash st h" "\<forall>c \<in> set cs. goodCmd c"
  shows "\<exists>h' rs. hashRun st clone h cs = Some (h', rs) \<and>
    mapRun (hashKeyOf (iFlags h)) (hashMap h) cs = (hashMap h', rs) \<and> hashOp st h h' (hashMap h')"
  using assms
proof (induction cs arbitrary: h)
  case Nil
  then show ?case by (simp add: hashOp_def)
next
  case (Cons c cs)
  obtain h1 r where h1: "hashExec st clone h c = Some (h1, r)"
      "mapExec (hashKeyOf (iFlags h)) (hashMap h) c = (hashMap h1, r)" "hashOp st h h1 (hashMap h1)"
    using hashExec_map [OF Cons.prems(1)] Cons.prems(2) by fastforce
  then have w: "wfHash st h1" "hashKeyOf (iFlags h1) = hashKeyOf (iFlags h)" by (auto simp: hashOp_def)
  obtain h2 rs where "hashRun st clone h1 cs = Some (h2, rs)"
      "mapRun (hashKeyOf (iFlags h)) (hashMap h1) cs = (hashMap h2, rs)" "hashOp st h1 h2 (hashMap h2)"
    using Cons.IH [OF w(1)] Cons.prems(2) w(2) by auto
  then show ?case using h1 hashOp_trans [OF h1(3)] by simp
qed

lemma hb_hashNew_wf: "wfHash st hb_hashNew"
  by (simp add: wfHash_def hb_hashNew_def goodOrder_def goodPairs_def hashOrder_def hashSorted_def HB_HASH_FLAG_DEFAULT_def
      HB_HASH_BINARY_def)

subsection \<open>Keys in order\<close>

lemma hashGetKeys_from_drop: "hashGetKeys_from h n p = drop p (map fst (pPairs h))" if "p + n = nLen h"
  using that
proof (induction n arbitrary: p)
  case (Suc n)
  then have "drop p (map fst (pPairs h)) = fst (pPairs h ! p) # drop (p + 1) (map fst (pPairs h))"
    by (simp add: Cons_nth_drop_Suc [symmetric])
  then show ?case using Suc by (simp add: hb_hashGetKeyAt_def)
qed simp

lemma hb_hashGetKeys_map: "hb_hashGetKeys h = map fst (pPairs h)"
  by (simp add: hb_hashGetKeys_def hb_hashLen_def hashGetKeys_from_drop)

lemma setValue_hashKeys: "p < nLen h \<Longrightarrow> map fst (pPairs (setValue h p v)) = map fst (pPairs h)"
  by (simp add: setValue_def map_update list_update_same_conv)

lemma hashAdd_keys:
  assumes "wfHash st h" "keepOrder h" "goodKey k"
  shows "map fst (pPairs (fst (hb_hashAdd st clone h k v))) =
    (if hashMap h (hashKeyOf (iFlags h) k) = None then map fst (pPairs h) @ [k] else map fst (pPairs h))"
proof -
  define x where "x = (case v of Some x \<Rightarrow> x | None \<Rightarrow> INil)"
  have hk: "HB_IS_HASHKEY k" using assms(3) by (rule goodKey_hashkey)
  show ?thesis
  proof (rule hb_hashFind_cases [OF assms(1,3)], goal_cases)
    case (1 h1 p)
    have "fst (hb_hashAdd st clone h k v) = setValue h1 p x"
      using 1 hk by (simp add: hb_hashAdd_def hb_hashValuePtr_def setValue_def x_def)
    then show ?case
      using 1 hb_hashFind_map(2) [OF assms(1,3) 1(1)] assms(2) by (simp add: setValue_hashKeys refreshed_def)
  next
    case (2 h1 p)
    define kv where "kv = (k, case pDefault h1 of Some d \<Rightarrow> clone d | None \<Rightarrow> INil)"
    obtain h2 q where pl: "hb_hashPlace h1 p kv = (h2, q)" by fastforce
    note fp = find_place [OF assms(1,3) 2(1) _ pl, unfolded kv_def, simplified]
    have q: "q < nLen h2" using fp by blast
    have "fst (hb_hashAdd st clone h k v) = setValue h2 q x"
      using 2 hk pl by (simp add: hb_hashAdd_def hb_hashValuePtr_def kv_def setValue_def x_def)
    then show ?case
      using fp setValue_hashKeys [OF q, of x] hb_hashFind_map(2) [OF assms(1,3) 2(1)] assms(2) by simp
  qed
qed

subsection \<open>Properties\<close>

text \<open>C3. The hash arrays implement finite maps: any sequence of additions, conditional additions,
  removals, reads, scans, clearings and preallocations on a well-formed hash returns, never fails,
  and gives the results and the final contents that the same sequence gives on a finite map from
  normalised keys to values. The keys are hash keys in the range where the comparison is an order.\<close>

theorem hb_hash_refines_map:
  assumes "wfHash st h" "\<forall>c \<in> set cs. goodCmd c"
  shows "\<exists>h' rs. hashRun st clone h cs = Some (h', rs) \<and> wfHash st h' \<and>
    mapRun (hashKeyOf (iFlags h)) (hashMap h) cs = (hashMap h', rs)"
  using hashRun_map [OF assms, of clone] by (auto simp: hashOp_def)

theorem hb_hash_refines_map_witness:
  "\<exists>h' rs. hashRun set_default id hb_hashNew
      [CAdd (IString ''b'') (Some (ILogical True)), CAddNew (IInteger 7 10) INil, CDel (IString ''b''), CGet (IInteger 7 10)]
      = Some (h', rs) \<and> wfHash set_default h' \<and>
    mapRun (hashKeyOf HB_HASH_FLAG_DEFAULT) Map.empty
      [CAdd (IString ''b'') (Some (ILogical True)), CAddNew (IInteger 7 10) INil, CDel (IString ''b''), CGet (IInteger 7 10)]
      = (hashMap h', rs)"
proof -
  have m: "hashMap hb_hashNew = Map.empty" "iFlags hb_hashNew = HB_HASH_FLAG_DEFAULT"
    by (simp_all add: hashMap_def hb_hashNew_def)
  show ?thesis
    using hb_hash_refines_map [of set_default hb_hashNew
      "[CAdd (IString ''b'') (Some (ILogical True)), CAddNew (IInteger 7 10) INil, CDel (IString ''b''), CGet (IInteger 7 10)]" id]
    by (simp add: hb_hashNew_wf goodCmd_def m)
qed

fun joinSpec :: "nat \<Rightarrow> ('a \<rightharpoonup> 'v) \<Rightarrow> ('a \<rightharpoonup> 'v) \<Rightarrow> 'a \<rightharpoonup> 'v" where
  "joinSpec iType m1 m2 =
     (if iType = 0 then m1 ++ m2
      else if iType = 1 then (\<lambda>k. if m1 k = None then None else m2 k)
      else if iType = 2 then (\<lambda>k. if m1 k = None then m2 k else if m2 k = None then m1 k else None)
      else (\<lambda>k. if m2 k = None then m1 k else None))"

lemma keyAt_dom: "keyAt h ` {0..<nLen h} = dom (hashMap h)"
proof -
  have "k \<in> keyAt h ` {0..<nLen h} \<longleftrightarrow> hashMap h k \<noteq> None" for k
    using hashMap_None [of h k] by auto
  then show ?thesis by (auto simp: dom_def)
qed

lemma hashJoin_cases:
  assumes "wfHash st d" "wfHash st s" "hashKeyOf (iFlags s) = hashKeyOf (iFlags d)" "iType \<le> 3"
  shows "\<exists>d' s'. hb_hashJoin st clone False d s iType = Some (d', s') \<and> wfHash st d' \<and> wfHash st s' \<and>
    hashMap s' = hashMap s \<and> hashMap d' = joinSpec iType (hashMap d) (hashMap s)"
proof -
  have good: "\<forall>p \<in> set (pPairs s). goodKey (fst p)" using assms(2) by (simp add: wfHash_def goodPairs_def)
  note dist = entries_distinct [OF assms(2,3)] and ent = hashMap_entries [OF assms(3)]
  have keys: "hashKeyOf (iFlags d) ` set (map fst (pPairs s)) = dom (hashMap s)"
    unfolding keyAt_dom [symmetric] using arg_cong [OF map_keyAt_upt [of s], of set] assms(3)
    by (simp add: image_image)
  consider "iType = 0" | "iType = 1" | "iType = 2" | "iType = 3" using assms(4) by linarith
  then show ?thesis
  proof cases
    case 1
    have "map_of (rev (hashOps.entries d (pPairs s))) = hashMap s"
      using map_of_perm [of "rev (hashOps.entries d (pPairs s))" "hashOps.entries d (pPairs s)"] dist ent
      by (simp add: rev_map [symmetric])
    then show ?thesis
      using hashOps.addAll_content [OF assms(1) good, of clone] 1 assms(2)
      by (simp add: hb_hashJoin_def joinUnion_addAll)
  next
    case 2
    have "(\<lambda>k. if k \<in> dom (hashMap d) then hashMap s k else hashMap d k) = joinSpec 1 (hashMap d) (hashMap s)"
      by (rule ext) auto
    then show ?thesis
      using joinIntersect_spec [OF assms(1-3), of 0 "nLen d"] 2
      by (auto simp: hb_hashJoin_def keyAt_dom hashOp_def)
  next
    case 3
    then show ?thesis
      using hashOps.toggleAll_content [OF assms(1) good dist, of clone] assms(2)
      by (auto simp: hb_hashJoin_def joinDifference_toggleAll ent hashOps.xor_map_def [abs_def])
  next
    case 4
    have "hashMap d |` (- dom (hashMap s)) = joinSpec 3 (hashMap d) (hashMap s)"
      by (rule ext) (auto simp: restrict_map_def)
    then show ?thesis
      using hashOps.delAll_content [OF assms(1), of "map fst (pPairs s)"] good 4 assms(2)
      unfolding keys by (auto simp: hb_hashJoin_def hashDel_all_delAll)
  qed
qed

text \<open>C14. Joining a well-formed hash with another whose keys are compared the same way: union, which
  prefers the values of the source, intersection, symmetric difference and removal, as operations on
  the finite maps the two stand for. The join returns and leaves the contents of the source alone.\<close>

theorem hb_hashJoin_spec:
  assumes "wfHash st d" "wfHash st s" "hashKeyOf (iFlags s) = hashKeyOf (iFlags d)" "iType \<le> 3"
  shows "\<exists>d' s'. hb_hashJoin st clone False d s iType = Some (d', s') \<and> wfHash st d' \<and> wfHash st s' \<and>
    hashMap s' = hashMap s \<and> hashMap d' = joinSpec iType (hashMap d) (hashMap s)"
  using assms by (rule hashJoin_cases)

definition hashOne :: "HB_ITEM \<Rightarrow> BASEHASH" where
  "hashOne k = fst (hb_hashAdd set_default id hb_hashNew k (Some (ILogical True)))"

lemma hashOne_wf:
  assumes "goodKey k"
  shows "hashOp set_default hb_hashNew (hashOne k)
    ((hashMap hb_hashNew)(hashKeyOf (iFlags hb_hashNew) k \<mapsto> ILogical True))"
  using hb_hashAdd_spec [OF hb_hashNew_wf assms, where st = set_default and clone = id and v = "Some (ILogical True)"] by (auto simp: hashOne_def)

theorem hb_hashJoin_spec_witness:
  "\<exists>d' s'. hb_hashJoin set_default id False (hashOne (IString ''a'')) (hashOne (IPointer 3)) 2 = Some (d', s') \<and>
    wfHash set_default d' \<and> wfHash set_default s' \<and> hashMap s' = hashMap (hashOne (IPointer 3)) \<and>
    hashMap d' = joinSpec 2 (hashMap (hashOne (IString ''a''))) (hashMap (hashOne (IPointer 3)))"
  by (rule hb_hashJoin_spec) (use hashOne_wf [of "IString ''a''"] hashOne_wf [of "IPointer 3"] in \<open>simp_all add: hashOp_def\<close>)

text \<open>C24. Sorting a well-formed hash: it fails exactly on an empty hash that has an index of positions,
  where it asks for a block of no bytes; otherwise the contents stay, no key is lost or repeated, and
  the keys are enumerated in order.\<close>

theorem hb_hashSort_spec:
  assumes "wfHash st h"
  shows "(hb_hashSort st h = None \<longleftrightarrow> pnPos h \<noteq> None \<and> hb_hashLen h = 0) \<and>
    (\<forall>h'. hb_hashSort st h = Some h' \<longrightarrow>
      wfHash st h' \<and> hashMap h' = hashMap h \<and> mset (hb_hashGetKeys h') = mset (hb_hashGetKeys h) \<and>
      sorted (map (hashKeyOf (iFlags h')) (hb_hashGetKeys h')))"
  using hb_hashSort_cases [OF assms]
  by (auto simp: hashOp_def hb_hashGetKeys_map hb_hashLen_def sortedPairs_def comp_def)

theorem hb_hashSort_spec_witness:
  "\<exists>h'. hb_hashSort set_default (hashOne (IDate 5)) = Some h' \<and> wfHash set_default h' \<and>
    sorted (map (hashKeyOf (iFlags h')) (hb_hashGetKeys h'))"
proof -
  have "hashMap (hashOne (IDate 5)) \<noteq> Map.empty" "wfHash set_default (hashOne (IDate 5))"
    using hashOne_wf [of "IDate 5"] by (auto simp: hashOp_def)
  then show ?thesis
    using hb_hashSort_spec [of set_default "hashOne (IDate 5)"] by (auto simp: hb_hashLen_def hashMap_def)
qed

text \<open>A hash that keeps the order of its keys enumerates them in the order of their first addition:
  a new key is the last one, setting a known key moves nothing.\<close>

theorem hb_hashAdd_keeporder:
  assumes "wfHash st h" "iFlags h AND HB_HASH_KEEPORDER \<noteq> 0" "goodKey k"
  shows "hb_hashGetKeys (fst (hb_hashAdd st clone h k v)) =
    (if hashMap h (hashKeyOf (iFlags h) k) = None then hb_hashGetKeys h @ [k] else hb_hashGetKeys h)"
  using hashAdd_keys [OF assms(1) _ assms(3)] assms(2) by (simp add: keepOrder_def hb_hashGetKeys_map)

theorem hb_hashAdd_keeporder_witness:
  "hb_hashGetKeys (fst (hb_hashAdd set_default id hb_hashNew (IString ''z'') None)) = [IString ''z'']"
  using hb_hashAdd_keeporder [OF hb_hashNew_wf, where st = set_default and k = "IString ''z''" and clone = id and v = None]
  by (simp add: hb_hashNew_def HB_HASH_FLAG_DEFAULT_def HB_HASH_KEEPORDER_def hashMap_def hb_hashGetKeys_map)

end
