(* ===== verification/HbExprOpt.thy ===== *)
theory HbExprOpt
  imports HbVmOps
begin

text \<open>
  The expression optimizer of the compiler, \<open>src/common/expropt2.c\<close>, with the part of
  \<open>include/hbexprb.c\<close> that drives it (message \<open>HB_EA_REDUCE\<close>) and the part that generates the code
  of an expression (message \<open>HB_EA_PUSH_PCODE\<close>).

  An expression tree is a value, so the routines return the new tree where the C code rewrites the
  node in place and frees the operands. Array, hash and block literals and function references are
  leaves. \<open>exprPush\<close> is what the generated code leaves on the stack when the machine runs it.
  The result \<open>None\<close> of a reduction is an integer remainder that stops the compiler.

  \<open>HB_MAXDBL\<close> is the 80 bit \<open>long double\<close>: sums, differences and products of integers are rounded to
  64 bits (\<open>ldround\<close>) before they are compared with the limits.
\<close>

subsection \<open>Expressions\<close>

datatype numConst = NLong int | NDouble dbl

datatype exprOp = EO_OR | EO_AND | EO_EQUAL | EO_EQ | EO_NE | EO_IN | EO_LT | EO_GT | EO_LE | EO_GE
  | EO_PLUS | EO_MINUS | EO_MULT | EO_DIV | EO_MOD | EO_POWER

text \<open>A numeric literal carries its display width and number of decimals.\<close>

datatype HB_EXPR =
    ENil
  | ELogical bool
  | ENumeric numConst nat nat
  | EDate int
  | ETimeStamp int int
  | EString string
  | ECodeblock nat
  | EArray nat
  | EHash nat
  | EFunRef nat
  | EVariable nat
  | ENot HB_EXPR
  | ENegate HB_EXPR
  | EIIF HB_EXPR HB_EXPR HB_EXPR
  | EOp exprOp HB_EXPR HB_EXPR

text \<open>The switches of the compiler and the C library function \<open>pow\<close>.\<close>

record compParam =
  supHarbour :: bool
  supExtOpt :: bool
  supMacroText :: bool
  supShortcuts :: bool
  modeCompiler :: bool
  compPow :: "dbl \<Rightarrow> dbl \<Rightarrow> dbl"

definition HB_DEFAULT_WIDTH :: nat where "HB_DEFAULT_WIDTH = 255"

definition ldround :: "rat \<Rightarrow> rat" where
  "ldround x =
     (if x = 0 then 0
      else (let e = blog \<bar>x\<bar> - 63; v = of_int (round_even (\<bar>x\<bar> / exp2r e)) * exp2r e
            in if x < 0 then - v else v))"

fun numD :: "numConst \<Rightarrow> dbl" where
  "numD (NLong l) = dbl_of_int l"
| "numD (NDouble d) = d"

fun exDate :: "HB_EXPR \<Rightarrow> int" where
  "exDate (EDate j) = j"
| "exDate (ETimeStamp j t) = j"
| "exDate _ = 0"

fun exTime :: "HB_EXPR \<Rightarrow> int" where
  "exTime (ETimeStamp j t) = t"
| "exTime _ = 0"

fun isDateTime :: "HB_EXPR \<Rightarrow> bool" where
  "isDateTime (EDate j) = True"
| "isDateTime (ETimeStamp j t) = True"
| "isDateTime _ = False"

fun isConstNotNil :: "HB_EXPR \<Rightarrow> bool" where
  "isConstNotNil (ENumeric n w d) = True"
| "isConstNotNil (ELogical b) = True"
| "isConstNotNil (EDate j) = True"
| "isConstNotNil (ETimeStamp j t) = True"
| "isConstNotNil (EString s) = True"
| "isConstNotNil (ECodeblock b) = True"
| "isConstNotNil (EArray a) = True"
| "isConstNotNil (EHash h) = True"
| "isConstNotNil (EFunRef f) = True"
| "isConstNotNil _ = False"

fun isZero :: "numConst \<Rightarrow> bool" where
  "isZero (NLong l) \<longleftrightarrow> l = 0"
| "isZero (NDouble d) \<longleftrightarrow> deq d (DFin 0)"

definition isIdChar :: "char \<Rightarrow> bool" where
  "isIdChar ch \<longleftrightarrow>
     (let n = of_char ch :: nat in 65 \<le> n \<and> n \<le> 90 \<or> 97 \<le> n \<and> n \<le> 122 \<or> n = 95)"

subsection \<open>Strings and the macro operator\<close>

fun hb_compExprHasMacro :: "compParam \<Rightarrow> string \<Rightarrow> bool" where
  "hb_compExprHasMacro c [] = False"
| "hb_compExprHasMacro c (ch # s) =
     (if ch = CHR ''&'' \<and> (\<not> supHarbour c \<or> s \<noteq> [] \<and> isIdChar (hd s)) then True
      else hb_compExprHasMacro c s)"

definition hb_compExprReducePlusStrings :: "string \<Rightarrow> string \<Rightarrow> HB_EXPR" where
  "hb_compExprReducePlusStrings l r = EString (l @ r)"

definition hb_compExprReduceMinusStrings :: "string \<Rightarrow> string \<Rightarrow> HB_EXPR" where
  "hb_compExprReduceMinusStrings l r =
     (let nLen = trim_len l (length l) 0
      in EString (take nLen l @ r @ replicate (length l - nLen) (CHR '' '')))"

text \<open>Whether joining the text \<open>szText\<close> with \<open>szRight\<close> would make or break up a macro.\<close>

fun joinsMacro :: "compParam \<Rightarrow> string \<Rightarrow> string \<Rightarrow> bool" where
  "joinsMacro c [] szRight = False"
| "joinsMacro c (ch # szText) szRight =
     (if ch = CHR ''&'' \<and> (isIdChar (if szText \<noteq> [] then hd szText else hd szRight) \<or> \<not> supHarbour c) then True
      else joinsMacro c szText szRight)"

subsection \<open>Arithmetic\<close>

definition longResult :: "rat \<Rightarrow> int \<Rightarrow> HB_EXPR" where
  "longResult dVal l =
     ENumeric (if of_int int64_min \<le> ldround dVal \<and> ldround dVal \<le> of_int int64_max
               then NLong (wrap64 l) else NDouble (fround (ldround dVal))) HB_DEFAULT_WIDTH 0"

definition hb_compExprReduceMod :: "compParam \<Rightarrow> HB_EXPR \<Rightarrow> HB_EXPR \<Rightarrow> HB_EXPR option" where
  "hb_compExprReduceMod c pLeft pRight =
     (case (pLeft, pRight) of
        (ENumeric (NLong l) _ _, ENumeric (NLong r) _ _) \<Rightarrow>
          (if r \<noteq> 0 then
             (if l = int64_min \<and> r = -1 then None else Some (ENumeric (NLong (l smod r)) HB_DEFAULT_WIDTH 0))
           else Some (EOp EO_MOD pLeft pRight))
      | (ENumeric l _ _, ENumeric r _ _) \<Rightarrow>
          (if supHarbour c \<and> \<not> deq (numD r) (DFin 0)
           then Some (ENumeric (NDouble (dfmod (numD l) (numD r))) HB_DEFAULT_WIDTH HB_DEFAULT_DECIMALS)
           else Some (EOp EO_MOD pLeft pRight))
      | _ \<Rightarrow> Some (EOp EO_MOD pLeft pRight))"

definition hb_compExprReduceDiv :: "HB_EXPR \<Rightarrow> HB_EXPR \<Rightarrow> HB_EXPR option" where
  "hb_compExprReduceDiv pLeft pRight =
     (case (pLeft, pRight) of
        (ENumeric (NLong l) _ _, ENumeric (NLong r) _ _) \<Rightarrow>
          (if r \<noteq> 0 then
             (if l = int64_min \<and> r = -1 then None
              else if l smod r = 0 then Some (ENumeric (NLong (l sdiv r)) HB_DEFAULT_WIDTH 0)
              else Some (ENumeric (NDouble (ddiv (dbl_of_int l) (dbl_of_int r))) HB_DEFAULT_WIDTH HB_DEFAULT_DECIMALS))
           else Some (EOp EO_DIV pLeft pRight))
      | (ENumeric (NDouble l) _ _, ENumeric (NDouble r) _ _) \<Rightarrow>
          (if \<not> deq r (DFin 0)
           then Some (ENumeric (NDouble (ddiv l r)) HB_DEFAULT_WIDTH HB_DEFAULT_DECIMALS)
           else Some (EOp EO_DIV pLeft pRight))
      | (ENumeric (NDouble l) _ _, ENumeric (NLong r) _ _) \<Rightarrow>
          (if r \<noteq> 0
           then Some (ENumeric (NDouble (ddiv l (dbl_of_int r))) HB_DEFAULT_WIDTH HB_DEFAULT_DECIMALS)
           else Some (EOp EO_DIV pLeft pRight))
      | (ENumeric (NLong l) _ _, ENumeric (NDouble r) _ _) \<Rightarrow>
          (if \<not> deq r (DFin 0)
           then Some (ENumeric (NDouble (ddiv (dbl_of_int l) r)) HB_DEFAULT_WIDTH HB_DEFAULT_DECIMALS)
           else Some (EOp EO_DIV pLeft pRight))
      | _ \<Rightarrow> Some (EOp EO_DIV pLeft pRight))"

definition hb_compExprReduceMult :: "HB_EXPR \<Rightarrow> HB_EXPR \<Rightarrow> HB_EXPR" where
  "hb_compExprReduceMult pLeft pRight =
     (case (pLeft, pRight) of
        (ENumeric (NLong l) _ _, ENumeric (NLong r) _ _) \<Rightarrow> longResult (of_int l * of_int r) (l * r)
      | (ENumeric (NDouble l) _ dl, ENumeric (NDouble r) _ dr) \<Rightarrow>
          ENumeric (NDouble (dmul l r)) HB_DEFAULT_WIDTH (min (dl + dr) HB_DEFAULT_DECIMALS)
      | (ENumeric (NDouble l) _ dl, ENumeric (NLong r) _ _) \<Rightarrow>
          ENumeric (NDouble (dmul l (dbl_of_int r))) HB_DEFAULT_WIDTH dl
      | (ENumeric (NLong l) _ _, ENumeric (NDouble r) _ dr) \<Rightarrow>
          ENumeric (NDouble (dmul (dbl_of_int l) r)) HB_DEFAULT_WIDTH dr
      | _ \<Rightarrow> EOp EO_MULT pLeft pRight)"

definition hb_compExprReducePower :: "compParam \<Rightarrow> HB_EXPR \<Rightarrow> HB_EXPR \<Rightarrow> HB_EXPR" where
  "hb_compExprReducePower c pLeft pRight =
     (case (pLeft, pRight) of
        (ENumeric l _ _, ENumeric r _ _) \<Rightarrow>
          ENumeric (NDouble (compPow c (numD l) (numD r))) HB_DEFAULT_WIDTH HB_DEFAULT_DECIMALS
      | _ \<Rightarrow> EOp EO_POWER pLeft pRight)"

definition hb_compExprReduceTimeStampPut :: "int \<Rightarrow> int \<Rightarrow> HB_EXPR" where
  "hb_compExprReduceTimeStampPut lJulian lMilliSec =
     (let D = HB_MILLISECS_PER_DAY;
          (lJulian, lMilliSec) =
            (if lJulian < 0 then
               (if lMilliSec \<le> - D then (lJulian - 1, lMilliSec + D)
                else if 0 < lMilliSec then
                  (let lMilliSec = lMilliSec - D; lJulian = lJulian + 1 in
                   if 0 < lMilliSec then (lJulian + 1, lMilliSec - D) else (lJulian, lMilliSec))
                else (lJulian, lMilliSec))
             else
               (if D \<le> lMilliSec then (lJulian + 1, lMilliSec - D)
                else if lMilliSec < 0 then
                  (let lMilliSec = lMilliSec + D; lJulian = lJulian - 1 in
                   if lMilliSec < 0 then (lJulian - 1, lMilliSec + D) else (lJulian, lMilliSec))
                else (lJulian, lMilliSec)))
      in ETimeStamp lJulian lMilliSec)"

definition hb_compExprReduceTimeStampAdd :: "HB_EXPR \<Rightarrow> dbl \<Rightarrow> HB_EXPR" where
  "hb_compExprReduceTimeStampAdd pTimeStamp dValue =
     (let (lJulian, lMilliSec) = hb_timeStampUnpackDT dValue
      in hb_compExprReduceTimeStampPut (wrap64 (lJulian + exDate pTimeStamp)) (wrap64 (lMilliSec + exTime pTimeStamp)))"

definition hb_compExprReduceMinus :: "compParam \<Rightarrow> HB_EXPR \<Rightarrow> HB_EXPR \<Rightarrow> HB_EXPR" where
  "hb_compExprReduceMinus c pLeft pRight =
     (case (pLeft, pRight) of
        (ENumeric (NLong l) _ _, ENumeric (NLong r) _ _) \<Rightarrow> longResult (of_int l - of_int r) (l - r)
      | (ENumeric (NDouble l) _ dl, ENumeric (NDouble r) _ dr) \<Rightarrow>
          ENumeric (NDouble (dsub l r)) HB_DEFAULT_WIDTH (if dl < dr then dr else dl)
      | (ENumeric (NDouble l) _ dl, ENumeric (NLong r) _ _) \<Rightarrow>
          ENumeric (NDouble (dsub l (dbl_of_int r))) HB_DEFAULT_WIDTH dl
      | (ENumeric (NLong l) _ _, ENumeric (NDouble r) _ dr) \<Rightarrow>
          ENumeric (NDouble (dsub (dbl_of_int l) r)) HB_DEFAULT_WIDTH dr
      | (EDate j, ENumeric r _ _) \<Rightarrow>
          EDate (wrap64 (j - (case r of NLong l \<Rightarrow> l | NDouble d \<Rightarrow> int64_of_dbl d)))
      | (ETimeStamp j t, ENumeric r _ _) \<Rightarrow>
          (case r of
             NLong l \<Rightarrow> hb_compExprReduceTimeStampPut (wrap64 (j - l)) t
           | NDouble d \<Rightarrow> hb_compExprReduceTimeStampAdd pLeft (dneg d))
      | (EString l, EString r) \<Rightarrow>
          (if r = [] then pLeft
           else if l = [] then pRight
           else if supMacroText c \<and> joinsMacro c (take (trim_len l (length l) 0) l) r then EOp EO_MINUS pLeft pRight
           else hb_compExprReduceMinusStrings l r)
      | _ \<Rightarrow>
          (if isDateTime pLeft \<and> isDateTime pRight then
             (let lTime = wrap64 (exTime pLeft - exTime pRight); lDate = wrap64 (exDate pLeft - exDate pRight) in
              if lTime = 0 then ENumeric (NLong lDate) HB_DEFAULT_WIDTH 0
              else ENumeric (NDouble (hb_timeStampPackDT lDate lTime)) HB_DEFAULT_WIDTH HB_TIMEDIFF_DEC)
           else EOp EO_MINUS pLeft pRight))"

text \<open>\<open>hb_compExprReducePlusNums\<close> adds a number to a numeric operand somewhere below a chain of
  additions: the new tree, or \<open>None\<close> when there is no such operand.\<close>

fun plusNums_add :: "HB_EXPR \<Rightarrow> numConst \<Rightarrow> nat \<Rightarrow> HB_EXPR" where
  "plusNums_add (ENumeric (NLong l) w d) (NLong r) dr = longResult (of_int l + of_int r) (l + r)"
| "plusNums_add (ENumeric (NDouble l) w d) (NDouble r) dr =
     ENumeric (NDouble (dadd l r)) HB_DEFAULT_WIDTH (if d < dr then dr else d)"
| "plusNums_add (ENumeric (NDouble l) w d) (NLong r) dr = ENumeric (NDouble (dadd l (dbl_of_int r))) HB_DEFAULT_WIDTH d"
| "plusNums_add (ENumeric (NLong l) w d) (NDouble r) dr = ENumeric (NDouble (dadd (dbl_of_int l) r)) HB_DEFAULT_WIDTH dr"
| "plusNums_add e _ _ = e"

fun isNumeric :: "HB_EXPR \<Rightarrow> bool" where
  "isNumeric (ENumeric n w d) = True"
| "isNumeric _ = False"

fun isPlus :: "HB_EXPR \<Rightarrow> bool" where
  "isPlus (EOp EO_PLUS l r) = True"
| "isPlus _ = False"

fun hb_compExprReducePlusNums :: "HB_EXPR \<Rightarrow> numConst \<Rightarrow> nat \<Rightarrow> HB_EXPR option" where
  "hb_compExprReducePlusNums (EOp EO_PLUS pLeft pRight) n d =
     (if isNumeric pLeft then Some (EOp EO_PLUS (plusNums_add pLeft n d) pRight)
      else if isNumeric pRight then Some (EOp EO_PLUS pLeft (plusNums_add pRight n d))
      else if isPlus pLeft then map_option (\<lambda>l. EOp EO_PLUS l pRight) (hb_compExprReducePlusNums pLeft n d)
      else if isPlus pRight then map_option (\<lambda>r. EOp EO_PLUS pLeft r) (hb_compExprReducePlusNums pRight n d)
      else None)"
| "hb_compExprReducePlusNums _ n d = None"

definition hb_compExprReducePlus :: "compParam \<Rightarrow> HB_EXPR \<Rightarrow> HB_EXPR \<Rightarrow> HB_EXPR" where
  "hb_compExprReducePlus c pLeft pRight =
     (case (pLeft, pRight) of
        (ENumeric (NLong l) _ _, ENumeric (NLong r) _ _) \<Rightarrow> longResult (of_int l + of_int r) (l + r)
      | (ENumeric (NDouble l) _ dl, ENumeric (NDouble r) _ dr) \<Rightarrow>
          ENumeric (NDouble (dadd l r)) HB_DEFAULT_WIDTH (if dl < dr then dr else dl)
      | (ENumeric (NDouble l) _ dl, ENumeric (NLong r) _ _) \<Rightarrow>
          ENumeric (NDouble (dadd l (dbl_of_int r))) HB_DEFAULT_WIDTH dl
      | (ENumeric (NLong l) _ _, ENumeric (NDouble r) _ dr) \<Rightarrow>
          ENumeric (NDouble (dadd (dbl_of_int l) r)) HB_DEFAULT_WIDTH dr
      | (ENumeric l _ _, EDate j) \<Rightarrow>
          EDate (wrap64 (j + (case l of NLong n \<Rightarrow> n | NDouble d \<Rightarrow> int64_of_dbl d)))
      | (ENumeric l _ _, ETimeStamp j t) \<Rightarrow>
          (case l of
             NLong n \<Rightarrow> hb_compExprReduceTimeStampPut (wrap64 (j + n)) t
           | NDouble d \<Rightarrow> hb_compExprReduceTimeStampAdd pRight d)
      | (EDate j, ENumeric r _ _) \<Rightarrow>
          EDate (wrap64 (j + (case r of NLong n \<Rightarrow> n | NDouble d \<Rightarrow> int64_of_dbl d)))
      | (ETimeStamp j t, ENumeric r _ _) \<Rightarrow>
          (case r of
             NLong n \<Rightarrow> hb_compExprReduceTimeStampPut (wrap64 (j + n)) t
           | NDouble d \<Rightarrow> hb_compExprReduceTimeStampAdd pLeft d)
      | (ENumeric l _ dl, _) \<Rightarrow>
          (if supExtOpt c \<and> isZero l then pRight
           else if supExtOpt c \<and> isPlus pRight then
             (case hb_compExprReducePlusNums pRight l dl of Some e \<Rightarrow> e | None \<Rightarrow> EOp EO_PLUS pLeft pRight)
           else EOp EO_PLUS pLeft pRight)
      | (_, ENumeric r _ dr) \<Rightarrow>
          (if supExtOpt c \<and> isZero r then pLeft
           else if supExtOpt c \<and> isPlus pLeft then
             (case hb_compExprReducePlusNums pLeft r dr of Some e \<Rightarrow> e | None \<Rightarrow> EOp EO_PLUS pLeft pRight)
           else EOp EO_PLUS pLeft pRight)
      | (EDate j1, EDate j2) \<Rightarrow> EDate (wrap64 (j1 + j2))
      | (EString l, EString r) \<Rightarrow>
          (if r = [] then pLeft
           else if l = [] then pRight
           else if supMacroText c \<and> joinsMacro c l r then EOp EO_PLUS pLeft pRight
           else hb_compExprReducePlusStrings l r)
      | _ \<Rightarrow>
          (if isDateTime pLeft \<and> isDateTime pRight then
             hb_compExprReduceTimeStampPut (wrap64 (exDate pLeft + exDate pRight)) (wrap64 (exTime pLeft + exTime pRight))
           else EOp EO_PLUS pLeft pRight))"

definition hb_compExprReduceNegate :: "compParam \<Rightarrow> HB_EXPR \<Rightarrow> HB_EXPR" where
  "hb_compExprReduceNegate c pExpr =
     (case pExpr of
        ENumeric (NDouble d) _ dec \<Rightarrow> ENumeric (NDouble (dneg d)) HB_DEFAULT_WIDTH dec
      | ENumeric (NLong l) _ dec \<Rightarrow>
          (if l < - int64_max then ENumeric (NDouble (dneg (dbl_of_int l))) HB_DEFAULT_WIDTH 0
           else ENumeric (NLong (- l)) HB_DEFAULT_WIDTH dec)
      | ENegate e \<Rightarrow> (if supExtOpt c then e else ENegate pExpr)
      | _ \<Rightarrow> ENegate pExpr)"

subsection \<open>Comparisons\<close>

definition hb_compExprReduceIN :: "compParam \<Rightarrow> HB_EXPR \<Rightarrow> HB_EXPR \<Rightarrow> HB_EXPR" where
  "hb_compExprReduceIN c pLeft pRight =
     (case (pLeft, pRight) of
        (EString l, EString r) \<Rightarrow>
          (if \<not> supMacroText c \<or> \<not> hb_compExprHasMacro c l \<and> \<not> hb_compExprHasMacro c r then
             ELogical (if l = [] then modeCompiler c \<and> \<not> supHarbour c else hb_strAt l r \<noteq> 0)
           else EOp EO_IN pLeft pRight)
      | _ \<Rightarrow> EOp EO_IN pLeft pRight)"

text \<open>The rewriting of a comparison with a logical constant, which \<open>=\<close>, \<open>==\<close> and \<open><>\<close> share;
  \<open>keep\<close> is the constant that leaves the other operand as it is.\<close>

definition logicalOperand :: "bool \<Rightarrow> HB_EXPR \<Rightarrow> bool \<Rightarrow> HB_EXPR" where
  "logicalOperand keep pLeft b =
     (if b = keep then pLeft
      else (case pLeft of ENot e \<Rightarrow> e | _ \<Rightarrow> ENot pLeft))"

fun isMixedDate :: "HB_EXPR \<Rightarrow> HB_EXPR \<Rightarrow> bool" where
  "isMixedDate (ETimeStamp j t) (EDate k) = True"
| "isMixedDate (EDate j) (ETimeStamp k t) = True"
| "isMixedDate _ _ = False"

fun isLogicalConst :: "HB_EXPR \<Rightarrow> bool" where
  "isLogicalConst (ELogical b) = True"
| "isLogicalConst _ = False"

definition reduceEqTail :: "compParam \<Rightarrow> exprOp \<Rightarrow> HB_EXPR \<Rightarrow> HB_EXPR \<Rightarrow> bool \<Rightarrow> HB_EXPR" where
  "reduceEqTail c op pLeft pRight eq =
     (if supExtOpt c \<and> isLogicalConst pLeft then logicalOperand eq pRight (pLeft = ELogical True)
      else if supExtOpt c \<and> isLogicalConst pRight then logicalOperand eq pLeft (pRight = ELogical True)
      else if pLeft = ENil \<and> isConstNotNil pRight \<or> pRight = ENil \<and> isConstNotNil pLeft then ELogical (\<not> eq)
      else EOp op pLeft pRight)"

definition hb_compExprReduceNE :: "compParam \<Rightarrow> HB_EXPR \<Rightarrow> HB_EXPR \<Rightarrow> HB_EXPR" where
  "hb_compExprReduceNE c pLeft pRight =
     (case (pLeft, pRight) of
        (ELogical l, ELogical r) \<Rightarrow> ELogical (l \<noteq> r)
      | (EString l, EString r) \<Rightarrow>
          (if l = [] \<and> r = [] then ELogical False else EOp EO_NE pLeft pRight)
      | (ENumeric l _ _, ENumeric r _ _) \<Rightarrow>
          ELogical (case (l, r) of (NLong a, NLong b) \<Rightarrow> a \<noteq> b | _ \<Rightarrow> \<not> deq (numD l) (numD r))
      | (ENil, ENil) \<Rightarrow> ELogical False
      | _ \<Rightarrow>
          (if isMixedDate pLeft pRight then ELogical (exDate pLeft \<noteq> exDate pRight)
           else if isDateTime pLeft \<and> isDateTime pRight then
             ELogical (exDate pLeft \<noteq> exDate pRight \<or> exTime pLeft \<noteq> exTime pRight)
           else reduceEqTail c EO_NE pLeft pRight False))"

definition hb_compExprReduceGE :: "HB_EXPR \<Rightarrow> HB_EXPR \<Rightarrow> HB_EXPR" where
  "hb_compExprReduceGE pLeft pRight =
     (case (pLeft, pRight) of
        (ELogical l, ELogical r) \<Rightarrow> ELogical (\<not> (\<not> l \<and> r))
      | (ENumeric l _ _, ENumeric r _ _) \<Rightarrow>
          ELogical (case (l, r) of (NLong a, NLong b) \<Rightarrow> b \<le> a | _ \<Rightarrow> dle (numD r) (numD l))
      | _ \<Rightarrow>
          (if isMixedDate pLeft pRight then ELogical (exDate pRight \<le> exDate pLeft)
           else if isDateTime pLeft \<and> isDateTime pRight then
             ELogical (exDate pRight < exDate pLeft \<or> exDate pLeft = exDate pRight \<and> exTime pRight \<le> exTime pLeft)
           else EOp EO_GE pLeft pRight))"

definition hb_compExprReduceLE :: "HB_EXPR \<Rightarrow> HB_EXPR \<Rightarrow> HB_EXPR" where
  "hb_compExprReduceLE pLeft pRight =
     (case (pLeft, pRight) of
        (ELogical l, ELogical r) \<Rightarrow> ELogical (\<not> (l \<and> \<not> r))
      | (ENumeric l _ _, ENumeric r _ _) \<Rightarrow>
          ELogical (case (l, r) of (NLong a, NLong b) \<Rightarrow> a \<le> b | _ \<Rightarrow> dle (numD l) (numD r))
      | _ \<Rightarrow>
          (if isMixedDate pLeft pRight then ELogical (exDate pLeft \<le> exDate pRight)
           else if isDateTime pLeft \<and> isDateTime pRight then
             ELogical (exDate pLeft < exDate pRight \<or> exDate pLeft = exDate pRight \<and> exTime pLeft \<le> exTime pRight)
           else EOp EO_LE pLeft pRight))"

definition hb_compExprReduceGT :: "HB_EXPR \<Rightarrow> HB_EXPR \<Rightarrow> HB_EXPR" where
  "hb_compExprReduceGT pLeft pRight =
     (case (pLeft, pRight) of
        (ELogical l, ELogical r) \<Rightarrow> ELogical (l \<and> \<not> r)
      | (ENumeric l _ _, ENumeric r _ _) \<Rightarrow>
          ELogical (case (l, r) of (NLong a, NLong b) \<Rightarrow> b < a | _ \<Rightarrow> dlt (numD r) (numD l))
      | _ \<Rightarrow>
          (if isMixedDate pLeft pRight then ELogical (exDate pRight < exDate pLeft)
           else if isDateTime pLeft \<and> isDateTime pRight then
             ELogical (exDate pRight < exDate pLeft \<or> exDate pLeft = exDate pRight \<and> exTime pRight < exTime pLeft)
           else EOp EO_GT pLeft pRight))"

definition hb_compExprReduceLT :: "HB_EXPR \<Rightarrow> HB_EXPR \<Rightarrow> HB_EXPR" where
  "hb_compExprReduceLT pLeft pRight =
     (case (pLeft, pRight) of
        (ELogical l, ELogical r) \<Rightarrow> ELogical (\<not> l \<and> r)
      | (ENumeric l _ _, ENumeric r _ _) \<Rightarrow>
          ELogical (case (l, r) of (NLong a, NLong b) \<Rightarrow> a < b | _ \<Rightarrow> dlt (numD l) (numD r))
      | _ \<Rightarrow>
          (if isMixedDate pLeft pRight then ELogical (exDate pLeft < exDate pRight)
           else if isDateTime pLeft \<and> isDateTime pRight then
             ELogical (exDate pLeft < exDate pRight \<or> exDate pLeft = exDate pRight \<and> exTime pLeft < exTime pRight)
           else EOp EO_LT pLeft pRight))"

text \<open>\<open>op\<close> is \<open>EO_EQ\<close> for \<open>==\<close> and \<open>EO_EQUAL\<close> for \<open>=\<close>.\<close>

definition hb_compExprReduceEQ :: "compParam \<Rightarrow> exprOp \<Rightarrow> HB_EXPR \<Rightarrow> HB_EXPR \<Rightarrow> HB_EXPR" where
  "hb_compExprReduceEQ c op pLeft pRight =
     (case (pLeft, pRight) of
        (ELogical l, ELogical r) \<Rightarrow> ELogical (l = r)
      | (EString l, EString r) \<Rightarrow>
          (if l = [] \<and> r = [] \<or>
              op = EO_EQ \<and> (\<not> supMacroText c \<or> \<not> hb_compExprHasMacro c l \<and> \<not> hb_compExprHasMacro c r)
           then ELogical (length l = length r \<and> cmp_bytes l r = 0)
           else EOp op pLeft pRight)
      | (ENumeric l _ _, ENumeric r _ _) \<Rightarrow>
          ELogical (case (l, r) of (NLong a, NLong b) \<Rightarrow> a = b | _ \<Rightarrow> deq (numD l) (numD r))
      | (ENil, ENil) \<Rightarrow> ELogical True
      | _ \<Rightarrow>
          (if isMixedDate pLeft pRight then
             ELogical (exDate pLeft = exDate pRight \<and> (exTime pLeft = exTime pRight \<or> op \<noteq> EO_EQ))
           else if isDateTime pLeft \<and> isDateTime pRight then
             ELogical (exDate pLeft = exDate pRight \<and> exTime pLeft = exTime pRight)
           else reduceEqTail c op pLeft pRight True))"

subsection \<open>Logical operators and \<open>IIF\<close>\<close>

definition hb_compExprReduceAnd :: "compParam \<Rightarrow> HB_EXPR \<Rightarrow> HB_EXPR \<Rightarrow> HB_EXPR" where
  "hb_compExprReduceAnd c pLeft pRight =
     (case (pLeft, pRight) of
        (ELogical l, ELogical r) \<Rightarrow> ELogical (l \<and> r)
      | (ELogical l, _) \<Rightarrow>
          (if supShortcuts c then (if l then pRight else ELogical False) else EOp EO_AND pLeft pRight)
      | (_, ELogical r) \<Rightarrow>
          (if supShortcuts c \<and> (modeCompiler c \<or> supHarbour c) then (if r then pLeft else ELogical False)
           else EOp EO_AND pLeft pRight)
      | _ \<Rightarrow> EOp EO_AND pLeft pRight)"

definition hb_compExprReduceOr :: "compParam \<Rightarrow> HB_EXPR \<Rightarrow> HB_EXPR \<Rightarrow> HB_EXPR" where
  "hb_compExprReduceOr c pLeft pRight =
     (case (pLeft, pRight) of
        (ELogical l, ELogical r) \<Rightarrow> ELogical (l \<or> r)
      | (ELogical l, _) \<Rightarrow>
          (if supShortcuts c then (if l then ELogical True else pRight) else EOp EO_OR pLeft pRight)
      | (_, ELogical r) \<Rightarrow>
          (if supShortcuts c \<and> (modeCompiler c \<or> supHarbour c) then (if r then ELogical True else pLeft)
           else EOp EO_OR pLeft pRight)
      | _ \<Rightarrow> EOp EO_OR pLeft pRight)"

definition hb_compExprUseNot_reduce :: "compParam \<Rightarrow> HB_EXPR \<Rightarrow> HB_EXPR" where
  "hb_compExprUseNot_reduce c pExpr =
     (case pExpr of
        ELogical b \<Rightarrow> ELogical (\<not> b)
      | ENot e \<Rightarrow> (if supExtOpt c then e else ENot pExpr)
      | _ \<Rightarrow> ENot pExpr)"

text \<open>A condition that is a constant of another type is also reported as a compile time error.\<close>

definition hb_compExprReduceIIF :: "HB_EXPR \<Rightarrow> HB_EXPR \<Rightarrow> HB_EXPR \<Rightarrow> HB_EXPR" where
  "hb_compExprReduceIIF pCond pTrue pFalse =
     (case pCond of ELogical b \<Rightarrow> (if b then pTrue else pFalse) | _ \<Rightarrow> EIIF pCond pTrue pFalse)"

subsection \<open>The driver and the generated code\<close>

definition reduceOp :: "compParam \<Rightarrow> exprOp \<Rightarrow> HB_EXPR \<Rightarrow> HB_EXPR \<Rightarrow> HB_EXPR option" where
  "reduceOp c op l r =
     (case op of
        EO_OR \<Rightarrow> Some (hb_compExprReduceOr c l r)
      | EO_AND \<Rightarrow> Some (hb_compExprReduceAnd c l r)
      | EO_EQUAL \<Rightarrow> Some (hb_compExprReduceEQ c EO_EQUAL l r)
      | EO_EQ \<Rightarrow> Some (hb_compExprReduceEQ c EO_EQ l r)
      | EO_NE \<Rightarrow> Some (hb_compExprReduceNE c l r)
      | EO_IN \<Rightarrow> Some (hb_compExprReduceIN c l r)
      | EO_LT \<Rightarrow> Some (hb_compExprReduceLT l r)
      | EO_GT \<Rightarrow> Some (hb_compExprReduceGT l r)
      | EO_LE \<Rightarrow> Some (hb_compExprReduceLE l r)
      | EO_GE \<Rightarrow> Some (hb_compExprReduceGE l r)
      | EO_PLUS \<Rightarrow> Some (hb_compExprReducePlus c l r)
      | EO_MINUS \<Rightarrow> Some (hb_compExprReduceMinus c l r)
      | EO_MULT \<Rightarrow> Some (hb_compExprReduceMult l r)
      | EO_DIV \<Rightarrow> hb_compExprReduceDiv l r
      | EO_MOD \<Rightarrow> hb_compExprReduceMod c l r
      | EO_POWER \<Rightarrow> Some (hb_compExprReducePower c l r))"

fun exprReduce :: "compParam \<Rightarrow> HB_EXPR \<Rightarrow> HB_EXPR option" where
  "exprReduce c (ENot e) = map_option (hb_compExprUseNot_reduce c) (exprReduce c e)"
| "exprReduce c (ENegate e) = map_option (hb_compExprReduceNegate c) (exprReduce c e)"
| "exprReduce c (EIIF e1 e2 e3) =
     Option.bind (exprReduce c e1) (\<lambda>r1. Option.bind (exprReduce c e2) (\<lambda>r2.
       map_option (hb_compExprReduceIIF r1 r2) (exprReduce c e3)))"
| "exprReduce c (EOp op l r) =
     Option.bind (exprReduce c l) (\<lambda>l'. Option.bind (exprReduce c r) (\<lambda>r'. reduceOp c op l' r'))"
| "exprReduce c e = Some e"

function calcIntWidth_loop :: "int \<Rightarrow> nat \<Rightarrow> nat" where
  "calcIntWidth_loop n w = (if 1000000000 \<le> n then calcIntWidth_loop (n sdiv 10) (w + 1) else w)"
  by pat_completeness auto
termination
  by (relation "measure (\<lambda>(n, w). nat n)") (auto simp: signed_divide_int_def)

declare calcIntWidth_loop.simps [simp del]

definition hb_vmCalcIntWidth :: "int \<Rightarrow> nat" where
  "hb_vmCalcIntWidth nNumber = (if nNumber \<le> -1000000000 then 20 else calcIntWidth_loop nNumber 10)"

text \<open>\<open>hb_compGenPushLong\<close> chooses the instruction by the size of the number.\<close>

definition hb_compGenPushLong :: "int \<Rightarrow> HB_ITEM" where
  "hb_compGenPushLong n =
     (if -32768 \<le> n \<and> n \<le> 32767 then IInteger n 10
      else if is_int32 n then IInteger n (hb_vmCalcIntWidth n)
      else ILong n (hb_vmCalcIntWidth n))"

definition hb_vmPushDoubleConst :: "hbSet \<Rightarrow> dbl \<Rightarrow> nat \<Rightarrow> nat \<Rightarrow> HB_ITEM" where
  "hb_vmPushDoubleConst st dNumber iWidth iDec =
     IDouble dNumber (if iWidth = HB_DEFAULT_WIDTH then HB_DBL_LENGTH dNumber else iWidth)
       (if iDec = HB_DEFAULT_DECIMALS then HB_SET_DECIMALS st mod 2 ^ 16 else iDec)"

text \<open>What the code reads: the variables, and what macro substitution makes of a text.\<close>

record pushEnv =
  vm :: vmEnv
  varItem :: "nat \<Rightarrow> HB_ITEM"
  macroText :: "string \<Rightarrow> string"

definition vmOp :: "vmEnv \<Rightarrow> exprOp \<Rightarrow> HB_ITEM \<Rightarrow> HB_ITEM \<Rightarrow> vmError + HB_ITEM" where
  "vmOp env op =
     (case op of
        EO_OR \<Rightarrow> hb_vmOr env | EO_AND \<Rightarrow> hb_vmAnd env | EO_EQUAL \<Rightarrow> hb_vmEqual env
      | EO_EQ \<Rightarrow> hb_vmExactlyEqual env | EO_NE \<Rightarrow> hb_vmNotEqual env | EO_IN \<Rightarrow> hb_vmInstring env
      | EO_LT \<Rightarrow> hb_vmLess env | EO_GT \<Rightarrow> hb_vmGreater env | EO_LE \<Rightarrow> hb_vmLessEqual env
      | EO_GE \<Rightarrow> hb_vmGreaterEqual env | EO_PLUS \<Rightarrow> hb_vmPlus env | EO_MINUS \<Rightarrow> hb_vmMinus env
      | EO_MULT \<Rightarrow> hb_vmMult env | EO_DIV \<Rightarrow> hb_vmDivide env | EO_MOD \<Rightarrow> hb_vmModulus env
      | EO_POWER \<Rightarrow> hb_vmPower env)"

definition bindR :: "'e + 'a \<Rightarrow> ('a \<Rightarrow> 'e + 'b) \<Rightarrow> 'e + 'b" where
  "bindR x f = (case x of Inl e \<Rightarrow> Inl e | Inr v \<Rightarrow> f v)"

definition hb_vmPopLogical :: "HB_ITEM \<Rightarrow> vmError + bool" where
  "hb_vmPopLogical p = (case p of ILogical b \<Rightarrow> Inr b | _ \<Rightarrow> Inl (RTErr EG_ARG 1066 ''Condition error'' [p]))"

fun isOne :: "numConst \<Rightarrow> int \<Rightarrow> bool" where
  "isOne (NLong l) k \<longleftrightarrow> l = k"
| "isOne (NDouble d) k \<longleftrightarrow> deq d (DFin (of_int k))"

fun numLit :: "HB_EXPR \<Rightarrow> numConst option" where
  "numLit (ENumeric n w d) = Some n"
| "numLit _ = None"

fun exprPush :: "compParam \<Rightarrow> pushEnv \<Rightarrow> HB_EXPR \<Rightarrow> vmError + HB_ITEM" where
  "exprPush c g ENil = Inr INil"
| "exprPush c g (ELogical b) = Inr (ILogical b)"
| "exprPush c g (ENumeric n w d) =
     Inr (case n of NLong l \<Rightarrow> hb_compGenPushLong l | NDouble x \<Rightarrow> hb_vmPushDoubleConst (vset (vm g)) x w d)"
| "exprPush c g (EDate j) = Inr (IDate (wrap32 j))"
| "exprPush c g (ETimeStamp j t) = Inr (ITimeStamp (wrap32 j) (wrap32 t))"
| "exprPush c g (EString s) = Inr (IString (if supMacroText c then macroText g s else s))"
| "exprPush c g (ECodeblock b) = Inr (IBlock b)"
| "exprPush c g (EArray a) = Inr (IArray a False)"
| "exprPush c g (EHash h) = Inr (IHash h)"
| "exprPush c g (EFunRef f) = Inr (ISymbol f None)"
| "exprPush c g (EVariable x) = Inr (varItem g x)"
| "exprPush c g (ENot e) = bindR (exprPush c g e) (hb_vmNot (vm g))"
| "exprPush c g (ENegate e) = bindR (exprPush c g e) hb_vmNegate"
| "exprPush c g (EIIF e1 e2 e3) =
     bindR (exprPush c g e1) (\<lambda>p. bindR (hb_vmPopLogical p) (\<lambda>b. if b then exprPush c g e2 else exprPush c g e3))"
| "exprPush c g (EOp op l r) =
     (if op = EO_AND \<and> supShortcuts c then
        bindR (exprPush c g l) (\<lambda>p. bindR (hb_vmPopLogical p) (\<lambda>b. if b then exprPush c g r else Inr p))
      else if op = EO_OR \<and> supShortcuts c then
        bindR (exprPush c g l) (\<lambda>p. bindR (hb_vmPopLogical p) (\<lambda>b. if b then Inr p else exprPush c g r))
      else if op = EO_PLUS \<and> supExtOpt c \<and> (case numLit l of Some n \<Rightarrow> isOne n 1 | None \<Rightarrow> False) then
        bindR (exprPush c g r) (hb_vmInc (vm g))
      else if op = EO_PLUS \<and> supExtOpt c \<and> (case numLit l of Some n \<Rightarrow> isOne n (-1) | None \<Rightarrow> False) then
        bindR (exprPush c g r) (hb_vmDec (vm g))
      else if op = EO_PLUS \<and> supExtOpt c \<and> numLit l = None \<and> (case numLit r of Some n \<Rightarrow> isOne n 1 | None \<Rightarrow> False) then
        bindR (exprPush c g l) (hb_vmInc (vm g))
      else if op = EO_PLUS \<and> supExtOpt c \<and> numLit l = None \<and> (case numLit r of Some n \<Rightarrow> isOne n (-1) | None \<Rightarrow> False) then
        bindR (exprPush c g l) (hb_vmDec (vm g))
      else bindR (exprPush c g l) (\<lambda>p1. bindR (exprPush c g r) (\<lambda>p2. vmOp (vm g) op p1 p2)))"

end
