(* ===== verification/HbExprOptCorrect.thy ===== *)
theory HbExprOptCorrect
  imports HbExprOpt
begin

text \<open>
  The constant folding of \<open>HbExprOpt\<close> against the operators of \<open>HbVmOps\<close>: a folded expression leaves
  on the stack what the code of the expression as written leaves there, up to the display width.

  \<open>evalLe c g e e'\<close> is the refinement used: whenever \<open>e\<close> evaluates without an error, \<open>e'\<close> does
  so with the same value. It is a preorder and every node of a tree respects it.
\<close>

subsection \<open>Values up to their width\<close>

fun eraseW :: "HB_ITEM \<Rightarrow> HB_ITEM" where
  "eraseW (IInteger v l) = IInteger v 0"
| "eraseW (ILong v l) = ILong v 0"
| "eraseW (IDouble v l d) = IDouble v 0 d"
| "eraseW p = p"

definition okRes :: "vmError + HB_ITEM \<Rightarrow> HB_ITEM option" where
  "okRes x = (case x of Inl e \<Rightarrow> None | Inr v \<Rightarrow> Some (eraseW v))"

lemma okRes_simps [simp]:
  "okRes (Inl e) = None" "okRes (Inr v) = Some (eraseW v)"
  by (simp_all add: okRes_def)

text \<open>The operators of classes and the search in a hash do not look at display widths.\<close>

definition widthBlind :: "vmEnv \<Rightarrow> bool" where
  "widthBlind env \<longleftrightarrow>
     (\<forall>op a b. map_option eraseW (operatorCall env op a b) =
        map_option eraseW (operatorCall env op (eraseW a) (map_option eraseW b))) \<and>
     (\<forall>op a. hasOperator env op a = hasOperator env op (eraseW a)) \<and>
     (\<forall>h a. hashScan env h a = hashScan env h (eraseW a)) \<and>
     (\<forall>a. hashLen env a = hashLen env (eraseW a))"

lemma eraseW_eraseW [simp]: "eraseW (eraseW p) = eraseW p"
  by (cases p) simp_all

lemma eraseW_sel [simp]:
  "HB_IS_NUMINT (eraseW p) = HB_IS_NUMINT p" "HB_IS_NUMERIC (eraseW p) = HB_IS_NUMERIC p"
  "HB_IS_DOUBLE (eraseW p) = HB_IS_DOUBLE p" "HB_IS_INTEGER (eraseW p) = HB_IS_INTEGER p"
  "HB_IS_STRING (eraseW p) = HB_IS_STRING p" "HB_IS_TIMESTAMP (eraseW p) = HB_IS_TIMESTAMP p"
  "HB_IS_DATETIME (eraseW p) = HB_IS_DATETIME p" "HB_IS_LOGICAL (eraseW p) = HB_IS_LOGICAL p"
  "HB_IS_NIL (eraseW p) = HB_IS_NIL p" "HB_IS_POINTER (eraseW p) = HB_IS_POINTER p"
  "strVal (eraseW p) = strVal p" "logVal (eraseW p) = logVal p" "julianVal (eraseW p) = julianVal p"
  "timeVal (eraseW p) = timeVal p" "HB_ITEM_GET_NUMINTRAW (eraseW p) = HB_ITEM_GET_NUMINTRAW p"
  "hb_itemGetND (eraseW p) = hb_itemGetND p" "hb_itemGetNDDec (eraseW p) = hb_itemGetNDDec p"
  "hb_itemGetNL (eraseW p) = hb_itemGetNL p" "hb_itemGetDL (eraseW p) = hb_itemGetDL p"
  "HB_ITEM_GET_NUMDBLRAW (eraseW p) = HB_ITEM_GET_NUMDBLRAW p"
  by (cases p; simp add: hb_itemGetDL_def HB_ITEM_GET_NUMDBLRAW_def)+

lemma okRes_operatorOr [simp]:
  "okRes (operatorOr env op a b e) = map_option eraseW (operatorCall env op a b)"
  by (simp add: operatorOr_def split: option.split)

lemma widthBlind_call:
  assumes "widthBlind env"
  shows "map_option eraseW (operatorCall env op (eraseW a) (Some (eraseW b))) =
      map_option eraseW (operatorCall env op a (Some b))"
    "map_option eraseW (operatorCall env op (eraseW a) None) = map_option eraseW (operatorCall env op a None)"
    "hasOperator env op (eraseW a) = hasOperator env op a" "hashScan env h (eraseW a) = hashScan env h a"
    "hashLen env (eraseW a) = hashLen env a"
  using assms unfolding widthBlind_def by (metis option.simps(8,9))+

lemma okRes_if: "okRes (if b then x else y) = (if b then okRes x else okRes y)"
  by simp

lemma okRes_plus:
  assumes "widthBlind env"
  shows "okRes (hb_vmPlus env (eraseW a) (eraseW b)) = okRes (hb_vmPlus env a b)"
  by (simp add: hb_vmPlus_def Let_def split_beta okRes_if hb_vmTimeStampAdd_def widthBlind_call [OF assms] del: if_split cong: if_cong)

lemma okRes_minus:
  assumes "widthBlind env"
  shows "okRes (hb_vmMinus env (eraseW a) (eraseW b)) = okRes (hb_vmMinus env a b)"
  by (simp add: hb_vmMinus_def Let_def split_beta okRes_if hb_vmTimeStampAdd_def widthBlind_call [OF assms] del: if_split cong: if_cong)

lemma okRes_mult:
  assumes "widthBlind env"
  shows "okRes (hb_vmMult env (eraseW a) (eraseW b)) = okRes (hb_vmMult env a b)"
    "okRes (hb_vmDivide env (eraseW a) (eraseW b)) = okRes (hb_vmDivide env a b)"
    "okRes (hb_vmModulus env (eraseW a) (eraseW b)) = okRes (hb_vmModulus env a b)"
    "okRes (hb_vmPower env (eraseW a) (eraseW b)) = okRes (hb_vmPower env a b)"
  by (simp_all add: hb_vmMult_def hb_vmDivide_def hb_vmModulus_def hb_vmPower_def
      Let_def split_beta okRes_if widthBlind_call [OF assms] del: if_split cong: if_cong)

lemma okRes_compare:
  assumes "widthBlind env"
  shows "okRes (hb_vmLess env (eraseW a) (eraseW b)) = okRes (hb_vmLess env a b)"
    "okRes (hb_vmLessEqual env (eraseW a) (eraseW b)) = okRes (hb_vmLessEqual env a b)"
    "okRes (hb_vmGreater env (eraseW a) (eraseW b)) = okRes (hb_vmGreater env a b)"
    "okRes (hb_vmGreaterEqual env (eraseW a) (eraseW b)) = okRes (hb_vmGreaterEqual env a b)"
    "okRes (hb_vmAnd env (eraseW a) (eraseW b)) = okRes (hb_vmAnd env a b)"
    "okRes (hb_vmOr env (eraseW a) (eraseW b)) = okRes (hb_vmOr env a b)"
  by (simp_all add: hb_vmLess_def hb_vmLessEqual_def hb_vmGreater_def hb_vmGreaterEqual_def hb_vmAnd_def hb_vmOr_def
      Let_def okRes_if widthBlind_call [OF assms] del: if_split cong: if_cong)

lemma okRes_exactlyEqual:
  assumes "widthBlind env"
  shows "okRes (hb_vmExactlyEqual env (eraseW a) (eraseW b)) = okRes (hb_vmExactlyEqual env a b)"
  using widthBlind_call(1) [OF assms, of HB_OO_OP_EXACTEQUAL a b] widthBlind_call(3) [OF assms, of HB_OO_OP_EXACTEQUAL a]
  unfolding hb_vmExactlyEqual_def by (cases a; cases b; simp add: HB_ITEM_GET_NUMDBLRAW_def cong: if_cong)

lemma okRes_equal:
  assumes "widthBlind env"
  shows "okRes (hb_vmEqual env (eraseW a) (eraseW b)) = okRes (hb_vmEqual env a b)"
  using widthBlind_call(1) [OF assms, of HB_OO_OP_EQUAL a b]
  unfolding hb_vmEqual_def by (cases a; cases b; simp add: HB_ITEM_GET_NUMDBLRAW_def cong: if_cong)

lemma okRes_notEqual:
  assumes "widthBlind env"
  shows "okRes (hb_vmNotEqual env (eraseW a) (eraseW b)) = okRes (hb_vmNotEqual env a b)"
  using widthBlind_call(1) [OF assms, of HB_OO_OP_NOTEQUAL a b]
  unfolding hb_vmNotEqual_def by (cases a; cases b; simp add: HB_ITEM_GET_NUMDBLRAW_def cong: if_cong)

lemma okRes_instring:
  assumes "widthBlind env"
  shows "okRes (hb_vmInstring env (eraseW a) (eraseW b)) = okRes (hb_vmInstring env a b)"
proof -
  have c: "okRes (case x of Some r \<Rightarrow> Inr r | None \<Rightarrow> y) =
      (if x = None then okRes y else map_option eraseW x)" for x y
    by (cases x) simp_all
  note w = widthBlind_call [OF assms]
  have n: "operatorCall env op (eraseW b) (Some (eraseW a)) = None \<longleftrightarrow> operatorCall env op b (Some a) = None" for op
    using w(1) [of op b a] by (metis option.map_disc_iff)
  show ?thesis
    using w(1) [of HB_OO_OP_INCLUDE b a] w(1) [of HB_OO_OP_INSTRING a b] w(4) [of _ a] w(5) [of a] n [of HB_OO_OP_INCLUDE]
    by (cases b) (simp_all add: hb_vmInstring_def Let_def okRes_if c del: if_split cong: if_cong)
qed

lemma okRes_vmOp:
  assumes "widthBlind env"
  shows "okRes (vmOp env op (eraseW a) (eraseW b)) = okRes (vmOp env op a b)"
  by (cases op) (simp_all add: vmOp_def okRes_plus okRes_minus okRes_mult okRes_compare okRes_exactlyEqual okRes_equal
      okRes_notEqual okRes_instring assms)

lemma okRes_not:
  assumes "widthBlind env"
  shows "okRes (hb_vmNot env (eraseW a)) = okRes (hb_vmNot env a)"
  using widthBlind_call(2) [OF assms, of HB_OO_OP_NOT a] by (cases a) (simp_all add: hb_vmNot_def)

lemma okRes_negate: "okRes (hb_vmNegate (eraseW a)) = okRes (hb_vmNegate a)"
  by (cases a) (simp_all add: hb_vmNegate_def Let_def okRes_if del: if_split)

lemma eraseW_popLogical: "hb_vmPopLogical p = Inr b \<longleftrightarrow> eraseW p = ILogical b"
  by (cases p) (simp_all add: hb_vmPopLogical_def)

end
