(* ===== verification/HbExprFold.thy ===== *)
theory HbExprFold
  imports HbExprOptCorrect
begin

text \<open>
  Every node of an expression tree refines: the folding theorems over \<open>evalLe\<close>, and the
  properties of the expression optimizer.
\<close>

subsection \<open>The fragment\<close>

text \<open>Literals as the parser makes them, without a macro in a string; decimals are one byte.\<close>

fun okLit :: "HB_EXPR \<Rightarrow> bool" where
  "okLit (ENumeric (NLong l) w d) = is_int64 l"
| "okLit (ENumeric (NDouble x) w d) = (d < 256)"
| "okLit (EDate j) = is_int32 j"
| "okLit (ETimeStamp j t) = (is_int32 j \<and> is_int32 t)"
| "okLit (EString s) = (CHR ''&'' \<notin> List.set s)"
| "okLit e = True"

text \<open>Where folding and the machine compute alike. Left out are the overflow of integers, products beyond
  2^53, which the machine computes as doubles, the integer quotient and remainder, to which the machine
  gives the decimals of \<open>SET DECIMALS\<close>, and the difference of two dates, which is of another type.\<close>

fun nodeFits :: "exprOp \<Rightarrow> HB_EXPR \<Rightarrow> HB_EXPR \<Rightarrow> bool" where
  "nodeFits op (ENumeric (NLong a) _ _) (ENumeric (NLong b) _ _) =
     (case op of
        EO_PLUS \<Rightarrow> is_int64 (a + b)
      | EO_MINUS \<Rightarrow> is_int64 (a - b)
      | EO_MULT \<Rightarrow> is_int32 a \<and> is_int32 b \<or> \<bar>a\<bar> \<le> 2 ^ 53 \<and> \<bar>b\<bar> \<le> 2 ^ 53 \<and> \<bar>a * b\<bar> \<le> 2 ^ 53
      | EO_DIV \<Rightarrow> b = 0 \<or> a smod b \<noteq> 0
      | EO_MOD \<Rightarrow> b = 0
      | _ \<Rightarrow> True)"
| "nodeFits op (ENumeric (NDouble x) _ dl) (ENumeric (NDouble y) _ dr) =
     (op = EO_PLUS \<or> op = EO_MINUS \<or> op = EO_MULT \<longrightarrow> dl < HB_DEFAULT_DECIMALS \<and> dr < HB_DEFAULT_DECIMALS \<and>
        (op = EO_MULT \<longrightarrow> dl + dr < HB_DEFAULT_DECIMALS))"
| "nodeFits op (EString s) (EString t) =
     (op = EO_PLUS \<or> op = EO_MINUS \<longrightarrow> length s < HB_SIZE_MAX - length t)"
| "nodeFits op l r =
     (op = EO_MINUS \<and> isDateTime l \<and> isDateTime r \<longrightarrow> wrap64 (exTime l - exTime r) \<noteq> 0)"

fun foldFits :: "compParam \<Rightarrow> HB_EXPR \<Rightarrow> bool" where
  "foldFits c (ENot e) = foldFits c e"
| "foldFits c (ENegate e) =
     (foldFits c e \<and> (case exprReduce c e of Some (ENumeric (NLong l) _ _) \<Rightarrow> l \<noteq> 2 ^ 31 | _ \<Rightarrow> True))"
| "foldFits c (EIIF e1 e2 e3) = (foldFits c e1 \<and> foldFits c e2 \<and> foldFits c e3)"
| "foldFits c (EOp op l r) =
     (foldFits c l \<and> foldFits c r \<and>
      (case (exprReduce c l, exprReduce c r) of
         (Some l', Some r') \<Rightarrow> nodeFits op l' r' \<and> (case reduceOp c op l' r' of Some e \<Rightarrow> okLit e | None \<Rightarrow> False)
       | _ \<Rightarrow> False))"
| "foldFits c e = okLit e"

definition foldEnv :: "compParam \<Rightarrow> pushEnv \<Rightarrow> bool" where
  "foldEnv c g \<longleftrightarrow> \<not> supExtOpt c \<and> supHarbour c \<and> compPow c = cpow (vm g) \<and> widthBlind (vm g) \<and>
     (\<forall>s. CHR ''&'' \<notin> List.set s \<longrightarrow> macroText g s = s)"

definition evalLe :: "compParam \<Rightarrow> pushEnv \<Rightarrow> HB_EXPR \<Rightarrow> HB_EXPR \<Rightarrow> bool" where
  "evalLe c g e e' \<longleftrightarrow> (\<forall>w. okRes (exprPush c g e) = Some w \<longrightarrow> okRes (exprPush c g e') = Some w)"

lemma evalLe_refl [simp]: "evalLe c g e e"
  by (simp add: evalLe_def)

lemma evalLe_trans [trans]: "evalLe c g a b \<Longrightarrow> evalLe c g b d \<Longrightarrow> evalLe c g a d"
  by (simp add: evalLe_def)

subsection \<open>Evaluation of a node from its operands\<close>

lemma okRes_bind_vmOp:
  assumes "widthBlind env"
  shows "okRes (bindR x (\<lambda>p. bindR y (\<lambda>q. vmOp env op p q))) =
    Option.bind (okRes x) (\<lambda>a. Option.bind (okRes y) (\<lambda>b. okRes (vmOp env op a b)))"
  by (cases x; cases y) (simp_all add: bindR_def okRes_vmOp [OF assms])

lemma okRes_bind_not:
  "widthBlind env \<Longrightarrow> okRes (bindR x (hb_vmNot env)) = Option.bind (okRes x) (\<lambda>a. okRes (hb_vmNot env a))"
  by (cases x) (simp_all add: bindR_def okRes_not)

lemma okRes_bind_negate: "okRes (bindR x hb_vmNegate) = Option.bind (okRes x) (\<lambda>a. okRes (hb_vmNegate a))"
  by (cases x) (simp_all add: bindR_def okRes_negate)

lemma okRes_bind_cond:
  "okRes (bindR x (\<lambda>p. bindR (hb_vmPopLogical p) (\<lambda>b. if b then F p else G p))) =
    (case okRes x of Some (ILogical b) \<Rightarrow> okRes (if b then F (ILogical b) else G (ILogical b)) | _ \<Rightarrow> None)"
  by (cases x; (cases "projr x")?) (simp_all add: bindR_def hb_vmPopLogical_def)

lemma okRes_EOp:
  assumes "foldEnv c g"
  shows "okRes (exprPush c g (EOp op l r)) =
    (if op = EO_AND \<and> supShortcuts c then
       (case okRes (exprPush c g l) of Some (ILogical b) \<Rightarrow> if b then okRes (exprPush c g r) else Some (ILogical False)
        | _ \<Rightarrow> None)
     else if op = EO_OR \<and> supShortcuts c then
       (case okRes (exprPush c g l) of Some (ILogical b) \<Rightarrow> if b then Some (ILogical True) else okRes (exprPush c g r)
        | _ \<Rightarrow> None)
     else Option.bind (okRes (exprPush c g l)) (\<lambda>a. Option.bind (okRes (exprPush c g r)) (\<lambda>b.
       okRes (vmOp (vm g) op a b))))"
  using assms by (auto simp: foldEnv_def okRes_bind_cond okRes_bind_vmOp split: option.splits HB_ITEM.splits)

lemma evalLe_EOp:
  assumes "foldEnv c g" "evalLe c g l l'" "evalLe c g r r'"
  shows "evalLe c g (EOp op l r) (EOp op l' r')"
  unfolding evalLe_def okRes_EOp [OF assms(1)]
  using assms(2,3) by (auto simp: evalLe_def bind_eq_Some_conv split: option.splits HB_ITEM.splits if_splits)

lemma evalLe_ENot: "foldEnv c g \<Longrightarrow> evalLe c g e e' \<Longrightarrow> evalLe c g (ENot e) (ENot e')"
  by (auto simp: evalLe_def okRes_bind_not foldEnv_def bind_eq_Some_conv)

lemma evalLe_ENegate: "evalLe c g e e' \<Longrightarrow> evalLe c g (ENegate e) (ENegate e')"
  by (auto simp: evalLe_def okRes_bind_negate bind_eq_Some_conv)

lemma evalLe_EIIF:
  "evalLe c g e1 d1 \<Longrightarrow> evalLe c g e2 d2 \<Longrightarrow> evalLe c g e3 d3 \<Longrightarrow> evalLe c g (EIIF e1 e2 e3) (EIIF d1 d2 d3)"
  by (auto simp: evalLe_def okRes_bind_cond split: option.splits HB_ITEM.splits if_splits)


subsection \<open>Literals on the stack\<close>

lemma pushLong_erase: "eraseW (hb_compGenPushLong n) = (if is_int32 n then IInteger n 0 else ILong n 0)"
  by (simp add: hb_compGenPushLong_def is_int32_def c_defs)

lemma pushLong_sel [simp]:
  "HB_IS_NUMINT (hb_compGenPushLong n)" "HB_IS_NUMERIC (hb_compGenPushLong n)"
  "\<not> HB_IS_DOUBLE (hb_compGenPushLong n)" "HB_IS_INTEGER (hb_compGenPushLong n) = is_int32 n"
  "\<not> HB_IS_STRING (hb_compGenPushLong n)" "\<not> HB_IS_TIMESTAMP (hb_compGenPushLong n)"
  "\<not> HB_IS_DATETIME (hb_compGenPushLong n)" "\<not> HB_IS_LOGICAL (hb_compGenPushLong n)"
  "\<not> HB_IS_NIL (hb_compGenPushLong n)" "HB_ITEM_GET_NUMINTRAW (hb_compGenPushLong n) = n"
  "hb_itemGetND (hb_compGenPushLong n) = dbl_of_int n" "hb_itemGetNDDec (hb_compGenPushLong n) = (dbl_of_int n, 0)"
  "hb_itemGetNL (hb_compGenPushLong n) = n"
  by (simp_all add: hb_compGenPushLong_def is_int32_def c_defs)

lemma pushDouble_sel [simp]:
  "\<not> HB_IS_NUMINT (hb_vmPushDoubleConst st x w d)" "HB_IS_NUMERIC (hb_vmPushDoubleConst st x w d)"
  "HB_IS_DOUBLE (hb_vmPushDoubleConst st x w d)" "\<not> HB_IS_INTEGER (hb_vmPushDoubleConst st x w d)"
  "\<not> HB_IS_STRING (hb_vmPushDoubleConst st x w d)" "\<not> HB_IS_TIMESTAMP (hb_vmPushDoubleConst st x w d)"
  "\<not> HB_IS_DATETIME (hb_vmPushDoubleConst st x w d)" "\<not> HB_IS_LOGICAL (hb_vmPushDoubleConst st x w d)"
  "\<not> HB_IS_NIL (hb_vmPushDoubleConst st x w d)" "hb_itemGetND (hb_vmPushDoubleConst st x w d) = x"
  "hb_itemGetNL (hb_vmPushDoubleConst st x w d) = int64_of_dbl x"
  by (simp_all add: hb_vmPushDoubleConst_def)

definition litDec :: "hbSet \<Rightarrow> nat \<Rightarrow> nat" where
  "litDec st d = (if d = HB_DEFAULT_DECIMALS then HB_SET_DECIMALS st mod 2 ^ 16 else d)"

lemma pushDouble_dec [simp]:
  "hb_itemGetNDDec (hb_vmPushDoubleConst st x w d) = (x, litDec st d)"
  "eraseW (hb_vmPushDoubleConst st x w d) = IDouble x 0 (litDec st d)"
  by (simp_all add: hb_vmPushDoubleConst_def litDec_def)

definition putDec :: "hbSet \<Rightarrow> nat \<Rightarrow> nat" where
  "putDec st d = (if d = HB_DEFAULT_DECIMALS then HB_SET_DECIMALS st mod 2 ^ 16 else d mod 2 ^ 16)"

lemma putDec_simps:
  "d < 256 \<Longrightarrow> putDec st (litDec st d) = litDec st d" "d < 256 \<Longrightarrow> putDec st d = litDec st d"
  "d < HB_DEFAULT_DECIMALS \<Longrightarrow> litDec st d = d" "litDec st HB_DEFAULT_DECIMALS = HB_SET_DECIMALS st mod 2 ^ 16"
  by (auto simp: putDec_def litDec_def HB_DEFAULT_DECIMALS_def)

lemma putNDDec_erase [simp]:
  "eraseW (hb_itemPutNDDec st x d) = IDouble x 0 (putDec st d)"
  "eraseW (hb_itemPutND st x) = IDouble x 0 (litDec st HB_DEFAULT_DECIMALS)"
  by (simp_all add: hb_itemPutNDDec_def hb_itemPutND_def litDec_def putDec_def)

lemma max_dec: "(if (a :: nat) < b then b else a) = max a b"
  by simp

lemma max_dec_less: "a < k \<Longrightarrow> b < k \<Longrightarrow> max a b < (k :: nat)"
  by simp

lemma putNumint_erase: "eraseW (HB_ITEM_PUT_NUMINTRAW n) = eraseW (hb_compGenPushLong n)"
  by (simp add: pushLong_erase HB_ITEM_PUT_NUMINTRAW_def)

text \<open>A node whose operands are literals evaluates to its operator at their values.\<close>

lemma evalLe_lits:
  assumes "foldEnv c g" "\<not> (supShortcuts c \<and> (op = EO_AND \<or> op = EO_OR))"
    "exprPush c g l = Inr a" "exprPush c g r = Inr b"
    "\<And>v. vmOp (vm g) op a b = Inr v \<Longrightarrow> okRes (exprPush c g e) = Some (eraseW v)"
  shows "evalLe c g (EOp op l r) e"
  unfolding evalLe_def okRes_EOp [OF assms(1)]
  using assms(1-4) assms(5) by (cases "vmOp (vm g) op a b") (auto simp: okRes_vmOp foldEnv_def split: if_splits)

subsection \<open>Integers in \<open>long double\<close>\<close>

lemma ldround_int:
  assumes "\<bar>n\<bar> \<le> 2 ^ 63"
  shows "ldround (of_int n) = of_int n"
proof (cases "n = 0")
  case True
  then show ?thesis by (simp add: ldround_def)
next
  case False
  define x where "x = \<bar>of_int n :: rat\<bar>"
  have xi: "x = of_int \<bar>n\<bar>" by (simp add: x_def)
  define e where "e = blog x - 63"
  have bl: "exp2r (blog x) \<le> x" using False by (intro blog_le) (simp add: x_def)
  have "x \<le> exp2r 63" using assms by (simp add: xi exp2r_def flip: of_int_abs)
  have "\<not> 63 < blog x"
  proof
    assume "63 < blog x"
    then have "exp2r 64 \<le> exp2r (blog x)" by (intro exp2r_mono) simp
    with bl \<open>x \<le> exp2r 63\<close> show False by (simp add: exp2r_def)
  qed
  then have e0: "e \<le> 0" by (simp add: e_def)
  then have "x / exp2r e = of_int (\<bar>n\<bar> * 2 ^ nat (- e))"
    by (cases "e = 0") (simp_all add: xi exp2r_def)
  then have "of_int (round_even (x / exp2r e)) * exp2r e = x"
    using exp2r_pos [of e] by (simp only: round_even_int) (metis nonzero_eq_divide_eq less_irrefl)
  then show ?thesis
    using False by (simp only: ldround_def Let_def x_def [symmetric] e_def [symmetric]) (simp add: x_def)
qed

lemma longResult_exact:
  assumes "is_int64 n"
  shows "longResult (of_int n) n = ENumeric (NLong n) HB_DEFAULT_WIDTH 0"
proof -
  have "\<bar>n\<bar> \<le> 2 ^ 63" using assms by (auto simp: is_int64_def c_defs abs_le_iff)
  from ldround_int [OF this] assms show ?thesis
    by (simp add: longResult_def wrap64_id is_int64_def)
qed


subsection \<open>Folding of a node\<close>

fun isLit :: "HB_EXPR \<Rightarrow> bool" where
  "isLit (ELogical b) = True"
| "isLit (ENumeric n w d) = True"
| "isLit (EDate j) = True"
| "isLit (ETimeStamp j t) = True"
| "isLit (EString s) = True"
| "isLit e = False"

fun litVal :: "hbSet \<Rightarrow> HB_EXPR \<Rightarrow> HB_ITEM" where
  "litVal st (ELogical b) = ILogical b"
| "litVal st (ENumeric (NLong n) w d) = hb_compGenPushLong n"
| "litVal st (ENumeric (NDouble x) w d) = hb_vmPushDoubleConst st x w d"
| "litVal st (EDate j) = IDate j"
| "litVal st (ETimeStamp j t) = ITimeStamp j t"
| "litVal st (EString s) = IString s"
| "litVal st e = INil"

lemma push_lit:
  "foldEnv c g \<Longrightarrow> isLit e \<Longrightarrow> okLit e \<Longrightarrow> exprPush c g e = Inr (litVal (vset (vm g)) e)"
  by (cases e) (auto simp: foldEnv_def wrap32_id split: numConst.split)

lemma evalLe_isLit:
  assumes "foldEnv c g" "op \<noteq> EO_AND" "op \<noteq> EO_OR" "isLit l" "isLit r" "okLit l" "okLit r" "isLit e" "okLit e"
    "okRes (vmOp (vm g) op (litVal (vset (vm g)) l) (litVal (vset (vm g)) r)) = Some (eraseW (litVal (vset (vm g)) e))"
  shows "evalLe c g (EOp op l r) e"
  using assms by (intro evalLe_lits [OF assms(1)]) (auto simp: push_lit)

lemma isLitE:
  assumes "isLit e"
  obtains b where "e = ELogical b" | n w d where "e = ENumeric (NLong n) w d" | x w d where "e = ENumeric (NDouble x) w d"
  | j where "e = EDate j" | j t where "e = ETimeStamp j t" | s where "e = EString s"
  using assms by (cases e rule: isLit.cases) (auto, metis numConst.exhaust)

lemma timeStampPut_lit:
  "isLit (hb_compExprReduceTimeStampPut j t)" "litVal st (hb_compExprReduceTimeStampPut j t) = hb_vmTimeStampPut j t"
  by (simp_all add: hb_compExprReduceTimeStampPut_def hb_vmTimeStampPut_def hb_itemPutTDT_def Let_def split_beta)

lemma timeStampAdd_lit:
  assumes "isDateTime e" "isLit e"
  shows "isLit (hb_compExprReduceTimeStampAdd e x)"
    "litVal st (hb_compExprReduceTimeStampAdd e x) = hb_vmTimeStampAdd (litVal st e) x"
  using assms by (cases e; simp add: hb_compExprReduceTimeStampAdd_def hb_vmTimeStampAdd_def timeStampPut_lit split_beta)+

lemma timeStampPut_erase [simp]: "eraseW (hb_vmTimeStampPut j t) = hb_vmTimeStampPut j t"
  by (simp add: hb_vmTimeStampPut_def hb_itemPutTDT_def Let_def split_beta)

lemma timeStampAdd_erase [simp]: "eraseW (hb_vmTimeStampAdd p x) = hb_vmTimeStampAdd p x"
  by (simp add: hb_vmTimeStampAdd_def split_beta)

lemma joinsMacro_plain: "CHR ''&'' \<notin> List.set s \<Longrightarrow> \<not> joinsMacro c s t"
  by (induction s) auto

lemma hasMacro_plain: "CHR ''&'' \<notin> List.set s \<Longrightarrow> \<not> hb_compExprHasMacro c s"
  by (induction s) auto

lemma evalLe_fold:
  assumes "foldEnv c g" "op \<noteq> EO_AND" "op \<noteq> EO_OR" "okLit l" "okLit r" "okLit e"
    "isLit l \<Longrightarrow> isLit r \<Longrightarrow> e \<noteq> EOp op l r \<Longrightarrow>
      isLit e \<and> okRes (vmOp (vm g) op (litVal (vset (vm g)) l) (litVal (vset (vm g)) r)) =
        Some (eraseW (litVal (vset (vm g)) e))"
    "\<not> (isLit l \<and> isLit r) \<Longrightarrow> e = EOp op l r"
  shows "evalLe c g (EOp op l r) e"
  using assms evalLe_isLit [OF assms(1-3), of l r e] by (cases "e = EOp op l r") auto

lemma longResult_op:
  "is_int64 (a + b) \<Longrightarrow> longResult (of_int a + of_int b) (a + b) = ENumeric (NLong (a + b)) HB_DEFAULT_WIDTH 0"
  "is_int64 (a - b) \<Longrightarrow> longResult (of_int a - of_int b) (a - b) = ENumeric (NLong (a - b)) HB_DEFAULT_WIDTH 0"
  "is_int64 (a * b) \<Longrightarrow> longResult (of_int a * of_int b) (a * b) = ENumeric (NLong (a * b)) HB_DEFAULT_WIDTH 0"
  using longResult_exact [of "a + b"] longResult_exact [of "a - b"] longResult_exact [of "a * b"] by simp_all

lemma HB_DEFAULT_DECIMALS_less: "d < HB_DEFAULT_DECIMALS \<Longrightarrow> d < 256"
  by (simp add: HB_DEFAULT_DECIMALS_def)

lemma HB_TIMEDIFF_DEC_less: "HB_TIMEDIFF_DEC < 256"
  by (simp add: HB_TIMEDIFF_DEC_def)

lemmas fold_simps = foldEnv_def HB_TIMEDIFF_DEC_less Let_def longResult_op wrap64_id putDec_simps max_dec max_dec_less HB_DEFAULT_DECIMALS_less
  hb_itemPutDL_def hb_itemGetDL_def timeStampAdd_lit timeStampPut_lit putNumint_erase joinsMacro_plain hasMacro_plain
  hb_compExprReducePlusStrings_def hb_compExprReduceMinusStrings_def HB_ITEM_GET_NUMDBLRAW_def add.commute

lemma fold_plus:
  assumes "foldEnv c g" "okLit l" "okLit r" "nodeFits EO_PLUS l r" "okLit (hb_compExprReducePlus c l r)"
  shows "evalLe c g (EOp EO_PLUS l r) (hb_compExprReducePlus c l r)"
proof (rule evalLe_fold [OF assms(1) _ _ assms(2,3,5)])
  assume "isLit l" "isLit r" "hb_compExprReducePlus c l r \<noteq> EOp EO_PLUS l r"
  then show "isLit (hb_compExprReducePlus c l r) \<and>
      okRes (vmOp (vm g) EO_PLUS (litVal (vset (vm g)) l) (litVal (vset (vm g)) r)) =
        Some (eraseW (litVal (vset (vm g)) (hb_compExprReducePlus c l r)))"
    using assms(1-4) unfolding vmOp_def exprOp.case
    by (elim isLitE; hypsubst) (simp_all add: hb_compExprReducePlus_def hb_vmPlus_def fold_simps split: if_splits)
next
  assume "\<not> (isLit l \<and> isLit r)"
  then show "hb_compExprReducePlus c l r = EOp EO_PLUS l r"
    using assms(1) by (cases l; cases r; simp add: hb_compExprReducePlus_def foldEnv_def split: numConst.split)
qed simp_all

lemma fold_minus:
  assumes "foldEnv c g" "okLit l" "okLit r" "nodeFits EO_MINUS l r" "okLit (hb_compExprReduceMinus c l r)"
  shows "evalLe c g (EOp EO_MINUS l r) (hb_compExprReduceMinus c l r)"
proof (rule evalLe_fold [OF assms(1) _ _ assms(2,3,5)])
  assume "isLit l" "isLit r" "hb_compExprReduceMinus c l r \<noteq> EOp EO_MINUS l r"
  then show "isLit (hb_compExprReduceMinus c l r) \<and>
      okRes (vmOp (vm g) EO_MINUS (litVal (vset (vm g)) l) (litVal (vset (vm g)) r)) =
        Some (eraseW (litVal (vset (vm g)) (hb_compExprReduceMinus c l r)))"
    using assms(1-4) unfolding vmOp_def exprOp.case
    by (elim isLitE; hypsubst) (simp_all add: hb_compExprReduceMinus_def hb_vmMinus_def fold_simps split: if_splits)
next
  assume "\<not> (isLit l \<and> isLit r)"
  then show "hb_compExprReduceMinus c l r = EOp EO_MINUS l r"
    using assms(1) by (cases l; cases r; simp add: hb_compExprReduceMinus_def foldEnv_def split: numConst.split)
qed simp_all

lemma fold_power:
  assumes "foldEnv c g" "okLit l" "okLit r" "nodeFits EO_POWER l r" "okLit (hb_compExprReducePower c l r)"
  shows "evalLe c g (EOp EO_POWER l r) (hb_compExprReducePower c l r)"
proof (rule evalLe_fold [OF assms(1) _ _ assms(2,3,5)])
  assume "isLit l" "isLit r" "hb_compExprReducePower c l r \<noteq> EOp EO_POWER l r"
  then show "isLit (hb_compExprReducePower c l r) \<and>
      okRes (vmOp (vm g) EO_POWER (litVal (vset (vm g)) l) (litVal (vset (vm g)) r)) =
        Some (eraseW (litVal (vset (vm g)) (hb_compExprReducePower c l r)))"
    using assms(1-4) unfolding vmOp_def exprOp.case
    by (elim isLitE; hypsubst) (simp_all add: hb_compExprReducePower_def hb_vmPower_def fold_simps split: if_splits)
next
  assume "\<not> (isLit l \<and> isLit r)"
  then show "hb_compExprReducePower c l r = EOp EO_POWER l r"
    using assms(1) by (cases l; cases r; simp add: hb_compExprReducePower_def foldEnv_def split: numConst.split)
qed simp_all

lemma fold_ge:
  assumes "foldEnv c g" "okLit l" "okLit r" "nodeFits EO_GE l r" "okLit (hb_compExprReduceGE l r)"
  shows "evalLe c g (EOp EO_GE l r) (hb_compExprReduceGE l r)"
proof (rule evalLe_fold [OF assms(1) _ _ assms(2,3,5)])
  assume "isLit l" "isLit r" "hb_compExprReduceGE l r \<noteq> EOp EO_GE l r"
  then show "isLit (hb_compExprReduceGE l r) \<and>
      okRes (vmOp (vm g) EO_GE (litVal (vset (vm g)) l) (litVal (vset (vm g)) r)) =
        Some (eraseW (litVal (vset (vm g)) (hb_compExprReduceGE l r)))"
    using assms(1-4) unfolding vmOp_def exprOp.case
    by (elim isLitE; hypsubst) (auto simp: hb_compExprReduceGE_def hb_vmGreaterEqual_def fold_simps split: if_splits)
next
  assume "\<not> (isLit l \<and> isLit r)"
  then show "hb_compExprReduceGE l r = EOp EO_GE l r"
    using assms(1) by (cases l; cases r; simp add: hb_compExprReduceGE_def foldEnv_def split: numConst.split)
qed simp_all

lemma fold_le:
  assumes "foldEnv c g" "okLit l" "okLit r" "nodeFits EO_LE l r" "okLit (hb_compExprReduceLE l r)"
  shows "evalLe c g (EOp EO_LE l r) (hb_compExprReduceLE l r)"
proof (rule evalLe_fold [OF assms(1) _ _ assms(2,3,5)])
  assume "isLit l" "isLit r" "hb_compExprReduceLE l r \<noteq> EOp EO_LE l r"
  then show "isLit (hb_compExprReduceLE l r) \<and>
      okRes (vmOp (vm g) EO_LE (litVal (vset (vm g)) l) (litVal (vset (vm g)) r)) =
        Some (eraseW (litVal (vset (vm g)) (hb_compExprReduceLE l r)))"
    using assms(1-4) unfolding vmOp_def exprOp.case
    by (elim isLitE; hypsubst) (auto simp: hb_compExprReduceLE_def hb_vmLessEqual_def fold_simps split: if_splits)
next
  assume "\<not> (isLit l \<and> isLit r)"
  then show "hb_compExprReduceLE l r = EOp EO_LE l r"
    using assms(1) by (cases l; cases r; simp add: hb_compExprReduceLE_def foldEnv_def split: numConst.split)
qed simp_all

lemma fold_gt:
  assumes "foldEnv c g" "okLit l" "okLit r" "nodeFits EO_GT l r" "okLit (hb_compExprReduceGT l r)"
  shows "evalLe c g (EOp EO_GT l r) (hb_compExprReduceGT l r)"
proof (rule evalLe_fold [OF assms(1) _ _ assms(2,3,5)])
  assume "isLit l" "isLit r" "hb_compExprReduceGT l r \<noteq> EOp EO_GT l r"
  then show "isLit (hb_compExprReduceGT l r) \<and>
      okRes (vmOp (vm g) EO_GT (litVal (vset (vm g)) l) (litVal (vset (vm g)) r)) =
        Some (eraseW (litVal (vset (vm g)) (hb_compExprReduceGT l r)))"
    using assms(1-4) unfolding vmOp_def exprOp.case
    by (elim isLitE; hypsubst) (auto simp: hb_compExprReduceGT_def hb_vmGreater_def fold_simps split: if_splits)
next
  assume "\<not> (isLit l \<and> isLit r)"
  then show "hb_compExprReduceGT l r = EOp EO_GT l r"
    using assms(1) by (cases l; cases r; simp add: hb_compExprReduceGT_def foldEnv_def split: numConst.split)
qed simp_all

lemma fold_lt:
  assumes "foldEnv c g" "okLit l" "okLit r" "nodeFits EO_LT l r" "okLit (hb_compExprReduceLT l r)"
  shows "evalLe c g (EOp EO_LT l r) (hb_compExprReduceLT l r)"
proof (rule evalLe_fold [OF assms(1) _ _ assms(2,3,5)])
  assume "isLit l" "isLit r" "hb_compExprReduceLT l r \<noteq> EOp EO_LT l r"
  then show "isLit (hb_compExprReduceLT l r) \<and>
      okRes (vmOp (vm g) EO_LT (litVal (vset (vm g)) l) (litVal (vset (vm g)) r)) =
        Some (eraseW (litVal (vset (vm g)) (hb_compExprReduceLT l r)))"
    using assms(1-4) unfolding vmOp_def exprOp.case
    by (elim isLitE; hypsubst) (auto simp: hb_compExprReduceLT_def hb_vmLess_def fold_simps split: if_splits)
next
  assume "\<not> (isLit l \<and> isLit r)"
  then show "hb_compExprReduceLT l r = EOp EO_LT l r"
    using assms(1) by (cases l; cases r; simp add: hb_compExprReduceLT_def foldEnv_def split: numConst.split)
qed simp_all

lemma fold_in:
  assumes "foldEnv c g" "okLit l" "okLit r" "nodeFits EO_IN l r" "okLit (hb_compExprReduceIN c l r)"
  shows "evalLe c g (EOp EO_IN l r) (hb_compExprReduceIN c l r)"
proof (rule evalLe_fold [OF assms(1) _ _ assms(2,3,5)])
  assume "isLit l" "isLit r" "hb_compExprReduceIN c l r \<noteq> EOp EO_IN l r"
  then show "isLit (hb_compExprReduceIN c l r) \<and>
      okRes (vmOp (vm g) EO_IN (litVal (vset (vm g)) l) (litVal (vset (vm g)) r)) =
        Some (eraseW (litVal (vset (vm g)) (hb_compExprReduceIN c l r)))"
    using assms(1-4) unfolding vmOp_def exprOp.case
    by (elim isLitE; hypsubst) (simp_all add: hb_compExprReduceIN_def hb_vmInstring_def fold_simps hb_strAt_def split: if_splits)
next
  assume "\<not> (isLit l \<and> isLit r)"
  then show "hb_compExprReduceIN c l r = EOp EO_IN l r"
    using assms(1) by (cases l; cases r; simp add: hb_compExprReduceIN_def foldEnv_def split: numConst.split)
qed simp_all

lemma is_int32_mult: "is_int32 a \<Longrightarrow> is_int32 b \<Longrightarrow> is_int64 (a * b)"
proof -
  assume "is_int32 a" "is_int32 b"
  then have "\<bar>a\<bar> \<le> 2 ^ 31" "\<bar>b\<bar> \<le> 2 ^ 31" by (auto simp: is_int32_def c_defs abs_le_iff)
  then have "\<bar>a\<bar> * \<bar>b\<bar> \<le> 2 ^ 31 * 2 ^ 31" by (intro mult_mono) simp_all
  then have "\<bar>a * b\<bar> \<le> 2 ^ 62" by (simp add: abs_mult)
  then show ?thesis by (simp add: is_int64_def c_defs abs_le_iff)
qed

lemma putNumType_int:
  assumes "\<bar>n\<bar> \<le> 2 ^ 53"
  shows "eraseW (hb_itemPutNumType st (DFin (of_int n)) 0 False False) = eraseW (hb_compGenPushLong n)"
proof -
  have n: "is_int64 n" using assms by (auto simp: is_int64_def c_defs abs_le_iff)
  have "rtrunc (of_int n) = n" by (simp add: rtrunc_def flip: of_int_minus)
  moreover have "HB_DBL_LIM int32_min int32_max (DFin (of_int n)) \<longleftrightarrow> is_int32 n"
    "HB_DBL_LIM int64_min int64_max (DFin (of_int n)) \<longleftrightarrow> is_int64 n"
    by (simp_all only: HB_DBL_LIM_def dbl.case of_int_le_iff is_int32_def is_int64_def)
  ultimately show ?thesis
    using n by (simp add: hb_itemPutNumType_def int64_of_dbl_def hb_itemPutNI_def hb_itemPutNLL_def pushLong_erase)
qed

lemma mult_long:
  assumes "is_int32 a \<and> is_int32 b \<or> \<bar>a\<bar> \<le> 2 ^ 53 \<and> \<bar>b\<bar> \<le> 2 ^ 53 \<and> \<bar>a * b\<bar> \<le> 2 ^ 53"
  shows "is_int64 (a * b)"
    "okRes (hb_vmMult env (hb_compGenPushLong a) (hb_compGenPushLong b)) = Some (eraseW (hb_compGenPushLong (a * b)))"
proof -
  show i: "is_int64 (a * b)" using assms is_int32_mult by (auto simp: is_int64_def c_defs abs_le_iff)
  show "okRes (hb_vmMult env (hb_compGenPushLong a) (hb_compGenPushLong b)) = Some (eraseW (hb_compGenPushLong (a * b)))"
  proof (cases "is_int32 a \<and> is_int32 b")
    case True
    then show ?thesis using i by (simp add: hb_vmMult_def wrap64_id putNumint_erase)
  next
    case False
    then have b: "\<bar>a\<bar> \<le> 2 ^ 53" "\<bar>b\<bar> \<le> 2 ^ 53" "\<bar>a * b\<bar> \<le> 2 ^ 53" using assms by auto
    have "dmul (dbl_of_int a) (dbl_of_int b) = DFin (of_int (a * b))"
      using dbl_of_int_exact [OF b(1)] dbl_of_int_exact [OF b(2)] dbl_of_int_exact [OF b(3)]
      by (simp add: dbl_of_int_def)
    then show ?thesis using False putNumType_int [OF b(3)] by (auto simp: hb_vmMult_def)
  qed
qed

lemma fold_mult:
  assumes "foldEnv c g" "okLit l" "okLit r" "nodeFits EO_MULT l r" "okLit (hb_compExprReduceMult l r)"
  shows "evalLe c g (EOp EO_MULT l r) (hb_compExprReduceMult l r)"
proof (rule evalLe_fold [OF assms(1) _ _ assms(2,3,5)])
  assume "isLit l" "isLit r" "hb_compExprReduceMult l r \<noteq> EOp EO_MULT l r"
  then show "isLit (hb_compExprReduceMult l r) \<and>
      okRes (vmOp (vm g) EO_MULT (litVal (vset (vm g)) l) (litVal (vset (vm g)) r)) =
        Some (eraseW (litVal (vset (vm g)) (hb_compExprReduceMult l r)))"
    using assms(1-4) unfolding vmOp_def exprOp.case
    by (elim isLitE; hypsubst) (simp_all add: hb_compExprReduceMult_def mult_long longResult_op del: okRes_simps,
        simp_all add: hb_vmMult_def fold_simps hb_itemPutNumType_def)
next
  assume "\<not> (isLit l \<and> isLit r)"
  then show "hb_compExprReduceMult l r = EOp EO_MULT l r"
    using assms(1) by (cases l; cases r; simp add: hb_compExprReduceMult_def foldEnv_def split: numConst.split)
qed simp_all

lemma dbl_of_int_0:
  assumes "is_int64 n"
  shows "dbl_of_int n = DFin 0 \<longleftrightarrow> n = 0"
proof (cases "\<bar>n\<bar> \<le> 2 ^ 53")
  case True
  then show ?thesis by (simp add: dbl_of_int_exact)
next
  case False
  define x where "x = (of_int \<bar>n\<bar> :: rat)"
  have "\<bar>n\<bar> \<le> 2 ^ 63" using assms by (auto simp: is_int64_def c_defs abs_le_iff)
  then have x: "x < exp2r 64" "exp2r 53 < x" using False
    by (simp_all only: x_def exp2r_def) (simp_all flip: of_int_abs)
  have ax: "\<bar>of_int n :: rat\<bar> = x" by (simp add: x_def)
  obtain v where v: "fround (of_int n) = DFin v" "\<bar>v - of_int n\<bar> \<le> exp2r (64 - 54)"
    by (rule fround_near [of "of_int n" 64]) (use x(1) ax in simp_all)
  have "v \<noteq> 0" using v(2) x(2) ax by (auto simp: exp2r_def)
  with False v(1) show ?thesis by (auto simp: dbl_of_int_def)
qed

lemma fold_div:
  assumes "foldEnv c g" "okLit l" "okLit r" "nodeFits EO_DIV l r" "hb_compExprReduceDiv l r = Some e" "okLit e"
  shows "evalLe c g (EOp EO_DIV l r) e"
proof (rule evalLe_fold [OF assms(1) _ _ assms(2,3,6)])
  assume "isLit l" "isLit r" "e \<noteq> EOp EO_DIV l r"
  then show "isLit e \<and>
      okRes (vmOp (vm g) EO_DIV (litVal (vset (vm g)) l) (litVal (vset (vm g)) r)) =
        Some (eraseW (litVal (vset (vm g)) e))"
    using assms(1-5) unfolding vmOp_def exprOp.case
    by (elim isLitE; hypsubst)
      (auto simp: hb_compExprReduceDiv_def hb_vmDivide_def fold_simps deq_def dbl_of_int_0 split: if_splits)
next
  assume "\<not> (isLit l \<and> isLit r)"
  then show "e = EOp EO_DIV l r"
    using assms(1,5) by (cases l; cases r; simp add: hb_compExprReduceDiv_def foldEnv_def split: numConst.splits)
qed simp_all

lemma fold_mod:
  assumes "foldEnv c g" "okLit l" "okLit r" "nodeFits EO_MOD l r" "hb_compExprReduceMod c l r = Some e" "okLit e"
  shows "evalLe c g (EOp EO_MOD l r) e"
proof (rule evalLe_fold [OF assms(1) _ _ assms(2,3,6)])
  assume "isLit l" "isLit r" "e \<noteq> EOp EO_MOD l r"
  then show "isLit e \<and>
      okRes (vmOp (vm g) EO_MOD (litVal (vset (vm g)) l) (litVal (vset (vm g)) r)) =
        Some (eraseW (litVal (vset (vm g)) e))"
    using assms(1-5) unfolding vmOp_def exprOp.case
    by (elim isLitE; hypsubst)
      (auto simp: hb_compExprReduceMod_def hb_vmModulus_def fold_simps split: if_splits)
next
  assume "\<not> (isLit l \<and> isLit r)"
  then show "e = EOp EO_MOD l r"
    using assms(1,5) by (cases l; cases r; simp add: hb_compExprReduceMod_def foldEnv_def split: numConst.splits)
qed simp_all

lemma strCmp_Nil [simp]: "hb_itemStrCmp st [] [] b = 0"
  by (simp add: hb_itemStrCmp_def Let_def)

lemma okRes_nil_eq:
  assumes "p \<noteq> INil"
  shows "hb_vmExactlyEqual env INil p = Inr (ILogical False)" "hb_vmExactlyEqual env p INil = Inr (ILogical False)"
    "hb_vmEqual env INil p = Inr (ILogical False)" "hb_vmEqual env p INil = Inr (ILogical False)"
    "hb_vmNotEqual env INil p = Inr (ILogical True)" "hb_vmNotEqual env p INil = Inr (ILogical True)"
  using assms by (cases p; simp add: hb_vmExactlyEqual_def hb_vmEqual_def hb_vmNotEqual_def)+

lemma push_const:
  assumes "isConstNotNil e" "foldEnv c g" "okLit e"
  obtains p where "exprPush c g e = Inr p" "p \<noteq> INil"
  using assms by (cases e) (auto simp: hb_compGenPushLong_def hb_vmPushDoubleConst_def split: numConst.splits)

lemma fold_nil:
  assumes "foldEnv c g" "okLit l" "okLit r" "op \<in> {EO_EQUAL, EO_EQ, EO_NE}"
    "l = ENil \<and> isConstNotNil r \<or> r = ENil \<and> isConstNotNil l"
  shows "evalLe c g (EOp op l r) (ELogical (op = EO_NE))"
  using assms(5)
proof (elim disjE conjE)
  assume l: "l = ENil" and "isConstNotNil r"
  then obtain p where "exprPush c g r = Inr p" "p \<noteq> INil" using push_const assms(1,3) by blast
  then show ?thesis using assms(4) l
    by (intro evalLe_lits [OF assms(1) _ _ \<open>exprPush c g r = Inr p\<close>, of _ _ INil]) (auto simp: vmOp_def okRes_nil_eq)
next
  assume r: "r = ENil" and "isConstNotNil l"
  then obtain p where "exprPush c g l = Inr p" "p \<noteq> INil" using push_const assms(1,2) by blast
  then show ?thesis using assms(4) r
    by (intro evalLe_lits [OF assms(1) _ \<open>exprPush c g l = Inr p\<close>, of _ _ INil]) (auto simp: vmOp_def okRes_nil_eq)
qed

lemma lit_eq:
  assumes "foldEnv c g" "isLit l" "isLit r" "okLit l" "okLit r" "op = EO_EQ \<or> op = EO_EQUAL"
    "hb_compExprReduceEQ c op l r \<noteq> EOp op l r"
  shows "isLit (hb_compExprReduceEQ c op l r) \<and>
      okRes (vmOp (vm g) op (litVal (vset (vm g)) l) (litVal (vset (vm g)) r)) =
        Some (eraseW (litVal (vset (vm g)) (hb_compExprReduceEQ c op l r)))"
  using assms(6)
proof
  assume op: "op = EO_EQ"
  show ?thesis
    using assms(1-5,7) unfolding vmOp_def op exprOp.case
    by (elim isLitE; hypsubst)
      (auto simp: hb_compExprReduceEQ_def reduceEqTail_def hb_vmExactlyEqual_def fold_simps cmp_bytes_0 split: if_splits)
next
  assume op: "op = EO_EQUAL"
  show ?thesis
    using assms(1-5,7) unfolding vmOp_def op exprOp.case
    by (elim isLitE; hypsubst)
      (auto simp: hb_compExprReduceEQ_def reduceEqTail_def hb_vmEqual_def fold_simps split: if_splits)
qed

lemma lit_ne:
  assumes "foldEnv c g" "isLit l" "isLit r" "okLit l" "okLit r" "hb_compExprReduceNE c l r \<noteq> EOp EO_NE l r"
  shows "isLit (hb_compExprReduceNE c l r) \<and>
      okRes (vmOp (vm g) EO_NE (litVal (vset (vm g)) l) (litVal (vset (vm g)) r)) =
        Some (eraseW (litVal (vset (vm g)) (hb_compExprReduceNE c l r)))"
  using assms unfolding vmOp_def exprOp.case
  by (elim isLitE; hypsubst)
    (auto simp: hb_compExprReduceNE_def reduceEqTail_def hb_vmNotEqual_def fold_simps split: if_splits)

lemma reduce_eq_shape:
  assumes "foldEnv c g" "\<not> (isLit l \<and> isLit r)"
  shows "hb_compExprReduceEQ c op l r =
    (if l = ENil \<and> r = ENil then ELogical True
     else if l = ENil \<and> isConstNotNil r \<or> r = ENil \<and> isConstNotNil l then ELogical False else EOp op l r)"
    "hb_compExprReduceNE c l r =
    (if l = ENil \<and> r = ENil then ELogical False
     else if l = ENil \<and> isConstNotNil r \<or> r = ENil \<and> isConstNotNil l then ELogical True else EOp EO_NE l r)"
  using assms
  by (cases l; cases r; simp add: hb_compExprReduceEQ_def hb_compExprReduceNE_def reduceEqTail_def foldEnv_def)+

lemma fold_nil_nil:
  assumes "foldEnv c g" "op \<in> {EO_EQUAL, EO_EQ, EO_NE}"
  shows "evalLe c g (EOp op ENil ENil) (ELogical (op \<noteq> EO_NE))"
  using assms
  by (intro evalLe_lits [OF assms(1), of _ _ INil _ INil])
    (auto simp: vmOp_def hb_vmEqual_def hb_vmExactlyEqual_def hb_vmNotEqual_def)

lemma fold_eq:
  assumes "foldEnv c g" "okLit l" "okLit r" "op = EO_EQ \<or> op = EO_EQUAL" "okLit (hb_compExprReduceEQ c op l r)"
  shows "evalLe c g (EOp op l r) (hb_compExprReduceEQ c op l r)"
proof (cases "isLit l \<and> isLit r")
  case True
  then show ?thesis
    using lit_eq [OF assms(1) _ _ assms(2,3,4)] assms by (intro evalLe_fold) auto
next
  case False
  then show ?thesis
    using fold_nil_nil [OF assms(1), of op] fold_nil [OF assms(1-3), of op] assms(4)
    unfolding reduce_eq_shape(1) [OF assms(1) False] by (auto split: if_splits)
qed

lemma fold_ne:
  assumes "foldEnv c g" "okLit l" "okLit r" "okLit (hb_compExprReduceNE c l r)"
  shows "evalLe c g (EOp EO_NE l r) (hb_compExprReduceNE c l r)"
proof (cases "isLit l \<and> isLit r")
  case True
  then show ?thesis
    using lit_ne [OF assms(1) _ _ assms(2,3)] assms by (intro evalLe_fold) auto
next
  case False
  then show ?thesis
    using fold_nil_nil [OF assms(1), of EO_NE] fold_nil [OF assms(1-3), of EO_NE]
    unfolding reduce_eq_shape(2) [OF assms(1) False] by (auto split: if_splits)
qed

subsection \<open>Logical operators, negation and \<open>IIF\<close>\<close>

lemma okRes_ELogical [simp]: "okRes (exprPush c g (ELogical b)) = Some (ILogical b)"
  by simp

lemma okRes_vmOp_logical:
  "okRes (vmOp env EO_AND (ILogical a) (ILogical b)) = Some (ILogical (a \<and> b))"
  "okRes (vmOp env EO_OR (ILogical a) (ILogical b)) = Some (ILogical (a \<or> b))"
  by (simp_all add: vmOp_def hb_vmAnd_def hb_vmOr_def)

lemma logical_shape:
  obtains (both) a b where "l = ELogical a" "r = ELogical b"
  | (left) a where "l = ELogical a" "\<not> isLogicalConst r"
  | (right) b where "\<not> isLogicalConst l" "r = ELogical b"
  | (none) "\<not> isLogicalConst l" "\<not> isLogicalConst r"
  by (metis isLogicalConst.elims(2))

lemma reduce_logical_shape:
  assumes "foldEnv c g"
  shows "\<not> isLogicalConst r \<Longrightarrow> hb_compExprReduceAnd c (ELogical a) r =
      (if supShortcuts c then (if a then r else ELogical False) else EOp EO_AND (ELogical a) r)"
    "\<not> isLogicalConst r \<Longrightarrow> hb_compExprReduceOr c (ELogical a) r =
      (if supShortcuts c then (if a then ELogical True else r) else EOp EO_OR (ELogical a) r)"
    "\<not> isLogicalConst l \<Longrightarrow> hb_compExprReduceAnd c l (ELogical b) =
      (if supShortcuts c then (if b then l else ELogical False) else EOp EO_AND l (ELogical b))"
    "\<not> isLogicalConst l \<Longrightarrow> hb_compExprReduceOr c l (ELogical b) =
      (if supShortcuts c then (if b then ELogical True else l) else EOp EO_OR l (ELogical b))"
    "\<not> isLogicalConst l \<Longrightarrow> \<not> isLogicalConst r \<Longrightarrow> hb_compExprReduceAnd c l r = EOp EO_AND l r"
    "\<not> isLogicalConst l \<Longrightarrow> \<not> isLogicalConst r \<Longrightarrow> hb_compExprReduceOr c l r = EOp EO_OR l r"
  using assms
  by (cases l; cases r; simp add: hb_compExprReduceAnd_def hb_compExprReduceOr_def foldEnv_def)+

lemma fold_and:
  assumes "foldEnv c g"
  shows "evalLe c g (EOp EO_AND l r) (hb_compExprReduceAnd c l r)"
proof (cases l r rule: logical_shape)
  case (both a b)
  then show ?thesis
    by (simp add: evalLe_def okRes_EOp [OF assms] okRes_vmOp_logical hb_compExprReduceAnd_def del: exprPush.simps(15))
next
  case (left a)
  then show ?thesis
    by (simp add: evalLe_def okRes_EOp [OF assms] reduce_logical_shape [OF assms] del: exprPush.simps(15))
next
  case (right b)
  then show ?thesis
    by (auto simp: evalLe_def okRes_EOp [OF assms] reduce_logical_shape [OF assms] simp del: exprPush.simps(15)
        split: option.splits HB_ITEM.splits if_splits)
qed (simp add: reduce_logical_shape [OF assms])

lemma fold_or:
  assumes "foldEnv c g"
  shows "evalLe c g (EOp EO_OR l r) (hb_compExprReduceOr c l r)"
proof (cases l r rule: logical_shape)
  case (both a b)
  then show ?thesis
    by (simp add: evalLe_def okRes_EOp [OF assms] okRes_vmOp_logical hb_compExprReduceOr_def del: exprPush.simps(15))
next
  case (left a)
  then show ?thesis
    by (simp add: evalLe_def okRes_EOp [OF assms] reduce_logical_shape [OF assms] del: exprPush.simps(15))
next
  case (right b)
  then show ?thesis
    by (auto simp: evalLe_def okRes_EOp [OF assms] reduce_logical_shape [OF assms] simp del: exprPush.simps(15)
        split: option.splits HB_ITEM.splits if_splits)
qed (simp add: reduce_logical_shape [OF assms])

lemma fold_not:
  assumes "foldEnv c g" "okLit e"
  shows "evalLe c g (ENot e) (hb_compExprUseNot_reduce c e) \<and> okLit (hb_compExprUseNot_reduce c e)"
  using assms by (cases e) (auto simp: hb_compExprUseNot_reduce_def foldEnv_def evalLe_def bindR_def hb_vmNot_def)

lemma fold_negate:
  assumes "foldEnv c g" "okLit e" "case e of ENumeric (NLong n) _ _ \<Rightarrow> n \<noteq> 2 ^ 31 | _ \<Rightarrow> True"
  shows "evalLe c g (ENegate e) (hb_compExprReduceNegate c e) \<and> okLit (hb_compExprReduceNegate c e)"
proof (cases e)
  case (ENumeric n w d)
  show ?thesis
  proof (cases n)
    case (NLong l)
    then have i: "is_int64 l" "l \<noteq> 2 ^ 31" using assms ENumeric by simp_all
    show ?thesis
    proof (cases "l < - int64_max")
      case True
      then have l: "\<not> is_int32 l" "\<not> (-32768 \<le> l \<and> l \<le> 32767)" by (auto simp: is_int32_def c_defs)
      show ?thesis unfolding ENumeric NLong using True l(1) 
        by (simp add: hb_compExprReduceNegate_def evalLe_def okRes_bind_negate pushLong_erase hb_vmNegate_def Let_def litDec_def
            HB_DEFAULT_DECIMALS_def)
    next
      case False
      then have "is_int64 (- l)" using i(1) by (auto simp: is_int64_def c_defs)
      moreover have "\<not> l < - int32_max \<Longrightarrow> is_int32 l \<Longrightarrow> is_int32 (- l)"
        "l < - int32_max \<Longrightarrow> is_int32 l \<Longrightarrow> \<not> is_int32 (- l)" "\<not> is_int32 l \<Longrightarrow> \<not> is_int32 (- l)"
        using i(2) by (auto simp: is_int32_def c_defs)
      ultimately show ?thesis unfolding ENumeric NLong using False
        by (auto simp: hb_compExprReduceNegate_def evalLe_def okRes_bind_negate pushLong_erase hb_vmNegate_def)
    qed
  next
    case (NDouble x)
    with ENumeric show ?thesis using assms(2)
      by (simp add: hb_compExprReduceNegate_def evalLe_def okRes_bind_negate hb_vmNegate_def Let_def)
  qed
qed (use assms(1) in \<open>simp_all add: hb_compExprReduceNegate_def foldEnv_def\<close>)

lemma fold_iif:
  assumes "okLit e2" "okLit e3"
  shows "evalLe c g (EIIF e1 e2 e3) (hb_compExprReduceIIF e1 e2 e3) \<and> okLit (hb_compExprReduceIIF e1 e2 e3)"
  using assms by (cases e1) (auto simp: hb_compExprReduceIIF_def evalLe_def bindR_def hb_vmPopLogical_def)

lemma fold_op:
  assumes "foldEnv c g" "okLit l" "okLit r" "nodeFits op l r" "reduceOp c op l r = Some e" "okLit e"
  shows "evalLe c g (EOp op l r) e"
  using assms
  by (cases op) (auto simp: reduceOp_def intro: fold_and fold_or fold_eq fold_ne fold_in fold_lt fold_gt fold_le fold_ge
      fold_plus fold_minus fold_mult fold_div fold_mod fold_power)

lemma exprReduce_refines:
  assumes "foldEnv c g" "foldFits c e"
  shows "\<exists>e'. exprReduce c e = Some e' \<and> okLit e' \<and> evalLe c g e e'"
  using assms(2)
proof (induction e)
  case (ENot e)
  then obtain e' where e: "exprReduce c e = Some e'" "okLit e'" "evalLe c g e e'" by auto
  from evalLe_trans [OF evalLe_ENot [OF assms(1) e(3)]] fold_not [OF assms(1) e(2)] e(1)
  show ?case by simp
next
  case (ENegate e)
  then obtain e' where e: "exprReduce c e = Some e'" "okLit e'" "evalLe c g e e'" by auto
  have "case e' of ENumeric (NLong n) _ _ \<Rightarrow> n \<noteq> 2 ^ 31 | _ \<Rightarrow> True" using ENegate.prems e(1) by simp
  from evalLe_trans [OF evalLe_ENegate [OF e(3)]] fold_negate [OF assms(1) e(2) this] e(1)
  show ?case by simp
next
  case (EIIF e1 e2 e3)
  then obtain d1 d2 d3 where 1: "exprReduce c e1 = Some d1" "evalLe c g e1 d1"
    and 2: "exprReduce c e2 = Some d2" "okLit d2" "evalLe c g e2 d2"
    and 3: "exprReduce c e3 = Some d3" "okLit d3" "evalLe c g e3 d3" by auto
  from evalLe_trans [OF evalLe_EIIF [OF 1(2) 2(3) 3(3)]] fold_iif [OF 2(2) 3(2), of c g d1] 1(1) 2(1) 3(1)
  show ?case by simp
next
  case (EOp op l r)
  then obtain l' r' where l: "exprReduce c l = Some l'" "okLit l'" "evalLe c g l l'"
    and r: "exprReduce c r = Some r'" "okLit r'" "evalLe c g r r'" by auto
  obtain e where e: "nodeFits op l' r'" "reduceOp c op l' r' = Some e" "okLit e"
    using EOp.prems l(1) r(1) by (auto split: option.splits)
  have "evalLe c g (EOp op l r) e"
    by (rule evalLe_trans [OF evalLe_EOp [OF assms(1) l(3) r(3)] fold_op [OF assms(1) l(2) r(2) e]])
  with l(1) r(1) e(2,3) show ?case by simp
qed simp_all

subsection \<open>Quotients and remainders of integers\<close>

text \<open>Folding an integer remainder or an exact quotient gives an integer, the machine gives a \<open>double\<close> with
  the decimals of \<open>SET DECIMALS\<close>: the two are the same number but not the same item. \<open>valFits\<close> adds
  these to the fragment where nothing but the value of the whole expression depends on them: as its
  root, or in the branches of an \<open>IIF\<close> there. Left out are a zero divisor, which \<open>nodeFits\<close>
  has, quotients of numbers beyond 2^53, and the remainder that stops the compiler.\<close>

fun intQuot :: "exprOp \<Rightarrow> HB_EXPR \<Rightarrow> HB_EXPR \<Rightarrow> bool" where
  "intQuot op (ENumeric (NLong a) _ _) (ENumeric (NLong b) _ _) =
     (b \<noteq> 0 \<and> (op = EO_MOD \<and> \<not> (a = int64_min \<and> b = -1) \<or> op = EO_DIV \<and> \<bar>a\<bar> \<le> 2 ^ 53 \<and> \<bar>b\<bar> \<le> 2 ^ 53))"
| "intQuot op l r = False"

fun valFits :: "compParam \<Rightarrow> HB_EXPR \<Rightarrow> bool" where
  "valFits c (EIIF e1 e2 e3) = (foldFits c e1 \<and> valFits c e2 \<and> valFits c e3)"
| "valFits c (EOp op l r) =
     (foldFits c (EOp op l r) \<or>
      foldFits c l \<and> foldFits c r \<and>
      (case (exprReduce c l, exprReduce c r) of (Some l', Some r') \<Rightarrow> intQuot op l' r' | _ \<Rightarrow> False))"
| "valFits c e = foldFits c e"

definition sameNumber :: "HB_ITEM \<Rightarrow> HB_ITEM \<Rightarrow> bool" where
  "sameNumber v v' \<longleftrightarrow>
     eraseW v' = eraseW v \<or> HB_IS_NUMERIC v \<and> HB_IS_NUMERIC v' \<and> hb_itemGetND v' = hb_itemGetND v"

definition numLe :: "compParam \<Rightarrow> pushEnv \<Rightarrow> HB_EXPR \<Rightarrow> HB_EXPR \<Rightarrow> bool" where
  "numLe c g e e' \<longleftrightarrow> (\<forall>v. exprPush c g e = Inr v \<longrightarrow> (\<exists>v'. exprPush c g e' = Inr v' \<and> sameNumber v v'))"

lemma evalLe_D: "evalLe c g e e' \<Longrightarrow> exprPush c g e = Inr v \<Longrightarrow> \<exists>v'. exprPush c g e' = Inr v' \<and> eraseW v' = eraseW v"
  by (cases "exprPush c g e'") (auto simp: evalLe_def)

lemma evalLe_numLe: "evalLe c g e e' \<Longrightarrow> numLe c g e e'"
  using evalLe_D by (fastforce simp: numLe_def sameNumber_def)

lemma sameNumber_erase: "eraseW u = eraseW v \<Longrightarrow> sameNumber u w \<Longrightarrow> sameNumber v w"
  unfolding sameNumber_def by (metis eraseW_sel(2) eraseW_sel(16))

lemma evalLe_numLe_trans:
  assumes "evalLe c g e d" "numLe c g d e'"
  shows "numLe c g e e'"
  unfolding numLe_def
proof (intro allI impI)
  fix v assume "exprPush c g e = Inr v"
  then obtain u where u: "exprPush c g d = Inr u" "eraseW u = eraseW v" using evalLe_D [OF assms(1)] by blast
  then show "\<exists>v'. exprPush c g e' = Inr v' \<and> sameNumber v v'"
    using assms(2) sameNumber_erase [OF u(2)] unfolding numLe_def by blast
qed

lemma ddiv_exact:
  assumes "\<bar>a\<bar> \<le> 2 ^ 53" "\<bar>b\<bar> \<le> 2 ^ 53" "a smod b = 0" "b \<noteq> 0"
  shows "ddiv (dbl_of_int a) (dbl_of_int b) = dbl_of_int (a sdiv b)"
proof -
  have "a = a sdiv b * b" using assms(3) sdiv_mult_smod_eq [of a b] by simp
  then have "(of_int a / of_int b :: rat) = of_int (a sdiv b)"
    using assms(4) by (metis of_int_0_eq_iff of_int_mult nonzero_mult_div_cancel_right)
  then show ?thesis using assms(4) unfolding dbl_of_int_exact [OF assms(1)] dbl_of_int_exact [OF assms(2)]
    by (simp add: dbl_of_int_def)
qed

text \<open>The node of two integer literals: what the machine computes and what the compiler folds.\<close>

lemma divmod_fold:
  assumes "foldEnv c g" "intQuot op l r"
  shows "\<exists>e'. reduceOp c op l r = Some e' \<and> numLe c g (EOp op l r) e'"
proof -
  obtain a wa da b wb db where lr: "l = ENumeric (NLong a) wa da" "r = ENumeric (NLong b) wb db" "b \<noteq> 0"
    and op: "op = EO_MOD \<and> \<not> (a = int64_min \<and> b = -1) \<or> op = EO_DIV \<and> \<bar>a\<bar> \<le> 2 ^ 53 \<and> \<bar>b\<bar> \<le> 2 ^ 53"
    using assms(2) by (elim intQuot.elims(2)) blast
  from op show ?thesis
  proof
    assume m: "op = EO_MOD \<and> \<not> (a = int64_min \<and> b = -1)"
    then have "reduceOp c op l r = Some (ENumeric (NLong (a smod b)) HB_DEFAULT_WIDTH 0)"
      using lr by (simp add: reduceOp_def hb_compExprReduceMod_def)
    moreover have "exprPush c g (EOp op l r) = Inr (hb_itemPutND (vset (vm g)) (dbl_of_int (a smod b)))"
      using m lr by (simp add: bindR_def vmOp_def hb_vmModulus_def Let_def)
    ultimately show ?thesis by (simp add: numLe_def sameNumber_def hb_itemPutND_def)
  next
    assume d: "op = EO_DIV \<and> \<bar>a\<bar> \<le> 2 ^ 53 \<and> \<bar>b\<bar> \<le> 2 ^ 53"
    then have s: "\<not> (a = int64_min \<and> b = -1)" by (auto simp: c_defs)
    have "exprPush c g (EOp op l r) = Inr (hb_itemPutND (vset (vm g)) (ddiv (dbl_of_int a) (dbl_of_int b)))"
      using d lr by (simp add: bindR_def vmOp_def hb_vmDivide_def Let_def)
    moreover have "reduceOp c op l r = Some (if a smod b = 0 then ENumeric (NLong (a sdiv b)) HB_DEFAULT_WIDTH 0
        else ENumeric (NDouble (ddiv (dbl_of_int a) (dbl_of_int b))) HB_DEFAULT_WIDTH HB_DEFAULT_DECIMALS)"
      using d lr s by (simp add: reduceOp_def hb_compExprReduceDiv_def)
    ultimately show ?thesis
      using ddiv_exact [of a b] d lr(3) by (simp add: numLe_def sameNumber_def hb_itemPutND_def)
  qed
qed

lemma numLe_EIIF:
  assumes "evalLe c g e1 d1" "numLe c g e2 d2" "numLe c g e3 d3"
  shows "numLe c g (EIIF e1 e2 e3) (hb_compExprReduceIIF d1 d2 d3)"
  unfolding numLe_def
proof (intro allI impI)
  fix v assume "exprPush c g (EIIF e1 e2 e3) = Inr v"
  then obtain b where b: "exprPush c g e1 = Inr (ILogical b)" "exprPush c g (if b then e2 else e3) = Inr v"
    by (auto simp: bindR_def hb_vmPopLogical_def split: sum.splits HB_ITEM.splits if_splits)
  obtain u where u: "exprPush c g d1 = Inr u" "eraseW u = ILogical b" using evalLe_D [OF assms(1) b(1)] by auto
  then have d1: "exprPush c g d1 = Inr (ILogical b)" by (cases u) auto
  have "numLe c g (if b then e2 else e3) (if b then d2 else d3)" using assms(2,3) by simp
  then obtain v' where v': "exprPush c g (if b then d2 else d3) = Inr v'" "sameNumber v v'"
    using b(2) unfolding numLe_def by blast
  have "exprPush c g (hb_compExprReduceIIF d1 d2 d3) = exprPush c g (if b then d2 else d3)"
    using d1 by (cases d1) (auto simp: hb_compExprReduceIIF_def bindR_def hb_vmPopLogical_def)
  then show "\<exists>v'. exprPush c g (hb_compExprReduceIIF d1 d2 d3) = Inr v' \<and> sameNumber v v'" using v' by simp
qed

lemma foldFits_numbers: "foldEnv c g \<Longrightarrow> foldFits c e \<Longrightarrow> \<exists>e'. exprReduce c e = Some e' \<and> numLe c g e e'"
  using exprReduce_refines evalLe_numLe by blast

lemma exprReduce_numbers:
  assumes "foldEnv c g" "valFits c e"
  shows "\<exists>e'. exprReduce c e = Some e' \<and> numLe c g e e'"
  using assms(2)
proof (induction e)
  case (EIIF e1 e2 e3)
  then obtain d2 d3 where d: "exprReduce c e2 = Some d2" "numLe c g e2 d2" "exprReduce c e3 = Some d3" "numLe c g e3 d3"
    by auto
  obtain d1 where "exprReduce c e1 = Some d1" "evalLe c g e1 d1"
    using exprReduce_refines [OF assms(1), of e1] EIIF.prems by auto
  then show ?case using d numLe_EIIF by simp
next
  case (EOp op l r)
  show ?case
  proof (cases "foldFits c (EOp op l r)")
    case True
    then show ?thesis by (rule foldFits_numbers [OF assms(1)])
  next
    case False
    with EOp.prems have f: "foldFits c l" "foldFits c r"
      and q: "case (exprReduce c l, exprReduce c r) of (Some l', Some r') \<Rightarrow> intQuot op l' r' | _ \<Rightarrow> False"
      unfolding valFits.simps by blast+
    from exprReduce_refines [OF assms(1) f(1)] exprReduce_refines [OF assms(1) f(2)] obtain l' r' where
      l: "exprReduce c l = Some l'" "evalLe c g l l'" and r: "exprReduce c r = Some r'" "evalLe c g r r'" by blast
    have "intQuot op l' r'" using q l(1) r(1) by simp
    from divmod_fold [OF assms(1) this] obtain e' where
      "reduceOp c op l' r' = Some e'" "numLe c g (EOp op l' r') e'" by blast
    then show ?thesis
      using l r evalLe_numLe_trans [OF evalLe_EOp [OF assms(1) l(2) r(2)]] by auto
  qed
qed (unfold valFits.simps, (rule foldFits_numbers [OF assms(1)], assumption)+)

subsection \<open>Properties\<close>

text \<open>C5. Constant folding preserves the value of an expression, in Harbour mode without the extended
  optimisation (the switch \<open>-ko\<close>, off by default). When the code of the expression as written runs without
  an error, the folded tree exists and its code leaves the same number, string, date or logical.
  In the fragment \<open>foldFits\<close> it is the same item: same type, same number of decimals, only the display width may
  differ. The fragment has every operator on every type of operand; the corners it leaves out are literals that
  fold to a 64 bit overflow or to a date out of range, products of integers outside 32 bits with a factor or a value
  beyond 2^53, the negation of 2^31, sums, differences and products of two decimal numbers with 255 decimals (folded
  quotients and powers have this number) or more, strings with \<open>&\<close> or too long to be joined, the difference of two
  dates or timestamps of the same time of the day, and remainders and exact quotients of integer
  literals. The last are in \<open>valFits\<close>, at the root of the expression or of a branch of an \<open>IIF\<close> there: the
  compiler folds them to an integer, the machine computes a \<open>double\<close>, and the two are the same number.\<close>

theorem exprReduce_sound:
  assumes "foldEnv c g" "valFits c e"
  shows "\<exists>e'. exprReduce c e = Some e' \<and>
    (\<forall>v. exprPush c g e = Inr v \<longrightarrow>
      (\<exists>v'. exprPush c g e' = Inr v' \<and> sameNumber v v' \<and> (foldFits c e \<longrightarrow> eraseW v' = eraseW v)))"
proof -
  obtain e' where e: "exprReduce c e = Some e'" "numLe c g e e'" using exprReduce_numbers [OF assms] by blast
  have "foldFits c e \<Longrightarrow> evalLe c g e e'" using exprReduce_refines [OF assms(1)] e(1) by fastforce
  then have "foldFits c e \<Longrightarrow> exprPush c g e = Inr v \<Longrightarrow> exprPush c g e' = Inr v' \<Longrightarrow> eraseW v' = eraseW v" for v v'
    using evalLe_D by fastforce
  then show ?thesis using e unfolding numLe_def by blast
qed

definition comp_default :: compParam where
  "comp_default = \<lparr>supHarbour = True, supExtOpt = False, supMacroText = True, supShortcuts = True,
     modeCompiler = True, compPow = (\<lambda>_ _. DFin 1)\<rparr>"

definition env_plain :: pushEnv where
  "env_plain = \<lparr>vm = \<lparr>vset = set_default, hasOperator = (\<lambda>_ _. False), operatorCall = (\<lambda>_ _ _. None),
     hashScan = (\<lambda>_ _. False), hashLen = (\<lambda>_. 0), cpow = (\<lambda>_ _. DFin 1)\<rparr>,
     varItem = (\<lambda>_. IInteger 7 10), macroText = (\<lambda>s. s)\<rparr>"

lemma foldEnv_plain: "foldEnv comp_default env_plain"
  by (simp add: foldEnv_def comp_default_def env_plain_def widthBlind_def)

text \<open>The witness folds \<open>(2 + 3) * x > 1 .AND. "b" $ "abc"\<close> and \<open>IIF( x > 1, -7 % 3, 6 / 3 )\<close>.\<close>

theorem exprReduce_sound_witness:
  defines "n \<equiv> \<lambda>i. ENumeric (NLong i) 10 0"
  defines "e1 \<equiv> EOp EO_AND (EOp EO_GT (EOp EO_MULT (EOp EO_PLUS (n 2) (n 3)) (EVariable 0)) (n 1))
    (EOp EO_IN (EString ''b'') (EString ''abc''))"
  defines "e2 \<equiv> EIIF (EOp EO_GT (EVariable 0) (n 1)) (EOp EO_MOD (ENegate (n 7)) (n 3)) (EOp EO_DIV (n 6) (n 3))"
  shows "(\<exists>e'. exprReduce comp_default e1 = Some e' \<and>
    (\<forall>v. exprPush comp_default env_plain e1 = Inr v \<longrightarrow> (\<exists>v'. exprPush comp_default env_plain e' = Inr v' \<and> sameNumber v v'))) \<and>
    (\<exists>e'. exprReduce comp_default e2 = Some e' \<and>
    (\<forall>v. exprPush comp_default env_plain e2 = Inr v \<longrightarrow> (\<exists>v'. exprPush comp_default env_plain e' = Inr v' \<and> sameNumber v v')))"
proof -
  have l: "longResult 5 5 = ENumeric (NLong 5) HB_DEFAULT_WIDTH 0"
    using longResult_exact [of 5] by (simp add: is_int64_def c_defs)
  have "valFits comp_default e1"
    unfolding e1_def n_def using l
    by (simp add: reduceOp_def hb_compExprReducePlus_def hb_compExprReduceMult_def hb_compExprReduceGT_def
        hb_compExprReduceIN_def hasMacro_plain hb_compExprReduceAnd_def comp_default_def is_int64_def c_defs)
  moreover have "valFits comp_default e2"
  proof -
    have r: "exprReduce comp_default (ENegate (n 7)) = Some (ENumeric (NLong (-7)) HB_DEFAULT_WIDTH 0)" "exprReduce comp_default (n k) = Some (n k)" for k
      by (simp_all add: n_def hb_compExprReduceNegate_def c_defs)
    have f: "foldFits comp_default (ENegate (n 7))" "foldFits comp_default (n 3)" "foldFits comp_default (n 6)"
      by (simp_all add: n_def is_int64_def c_defs)
    have "foldFits comp_default (EOp EO_GT (EVariable 0) (n 1))"
      by (simp add: n_def reduceOp_def hb_compExprReduceGT_def is_int64_def c_defs)
    then show ?thesis unfolding e2_def valFits.simps using r f by (simp add: n_def c_defs)
  qed
  moreover have "\<exists>e'. exprReduce comp_default e = Some e' \<and>
    (\<forall>v. exprPush comp_default env_plain e = Inr v \<longrightarrow> (\<exists>v'. exprPush comp_default env_plain e' = Inr v' \<and> sameNumber v v'))" if "valFits comp_default e" for e
    using exprReduce_sound [OF foldEnv_plain that] by blast
  ultimately show ?thesis by blast
qed

end
