(* ===== verification/HbGcList.thy ===== *)
theory HbGcList
  imports HbGc
begin

text \<open>
  The rings of blocks of \<open>HbGc\<close> as lists: \<open>inList s l xs\<close> says that the pointers of the blocks
  \<open>xs\<close> form the ring whose head is the list \<open>l\<close>. Linking appends, unlinking removes, and neither
  touches the other rings.
\<close>

subsection \<open>Rings\<close>

definition linked :: "(addr \<Rightarrow> addr) \<Rightarrow> (addr \<Rightarrow> addr) \<Rightarrow> addr \<Rightarrow> addr \<Rightarrow> bool" where
  "linked n p x y \<longleftrightarrow> n x = y \<and> p y = x"

definition ring :: "(addr \<Rightarrow> addr) \<Rightarrow> (addr \<Rightarrow> addr) \<Rightarrow> addr list \<Rightarrow> bool" where
  "ring n p xs \<longleftrightarrow> distinct xs \<and> (xs \<noteq> [] \<longrightarrow> successively (linked n p) (xs @ [hd xs]))"

lemma ring_Nil [simp]: "ring n p []"
  by (simp add: ring_def)

lemma ring_Cons:
  "ring n p (x # xs) \<longleftrightarrow> x \<notin> List.set xs \<and> distinct xs \<and> successively (linked n p) (x # xs @ [x])"
  by (simp add: ring_def)

lemma ring_distinct: "ring n p xs \<Longrightarrow> distinct xs"
  by (simp add: ring_def)

lemma ring_rotate1:
  assumes "ring n p (x # xs)"
  shows "ring n p (xs @ [x])"
proof (cases xs)
  case (Cons y ys)
  then have "linked n p x y" "successively (linked n p) ((y # ys) @ [x])" using assms by (simp_all add: ring_def)
  then have "successively (linked n p) (((y # ys) @ [x]) @ [y])"
    using successively_append_iff [of "linked n p" "(y # ys) @ [x]" "[y]"] by simp
  then show ?thesis using assms Cons by (simp add: ring_def)
qed (use assms in simp)

lemma ring_swap: "ring n p (xs @ ys) \<Longrightarrow> ring n p (ys @ xs)"
proof (induction xs arbitrary: ys)
  case (Cons x xs)
  then have "ring n p (xs @ (ys @ [x]))" using ring_rotate1 [of n p x "xs @ ys"] by simp
  from Cons.IH [OF this] show ?case by simp
qed simp

lemma successively_linked_cong:
  assumes "\<And>x. x \<in> List.set (butlast xs) \<Longrightarrow> n' x = n x" "\<And>y. y \<in> List.set (tl xs) \<Longrightarrow> p' y = p y"
  shows "successively (linked n' p') xs \<longleftrightarrow> successively (linked n p) xs"
  using assms
proof (induction xs rule: induct_list012)
  case (3 x y zs)
  then have "successively (linked n' p') (y # zs) \<longleftrightarrow> successively (linked n p) (y # zs)"
    by (cases zs) auto
  moreover have "linked n' p' x y \<longleftrightarrow> linked n p x y" using 3 by (simp add: linked_def)
  ultimately show ?case by simp
qed simp_all

lemma ring_cong:
  assumes "ring n p xs" "\<And>x. x \<in> List.set xs \<Longrightarrow> n' x = n x" "\<And>x. x \<in> List.set xs \<Longrightarrow> p' x = p x"
  shows "ring n' p' xs"
proof (cases xs)
  case (Cons y ys)
  have "successively (linked n' p') (xs @ [hd xs]) \<longleftrightarrow> successively (linked n p) (xs @ [hd xs])"
    by (rule successively_linked_cong) (use assms(2,3) Cons in \<open>auto simp: butlast_append\<close>)
  with assms(1) show ?thesis by (simp add: ring_def)
qed simp

lemma ring_first:
  assumes "ring n p (x # xs)"
  shows "n x = hd (xs @ [x])" "p x = last (x # xs)"
proof -
  show "n x = hd (xs @ [x])" using assms by (cases xs) (auto simp: ring_def linked_def)
  have "successively (linked n p) ((x # xs) @ [x])" using assms by (simp add: ring_def)
  then show "p x = last (x # xs)" unfolding successively_append_iff by (simp add: linked_def)
qed

lemma ring_append:
  assumes "ring n p (x # xs)" "a \<notin> List.set (x # xs)"
  defines "l \<equiv> last (x # xs)"
  shows "ring (n(a := x, l := a)) (p(a := l, x := a)) (x # xs @ [a])"
proof -
  define n' where "n' = n(a := x, l := a)"
  define p' where "p' = p(a := l, x := a)"
  have d: "distinct (x # xs)" using assms(1) by (simp add: ring_Cons)
  have s: "successively (linked n p) (x # xs)"
    using assms(1) successively_append_iff [of "linked n p" "x # xs" "[x]"] by (simp add: ring_Cons)
  have "l \<notin> List.set (butlast (x # xs))" using d unfolding l_def
    by (metis append_butlast_last_id distinct_butlast list.distinct(1) not_distinct_conv_prefix)
  moreover have "a \<notin> List.set (butlast (x # xs))" using assms(2) by (meson in_set_butlastD)
  ultimately have "successively (linked n' p') (x # xs)"
    by (intro successively_linked_cong [THEN iffD2, OF _ _ s]) (use d assms(2) in \<open>auto simp: n'_def p'_def\<close>)
  moreover have "linked n' p' l a" "linked n' p' a x"
    using assms(2) by (auto simp: linked_def n'_def p'_def l_def)
  ultimately have "successively (linked n' p') ((x # xs) @ [a, x])"
    unfolding successively_append_iff by (simp add: l_def)
  then show ?thesis using d assms(2) by (simp add: ring_Cons n'_def p'_def)
qed

lemma ring_remove_first:
  assumes "ring n p (a # xs)"
  shows "ring (n(p a := n a)) (p(n a := p a)) xs"
proof (cases xs)
  case (Cons y ys)
  define n' where "n' = n(p a := n a)"
  define p' where "p' = p(n a := p a)"
  have f: "n a = y" "p a = last (y # ys)" using ring_first [OF assms] Cons by simp_all
  have d: "distinct (y # ys)" using assms Cons by (simp add: ring_Cons)
  have s: "successively (linked n p) (y # ys)"
    using assms Cons successively_append_iff [of "linked n p" "y # ys" "[a]"] by (simp add: ring_Cons)
  have "last (y # ys) \<notin> List.set (butlast (y # ys))" using d
    by (metis append_butlast_last_id distinct_butlast list.distinct(1) not_distinct_conv_prefix)
  then have "successively (linked n' p') (y # ys)"
    by (intro successively_linked_cong [THEN iffD2, OF _ _ s]) (use d f in \<open>auto simp: n'_def p'_def\<close>)
  moreover have "linked n' p' (last (y # ys)) y" using f by (simp add: linked_def n'_def p'_def)
  ultimately have "successively (linked n' p') ((y # ys) @ [y])" unfolding successively_append_iff by simp
  then show ?thesis using d Cons by (simp add: ring_Cons n'_def p'_def)
qed simp

lemma ring_remove:
  assumes "ring n p xs" "a \<in> List.set xs"
  shows "ring (n(p a := n a)) (p(n a := p a)) (remove1 a xs)"
proof -
  obtain ys zs where xs: "xs = ys @ a # zs" "a \<notin> List.set ys" using split_list_first [OF assms(2)] by blast
  have "ring n p (a # zs @ ys)" using ring_swap [of n p ys "a # zs"] assms(1) xs by simp
  from ring_swap [OF ring_remove_first [OF this]] xs show ?thesis by (simp add: remove1_append)
qed

lemma ring_prev_next_in:
  assumes "ring n p xs" "a \<in> List.set xs"
  shows "n a \<in> List.set xs" "p a \<in> List.set xs"
proof -
  obtain ys zs where xs: "xs = ys @ a # zs" using split_list [OF assms(2)] by blast
  have r: "ring n p (a # zs @ ys)" using ring_swap [of n p ys "a # zs"] assms(1) xs by simp
  have "n a \<in> List.set (a # zs @ ys)" "p a \<in> List.set (a # zs @ ys)"
    unfolding ring_first [OF r] by (cases "zs @ ys"; auto)+ 
  then show "n a \<in> List.set xs" "p a \<in> List.set xs" using xs by auto
qed

subsection \<open>Lists\<close>

definition headOf :: "'a list \<Rightarrow> 'a option" where
  "headOf xs = (case xs of [] \<Rightarrow> None | x # _ \<Rightarrow> Some x)"

lemma headOf_simps [simp]: "headOf [] = None" "headOf (x # xs) = Some x"
  by (simp_all add: headOf_def)

definition inList :: "gcState \<Rightarrow> gcList \<Rightarrow> addr list \<Rightarrow> bool" where
  "inList s l xs \<longleftrightarrow> ring (pNext s) (pPrev s) xs \<and> listHead l s = headOf xs"

lemma setHead_sel [simp]:
  "pNext (setHead l h s) = pNext s" "pPrev (setHead l h s) = pPrev s" "listHead l (setHead l h s) = h"
  "l' \<noteq> l \<Longrightarrow> listHead l' (setHead l h s) = listHead l' s"
  "locked (setHead l h s) = locked s" "used (setHead l h s) = used s" "refCount (setHead l h s) = refCount s"
  "gcItems (setHead l h s) = gcItems s" "isAlloc (setHead l h s) = isAlloc s" "gcRoots (setHead l h s) = gcRoots s"
  "s_uUsedFlag (setHead l h s) = s_uUsedFlag s" "gcErrors (setHead l h s) = gcErrors s"
  "s_bCollecting (setHead l h s) = s_bCollecting s" "vmRequest (setHead l h s) = vmRequest s"
  by (cases l; simp; fail)+ (cases l; cases l'; simp; fail | cases l; simp; fail)+

lemma inList_cong:
  assumes "inList s l xs" "\<And>x. x \<in> List.set xs \<Longrightarrow> pNext s' x = pNext s x" "\<And>x. x \<in> List.set xs \<Longrightarrow> pPrev s' x = pPrev s x"
    "listHead l s' = listHead l s"
  shows "inList s' l xs"
  using assms ring_cong [of "pNext s" "pPrev s" xs "pNext s'" "pPrev s'"] by (simp add: inList_def)

lemma inList_distinct: "inList s l xs \<Longrightarrow> distinct xs"
  by (simp add: inList_def ring_def)

lemma link_sel [simp]:
  "locked (hb_gcLink l a s) = locked s" "used (hb_gcLink l a s) = used s" "refCount (hb_gcLink l a s) = refCount s"
  "gcItems (hb_gcLink l a s) = gcItems s" "isAlloc (hb_gcLink l a s) = isAlloc s" "gcRoots (hb_gcLink l a s) = gcRoots s"
  "s_uUsedFlag (hb_gcLink l a s) = s_uUsedFlag s" "gcErrors (hb_gcLink l a s) = gcErrors s"
  "s_bCollecting (hb_gcLink l a s) = s_bCollecting s" "vmRequest (hb_gcLink l a s) = vmRequest s"
  "l' \<noteq> l \<Longrightarrow> listHead l' (hb_gcLink l a s) = listHead l' s"
  by (simp add: hb_gcLink_def Let_def split: option.split; cases l'; simp)+

lemma unlink_sel [simp]:
  "locked (hb_gcUnlink l a s) = locked s" "used (hb_gcUnlink l a s) = used s" "refCount (hb_gcUnlink l a s) = refCount s"
  "gcItems (hb_gcUnlink l a s) = gcItems s" "isAlloc (hb_gcUnlink l a s) = isAlloc s" "gcRoots (hb_gcUnlink l a s) = gcRoots s"
  "s_uUsedFlag (hb_gcUnlink l a s) = s_uUsedFlag s" "gcErrors (hb_gcUnlink l a s) = gcErrors s"
  "s_bCollecting (hb_gcUnlink l a s) = s_bCollecting s" "vmRequest (hb_gcUnlink l a s) = vmRequest s"
  "l' \<noteq> l \<Longrightarrow> listHead l' (hb_gcUnlink l a s) = listHead l' s"
  by (simp add: hb_gcUnlink_def Let_def; cases l'; simp)+

lemma link_ptr:
  assumes "inList s l xs" "a \<notin> List.set xs"
  shows "pNext (hb_gcLink l a s) =
      (if xs = [] then (pNext s)(a := a) else (pNext s)(a := hd xs, last xs := a))"
    "pPrev (hb_gcLink l a s) =
      (if xs = [] then (pPrev s)(a := a) else (pPrev s)(a := last xs, hd xs := a))"
    "listHead l (hb_gcLink l a s) = headOf (xs @ [a])"
proof -
  consider "xs = []" | x ys where "xs = x # ys" by (cases xs) auto
  then have "pNext (hb_gcLink l a s) = (if xs = [] then (pNext s)(a := a) else (pNext s)(a := hd xs, last xs := a)) \<and>
    pPrev (hb_gcLink l a s) = (if xs = [] then (pPrev s)(a := a) else (pPrev s)(a := last xs, hd xs := a)) \<and>
    listHead l (hb_gcLink l a s) = headOf (xs @ [a])"
  proof cases
    case 1
    then show ?thesis using assms by (cases l) (simp_all add: inList_def hb_gcLink_def)
  next
    case 2
    then have "pPrev s x = last xs" using assms ring_first(2) [of "pNext s" "pPrev s" x ys] by (simp add: inList_def)
    with 2 show ?thesis using assms by (cases l) (simp_all add: inList_def hb_gcLink_def Let_def)
  qed
  then show "pNext (hb_gcLink l a s) = (if xs = [] then (pNext s)(a := a) else (pNext s)(a := hd xs, last xs := a))"
    "pPrev (hb_gcLink l a s) = (if xs = [] then (pPrev s)(a := a) else (pPrev s)(a := last xs, hd xs := a))"
    "listHead l (hb_gcLink l a s) = headOf (xs @ [a])" by simp_all
qed

lemma inList_link:
  assumes "inList s l xs" "a \<notin> List.set xs"
  shows "inList (hb_gcLink l a s) l (xs @ [a])"
proof (cases xs)
  case Nil
  then show ?thesis using link_ptr [OF assms] by (simp add: inList_def ring_def linked_def)
next
  case (Cons x ys)
  have "ring ((pNext s)(a := x, last xs := a)) ((pPrev s)(a := last xs, x := a)) (xs @ [a])"
    using assms ring_append [of "pNext s" "pPrev s" x ys a] Cons by (simp add: inList_def)
  then show ?thesis using link_ptr [OF assms] Cons by (simp add: inList_def)
qed

lemma inList_link_other:
  assumes "inList s l xs" "inList s l' ys" "l' \<noteq> l" "List.set xs \<inter> List.set ys = {}" "a \<notin> List.set xs" "a \<notin> List.set ys"
  shows "inList (hb_gcLink l a s) l' ys"
proof (rule inList_cong [OF assms(2)])
  fix y assume "y \<in> List.set ys"
  then have "y \<noteq> a" "xs \<noteq> [] \<Longrightarrow> y \<noteq> hd xs" "xs \<noteq> [] \<Longrightarrow> y \<noteq> last xs"
    using assms(4,6) hd_in_set [of xs] last_in_set [of xs] by blast+
  then show "pNext (hb_gcLink l a s) y = pNext s y" "pPrev (hb_gcLink l a s) y = pPrev s y"
    by (simp_all add: link_ptr [OF assms(1,5)])
qed (use assms(3) in simp)

lemma unlink_ptr:
  assumes "inList s l xs" "a \<in> List.set xs"
  shows "pNext (hb_gcUnlink l a s) = (pNext s)(pPrev s a := pNext s a)"
    "pPrev (hb_gcUnlink l a s) = (pPrev s)(pNext s a := pPrev s a)"
    "listHead l (hb_gcUnlink l a s) = headOf (remove1 a xs)"
proof -
  obtain ys zs where xs: "xs = ys @ a # zs" "a \<notin> List.set ys" using split_list_first [OF assms(2)] by blast
  have r: "ring (pNext s) (pPrev s) (a # zs @ ys)"
    using ring_swap [of "pNext s" "pPrev s" ys "a # zs"] assms(1) xs by (simp add: inList_def)
  note f = ring_first [OF r]
  have pn: "pPrev s a = a \<Longrightarrow> pNext s a = a"
    unfolding f using r by (cases "zs @ ys" rule: rev_cases) (auto simp: ring_def)
  have n: "((pNext s)(pPrev s a := pNext s a)) a = pNext s a" using pn by auto
  show "pNext (hb_gcUnlink l a s) = (pNext s)(pPrev s a := pNext s a)"
    "pPrev (hb_gcUnlink l a s) = (pPrev s)(pNext s a := pPrev s a)"
    using n by (simp_all add: hb_gcUnlink_def Let_def)
  have h: "listHead l s = headOf xs" using assms(1) by (simp add: inList_def)
  have d: "distinct xs" using inList_distinct [OF assms(1)] .
  show "listHead l (hb_gcUnlink l a s) = headOf (remove1 a xs)"
  proof (cases ys)
    case Nil
    then have "listHead l (hb_gcUnlink l a s) = (if pNext s a = a then None else Some (pNext s a))"
      using n h xs by (cases l) (simp_all add: hb_gcUnlink_def Let_def)
    then show ?thesis using f(1) Nil xs d by (cases zs) auto
  next
    case (Cons y ys')
    then show ?thesis using h xs by (cases l) (simp_all add: hb_gcUnlink_def Let_def)
  qed
qed

lemma inList_unlink:
  assumes "inList s l xs" "a \<in> List.set xs"
  shows "inList (hb_gcUnlink l a s) l (remove1 a xs)"
  using ring_remove [of "pNext s" "pPrev s" xs a] assms unlink_ptr [OF assms] by (simp add: inList_def)

lemma inList_unlink_other:
  assumes "inList s l xs" "inList s l' ys" "l' \<noteq> l" "List.set xs \<inter> List.set ys = {}" "a \<in> List.set xs"
  shows "inList (hb_gcUnlink l a s) l' ys"
proof (rule inList_cong [OF assms(2)])
  fix y assume "y \<in> List.set ys"
  moreover have "pNext s a \<in> List.set xs" "pPrev s a \<in> List.set xs"
    using ring_prev_next_in assms(1,5) by (auto simp: inList_def)
  ultimately have "y \<noteq> pNext s a" "y \<noteq> pPrev s a" using assms(4) by auto
  then show "pNext (hb_gcUnlink l a s) y = pNext s y" "pPrev (hb_gcUnlink l a s) y = pPrev s y"
    by (simp_all add: unlink_ptr [OF assms(1,5)])
qed (use assms(3) in simp)

lemma inList_step:
  assumes "inList s l (x # xs)"
  shows "pNext s x = hd (xs @ [x])" "inList (setHead l (Some (pNext s x)) s) l (xs @ [x])"
  using ring_first(1) [of "pNext s" "pPrev s" x xs] ring_rotate1 [of "pNext s" "pPrev s" x xs] assms
  by (auto simp: inList_def headOf_def split: list.split)

end
