(* ===== verification/HbGcMark.thy ===== *)
theory HbGcMark
  imports HbGcList
begin

text \<open>
  The mark phase of the collector: marking ends on every graph of blocks, cyclic ones included, and
  flips the flag of exactly the blocks that can be reached (\<open>gcMarked\<close>, \<open>gcLive\<close>).
\<close>

subsection \<open>Marking\<close>

text \<open>The blocks reached from the addresses \<open>ps\<close> through blocks that are not marked yet.\<close>

inductive_set gcMarked :: "gcState \<Rightarrow> addr list \<Rightarrow> addr set" for s ps where
  root: "p \<in> List.set ps \<Longrightarrow> isUnmarked s p \<Longrightarrow> p \<in> gcMarked s ps"
| step: "p \<in> gcMarked s ps \<Longrightarrow> q \<in> List.set (blockRefs s p) \<Longrightarrow> isUnmarked s q \<Longrightarrow> q \<in> gcMarked s ps"

definition flip :: "addr set \<Rightarrow> gcState \<Rightarrow> gcState" where
  "flip F s = s\<lparr>used := (\<lambda>p. if p \<in> F then used s p XOR HB_GC_USED_FLAG else used s p)\<rparr>"

lemma flip_sel [simp]:
  "pNext (flip F s) = pNext s" "pPrev (flip F s) = pPrev s" "locked (flip F s) = locked s"
  "refCount (flip F s) = refCount s" "gcItems (flip F s) = gcItems s" "isAlloc (flip F s) = isAlloc s"
  "s_pCurrBlock (flip F s) = s_pCurrBlock s" "s_pLockedBlock (flip F s) = s_pLockedBlock s"
  "s_pDeletedBlock (flip F s) = s_pDeletedBlock s" "s_uUsedFlag (flip F s) = s_uUsedFlag s"
  "s_bCollecting (flip F s) = s_bCollecting s" "gcRoots (flip F s) = gcRoots s" "vmRequest (flip F s) = vmRequest s"
  "gcErrors (flip F s) = gcErrors s" "used (flip F s) p = (if p \<in> F then used s p XOR HB_GC_USED_FLAG else used s p)"
  by (simp_all add: flip_def)

lemma flip_empty [simp]: "flip {} s = s"
  by (simp add: flip_def)

lemma blockRefs_cong: "gcItems s' p = gcItems s p \<Longrightarrow> blockRefs s' p = blockRefs s p"
  by (simp add: blockRefs_def)

lemma blockRefs_flip [simp]: "blockRefs (flip F s) p = blockRefs s p"
  by (simp add: blockRefs_def)

lemma blockRefs_flip_fun [simp]: "blockRefs (flip F s) = blockRefs s"
  by (simp add: fun_eq_iff)

lemma xor_flag [simp]: "x XOR HB_GC_USED_FLAG \<noteq> x"
proof
  assume "x XOR HB_GC_USED_FLAG = x"
  then have "(x XOR x) XOR HB_GC_USED_FLAG = 0" by (simp only: xor.assoc) (simp only: xor_self_eq)
  then show False by (simp add: HB_GC_USED_FLAG_def)
qed

lemma xor_flag_not_delete: "(x XOR HB_GC_USED_FLAG) AND NOT HB_GC_DELETE = (x AND NOT HB_GC_DELETE) XOR HB_GC_USED_FLAG"
  by (simp add: HB_GC_USED_FLAG_def HB_GC_DELETE_def bit_eq_iff bit_simps) (auto simp: bit_numeral_iff)

lemma isUnmarked_flip:
  assumes "\<And>p. p \<in> F \<Longrightarrow> isUnmarked s p"
  shows "isUnmarked (flip F s) p \<longleftrightarrow> isUnmarked s p \<and> p \<notin> F"
  using assms [of p] xor_flag by (auto simp: isUnmarked_def xor_flag_not_delete)

lemma gcMarked_unmarked: "p \<in> gcMarked s ps \<Longrightarrow> isUnmarked s p"
  by (cases rule: gcMarked.cases)

lemma gcMarked_mono:
  assumes "p \<in> gcMarked s ps" "List.set ps \<subseteq> List.set qs"
  shows "p \<in> gcMarked s qs"
  using assms(1) by induction (use assms(2) in \<open>auto intro: gcMarked.intros\<close>)

lemma gcMarked_Nil [simp]: "gcMarked s [] = {}"
proof -
  have "p \<in> gcMarked s [] \<Longrightarrow> False" for p by (induction rule: gcMarked.induct) auto
  then show ?thesis by blast
qed

lemma gcMarked_append:
  "gcMarked s (xs @ ys) = gcMarked s xs \<union> gcMarked (flip (gcMarked s xs) s) ys"
proof (intro subset_antisym subsetI)
  have u: "isUnmarked (flip (gcMarked s xs) s) p \<longleftrightarrow> isUnmarked s p \<and> p \<notin> gcMarked s xs" for p
    by (rule isUnmarked_flip) (rule gcMarked_unmarked)
  fix p
  show "p \<in> gcMarked s (xs @ ys) \<Longrightarrow> p \<in> gcMarked s xs \<union> gcMarked (flip (gcMarked s xs) s) ys"
  proof (induction rule: gcMarked.induct)
    case (root p)
    then show ?case using u by (auto intro: gcMarked.root)
  next
    case (step p q)
    show ?case
    proof (cases "q \<in> gcMarked s xs")
      case False
      then have "p \<notin> gcMarked s xs" using step gcMarked.step by blast
      then have "p \<in> gcMarked (flip (gcMarked s xs) s) ys" using step by simp
      with step False u have "q \<in> gcMarked (flip (gcMarked s xs) s) ys"
        using gcMarked.step [of p "flip (gcMarked s xs) s" ys q] by simp
      then show ?thesis by simp
    qed simp
  qed
  show "p \<in> gcMarked s (xs @ ys)" if "p \<in> gcMarked s xs \<union> gcMarked (flip (gcMarked s xs) s) ys"
    using that
  proof
    assume "p \<in> gcMarked s xs"
    then show ?thesis by (rule gcMarked_mono) simp
  next
    assume "p \<in> gcMarked (flip (gcMarked s xs) s) ys"
    then show ?thesis by induction (use u in \<open>auto intro: gcMarked.intros\<close>)
  qed
qed

lemma gcMarked_Cons:
  assumes "isUnmarked s p"
  shows "gcMarked s (p # ps) = insert p (gcMarked (flip {p} s) (blockRefs s p @ ps))" (is "?l = insert p ?r")
proof (intro subset_antisym subsetI)
  have u: "isUnmarked (flip {p} s) q \<longleftrightarrow> isUnmarked s q \<and> q \<noteq> p" for q
    using isUnmarked_flip [of "{p}" s q] assms by simp
  fix q
  show "q \<in> ?l \<Longrightarrow> q \<in> insert p ?r"
  proof (induction rule: gcMarked.induct)
    case (root q)
    then have "q \<noteq> p \<Longrightarrow> q \<in> ?r" by (intro gcMarked.root) (simp_all add: u)
    then show ?case by blast
  next
    case (step r q)
    have "q \<in> ?r" if "q \<noteq> p"
    proof (cases "r = p")
      case True
      with that step show ?thesis by (intro gcMarked.root) (simp_all add: u)
    next
      case False
      with that step show ?thesis
        using gcMarked.step [of r "flip {p} s" "blockRefs s p @ ps" q] by (simp add: u)
    qed
    then show ?case by blast
  qed
  have p: "p \<in> ?l" using assms by (intro gcMarked.root) simp_all
  have r: "q \<in> ?l" if "q \<in> ?r"
    using that
  proof induction
    case (root q)
    then have "isUnmarked s q" "q \<in> List.set (blockRefs s p) \<or> q \<in> List.set (p # ps)" by (simp_all add: u)
    then show ?case using gcMarked.root [of q "p # ps" s] gcMarked.step [OF p, of q] by blast
  next
    case (step r q)
    then show ?case using gcMarked.step [of r s "p # ps" q] by (simp add: u)
  qed
  show "q \<in> ?l" if "q \<in> insert p ?r" using that p r by blast
qed

lemma gcMarked_Cons_marked:
  assumes "\<not> isUnmarked s p"
  shows "gcMarked s (p # ps) = gcMarked s ps"
proof (intro subset_antisym subsetI)
  fix q
  show "q \<in> gcMarked s (p # ps) \<Longrightarrow> q \<in> gcMarked s ps"
  proof (induction rule: gcMarked.induct)
    case (root q)
    then show ?case using assms by (auto intro: gcMarked.root)
  qed (rule gcMarked.step)
  show "q \<in> gcMarked s ps \<Longrightarrow> q \<in> gcMarked s (p # ps)" by (erule gcMarked_mono) auto
qed

lemma flip_flip: "F \<inter> G = {} \<Longrightarrow> flip F (flip G s) = flip (G \<union> F) s"
  by (auto simp: flip_def fun_eq_iff cong: if_cong intro!: arg_cong [where f = "\<lambda>u. s\<lparr>used := u\<rparr>"])

lemma gcMarkAll_Nil [simp]: "gcMarkAll s [] = Some s"
  by (simp add: gcMarkAll.simps)

lemma gcMarkAll_Cons:
  "gcMarkAll s (p # ps) = (if isUnmarked s p then gcMarkAll (flip {p} s) (blockRefs s p @ ps) else gcMarkAll s ps)"
proof -
  have "s\<lparr>used := (used s)(p := used s p XOR HB_GC_USED_FLAG)\<rparr> = flip {p} s"
    by (auto simp: flip_def fun_eq_iff)
  then show ?thesis by (subst gcMarkAll.simps) simp
qed

text \<open>Marking ends: each step shortens the list of calls or marks one more block of a finite set.\<close>

lemma gcMarkAll_spec:
  assumes "finite A" "List.set ps \<subseteq> A" "\<And>p. p \<in> A \<Longrightarrow> List.set (blockRefs s p) \<subseteq> A"
  shows "gcMarkAll s ps = Some (flip (gcMarked s ps) s)"
  using assms(2,3)
proof (induction "length ps + (\<Sum>p\<in>{p \<in> A. isUnmarked s p}. length (blockRefs s p))" arbitrary: s ps rule: less_induct)
  case less
  show ?case
  proof (cases ps)
    case (Cons p qs)
    show ?thesis
    proof (cases "isUnmarked s p")
      case False
      then have "gcMarkAll s qs = Some (flip (gcMarked s qs) s)" using less Cons by simp
      with False Cons show ?thesis by (simp add: gcMarkAll_Cons gcMarked_Cons_marked)
    next
      case True
      define s' where "s' = flip {p} s"
      have u: "{q \<in> A. isUnmarked s' q} = {q \<in> A. isUnmarked s q} - {p}"
        using isUnmarked_flip [of "{p}" s] True by (auto simp: s'_def)
      have p: "p \<in> A" using less.prems Cons by simp
      have "(\<Sum>q\<in>{q \<in> A. isUnmarked s q}. length (blockRefs s q)) =
          length (blockRefs s p) + (\<Sum>q\<in>{q \<in> A. isUnmarked s' q}. length (blockRefs s' q))"
        unfolding u using assms(1) p True by (subst sum.remove [of _ p]) (simp_all add: s'_def)
      moreover have "List.set (blockRefs s p @ qs) \<subseteq> A" "\<And>q. q \<in> A \<Longrightarrow> List.set (blockRefs s' q) \<subseteq> A"
        using less.prems Cons p by (auto simp: s'_def)
      ultimately have "gcMarkAll s' (blockRefs s p @ qs) = Some (flip (gcMarked s' (blockRefs s p @ qs)) s')"
        using less.hyps [of "blockRefs s p @ qs" s'] Cons by simp
      moreover have "p \<notin> gcMarked s' (blockRefs s p @ qs)"
        using gcMarked_unmarked isUnmarked_flip [of "{p}" s p] True by (auto simp: s'_def)
      ultimately show ?thesis
        using True Cons flip_flip [of "gcMarked s' (blockRefs s p @ qs)" "{p}" s]
        by (simp add: gcMarkAll_Cons gcMarked_Cons s'_def)
    qed
  qed simp
qed

lemma gcMarkAll_append:
  assumes "finite A" "List.set (xs @ ys) \<subseteq> A" "\<And>p. p \<in> A \<Longrightarrow> List.set (blockRefs s p) \<subseteq> A"
  shows "gcMarkAll s (xs @ ys) = Option.bind (gcMarkAll s xs) (\<lambda>s. gcMarkAll s ys)"
proof -
  have u: "isUnmarked (flip (gcMarked s xs) s) p \<longleftrightarrow> isUnmarked s p \<and> p \<notin> gcMarked s xs" for p
    by (rule isUnmarked_flip) (rule gcMarked_unmarked)
  have "gcMarked (flip (gcMarked s xs) s) ys \<inter> gcMarked s xs = {}"
    using gcMarked_unmarked u by blast
  then show ?thesis
    using gcMarkAll_spec [OF assms(1), of xs s] gcMarkAll_spec [OF assms(1), of ys "flip (gcMarked s xs) s"]
      gcMarkAll_spec [OF assms(1,2), of s] assms(2,3)
    by (simp add: flip_flip gcMarked_append)
qed

subsection \<open>The whole phase\<close>

text \<open>The ring is \<open>done @ p # rest\<close>, its head the first of \<open>done\<close>, or \<open>p\<close>.\<close>

lemma markLocked_spec:
  assumes "finite A" "\<And>p. p \<in> A \<Longrightarrow> List.set (blockRefs s p) \<subseteq> A" "ring (pNext s) (pPrev s) (p # ps @ qs)"
    "s_pLockedBlock s = headOf (qs @ p # ps)" "List.set (p # ps @ qs) \<subseteq> A"
  shows "markLocked s p = gcMarkAll s (concat (map (blockRefs s) (p # ps)))"
  using assms(2-5)
proof (induction ps arbitrary: s p qs)
  case Nil
  have m: "gcMarkAll s (blockRefs s p) = Some (flip (gcMarked s (blockRefs s p)) s)"
    using gcMarkAll_spec [OF assms(1)] Nil by simp
  have "pNext s p = hd (qs @ [p])" using ring_first(1) [of "pNext s" "pPrev s" p qs] Nil.prems by simp
  then have "s_pLockedBlock s = Some (pNext s p)" using Nil.prems by (cases qs) simp_all
  then show ?case by (subst markLocked.simps) (simp add: m)
next
  case (Cons r rs)
  define s' where "s' = flip (gcMarked s (blockRefs s p)) s"
  have pA: "List.set (blockRefs s p) \<subseteq> A" using Cons.prems by simp
  have "List.set (blockRefs s q) \<subseteq> A" if "q \<in> List.set (r # rs)" for q
    using Cons.prems(1) [of q] Cons.prems(4) that by auto
  then have B: "List.set (blockRefs s p @ concat (map (blockRefs s) (r # rs))) \<subseteq> A"
    using pA unfolding set_append set_concat set_map by blast
  have m: "gcMarkAll s (blockRefs s p) = Some s'"
    using gcMarkAll_spec [OF assms(1) pA] Cons.prems by (simp add: s'_def)
  have n: "pNext s p = r" using ring_first(1) [of "pNext s" "pPrev s" p "(r # rs) @ qs"] Cons.prems by simp
  have "distinct (p # (r # rs) @ qs)" using ring_distinct Cons.prems(2) by blast
  then have "s_pLockedBlock s \<noteq> Some r" using Cons.prems(3) by (cases qs) auto
  then have "markLocked s p = markLocked s' r"
    by (subst markLocked.simps) (simp add: m n, simp add: s'_def n)
  also have "\<dots> = gcMarkAll s' (concat (map (blockRefs s') (r # rs)))"
  proof (rule Cons.IH [of s' r "qs @ [p]"])
    show "ring (pNext s') (pPrev s') (r # rs @ qs @ [p])"
      using ring_rotate1 [of "pNext s" "pPrev s" p "(r # rs) @ qs"] Cons.prems by (simp add: s'_def)
  qed (use Cons.prems in \<open>auto simp: s'_def\<close>)
  also have "\<dots> = gcMarkAll s (blockRefs s p @ concat (map (blockRefs s) (r # rs)))"
    using gcMarkAll_append [OF assms(1) B Cons.prems(1)] by (simp add: m s'_def)
  finally show ?case by simp
qed

definition rootRefs :: "gcState \<Rightarrow> addr list" where
  "rootRefs s = concat (map itemBlocks (gcRoots s))"

lemma collectMark_spec:
  assumes "finite A" "\<And>p. p \<in> A \<Longrightarrow> List.set (blockRefs s p) \<subseteq> A" "inList s L_LOCKED L" "List.set L \<subseteq> A"
    "List.set (rootRefs s) \<subseteq> A"
  shows "collectMark s = Some (flip (gcMarked s (rootRefs s @ concat (map (blockRefs s) L))) s)"
proof -
  define s' where "s' = flip (gcMarked s (rootRefs s)) s"
  have m: "gcMarkAll s (rootRefs s) = Some s'"
    using gcMarkAll_spec [OF assms(1,5,2)] by (simp add: s'_def)
  have A: "List.set (rootRefs s @ concat (map (blockRefs s) L)) \<subseteq> A"
    using assms by auto
  have "collectMark s = gcMarkAll s' (concat (map (blockRefs s) L))"
  proof (cases L)
    case Nil
    then show ?thesis using assms(3) m by (simp add: collectMark_def rootRefs_def inList_def s'_def)
  next
    case (Cons p ps)
    have "markLocked s' p = gcMarkAll s' (concat (map (blockRefs s') (p # ps)))"
      by (rule markLocked_spec [OF assms(1), of _ _ _ "[]"])
        (use assms Cons in \<open>auto simp: s'_def inList_def\<close>)
    then show ?thesis using Cons assms(3) m by (simp add: collectMark_def rootRefs_def inList_def s'_def)
  qed
  also have "\<dots> = gcMarkAll s (rootRefs s @ concat (map (blockRefs s) L))"
    using gcMarkAll_append [OF assms(1) A assms(2)] m by simp
  also have "\<dots> = Some (flip (gcMarked s (rootRefs s @ concat (map (blockRefs s) L))) s)"
    by (rule gcMarkAll_spec [OF assms(1) A assms(2)])
  finally show ?thesis .
qed

subsection \<open>Live blocks\<close>

text \<open>What the program can reach: the blocks the roots or a locked block refer to, and on from there.\<close>

inductive_set gcLive :: "gcState \<Rightarrow> addr set" for s where
  root: "p \<in> List.set (rootRefs s) \<Longrightarrow> p \<in> gcLive s"
| lock: "isAlloc s q \<Longrightarrow> locked s q \<noteq> 0 \<Longrightarrow> p \<in> List.set (blockRefs s q) \<Longrightarrow> p \<in> gcLive s"
| step: "p \<in> gcLive s \<Longrightarrow> q \<in> List.set (blockRefs s p) \<Longrightarrow> q \<in> gcLive s"

lemma gcMarked_live:
  assumes "\<And>q. q \<in> List.set L \<longleftrightarrow> isAlloc s q \<and> locked s q \<noteq> 0"
    "\<And>p. isAlloc s p \<Longrightarrow> locked s p = 0 \<Longrightarrow> isUnmarked s p"
    "List.set (rootRefs s) \<subseteq> {p. isAlloc s p}" "\<And>q. isAlloc s q \<Longrightarrow> List.set (blockRefs s q) \<subseteq> {p. isAlloc s p}"
    "isAlloc s p" "locked s p = 0"
  shows "p \<in> gcMarked s (rootRefs s @ concat (map (blockRefs s) L)) \<longleftrightarrow> p \<in> gcLive s"
proof -
  define M where "M = gcMarked s (rootRefs s @ concat (map (blockRefs s) L))"
  have "q \<in> gcLive s" if "q \<in> M" for q
    using that unfolding M_def
    by induction (use assms(1) in \<open>auto intro: gcLive.intros\<close>)
  moreover have "isAlloc s q \<and> (locked s q = 0 \<longrightarrow> q \<in> M)" if "q \<in> gcLive s" for q
    using that
  proof induction
    case (root p)
    then show ?case using assms(2,3) by (auto simp: M_def intro!: gcMarked.root)
  next
    case (lock r p)
    then show ?case using assms(1,2,4) by (fastforce simp: M_def intro!: gcMarked.root)
  next
    case (step p q)
    then have "isAlloc s q" using assms(4) by auto
    moreover have "q \<in> M" if "locked s q = 0"
    proof (cases "locked s p = 0")
      case True
      then show ?thesis using step assms(2) that \<open>isAlloc s q\<close> by (auto simp: M_def intro: gcMarked.step)
    next
      case False
      then have "p \<in> List.set L" using assms(1) step by simp
      then show ?thesis using step assms(2) that \<open>isAlloc s q\<close> by (auto simp: M_def intro!: gcMarked.root)
    qed
    ultimately show ?case by blast
  qed
  ultimately show ?thesis using assms(5,6) by (auto simp: M_def)
qed

end
