(* ===== verification/HbGcCollect.thy ===== *)
theory HbGcCollect
  imports HbGcMark
begin

text \<open>
  The sweep and the release of the collector, phase by phase, and the theorem on the whole collection.
\<close>

subsection \<open>Sweep\<close>

definition frame :: "gcState \<Rightarrow> _" where
  "frame s = (locked s, refCount s, gcItems s, gcRoots s, s_uUsedFlag s, gcErrors s, vmRequest s, s_bCollecting s)"

lemma frame_link [simp]: "frame (hb_gcLink l p s) = frame s" "frame (hb_gcUnlink l p s) = frame s"
  by (simp_all add: frame_def)

lemma frame_D:
  assumes "frame s' = frame s"
  shows "locked s' = locked s" "refCount s' = refCount s" "gcItems s' = gcItems s" "gcRoots s' = gcRoots s"
    "s_uUsedFlag s' = s_uUsedFlag s" "gcErrors s' = gcErrors s" "vmRequest s' = vmRequest s"
    "s_bCollecting s' = s_bCollecting s"
  using assms by (simp_all add: frame_def)

definition threeLists :: "gcState \<Rightarrow> addr list \<Rightarrow> addr list \<Rightarrow> addr list \<Rightarrow> bool" where
  "threeLists s C L D \<longleftrightarrow> inList s L_CURR C \<and> inList s L_LOCKED L \<and> inList s L_DELETED D \<and> distinct (C @ L @ D)"

lemma threeLists_used [simp]: "threeLists (s\<lparr>used := u\<rparr>) C L D = threeLists s C L D"
  by (simp add: threeLists_def inList_def)

lemma threeLists_move:
  assumes "threeLists s (p # C) L D"
  shows "threeLists (hb_gcLink L_DELETED p (hb_gcUnlink L_CURR p s)) C L (D @ [p])"
proof -
  define s1 where "s1 = hb_gcUnlink L_CURR p s"
  have a: "inList s L_CURR (p # C)" "inList s L_LOCKED L" "inList s L_DELETED D" "distinct ((p # C) @ L @ D)"
    using assms by (simp_all add: threeLists_def)
  have 1: "inList s1 L_CURR C" "inList s1 L_LOCKED L" "inList s1 L_DELETED D"
    using inList_unlink [OF a(1), of p] inList_unlink_other [OF a(1,2), of p] inList_unlink_other [OF a(1,3), of p] a(4)
    by (auto simp: s1_def)
  show ?thesis
    using inList_link [OF 1(3), of p] inList_link_other [OF 1(3) 1(1), of p] inList_link_other [OF 1(3) 1(2), of p] a(4)
    by (auto simp: threeLists_def s1_def [symmetric])
qed

lemma threeLists_next:
  assumes "threeLists s (p # C) L D"
  shows "threeLists (s\<lparr>s_pCurrBlock := Some (pNext s p)\<rparr>) (C @ [p]) L D"
  using inList_step(2) [of s L_CURR p C] assms by (auto simp: threeLists_def inList_def)

lemma headOf_append_neq:
  "distinct (xs @ ys) \<Longrightarrow> xs \<noteq> [] \<Longrightarrow> headOf ys \<noteq> headOf (xs @ ys)"
  by (cases xs; cases ys) auto

definition unused :: "gcState \<Rightarrow> addr \<Rightarrow> bool" where
  "unused s p \<longleftrightarrow> used s p = s_uUsedFlag s"

definition delFlags :: "addr set \<Rightarrow> gcState \<Rightarrow> addr \<Rightarrow> 16 word" where
  "delFlags A s = (\<lambda>p. if p \<in> A then used s p OR (HB_GC_DELETE OR HB_GC_DELETELST) else used s p)"

lemma sweep_step:
  assumes "threeLists s (p # R @ K) L D"
  obtains s' K' D' where "threeLists s' (R @ K') L D'"
    "sweepLoop s (headOf K) = (if R = [] then Some s' else sweepLoop s' (headOf K'))"
    "K' = (if unused s p then K else K @ [p])" "D' = (if unused s p then D @ [p] else D)"
    "used s' = delFlags (if unused s p then {p} else {}) s" "frame s' = frame s" "isAlloc s' = isAlloc s"
proof -
  have h: "s_pCurrBlock s = Some p" using assms by (simp add: threeLists_def inList_def)
  have d: "distinct (R @ K)" "p \<notin> List.set K" using assms by (auto simp: threeLists_def)
  show ?thesis
  proof (cases "unused s p")
    case True
    define s' where "s' = hb_gcLink L_DELETED p (hb_gcUnlink L_CURR p
      (s\<lparr>used := (used s)(p := used s p OR (HB_GC_DELETE OR HB_GC_DELETELST))\<rparr>))"
    have t: "threeLists s' (R @ K) L (D @ [p])"
      unfolding s'_def using assms by (intro threeLists_move) simp
    then have "s_pCurrBlock s' = headOf (R @ K)" by (simp add: threeLists_def inList_def)
    then have "sweepLoop s (headOf K) = (if R = [] then Some s' else sweepLoop s' (headOf K))"
      using True h headOf_append_neq [OF d(1)]
      by (subst sweepLoop.simps) (auto simp: s'_def unused_def Let_def)
    then show ?thesis
      using that [OF t] True by (simp add: s'_def delFlags_def frame_def fun_eq_iff)
  next
    case False
    define s' where "s' = s\<lparr>s_pCurrBlock := Some (pNext s p)\<rparr>"
    have t: "threeLists s' (R @ K @ [p]) L D"
      unfolding s'_def using threeLists_next [OF assms] by simp
    then have "s_pCurrBlock s' = headOf (R @ K @ [p])" by (simp add: threeLists_def inList_def)
    moreover have "(if headOf K = None then Some p else headOf K) = headOf (K @ [p])" by (cases K) simp_all
    moreover have "distinct (R @ K @ [p])" using assms by (auto simp: threeLists_def)
    ultimately have "sweepLoop s (headOf K) = (if R = [] then Some s' else sweepLoop s' (headOf (K @ [p])))"
      using False h headOf_append_neq [of R "K @ [p]"]
      by (subst sweepLoop.simps) (auto simp: s'_def unused_def Let_def)
    then show ?thesis
      using that [of s' "K @ [p]" D] t False by (simp add: s'_def delFlags_def frame_def fun_eq_iff)
  qed
qed

lemma sweepLoop_spec:
  assumes "threeLists s (R @ K) L D" "R \<noteq> []"
  shows "\<exists>s'. sweepLoop s (headOf K) = Some s' \<and>
    threeLists s' (K @ filter (\<lambda>p. \<not> unused s p) R) L (D @ filter (unused s) R) \<and>
    used s' = delFlags (List.set (filter (unused s) R)) s \<and> frame s' = frame s \<and> isAlloc s' = isAlloc s"
  using assms
proof (induction R arbitrary: s K D)
  case (Cons p R)
  obtain s1 K1 D1 where 1: "threeLists s1 (R @ K1) L D1"
    "sweepLoop s (headOf K) = (if R = [] then Some s1 else sweepLoop s1 (headOf K1))"
    "K1 = (if unused s p then K else K @ [p])" "D1 = (if unused s p then D @ [p] else D)"
    "used s1 = delFlags (if unused s p then {p} else {}) s" "frame s1 = frame s" "isAlloc s1 = isAlloc s"
    using sweep_step [of s p R K L D] Cons.prems(1) by auto
  have p: "p \<notin> List.set R" using Cons.prems by (simp add: threeLists_def)
  have u: "unused s1 q = unused s q" if "q \<in> List.set R" for q
    using that p 1(5) frame_D(5) [OF 1(6)] by (auto simp: unused_def delFlags_def)
  have f: "filter (unused s1) R = filter (unused s) R" "filter (\<lambda>p. \<not> unused s1 p) R = filter (\<lambda>p. \<not> unused s p) R"
    using u by (auto intro: filter_cong)
  show ?case
  proof (cases "R = []")
    case True
    then show ?thesis using 1 by (intro exI [of _ s1]) auto
  next
    case False
    obtain s2 where 2: "sweepLoop s1 (headOf K1) = Some s2"
      "threeLists s2 (K1 @ filter (\<lambda>p. \<not> unused s p) R) L (D1 @ filter (unused s) R)"
      "used s2 = delFlags (List.set (filter (unused s) R)) s1" "frame s2 = frame s1" "isAlloc s2 = isAlloc s1"
      using Cons.IH [OF 1(1) False] unfolding f by blast
    have "used s2 = delFlags (List.set (filter (unused s) (p # R))) s"
      unfolding 2(3) using 1(5) p by (auto simp: delFlags_def fun_eq_iff)
    then show ?thesis using 1 2 False by (intro exI [of _ s2]) auto
  qed
qed simp

subsection \<open>Release\<close>

definition decRefs :: "addr list \<Rightarrow> gcState \<Rightarrow> gcState" where
  "decRefs xs s = s\<lparr>refCount := (\<lambda>p. refCount s p - int (count_list xs p))\<rparr>"

lemma gcRelease_Nil [simp]: "gcRelease s [] = Some s"
  by (subst gcRelease.simps) simp

lemma decRefs_simps [simp]:
  "decRefs [] s = s" "decRefs ys (decRefs xs s) = decRefs (xs @ ys) s"
  by (simp_all add: decRefs_def diff_diff_eq)

lemma decRefs_sel [simp]:
  "refCount (decRefs xs s) p = refCount s p - int (count_list xs p)" "used (decRefs xs s) = used s"
  "gcItems (decRefs xs s) = gcItems s" "pNext (decRefs xs s) = pNext s" "pPrev (decRefs xs s) = pPrev s"
  "isAlloc (decRefs xs s) = isAlloc s" "locked (decRefs xs s) = locked s" "s_uUsedFlag (decRefs xs s) = s_uUsedFlag s"
  by (simp_all add: decRefs_def)

text \<open>A reference to a block that is being deleted, or that has other references, only counts down.\<close>

definition keepRefs :: "gcState \<Rightarrow> addr list \<Rightarrow> bool" where
  "keepRefs s xs \<longleftrightarrow> (\<forall>p\<in>List.set xs. used s p AND HB_GC_DELETE \<noteq> 0 \<or> int (count_list xs p) < refCount s p)"

lemma keepRefs_append:
  assumes "keepRefs s (xs @ ys)"
  shows "keepRefs s xs" "keepRefs (decRefs xs s) ys"
  using assms by (fastforce simp: keepRefs_def decRefs_def)+

lemma gcRelease_RFree:
  assumes "keepRefs s xs"
  shows "gcRelease s (map RFree xs @ cs) = gcRelease (decRefs xs s) cs"
  using assms
proof (induction xs arbitrary: s)
  case (Cons x xs)
  have k: "keepRefs (decRefs [x] s) xs" using keepRefs_append(2) [of s "[x]" xs] Cons.prems by simp
  have e: "s\<lparr>refCount := (refCount s)(x := refCount s x - 1)\<rparr> = decRefs [x] s"
    by (simp add: decRefs_def fun_upd_def cong: if_cong) (rule arg_cong [where f = "\<lambda>u. s\<lparr>refCount := u\<rparr>"], simp add: fun_eq_iff)
  have "used s x AND HB_GC_DELETE \<noteq> 0 \<or> refCount s x - 1 \<noteq> 0"
    using Cons.prems by (auto simp: keepRefs_def)
  then have "gcRelease s (map RFree (x # xs) @ cs) = gcRelease (decRefs [x] s) (map RFree xs @ cs)"
    by (subst gcRelease.simps) (auto simp: Let_def e)
  also have "\<dots> = gcRelease (decRefs (x # xs) s) cs" using Cons.IH [OF k] by simp
  finally show ?case .
qed simp

definition clearBlock :: "addr \<Rightarrow> gcState \<Rightarrow> gcState" where
  "clearBlock p s = (decRefs (blockRefs s p) s)\<lparr>gcItems := (gcItems s)(p := [])\<rparr>"

lemma gcRelease_RClear:
  assumes "keepRefs s (blockRefs s p)"
  shows "gcRelease s (RClear p # cs) = gcRelease (clearBlock p s) cs"
  using assms
proof (induction "gcItems s p" arbitrary: s rule: rev_induct)
  case Nil
  then have "clearBlock p s = s" by (simp add: clearBlock_def decRefs_def blockRefs_def fun_upd_idem)
  with Nil show ?case by (subst gcRelease.simps) simp
next
  case (snoc it its)
  note items = snoc.hyps(2) [symmetric]
  define s1 where "s1 = s\<lparr>gcItems := (gcItems s)(p := its)\<rparr>"
  have r: "blockRefs s p = itemBlocks it @ blockRefs s1 p" by (simp add: blockRefs_def items s1_def)
  have k: "keepRefs s1 (itemBlocks it)" "keepRefs (decRefs (itemBlocks it) s1) (blockRefs s1 p)"
    using keepRefs_append [of s "itemBlocks it" "blockRefs s1 p"] snoc.prems r
    by (simp_all add: keepRefs_def s1_def decRefs_def)
  have "gcRelease s (RClear p # cs) = gcRelease s1 (map RFree (itemBlocks it) @ RClear p # cs)"
    by (subst gcRelease.simps) (simp add: items s1_def)
  also have "\<dots> = gcRelease (decRefs (itemBlocks it) s1) (RClear p # cs)"
    by (rule gcRelease_RFree [OF k(1)])
  also have "\<dots> = gcRelease (clearBlock p (decRefs (itemBlocks it) s1)) cs"
    by (rule snoc.hyps(1)) (use k(2) in \<open>simp_all add: s1_def decRefs_def blockRefs_def\<close>)
  also have "clearBlock p (decRefs (itemBlocks it) s1) = clearBlock p s"
    by (simp add: clearBlock_def r) (simp add: decRefs_def s1_def blockRefs_def)
  finally show ?case .
qed

definition clearAll :: "addr list \<Rightarrow> gcState \<Rightarrow> gcState" where
  "clearAll R s = (decRefs (concat (map (blockRefs s) R)) s)
     \<lparr>gcItems := (\<lambda>p. if p \<in> List.set R then [] else gcItems s p)\<rparr>"

lemma clearAll_Cons:
  assumes "p \<notin> List.set R"
  shows "clearAll R (clearBlock p s) = clearAll (p # R) s"
proof -
  have m: "map (blockRefs (clearBlock p s)) R = map (blockRefs s) R"
    using assms by (auto simp: clearBlock_def blockRefs_def)
  have "clearAll R (clearBlock p s) =
      (decRefs (concat (map (blockRefs s) R)) (clearBlock p s))
        \<lparr>gcItems := (\<lambda>q. if q \<in> List.set R then [] else gcItems (clearBlock p s) q)\<rparr>"
    unfolding clearAll_def m by (rule refl)
  also have "\<dots> = clearAll (p # R) s"
    by (simp add: clearAll_def clearBlock_def decRefs_def diff_diff_eq fun_eq_iff cong: if_cong)
  finally show ?thesis .
qed

lemma clearAll_deleted: "clearAll R (s\<lparr>s_pDeletedBlock := x\<rparr>) = (clearAll R s)\<lparr>s_pDeletedBlock := x\<rparr>"
proof -
  have "blockRefs (s\<lparr>s_pDeletedBlock := x\<rparr>) = blockRefs s" by (simp add: fun_eq_iff blockRefs_def)
  then show ?thesis by (simp add: clearAll_def decRefs_def cong: if_cong)
qed

lemma threeLists_cong:
  assumes "pNext s' = pNext s" "pPrev s' = pPrev s" "s_pCurrBlock s' = s_pCurrBlock s"
    "s_pLockedBlock s' = s_pLockedBlock s" "s_pDeletedBlock s' = s_pDeletedBlock s"
  shows "threeLists s' C L D = threeLists s C L D"
  using assms by (simp add: threeLists_def inList_def)

lemma clearBlock_sel [simp]:
  "pNext (clearBlock p s) = pNext s" "pPrev (clearBlock p s) = pPrev s" "s_pCurrBlock (clearBlock p s) = s_pCurrBlock s"
  "s_pLockedBlock (clearBlock p s) = s_pLockedBlock s" "s_pDeletedBlock (clearBlock p s) = s_pDeletedBlock s"
  "used (clearBlock p s) = used s"
  by (simp_all add: clearBlock_def decRefs_def)

lemma clearDeleted_spec:
  assumes "threeLists s C L (p # R @ K)" "keepRefs s (concat (map (blockRefs s) (p # R)))"
    "a = hd (K @ [p])"
  shows "clearDeleted s a = Some ((clearAll (p # R) s)\<lparr>s_pDeletedBlock := Some a\<rparr>)"
  using assms
proof (induction R arbitrary: s p K)
  case Nil
  have h: "s_pDeletedBlock s = Some p" using Nil by (simp add: threeLists_def inList_def)
  have k: "keepRefs s (blockRefs s p)" using Nil by simp
  have "pNext s p = a"
    using Nil.prems ring_first(1) [of "pNext s" "pPrev s" p K] by (simp add: threeLists_def inList_def)
  then have "clearDeleted s a = Some ((clearBlock p s)\<lparr>s_pDeletedBlock := Some a\<rparr>)"
    using h gcRelease_RClear [OF k, of "[]"]
    by (subst clearDeleted.simps) (simp add: hb_arrayReleaseItems_def)
  then show ?case using clearAll_Cons [of p "[]" s] by (simp add: clearAll_def)
next
  case (Cons r R)
  have h: "s_pDeletedBlock s = Some p" using Cons.prems by (simp add: threeLists_def inList_def)
  have k: "keepRefs s (blockRefs s p)"
    using keepRefs_append(1) [of s "blockRefs s p" "concat (map (blockRefs s) (r # R))"] Cons.prems(2) by simp
  have d: "distinct (p # (r # R) @ K)" using Cons.prems by (simp add: threeLists_def)
  define s1 where "s1 = (clearBlock p s)\<lparr>s_pDeletedBlock := Some r\<rparr>"
  have n: "pNext s p = r"
    using Cons.prems ring_first(1) [of "pNext s" "pPrev s" p "(r # R) @ K"] by (simp add: threeLists_def inList_def)
  have "a \<noteq> r" using d Cons.prems(3) by (cases K) auto
  then have "clearDeleted s a = clearDeleted s1 a"
    using h gcRelease_RClear [OF k, of "[]"]
    by (subst clearDeleted.simps) (simp add: hb_arrayReleaseItems_def s1_def n)
  also have "\<dots> = Some ((clearAll (r # R) s1)\<lparr>s_pDeletedBlock := Some a\<rparr>)"
  proof (rule Cons.IH)
    have "inList (setHead L_DELETED (Some r) s) L_DELETED ((r # R) @ K @ [p])"
      using inList_step(2) [of s L_DELETED p "(r # R) @ K"] Cons.prems n by (simp add: threeLists_def)
    then show "threeLists s1 C L (r # R @ K @ [p])"
      using Cons.prems(1) by (auto simp: threeLists_def inList_def s1_def)
    have "map (blockRefs s1) (r # R) = map (blockRefs s) (r # R)"
      using d by (auto simp: clearBlock_def blockRefs_def s1_def)
    moreover have "keepRefs (decRefs (blockRefs s p) s) (concat (map (blockRefs s) (r # R)))"
      using keepRefs_append(2) [of s "blockRefs s p"] Cons.prems(2) by simp
    ultimately show "keepRefs s1 (concat (map (blockRefs s1) (r # R)))"
      by (simp only: keepRefs_def) (simp add: s1_def clearBlock_def)
  qed (use Cons.prems in \<open>cases K; simp\<close>)
  also have "clearAll (r # R) s1 = (clearAll (r # R) (clearBlock p s))\<lparr>s_pDeletedBlock := Some r\<rparr>"
    by (simp add: s1_def clearAll_deleted)
  also have "clearAll (r # R) (clearBlock p s) = clearAll (p # r # R) s"
    by (rule clearAll_Cons) (use d in simp)
  finally show ?case by simp
qed

lemma freeDeleted_spec:
  assumes "threeLists s C L D" "\<And>p. p \<in> List.set D \<Longrightarrow> refCount s p = 0"
  shows "\<exists>s'. freeDeleted s = Some s' \<and> threeLists s' C L [] \<and> frame s' = frame s \<and> used s' = used s \<and>
    isAlloc s' = (\<lambda>p. isAlloc s p \<and> p \<notin> List.set D)"
  using assms
proof (induction D arbitrary: s)
  case Nil
  then show ?case by (subst freeDeleted.simps) (simp add: threeLists_def inList_def)
next
  case (Cons p D)
  have a: "inList s L_CURR C" "inList s L_LOCKED L" "inList s L_DELETED (p # D)" "distinct (C @ L @ p # D)"
    using Cons.prems by (simp_all add: threeLists_def)
  define s1 where "s1 = HB_GARBAGE_FREE p (hb_gcUnlink L_DELETED p s)"
  have "threeLists (hb_gcUnlink L_DELETED p s) C L D"
    using inList_unlink [OF a(3), of p] inList_unlink_other [OF a(3) a(1), of p] inList_unlink_other [OF a(3) a(2), of p] a(4)
    by (auto simp: threeLists_def)
  then have t: "threeLists s1 C L D" by (simp add: s1_def HB_GARBAGE_FREE_def threeLists_def inList_def)
  have "freeDeleted s = freeDeleted s1"
    using a(3) Cons.prems(2) [of p]
    by (subst freeDeleted.simps) (simp add: inList_def releaseDeleted_def s1_def Let_def)
  moreover obtain s' where "freeDeleted s1 = Some s'" "threeLists s' C L []" "frame s' = frame s1" "used s' = used s1"
    "isAlloc s' = (\<lambda>p. isAlloc s1 p \<and> p \<notin> List.set D)"
    using Cons.IH [OF t] Cons.prems(2) by (auto simp: s1_def HB_GARBAGE_FREE_def)
  ultimately show ?case by (intro exI [of _ s']) (auto simp: s1_def HB_GARBAGE_FREE_def frame_def)
qed

subsection \<open>The invariant\<close>

text \<open>\<open>ext p\<close> is the number of references the C code holds outside of every item, as for a grip.\<close>

definition held :: "gcState \<Rightarrow> addr \<Rightarrow> nat" where
  "held s p = (\<Sum>q\<in>{q. isAlloc s q}. count_list (blockRefs s q) p)"

definition gcLists :: "gcState \<Rightarrow> addr list \<Rightarrow> addr list \<Rightarrow> bool" where
  "gcLists s C L \<longleftrightarrow> threeLists s C L [] \<and> {p. isAlloc s p} = List.set C \<union> List.set L \<and>
     (\<forall>p\<in>List.set C. locked s p = 0 \<and> used s p = s_uUsedFlag s) \<and>
     (\<forall>p\<in>List.set L. locked s p \<noteq> 0 \<and> used s p \<in> {0, HB_GC_USED_FLAG})"

definition gcCounts :: "gcState \<Rightarrow> (addr \<Rightarrow> nat) \<Rightarrow> bool" where
  "gcCounts s ext \<longleftrightarrow>
     (\<forall>p. isAlloc s p \<longrightarrow> refCount s p = int (count_list (rootRefs s) p + held s p + ext p) \<and> 0 < refCount s p)"

definition gcClosed :: "gcState \<Rightarrow> bool" where
  "gcClosed s \<longleftrightarrow> List.set (rootRefs s) \<subseteq> {p. isAlloc s p} \<and>
     (\<forall>q. isAlloc s q \<longrightarrow> List.set (blockRefs s q) \<subseteq> {p. isAlloc s p})"

definition gcInv :: "gcState \<Rightarrow> (addr \<Rightarrow> nat) \<Rightarrow> bool" where
  "gcInv s ext \<longleftrightarrow> (\<exists>C L. gcLists s C L) \<and> gcCounts s ext \<and> gcClosed s \<and>
     s_uUsedFlag s \<in> {0, HB_GC_USED_FLAG} \<and> \<not> s_bCollecting s"

lemma gcLive_cong:
  assumes "rootRefs s' = rootRefs s" "isAlloc s' = isAlloc s" "locked s' = locked s" "blockRefs s' = blockRefs s"
  shows "gcLive s' = gcLive s"
proof -
  have "p \<in> gcLive s'" if "p \<in> gcLive s" for p
    using that by induction (use assms in \<open>auto intro: gcLive.intros\<close>)
  moreover have "p \<in> gcLive s" if "p \<in> gcLive s'" for p
    using that by induction (use assms in \<open>auto intro: gcLive.intros\<close>)
  ultimately show ?thesis by blast
qed

lemma count_concat_distinct:
  "distinct D \<Longrightarrow> count_list (concat (map f D)) p = (\<Sum>q\<in>List.set D. count_list (f q) p)"
  by (induction D) auto

lemma count_pos: "p \<in> List.set xs \<Longrightarrow> 0 < count_list xs p"
  by (simp add: count_list_0_iff neq0_conv [symmetric] del: neq0_conv)

lemma sum_count_pos:
  "finite A \<Longrightarrow> q \<in> A \<Longrightarrow> p \<in> List.set (f q) \<Longrightarrow> 0 < (\<Sum>q\<in>A. count_list (f q) p)"
  using count_pos [of p "f q"] member_le_sum [of q A "\<lambda>q. count_list (f q) p"] by simp

text \<open>The references to a block from the roots, from what survives and from the C code.\<close>

definition outer :: "gcState \<Rightarrow> (addr \<Rightarrow> nat) \<Rightarrow> addr set \<Rightarrow> addr \<Rightarrow> nat" where
  "outer s ext A p = count_list (rootRefs s) p + (\<Sum>q\<in>A. count_list (blockRefs s q) p) + ext p"

lemma outer_live:
  assumes "finite A" "gcClosed s"
    "\<And>p. p \<in> A \<longleftrightarrow> isAlloc s p \<and> (locked s p \<noteq> 0 \<or> p \<in> gcLive s)"
    "\<And>p. isAlloc s p \<Longrightarrow> locked s p \<noteq> 0 \<longleftrightarrow> 0 < ext p" "isAlloc s p"
  shows "0 < outer s ext A p \<longleftrightarrow> p \<in> A"
proof
  have al: "isAlloc s q" if "q \<in> gcLive s" for q
    using that by induction (use assms(2) in \<open>auto simp: gcClosed_def\<close>)
  show "0 < outer s ext A p" if p: "p \<in> A"
  proof (cases "locked s p = 0")
    case False
    then show ?thesis using assms(4,5) by (simp add: outer_def)
  next
    case True
    then have "p \<in> gcLive s" using p assms(3) by blast
    then show ?thesis
    proof (cases rule: gcLive.cases)
      case root
      then show ?thesis using count_pos [of p "rootRefs s"] by (simp add: outer_def)
    next
      case (lock q)
      then have "q \<in> A" using assms(3) by blast
      then show ?thesis using sum_count_pos [of A q p "blockRefs s"] lock assms(1) by (simp add: outer_def)
    next
      case (step q)
      then have "q \<in> A" using assms(3) al by blast
      then show ?thesis using sum_count_pos [of A q p "blockRefs s"] step assms(1) by (simp add: outer_def)
    qed
  qed
  show "p \<in> A" if "0 < outer s ext A p"
  proof (rule ccontr)
    assume n: "p \<notin> A"
    then have p: "locked s p = 0" "p \<notin> gcLive s" using assms(3,5) by blast+
    then have "count_list (rootRefs s) p = 0" "ext p = 0"
      using gcLive.root assms(4,5) by (auto simp: count_list_0_iff)
    moreover have "p \<notin> List.set (blockRefs s q)" if "q \<in> A" for q
      using that p assms(3) gcLive.lock gcLive.step by blast
    then have "(\<Sum>q\<in>A. count_list (blockRefs s q) p) = 0" by (simp add: count_list_0_iff)
    ultimately show False using that by (simp add: outer_def)
  qed
qed

subsection \<open>The collection\<close>

text \<open>What is left when the blocks \<open>D\<close> are deleted and the others, \<open>C\<close> and \<open>L\<close>, keep their contents.\<close>

lemma collectRelease_spec:
  assumes "threeLists s C L D" "keepRefs s (concat (map (blockRefs s) D))"
    "\<And>p. p \<in> List.set D \<Longrightarrow> refCount s p = int (count_list (concat (map (blockRefs s) D)) p)"
  shows "\<exists>s'. collectRelease s = Some s' \<and> threeLists s' C L [] \<and> frame s' = frame (clearAll D s) \<and> used s' = used s \<and>
    isAlloc s' = (\<lambda>p. isAlloc s p \<and> p \<notin> List.set D)"
proof (cases D)
  case Nil
  have "s_pDeletedBlock s = None" using assms(1) Nil by (simp add: threeLists_def inList_def)
  moreover have "clearAll [] s = s" by (simp add: clearAll_def)
  ultimately show ?thesis using assms(1) Nil by (simp add: collectRelease_def)
next
  case (Cons d D')
  define s1 where "s1 = (clearAll D s)\<lparr>s_pDeletedBlock := Some d\<rparr>"
  have c: "clearDeleted s d = Some s1"
    using clearDeleted_spec [of s C L d D' "[]"] assms(1,2) Cons by (simp add: s1_def)
  have h: "s_pDeletedBlock s = Some d" using assms(1) Cons by (simp add: threeLists_def inList_def)
  have "threeLists s1 C L D"
    using assms(1) h by (simp add: s1_def clearAll_def decRefs_def threeLists_def inList_def)
  moreover have "refCount s1 p = 0" if "p \<in> List.set D" for p
    using assms(3) that by (simp add: s1_def clearAll_def)
  ultimately obtain s' where "freeDeleted s1 = Some s'" "threeLists s' C L []" "frame s' = frame s1" "used s' = used s1"
    "isAlloc s' = (\<lambda>p. isAlloc s1 p \<and> p \<notin> List.set D)"
    using freeDeleted_spec [of s1 C L D] by blast
  then show ?thesis using c h
    by (intro exI [of _ s']) (simp add: collectRelease_def, simp add: s1_def frame_def clearAll_def decRefs_def)
qed

lemma flag_facts:
  assumes "f \<in> {0, HB_GC_USED_FLAG}"
  shows "f AND NOT HB_GC_DELETE = f" "f XOR HB_GC_USED_FLAG \<in> {0, HB_GC_USED_FLAG}"
    "(f OR (HB_GC_DELETE OR HB_GC_DELETELST)) AND HB_GC_DELETE \<noteq> 0" "f AND HB_GC_DELETE = 0"
  using assms by (auto simp: HB_GC_USED_FLAG_def HB_GC_DELETE_def HB_GC_DELETELST_def)

lemma markSweep:
  assumes "gcLists s C L" "gcClosed s" "C \<noteq> []" "s_uUsedFlag s \<in> {0, HB_GC_USED_FLAG}"
  defines "C' \<equiv> filter (\<lambda>p. p \<in> gcLive s) C" and "D \<equiv> filter (\<lambda>p. p \<notin> gcLive s) C"
  obtains s2 where "Option.bind (collectMark s) (\<lambda>s. sweepLoop s None) = Some s2" "threeLists s2 C' L D"
    "frame s2 = frame s" "isAlloc s2 = isAlloc s"
    "\<And>p. p \<in> List.set C' \<Longrightarrow> used s2 p = s_uUsedFlag s XOR HB_GC_USED_FLAG"
    "\<And>p. p \<in> List.set L \<Longrightarrow> used s2 p \<in> {0, HB_GC_USED_FLAG}"
    "\<And>p. p \<in> List.set D \<Longrightarrow> used s2 p AND HB_GC_DELETE \<noteq> 0"
proof -
  define M where "M = gcMarked s (rootRefs s @ concat (map (blockRefs s) L))"
  define s1 where "s1 = flip M s"
  have l: "threeLists s C L []" "{p. isAlloc s p} = List.set C \<union> List.set L"
    "\<And>p. p \<in> List.set C \<Longrightarrow> locked s p = 0 \<and> used s p = s_uUsedFlag s"
    "\<And>p. p \<in> List.set L \<Longrightarrow> locked s p \<noteq> 0 \<and> used s p \<in> {0, HB_GC_USED_FLAG}"
    using assms(1) by (simp_all add: gcLists_def)
  have d: "distinct C" "List.set C \<inter> List.set L = {}" using l(1) by (auto simp: threeLists_def)
  have al: "isAlloc s p \<longleftrightarrow> p \<in> List.set C \<or> p \<in> List.set L" for p using l(2) by auto
  have cl: "List.set (rootRefs s) \<subseteq> {p. isAlloc s p}" "\<And>q. isAlloc s q \<Longrightarrow> List.set (blockRefs s q) \<subseteq> {p. isAlloc s p}"
    using assms(2) by (simp_all add: gcClosed_def)
  have m: "collectMark s = Some s1"
    unfolding s1_def M_def
  proof (rule collectMark_spec [of "{p. isAlloc s p}"])
    show "finite {p. isAlloc s p}" by (simp add: l(2))
    show "inList s L_LOCKED L" using l(1) by (simp add: threeLists_def)
    show "List.set L \<subseteq> {p. isAlloc s p}" using al by blast
  qed (use cl in auto)
  have M: "p \<in> M \<longleftrightarrow> p \<in> gcLive s" if "p \<in> List.set C" for p
    unfolding M_def
  proof (rule gcMarked_live)
    show "q \<in> List.set L \<longleftrightarrow> isAlloc s q \<and> locked s q \<noteq> 0" for q using al l(3,4) by blast
    show "isUnmarked s q" if "isAlloc s q" "locked s q = 0" for q
    proof -
      have "q \<in> List.set C" using that al l(4) by blast
      then show ?thesis using l(3) flag_facts(1) [OF assms(4)] by (simp add: isUnmarked_def)
    qed
  qed (use cl that al l(3) in auto)
  have u: "unused s1 p \<longleftrightarrow> p \<notin> gcLive s" if "p \<in> List.set C" for p
    using M [OF that] l(3) [OF that] xor_flag by (auto simp: unused_def s1_def)
  have f: "filter (unused s1) C = D" "filter (\<lambda>p. \<not> unused s1 p) C = C'"
    unfolding C'_def D_def using u by (auto intro: filter_cong)
  have "threeLists s1 (C @ []) L []" using l(1) by (simp add: s1_def threeLists_def inList_def)
  from sweepLoop_spec [OF this assms(3)] obtain s2 where 2: "sweepLoop s1 None = Some s2" "threeLists s2 C' L D"
    "used s2 = delFlags (List.set D) s1" "frame s2 = frame s1" "isAlloc s2 = isAlloc s1"
    unfolding f by auto
  show ?thesis
  proof (rule that [of s2])
    show "frame s2 = frame s" "isAlloc s2 = isAlloc s" using 2 by (simp_all add: s1_def frame_def)
    show "used s2 p = s_uUsedFlag s XOR HB_GC_USED_FLAG" if "p \<in> List.set C'" for p
      using that M l(3) by (auto simp: 2(3) delFlags_def C'_def D_def s1_def)
    show "used s2 p \<in> {0, HB_GC_USED_FLAG}" if "p \<in> List.set L" for p
      using that l(4) [OF that] d(2) flag_facts(2) [of "used s p"] by (auto simp: 2(3) delFlags_def D_def s1_def)
    show "used s2 p AND HB_GC_DELETE \<noteq> 0" if "p \<in> List.set D" for p
    proof -
      have "p \<notin> M" "used s p = s_uUsedFlag s" using that M l(3) by (auto simp: D_def)
      then show ?thesis using that flag_facts(3) [OF assms(4)] by (simp add: 2(3) delFlags_def s1_def)
    qed
  qed (use m 2 in simp_all)
qed

lemma held_split:
  assumes "{q. isAlloc s q} = A \<union> List.set D" "A \<inter> List.set D = {}" "finite A" "distinct D"
  shows "held s p = (\<Sum>q\<in>A. count_list (blockRefs s q) p) + count_list (concat (map (blockRefs s) D)) p"
  unfolding held_def assms(1) count_concat_distinct [OF assms(4)]
  using assms(2,3) by (simp add: sum.union_disjoint)

lemma collect_nonempty:
  assumes "gcLists s C L" "gcClosed s" "C \<noteq> []" "s_uUsedFlag s \<in> {0, HB_GC_USED_FLAG}" "\<not> s_bCollecting s"
    "\<And>p. isAlloc s p \<Longrightarrow> refCount s p = int (count_list (rootRefs s) p + held s p + ext p)"
    "\<And>p. isAlloc s p \<Longrightarrow> locked s p \<noteq> 0 \<longleftrightarrow> 0 < ext p"
  defines "C' \<equiv> filter (\<lambda>p. p \<in> gcLive s) C"
  obtains s' where "hb_gcCollectAll True s = Some s'" "gcLists s' C' L"
    "s_uUsedFlag s' = s_uUsedFlag s XOR HB_GC_USED_FLAG" "\<not> s_bCollecting s'" "gcRoots s' = gcRoots s"
    "gcErrors s' = gcErrors s" "locked s' = locked s"
    "\<And>p. isAlloc s' p \<longleftrightarrow> isAlloc s p \<and> (locked s p \<noteq> 0 \<or> p \<in> gcLive s)"
    "\<And>p. isAlloc s' p \<Longrightarrow> gcItems s' p = gcItems s p"
    "\<And>p. isAlloc s' p \<Longrightarrow> refCount s' p = int (outer s ext {p. isAlloc s' p} p)"
proof -
  define s0 where "s0 = s\<lparr>s_bCollecting := True\<rparr>"
  define D where "D = filter (\<lambda>p. p \<notin> gcLive s) C"
  define A where "A = List.set C' \<union> List.set L"
  have r0: "blockRefs s0 = blockRefs s" by (simp add: fun_eq_iff blockRefs_def s0_def)
  have live: "gcLive s0 = gcLive s" by (rule gcLive_cong) (simp_all add: r0, simp_all add: s0_def rootRefs_def)
  have g0: "gcLists s0 C L" "gcClosed s0" "s_uUsedFlag s0 \<in> {0, HB_GC_USED_FLAG}"
    using assms(1,2,4) r0 by (simp_all add: gcLists_def threeLists_def inList_def gcClosed_def rootRefs_def s0_def)
  obtain s2 where 2: "Option.bind (collectMark s0) (\<lambda>s. sweepLoop s None) = Some s2" "threeLists s2 C' L D"
    "frame s2 = frame s0" "isAlloc s2 = isAlloc s0"
    "\<And>p. p \<in> List.set C' \<Longrightarrow> used s2 p = s_uUsedFlag s0 XOR HB_GC_USED_FLAG"
    "\<And>p. p \<in> List.set L \<Longrightarrow> used s2 p \<in> {0, HB_GC_USED_FLAG}"
    "\<And>p. p \<in> List.set D \<Longrightarrow> used s2 p AND HB_GC_DELETE \<noteq> 0"
    unfolding C'_def D_def live [symmetric] using markSweep [OF g0(1,2) assms(3) g0(3)] by blast
  define s3 where "s3 = s2\<lparr>s_uUsedFlag := s_uUsedFlag s2 XOR HB_GC_USED_FLAG\<rparr>"
  note f = frame_D [OF 2(3)]
  have r3: "blockRefs s3 = blockRefs s" using f(3) by (simp add: fun_eq_iff blockRefs_def s3_def s0_def)
  have l: "{p. isAlloc s p} = List.set C \<union> List.set L" "distinct C" "List.set C \<inter> List.set L = {}"
    "\<And>p. p \<in> List.set C \<Longrightarrow> locked s p = 0" "\<And>p. p \<in> List.set L \<Longrightarrow> locked s p \<noteq> 0"
    using assms(1) by (auto simp: gcLists_def threeLists_def)
  have AD: "{q. isAlloc s q} = A \<union> List.set D" "A \<inter> List.set D = {}" "finite A" "distinct D"
    using l by (auto simp: A_def D_def C'_def)
  have A: "p \<in> A \<longleftrightarrow> isAlloc s p \<and> (locked s p \<noteq> 0 \<or> p \<in> gcLive s)" for p
    using l unfolding A_def C'_def by auto
  have out: "0 < outer s ext A p \<longleftrightarrow> p \<in> A" if "isAlloc s p" for p
    by (rule outer_live [OF AD(3) assms(2)]) (use A assms(7) that in auto)
  have rc: "refCount s3 p = int (outer s ext A p + count_list (concat (map (blockRefs s3) D)) p)" if "isAlloc s p" for p
    using assms(6) [OF that] held_split [OF AD, of p] f(2) by (simp add: r3 outer_def) (simp add: s3_def s0_def)
  have "keepRefs s3 (concat (map (blockRefs s3) D))"
    unfolding keepRefs_def
  proof
    fix p assume p: "p \<in> List.set (concat (map (blockRefs s3) D))"
    then have "isAlloc s p" using assms(2) AD(1) unfolding gcClosed_def r3 by auto
    then show "used s3 p AND HB_GC_DELETE \<noteq> 0 \<or> int (count_list (concat (map (blockRefs s3) D)) p) < refCount s3 p"
      using out [of p] rc [of p] 2(7) [of p] AD(1) by (auto simp: s3_def)
  qed
  moreover have "refCount s3 p = int (count_list (concat (map (blockRefs s3) D)) p)" if "p \<in> List.set D" for p
  proof -
    have "isAlloc s p" "p \<notin> A" using AD(1,2) that by blast+
    then show ?thesis using rc [of p] out [of p] by simp
  qed
  moreover have "threeLists s3 C' L D" using 2(2) by (simp add: s3_def threeLists_def inList_def)
  ultimately obtain s4 where 4: "collectRelease s3 = Some s4" "threeLists s4 C' L []" "frame s4 = frame (clearAll D s3)"
    "used s4 = used s3" "isAlloc s4 = (\<lambda>p. isAlloc s3 p \<and> p \<notin> List.set D)"
    using collectRelease_spec by blast
  have al: "isAlloc s4 p \<longleftrightarrow> p \<in> A" for p using AD(1,2) 2(4) by (auto simp: 4(5) s3_def s0_def)
  note f4 = frame_D [OF 4(3)]
  have "s_pCurrBlock s \<noteq> None" using assms(1,3) by (cases C) (auto simp: gcLists_def threeLists_def inList_def)
  then have run: "hb_gcCollectAll True s = Some (s4\<lparr>s_bCollecting := False\<rparr>)"
    using assms(5) 2(1) 4(1) by (auto simp: hb_gcCollectAll_def s0_def s3_def bind_eq_Some_conv)
  show ?thesis
  proof (rule that [OF run])
    show "gcLists (s4\<lparr>s_bCollecting := False\<rparr>) C' L"
      unfolding gcLists_def
    proof (intro conjI ballI)
      show "threeLists (s4\<lparr>s_bCollecting := False\<rparr>) C' L []" using 4(2) by (simp add: threeLists_def inList_def)
      show "{p. isAlloc (s4\<lparr>s_bCollecting := False\<rparr>) p} = List.set C' \<union> List.set L" using al by (auto simp: A_def)
      fix p
      show "locked (s4\<lparr>s_bCollecting := False\<rparr>) p = 0" if "p \<in> List.set C'"
        using that l(4) f(1) f4(1) by (simp add: C'_def clearAll_def s3_def s0_def)
      show "used (s4\<lparr>s_bCollecting := False\<rparr>) p = s_uUsedFlag (s4\<lparr>s_bCollecting := False\<rparr>)" if "p \<in> List.set C'"
        using 2(5) [OF that] f(5) f4(5) by (simp add: 4(4) clearAll_def decRefs_def s3_def s0_def)
      show "locked (s4\<lparr>s_bCollecting := False\<rparr>) p \<noteq> 0" if "p \<in> List.set L"
        using that l(5) f(1) f4(1) by (simp add: clearAll_def s3_def s0_def)
      show "used (s4\<lparr>s_bCollecting := False\<rparr>) p \<in> {0, HB_GC_USED_FLAG}" if "p \<in> List.set L"
        using 2(6) [OF that] by (simp add: 4(4) s3_def)
    qed
    show "gcItems (s4\<lparr>s_bCollecting := False\<rparr>) p = gcItems s p" if "isAlloc (s4\<lparr>s_bCollecting := False\<rparr>) p" for p
      using that al AD(2) f f4 by (auto simp: clearAll_def s3_def s0_def)
    show "refCount (s4\<lparr>s_bCollecting := False\<rparr>) p =
        int (outer s ext {p. isAlloc (s4\<lparr>s_bCollecting := False\<rparr>) p} p)"
      if "isAlloc (s4\<lparr>s_bCollecting := False\<rparr>) p" for p
      using that al rc [of p] A [of p] f4(2) by (simp add: clearAll_def)
  qed (use f f4 al A in \<open>simp_all add: clearAll_def decRefs_def s3_def s0_def\<close>)
qed

lemma gcCollectAll_inv:
  assumes "gcInv s ext" "\<And>p. isAlloc s p \<Longrightarrow> locked s p \<noteq> 0 \<longleftrightarrow> 0 < ext p"
  shows "\<exists>s'. hb_gcCollectAll True s = Some s' \<and> gcInv s' ext \<and>
    (\<forall>p. isAlloc s' p \<longleftrightarrow> isAlloc s p \<and> (locked s p \<noteq> 0 \<or> p \<in> gcLive s)) \<and>
    (\<forall>p. isAlloc s' p \<longrightarrow> gcItems s' p = gcItems s p) \<and> gcRoots s' = gcRoots s \<and> gcErrors s' = gcErrors s \<and>
    locked s' = locked s"
proof -
  obtain C L where gl: "gcLists s C L" using assms(1) by (auto simp: gcInv_def)
  have cl: "gcClosed s" and fl: "s_uUsedFlag s \<in> {0, HB_GC_USED_FLAG}" and nc: "\<not> s_bCollecting s"
    and co: "\<And>p. isAlloc s p \<Longrightarrow> refCount s p = int (count_list (rootRefs s) p + held s p + ext p)"
    using assms(1) by (auto simp: gcInv_def gcCounts_def)
  show ?thesis
  proof (cases "C = []")
    case True
    then have "s_pCurrBlock s = None" "isAlloc s p \<Longrightarrow> locked s p \<noteq> 0" for p
      using gl by (auto simp: gcLists_def threeLists_def inList_def)
    then show ?thesis using assms(1) nc by (intro exI [of _ s]) (auto simp: hb_gcCollectAll_def)
  next
    case False
    from collect_nonempty [OF gl cl False fl nc co assms(2)] obtain s' where s':
      "hb_gcCollectAll True s = Some s'" "gcLists s' (filter (\<lambda>p. p \<in> gcLive s) C) L"
      "s_uUsedFlag s' = s_uUsedFlag s XOR HB_GC_USED_FLAG" "\<not> s_bCollecting s'" "gcRoots s' = gcRoots s"
      "gcErrors s' = gcErrors s" "locked s' = locked s"
      "\<And>p. isAlloc s' p \<longleftrightarrow> isAlloc s p \<and> (locked s p \<noteq> 0 \<or> p \<in> gcLive s)"
      "\<And>p. isAlloc s' p \<Longrightarrow> gcItems s' p = gcItems s p"
      "\<And>p. isAlloc s' p \<Longrightarrow> refCount s' p = int (outer s ext {p. isAlloc s' p} p)" by blast
    define A where "A = {p. isAlloc s' p}"
    have r: "rootRefs s' = rootRefs s" "\<And>q. q \<in> A \<Longrightarrow> blockRefs s' q = blockRefs s q"
      using s'(5,9) by (simp_all add: rootRefs_def blockRefs_def A_def)
    have "finite A" using s'(2) by (simp add: gcLists_def A_def)
    then have o: "0 < outer s ext A p \<longleftrightarrow> p \<in> A" if "isAlloc s p" for p
      by (rule outer_live [OF _ cl]) (use s'(8) assms(2) that in \<open>auto simp: A_def\<close>)
    have e: "outer s ext A p = count_list (rootRefs s') p + held s' p + ext p" for p
      using r by (simp add: outer_def held_def A_def)
    have "gcCounts s' ext"
      unfolding gcCounts_def
    proof (intro allI impI)
      fix p assume p: "isAlloc s' p"
      then have c: "refCount s' p = int (outer s ext A p)" using s'(10) by (simp add: A_def)
      have "0 < outer s ext A p" using o [of p] p s'(8) by (simp add: A_def)
      with c show "refCount s' p = int (count_list (rootRefs s') p + held s' p + ext p) \<and> 0 < refCount s' p"
        unfolding e by (simp only: of_nat_0_less_iff simp_thms)
    qed
    moreover have "gcClosed s'"
      unfolding gcClosed_def r(1)
    proof (intro conjI allI impI subsetI)
      fix p assume "p \<in> List.set (rootRefs s)"
      then show "p \<in> {p. isAlloc s' p}" using cl s'(8) gcLive.root by (auto simp: gcClosed_def)
    next
      fix q p assume q: "isAlloc s' q" "p \<in> List.set (blockRefs s' q)"
      then have "p \<in> List.set (blockRefs s q)" "isAlloc s q" using r(2) [of q] s'(8) by (auto simp: A_def)
      moreover from this have "isAlloc s p" using cl by (auto simp: gcClosed_def)
      ultimately show "p \<in> {p. isAlloc s' p}" using s'(8) q(1) gcLive.lock gcLive.step by blast
    qed
    moreover have "s_uUsedFlag s' \<in> {0, HB_GC_USED_FLAG}" using flag_facts(2) [OF fl] s'(3) by simp
    ultimately have "gcInv s' ext" using s'(2,4) by (auto simp: gcInv_def)
    with s' show ?thesis by (intro exI [of _ s']) auto
  qed
qed

end
