(* ===== verification/HbGcRelease.thy ===== *)
theory HbGcRelease
  imports HbGcCollect
begin

text \<open>
  Reference counting: \<open>hb_gcRefFree\<close> ends and keeps the invariant, with the calls it has
  still to make counted as references. Then the steps of the program on the heap of blocks.
\<close>

subsection \<open>The invariant while references are being released\<close>

definition relLists :: "gcState \<Rightarrow> addr list \<Rightarrow> addr list \<Rightarrow> bool" where
  "relLists s C L \<longleftrightarrow> threeLists s C L [] \<and> {p. isAlloc s p} = List.set C \<union> List.set L \<and>
     (\<forall>p\<in>List.set C. locked s p = 0) \<and> (\<forall>p\<in>List.set L. locked s p \<noteq> 0)"

definition relCount :: "gcState \<Rightarrow> (addr \<Rightarrow> nat) \<Rightarrow> relCall list \<Rightarrow> bool" where
  "relCount s ext calls \<longleftrightarrow>
     (\<forall>p. isAlloc s p \<longrightarrow> refCount s p = int (outer s ext {q. isAlloc s q} p + count_list calls (RFree p))) \<and>
     (\<forall>p. RFree p \<in> List.set calls \<longrightarrow> isAlloc s p)"

text \<open>The flags of a block that is not being released.\<close>

definition okUsed :: "gcState \<Rightarrow> addr \<Rightarrow> bool" where
  "okUsed s p \<longleftrightarrow> used s p \<in> {0, HB_GC_USED_FLAG} \<and> (locked s p = 0 \<longrightarrow> used s p = s_uUsedFlag s)"

text \<open>A block is freed once, after its items are released; \<open>e\<close> says whether a block will be empty by then.\<close>

fun callsOk :: "(addr \<Rightarrow> bool) \<Rightarrow> relCall list \<Rightarrow> bool" where
  "callsOk e [] = True"
| "callsOk e (RFree p # cs) = callsOk e cs"
| "callsOk e (RClear p # cs) = (RDone p \<in> List.set cs \<and> callsOk (e(p := True)) cs)"
| "callsOk e (RDone p # cs) = (e p \<and> RDone p \<notin> List.set cs \<and> callsOk e cs)"

lemma callsOk_mono: "callsOk e cs \<Longrightarrow> (\<And>p. e p \<Longrightarrow> e' p) \<Longrightarrow> callsOk e' cs"
proof (induction cs arbitrary: e e')
  case (Cons c cs)
  show ?case
  proof (cases c)
    case (RFree p)
    then show ?thesis using Cons.IH [of e e'] Cons.prems by simp
  next
    case (RClear p)
    have "callsOk (e'(p := True)) cs"
    proof (rule Cons.IH [of "e(p := True)"])
      show "callsOk (e(p := True)) cs" using Cons.prems(1) RClear by simp
      show "(e'(p := True)) q" if "(e(p := True)) q" for q using that Cons.prems(2) by (cases "q = p") simp_all
    qed
    then show ?thesis using Cons.prems(1) RClear by simp
  next
    case (RDone p)
    then show ?thesis using Cons.IH [of e e'] Cons.prems by simp
  qed
qed simp

lemma callsOk_RFree [simp]: "callsOk e (map RFree xs @ cs) = callsOk e cs"
  by (induction xs) auto

definition relDone :: "gcState \<Rightarrow> relCall list \<Rightarrow> bool" where
  "relDone s calls \<longleftrightarrow> callsOk (\<lambda>p. gcItems s p = []) calls \<and>
     (\<forall>p. RDone p \<in> List.set calls \<longrightarrow> isAlloc s p \<and> refCount s p = 0) \<and>
     (\<forall>p. isAlloc s p \<longrightarrow> RDone p \<notin> List.set calls \<longrightarrow> 0 < refCount s p \<and> okUsed s p)"

definition relInv :: "gcState \<Rightarrow> (addr \<Rightarrow> nat) \<Rightarrow> addr list \<Rightarrow> addr list \<Rightarrow> relCall list \<Rightarrow> bool" where
  "relInv s ext C L calls \<longleftrightarrow> relLists s C L \<and> relCount s ext calls \<and> relDone s calls \<and> gcClosed s \<and>
     s_uUsedFlag s \<in> {0, HB_GC_USED_FLAG} \<and> \<not> s_bCollecting s"

lemma relInv_gcInv:
  assumes "relInv s ext C L []"
  shows "gcInv s ext"
proof -
  have l: "relLists s C L" and c: "relCount s ext []" and d: "relDone s []" using assms by (simp_all add: relInv_def)
  have "okUsed s p" if "p \<in> List.set C \<union> List.set L" for p
    using that l d unfolding relLists_def relDone_def by auto
  then have "gcLists s C L"
    using l unfolding gcLists_def relLists_def okUsed_def by blast
  moreover have "gcCounts s ext"
    unfolding gcCounts_def
  proof (intro allI impI conjI)
    fix p assume "isAlloc s p"
    then show "refCount s p = int (count_list (rootRefs s) p + held s p + ext p)"
      using c by (simp add: relCount_def outer_def held_def)
    show "0 < refCount s p" using d \<open>isAlloc s p\<close> unfolding relDone_def by simp
  qed
  ultimately show ?thesis using assms unfolding gcInv_def relInv_def by blast
qed

lemma gcInv_relInv:
  assumes "gcInv s ext"
  obtains C L where "relInv s ext C L []"
proof -
  obtain C L where l: "gcLists s C L" using assms by (auto simp: gcInv_def)
  have u: "okUsed s p" if "isAlloc s p" for p
  proof -
    from l that have "p \<in> List.set C \<union> List.set L" unfolding gcLists_def by blast
    moreover have "s_uUsedFlag s \<in> {0, HB_GC_USED_FLAG}" using assms by (simp add: gcInv_def)
    ultimately show ?thesis using l by (auto simp: gcLists_def okUsed_def)
  qed
  have "relLists s C L" using l by (simp add: relLists_def gcLists_def)
  moreover have "relCount s ext []"
    using assms by (simp add: gcInv_def relCount_def gcCounts_def outer_def held_def)
  moreover have "0 < refCount s p" if "isAlloc s p" for p
    using assms that unfolding gcInv_def gcCounts_def by blast
  then have "relDone s []" using u by (simp add: relDone_def)
  ultimately show ?thesis using assms that by (auto simp: relInv_def gcInv_def)
qed

definition setCount :: "addr \<Rightarrow> int \<Rightarrow> gcState \<Rightarrow> gcState" where
  "setCount p n s = s\<lparr>refCount := (refCount s)(p := n)\<rparr>"

lemma setCount_sel [simp]:
  "pNext (setCount p n s) = pNext s" "pPrev (setCount p n s) = pPrev s" "locked (setCount p n s) = locked s"
  "used (setCount p n s) = used s" "gcItems (setCount p n s) = gcItems s" "isAlloc (setCount p n s) = isAlloc s"
  "s_pCurrBlock (setCount p n s) = s_pCurrBlock s" "s_pLockedBlock (setCount p n s) = s_pLockedBlock s"
  "s_pDeletedBlock (setCount p n s) = s_pDeletedBlock s" "s_uUsedFlag (setCount p n s) = s_uUsedFlag s"
  "s_bCollecting (setCount p n s) = s_bCollecting s" "gcRoots (setCount p n s) = gcRoots s"
  "vmRequest (setCount p n s) = vmRequest s" "gcErrors (setCount p n s) = gcErrors s"
  "refCount (setCount p n s) = (refCount s)(p := n)"
  by (simp_all add: setCount_def)

lemma sel_refs:
  assumes "gcItems s' = gcItems s" "gcRoots s' = gcRoots s"
  shows "blockRefs s' = blockRefs s" "rootRefs s' = rootRefs s" "outer s' ext A p = outer s ext A p"
  using assms by (simp_all add: fun_eq_iff blockRefs_def rootRefs_def outer_def)

text \<open>One reference less to a block that keeps another one.\<close>

lemma relInv_RFree_keep:
  assumes "relInv s ext C L (RFree p # cs)" "refCount s p \<noteq> 1"
  shows "relInv (setCount p (refCount s p - 1) s) ext C L cs"
proof -
  define s' where "s' = setCount p (refCount s p - 1) s"
  note r = sel_refs [of s' s, simplified s'_def setCount_sel, OF refl refl, folded s'_def]
  have c: "relCount s ext (RFree p # cs)" and d: "relDone s (RFree p # cs)"
    using assms(1) by (simp_all add: relInv_def)
  have p: "isAlloc s p" using c by (simp add: relCount_def)
  have "refCount s p = int (outer s ext {q. isAlloc s q} p + Suc (count_list cs (RFree p)))"
    using c p by (simp add: relCount_def)
  then have pos: "0 < refCount s p - 1" "RDone p \<notin> List.set cs"
    using assms(2) d by (auto simp: relDone_def)
  have "relLists s' C L"
    using assms(1) by (simp add: relInv_def relLists_def threeLists_def inList_def s'_def)
  moreover have "isAlloc s' = isAlloc s" by (simp add: s'_def)
  then have "gcClosed s'" using assms(1) r unfolding relInv_def gcClosed_def by simp
  moreover have "relCount s' ext cs"
    using c r by (auto simp: relCount_def s'_def)
  moreover have "relDone s' cs"
    using d pos by (auto simp: relDone_def s'_def okUsed_def)
  ultimately show ?thesis using assms(1) unfolding s'_def [symmetric] by (simp add: relInv_def s'_def)
qed

text \<open>The last reference: the block is marked for deletion.\<close>

lemma relInv_RFree_last:
  assumes "relInv s ext C L (RFree p # cs)" "refCount s p = 1"
  defines "s' \<equiv> (setCount p 0 s)\<lparr>used := (used s)(p := used s p OR HB_GC_DELETE)\<rparr>"
  shows "used s p AND HB_GC_DELETE = 0" "relInv s' ext C L (RClear p # RDone p # cs)"
proof -
  have r: "blockRefs s' = blockRefs s" "rootRefs s' = rootRefs s" "outer s' ext A q = outer s ext A q" for A q
    by (rule sel_refs; simp add: s'_def)+
  have c: "relCount s ext (RFree p # cs)" and d: "relDone s (RFree p # cs)"
    using assms(1) by (simp_all add: relInv_def)
  have p: "isAlloc s p" using c by (simp add: relCount_def)
  have nd: "RDone p \<notin> List.set cs" using d assms(2) by (auto simp: relDone_def)
  have "okUsed s p" using d p nd by (auto simp: relDone_def)
  then show "used s p AND HB_GC_DELETE = 0" using flag_facts(4) [of "used s p"] by (simp add: okUsed_def)
  have "relLists s' C L"
    using assms(1) by (simp add: relInv_def relLists_def threeLists_def inList_def s'_def)
  moreover have "isAlloc s' = isAlloc s" by (simp add: s'_def)
  then have "gcClosed s'" using assms(1) r unfolding relInv_def gcClosed_def by simp
  moreover have "relCount s' ext (RClear p # RDone p # cs)"
    using c r assms(2) by (auto simp: relCount_def s'_def)
  moreover have "callsOk ((\<lambda>q. gcItems s q = [])(p := True)) cs"
    by (rule callsOk_mono [of "\<lambda>q. gcItems s q = []"]) (use d in \<open>auto simp: relDone_def\<close>)
  then have "relDone s' (RClear p # RDone p # cs)"
    using d p nd by (auto simp: relDone_def s'_def okUsed_def)
  ultimately show "relInv s' ext C L (RClear p # RDone p # cs)" using assms(1) by (simp add: relInv_def s'_def)
qed

text \<open>The loop over the items of a block.\<close>

lemma relInv_RClear_end:
  assumes "relInv s ext C L (RClear p # cs)" "gcItems s p = []"
  shows "relInv s ext C L cs"
proof -
  have c: "relCount s ext (RClear p # cs)" and d: "relDone s (RClear p # cs)"
    using assms(1) by (simp_all add: relInv_def)
  have "(\<lambda>q. gcItems s q = [])(p := True) = (\<lambda>q. gcItems s q = [])" using assms(2) by (auto simp: fun_eq_iff)
  then have "relDone s cs" using d by (auto simp: relDone_def)
  moreover have "relCount s ext cs" using c by (simp add: relCount_def)
  ultimately show ?thesis using assms(1) by (simp add: relInv_def)
qed

lemma outer_pop:
  assumes "gcItems s p = its @ [it]" "p \<in> A" "finite A"
  defines "s' \<equiv> s\<lparr>gcItems := (gcItems s)(p := its)\<rparr>"
  shows "outer s ext A q = outer s' ext A q + count_list (itemBlocks it) q"
proof -
  have "blockRefs s p = itemBlocks it @ blockRefs s' p" using assms(1) by (simp add: blockRefs_def s'_def)
  moreover have "blockRefs s' x = blockRefs s x" if "x \<noteq> p" for x using that by (simp add: blockRefs_def s'_def)
  moreover have "rootRefs s' = rootRefs s" by (simp add: rootRefs_def s'_def)
  ultimately show ?thesis
    using sum.remove [OF assms(3,2), of "\<lambda>x. count_list (blockRefs s x) q"]
      sum.remove [OF assms(3,2), of "\<lambda>x. count_list (blockRefs s' x) q"]
    by (simp add: outer_def)
qed

lemma count_list_RFree [simp]:
  "count_list (map RFree xs) (RFree p) = count_list xs p" "count_list (map RFree xs) (RDone p) = 0"
  by (induction xs) auto

lemma relInv_RClear_item:
  assumes "relInv s ext C L (RClear p # cs)" "gcItems s p = its @ [it]"
  defines "s' \<equiv> s\<lparr>gcItems := (gcItems s)(p := its)\<rparr>"
  shows "relInv s' ext C L (map RFree (itemBlocks it) @ RClear p # cs)"
proof -
  have c: "relCount s ext (RClear p # cs)" and d: "relDone s (RClear p # cs)" and cl: "gcClosed s"
    and l: "relLists s C L"
    using assms(1) by (simp_all add: relInv_def)
  have p: "isAlloc s p" using d by (auto simp: relDone_def)
  have fin: "finite {q. isAlloc s q}" using l by (simp add: relLists_def)
  have b: "blockRefs s p = itemBlocks it @ blockRefs s' p" using assms(2) by (simp add: blockRefs_def s'_def)
  have sub: "List.set (blockRefs s' q) \<subseteq> List.set (blockRefs s q)" for q
    using b by (cases "q = p") (auto simp: blockRefs_def s'_def)
  have "relLists s' C L" using l by (simp add: relLists_def threeLists_def inList_def s'_def)
  moreover have "isAlloc s' = isAlloc s" "rootRefs s' = rootRefs s" by (simp_all add: s'_def rootRefs_def)
  then have "gcClosed s'" using cl sub unfolding gcClosed_def by (metis subset_trans)
  moreover have "relCount s' ext (map RFree (itemBlocks it) @ RClear p # cs)"
    unfolding relCount_def
  proof (intro conjI allI impI)
    fix q assume "isAlloc s' q"
    then have "refCount s q = int (outer s ext {q. isAlloc s q} q + count_list cs (RFree q))"
      using c by (simp add: relCount_def s'_def)
    moreover have "outer s ext {q. isAlloc s q} q = outer s' ext {q. isAlloc s q} q + count_list (itemBlocks it) q"
      using outer_pop [OF assms(2) _ fin, of ext q] p by (simp add: s'_def)
    ultimately show "refCount s' q = int (outer s' ext {q. isAlloc s' q} q +
        count_list (map RFree (itemBlocks it) @ RClear p # cs) (RFree q))"
      by (simp add: s'_def)
  next
    fix q assume "RFree q \<in> List.set (map RFree (itemBlocks it) @ RClear p # cs)"
    then have "q \<in> List.set (blockRefs s p) \<or> RFree q \<in> List.set cs" using b by auto
    then show "isAlloc s' q" using cl p c by (auto simp: gcClosed_def relCount_def s'_def)
  qed
  moreover have "callsOk ((\<lambda>q. gcItems s' q = [])(p := True)) cs"
    by (rule callsOk_mono [of "(\<lambda>q. gcItems s q = [])(p := True)"])
      (use d in \<open>auto simp: relDone_def s'_def split: if_splits\<close>)
  then have "relDone s' (map RFree (itemBlocks it) @ RClear p # cs)"
    using d by (auto simp: relDone_def s'_def okUsed_def)
  ultimately show ?thesis using assms(1) by (simp add: relInv_def s'_def)
qed

text \<open>The end of a block without references.\<close>

lemma relInv_RDone:
  assumes "relInv s ext C L (RDone p # cs)"
  defines "s' \<equiv> refDone p s"
  obtains C' L' where "relInv s' ext C' L' cs" "gcItems s p = []" "frame s' = frame s" "used s' = used s"
    "isAlloc s' = (isAlloc s)(p := False)" "ext p = 0"
proof -
  have c: "relCount s ext (RDone p # cs)" and d: "relDone s (RDone p # cs)" and cl: "gcClosed s"
    and l: "relLists s C L"
    using assms(1) by (simp_all add: relInv_def)
  have p: "isAlloc s p" "refCount s p = 0" using d by (auto simp: relDone_def)
  have fin: "finite {q. isAlloc s q}" using l by (simp add: relLists_def)
  have it: "gcItems s p = []" and nd: "RDone p \<notin> List.set cs" using d by (simp_all add: relDone_def)
  have "refCount s p = int (outer s ext {q. isAlloc s q} p + count_list cs (RFree p))"
    using c p(1) by (simp add: relCount_def)
  then have "outer s ext {q. isAlloc s q} p + count_list cs (RFree p) = 0"
    using p(2) by (metis of_nat_eq_0_iff)
  then have z: "outer s ext {q. isAlloc s q} p = 0" "RFree p \<notin> List.set cs"
    by (simp_all add: count_list_0_iff)
  have s': "s' = HB_GARBAGE_FREE p (unlinkBlock p s)" using p by (simp add: s'_def refDone_def)
  define C' where "C' = remove1 p C"
  define L' where "L' = remove1 p L"
  have t: "threeLists s C L []" "{p. isAlloc s p} = List.set C \<union> List.set L"
    "\<And>p. p \<in> List.set C \<Longrightarrow> locked s p = 0" "\<And>p. p \<in> List.set L \<Longrightarrow> locked s p \<noteq> 0"
    using l by (auto simp: relLists_def)
  have a: "inList s L_CURR C" "inList s L_LOCKED L" "inList s L_DELETED []" "distinct (C @ L)"
    using t(1) by (simp_all add: threeLists_def)
  have "threeLists (unlinkBlock p s) C' L' []"
  proof (cases "locked s p = 0")
    case True
    then have "p \<in> List.set C" "p \<notin> List.set L" using t p(1) by blast+
    then show ?thesis
      using inList_unlink [OF a(1)] inList_unlink_other [OF a(1,2)] inList_unlink_other [OF a(1,3)] a(4) True
      by (auto simp: threeLists_def unlinkBlock_def C'_def L'_def remove1_idem)
  next
    case False
    then have "p \<in> List.set L" "p \<notin> List.set C" using t p(1) by blast+
    then show ?thesis
      using inList_unlink [OF a(2)] inList_unlink_other [OF a(2,1)] inList_unlink_other [OF a(2,3)] a(4) False
      by (auto simp: threeLists_def unlinkBlock_def C'_def L'_def remove1_idem)
  qed
  then have t': "threeLists s' C' L' []" by (simp add: s' HB_GARBAGE_FREE_def threeLists_def inList_def)
  have f: "frame s' = frame s" "used s' = used s" "isAlloc s' = (isAlloc s)(p := False)"
    by (simp_all add: s' HB_GARBAGE_FREE_def unlinkBlock_def frame_def)
  note fr = frame_D [OF f(1)]
  note r = sel_refs [OF fr(3,4)]
  have A: "{q. isAlloc s' q} = {q. isAlloc s q} - {p}" using f(3) by auto
  have o: "outer s' ext {q. isAlloc s' q} q = outer s ext {q. isAlloc s q} q" for q
    using sum.remove [OF fin, of p "\<lambda>x. count_list (blockRefs s x) q"] p(1) it
    unfolding r A by (simp add: outer_def blockRefs_def)
  have "relLists s' C' L'"
    using t' A t a(4) fr(1) by (auto simp: relLists_def C'_def L'_def)
  moreover have "gcClosed s'"
  proof -
    have "p \<notin> List.set (rootRefs s)" "\<And>q. isAlloc s q \<Longrightarrow> p \<notin> List.set (blockRefs s q)"
      using z(1) fin by (auto simp: outer_def count_list_0_iff)
    then show ?thesis using cl by (auto simp: gcClosed_def r f(3))
  qed
  moreover have "relCount s' ext cs"
    using c z(2) unfolding relCount_def o by (auto simp: fr f(3))
  moreover have "relDone s' cs"
    using d nd by (auto simp: relDone_def fr f okUsed_def)
  ultimately have "relInv s' ext C' L' cs" using assms(1) by (simp add: relInv_def fr)
  moreover have "ext p = 0" using z(1) by (simp add: outer_def)
  ultimately show ?thesis using it f that by blast
qed

subsection \<open>Releasing references\<close>

definition callWeight :: "relCall \<Rightarrow> nat" where
  "callWeight c = (case c of RFree p \<Rightarrow> 3 | RClear p \<Rightarrow> 1 | RDone p \<Rightarrow> 1)"

definition relGood :: "gcState \<Rightarrow> (addr \<Rightarrow> nat) \<Rightarrow> relCall list \<Rightarrow> bool" where
  "relGood s ext calls \<longleftrightarrow>
     (\<exists>s' C L. gcRelease s calls = Some s' \<and> relInv s' ext C L [] \<and> gcRoots s' = gcRoots s \<and>
        gcErrors s' = gcErrors s \<and> locked s' = locked s \<and>
        (\<forall>p. isAlloc s' p \<longrightarrow> isAlloc s p \<and> RDone p \<notin> List.set calls \<and> gcItems s' p = gcItems s p) \<and>
        (\<forall>p. isAlloc s p \<longrightarrow> 0 < ext p \<longrightarrow> isAlloc s' p))"

lemma relGood_step:
  assumes "relGood s1 ext calls1" "gcRelease s calls = gcRelease s1 calls1"
    "gcRoots s1 = gcRoots s" "gcErrors s1 = gcErrors s" "locked s1 = locked s"
    "\<And>q. isAlloc s1 q \<Longrightarrow> RDone q \<notin> List.set calls1 \<Longrightarrow>
      isAlloc s q \<and> RDone q \<notin> List.set calls \<and> gcItems s1 q = gcItems s q"
    "\<And>q. isAlloc s q \<Longrightarrow> 0 < ext q \<Longrightarrow> isAlloc s1 q"
  shows "relGood s ext calls"
proof -
  obtain s' C L where g: "gcRelease s1 calls1 = Some s'" "relInv s' ext C L []" "gcRoots s' = gcRoots s1"
    "gcErrors s' = gcErrors s1" "locked s' = locked s1"
    "\<And>p. isAlloc s' p \<Longrightarrow> isAlloc s1 p \<and> RDone p \<notin> List.set calls1 \<and> gcItems s' p = gcItems s1 p"
    "\<And>p. isAlloc s1 p \<Longrightarrow> 0 < ext p \<Longrightarrow> isAlloc s' p"
    using assms(1) unfolding relGood_def by blast
  have "\<forall>p. isAlloc s' p \<longrightarrow> isAlloc s p \<and> RDone p \<notin> List.set calls \<and> gcItems s' p = gcItems s p"
    using g(6) assms(6) by metis
  moreover have "\<forall>p. isAlloc s p \<longrightarrow> 0 < ext p \<longrightarrow> isAlloc s' p" using g(7) assms(7) by blast
  ultimately show ?thesis using g(1-5) assms(2-5) unfolding relGood_def by metis
qed

text \<open>Releasing ends: every step makes the items and the calls still to be made weigh less. It keeps
  the invariant, frees no block with a reference, raises no error and leaves the other blocks as they are.\<close>

lemma gcRelease_inv:
  assumes "relInv s ext C L calls" "finite A" "{p. isAlloc s p} \<subseteq> A"
  shows "relGood s ext calls"
  using assms(1,3)
proof (induction "(\<Sum>p\<in>A. 4 * length (gcItems s p)) + sum_list (map callWeight calls)" arbitrary: s C L calls
    rule: less_induct)
  case less
  show ?case
  proof (cases calls)
    case Nil
    then show ?thesis using less.prems unfolding relGood_def by auto
  next
    case (Cons c cs)
    show ?thesis
    proof (cases c)
      case (RFree p)
      note inv = less.prems(1) [unfolded Cons RFree]
      show ?thesis
      proof (cases "refCount s p = 1")
        case True
        define s1 where "s1 = (setCount p 0 s)\<lparr>used := (used s)(p := used s p OR HB_GC_DELETE)\<rparr>"
        note l = relInv_RFree_last [OF inv True, folded s1_def]
        have r: "gcRelease s calls = gcRelease s1 (RClear p # RDone p # cs)"
          using True l(1) by (subst gcRelease.simps) (simp add: Cons RFree s1_def setCount_def Let_def)
        have "relGood s1 ext (RClear p # RDone p # cs)"
          by (rule less.hyps [OF _ l(2)])
            (use less.prems(2) in \<open>simp_all add: Cons RFree callWeight_def s1_def\<close>)
        from this r show ?thesis by (rule relGood_step) (simp_all add: s1_def Cons RFree)
      next
        case False
        define s1 where "s1 = setCount p (refCount s p - 1) s"
        have r: "gcRelease s calls = gcRelease s1 cs"
          using False by (subst gcRelease.simps) (simp add: Cons RFree s1_def setCount_def Let_def)
        have "relGood s1 ext cs"
          by (rule less.hyps [OF _ relInv_RFree_keep [OF inv False, folded s1_def]])
            (use less.prems(2) in \<open>simp_all add: Cons RFree callWeight_def s1_def\<close>)
        from this r show ?thesis by (rule relGood_step) (simp_all add: s1_def Cons RFree)
      qed
    next
      case (RClear p)
      note inv = less.prems(1) [unfolded Cons RClear]
      show ?thesis
      proof (cases "gcItems s p" rule: rev_cases)
        case Nil
        have r: "gcRelease s calls = gcRelease s cs"
          by (subst gcRelease.simps) (simp add: Cons RClear Nil)
        have "relGood s ext cs"
          by (rule less.hyps [OF _ relInv_RClear_end [OF inv Nil]])
            (use less.prems(2) in \<open>simp_all add: Cons RClear callWeight_def\<close>)
        from this r show ?thesis by (rule relGood_step) (simp_all add: Cons RClear)
      next
        case (snoc its it)
        define s1 where "s1 = s\<lparr>gcItems := (gcItems s)(p := its)\<rparr>"
        define calls1 where "calls1 = map RFree (itemBlocks it) @ RClear p # cs"
        have dn: "RDone p \<in> List.set cs" "isAlloc s p"
          using inv unfolding relInv_def relDone_def by auto
        have r: "gcRelease s calls = gcRelease s1 calls1"
          by (subst gcRelease.simps) (simp add: Cons RClear snoc s1_def calls1_def)
        have "length (itemBlocks it) \<le> 1" by (cases it) simp_all
        then have w: "sum_list (map callWeight calls1) \<le> sum_list (map callWeight calls) + 3"
          by (cases "itemBlocks it") (simp_all add: Cons RClear callWeight_def calls1_def)
        have "p \<in> A" using dn less.prems(2) by blast
        then have "(\<Sum>q\<in>A. 4 * length (gcItems s q)) = (\<Sum>q\<in>A. 4 * length (gcItems s1 q)) + 4"
          using sum.remove [OF assms(2), of p "\<lambda>q. 4 * length (gcItems s q)"]
            sum.remove [OF assms(2), of p "\<lambda>q. 4 * length (gcItems s1 q)"]
          by (simp add: s1_def snoc)
        with w have "relGood s1 ext calls1"
          by (intro less.hyps [OF _ relInv_RClear_item [OF inv snoc, folded s1_def calls1_def]])
            (use less.prems(2) in \<open>simp_all add: s1_def\<close>)
        from this r show ?thesis
          by (rule relGood_step) (use dn in \<open>auto simp: s1_def calls1_def Cons RClear\<close>)
      qed
    next
      case (RDone p)
      define s1 where "s1 = refDone p s"
      obtain C' L' where 1: "relInv s1 ext C' L' cs" "frame s1 = frame s" "isAlloc s1 = (isAlloc s)(p := False)"
        "ext p = 0"
        using relInv_RDone [OF less.prems(1) [unfolded Cons RDone]] unfolding s1_def by metis
      note f = frame_D [OF 1(2)]
      have r: "gcRelease s calls = gcRelease s1 cs"
        by (subst gcRelease.simps) (simp add: Cons RDone s1_def)
      have "relGood s1 ext cs"
      proof (rule less.hyps [OF _ 1(1)])
        show "{q. isAlloc s1 q} \<subseteq> A" using less.prems(2) 1(3) by auto
      qed (use f in \<open>simp add: Cons RDone callWeight_def\<close>)
      from this r show ?thesis by (rule relGood_step) (use f 1(4) in \<open>auto simp: 1(3) Cons RDone split: if_splits\<close>)
    qed
  qed
qed

lemma gcRelease_gcInv:
  assumes "relInv s ext C L calls"
  shows "\<exists>s'. gcRelease s calls = Some s' \<and> gcInv s' ext \<and> gcRoots s' = gcRoots s \<and> gcErrors s' = gcErrors s \<and>
    locked s' = locked s \<and> (\<forall>p. isAlloc s' p \<longrightarrow> isAlloc s p \<and> gcItems s' p = gcItems s p) \<and>
    (\<forall>p. isAlloc s p \<longrightarrow> 0 < ext p \<longrightarrow> isAlloc s' p)"
proof -
  have "finite {p. isAlloc s p}" using assms by (simp add: relInv_def relLists_def)
  then have "relGood s ext calls" by (rule gcRelease_inv [OF assms _ subset_refl])
  then show ?thesis using relInv_gcInv unfolding relGood_def by blast
qed

end
