(* ===== verification/HbGcMach.thy ===== *)
theory HbGcMach
  imports HbGcRelease
begin

text \<open>
  The program against the collector: the items the virtual machine holds, copying of items
  (\<open>hb_itemCopy\<close>), creation of arrays (\<open>hb_arrayNew\<close>), grips and collections, as the steps of a
  machine whose state is the heap of blocks and the references the C code keeps.
\<close>

subsection \<open>Items in memory\<close>

text \<open>An item of the stack or an element of an array; \<open>None\<close> is an item that is not there.\<close>

datatype itemLoc = LRoot nat | LElem addr nat

fun itemAt :: "gcState \<Rightarrow> itemLoc \<Rightarrow> gcItem option" where
  "itemAt s (LRoot i) = (if i < length (gcRoots s) then Some (gcRoots s ! i) else None)"
| "itemAt s (LElem p k) = (if isAlloc s p \<and> k < length (gcItems s p) then Some (gcItems s p ! k) else None)"

fun putItem :: "itemLoc \<Rightarrow> gcItem \<Rightarrow> gcState \<Rightarrow> gcState" where
  "putItem (LRoot i) it s = s\<lparr>gcRoots := (gcRoots s)[i := it]\<rparr>"
| "putItem (LElem p k) it s = s\<lparr>gcItems := (gcItems s)(p := (gcItems s p)[k := it])\<rparr>"

text \<open>\<open>hb_itemClear\<close> of an item in memory: the type becomes \<open>NIL\<close> before the block is given back.\<close>

definition hb_itemClear_at :: "itemLoc \<Rightarrow> gcState \<Rightarrow> gcState option" where
  "hb_itemClear_at pItem s =
     (case itemAt s pItem of None \<Rightarrow> None | Some it \<Rightarrow> hb_itemClear it (putItem pItem GNone s))"

text \<open>\<open>hb_itemCopy\<close> clears the destination first, so it reads the source after that.\<close>

definition hb_itemCopy :: "itemLoc \<Rightarrow> itemLoc \<Rightarrow> gcState \<Rightarrow> gcState option" where
  "hb_itemCopy pDest pSource s =
     Option.bind (hb_itemClear_at pDest s) (\<lambda>s.
       case (itemAt s pDest, itemAt s pSource) of
         (Some _, Some it) \<Rightarrow> Some (hb_itemCopy_ref (copiedItem it) (putItem pDest (copiedItem it) s))
       | _ \<Rightarrow> None)"

text \<open>The new block has the address \<open>p\<close>.\<close>

definition hb_arrayNew :: "itemLoc \<Rightarrow> nat \<Rightarrow> addr \<Rightarrow> gcState \<Rightarrow> gcState option" where
  "hb_arrayNew pItem nLen p s =
     Option.bind (hb_itemClear_at pItem s) (\<lambda>s.
       let s = hb_gcAllocRaw p s; s = s\<lparr>gcItems := (gcItems s)(p := replicate nLen GNone)\<rparr>
       in Some (putItem pItem (GArray p) s))"

definition hb_stackPush :: "gcState \<Rightarrow> gcState" where
  "hb_stackPush s = s\<lparr>gcRoots := gcRoots s @ [GNone]\<rparr>"

definition hb_stackPop :: "gcState \<Rightarrow> gcState option" where
  "hb_stackPop s =
     Option.bind (hb_itemClear_at (LRoot (length (gcRoots s) - 1)) s) (\<lambda>s. Some (s\<lparr>gcRoots := butlast (gcRoots s)\<rparr>))"

subsection \<open>The machine\<close>

datatype gcOp = OpPush | OpPop | OpNew nat nat addr | OpCopy itemLoc itemLoc | OpGrip addr itemLoc | OpUngrip addr | OpCollect

type_synonym gcMach = "gcState \<times> (addr \<Rightarrow> nat)"

fun gcDo :: "gcOp \<Rightarrow> gcMach \<Rightarrow> gcMach option" where
  "gcDo OpPush (s, ext) = Some (hb_stackPush s, ext)"
| "gcDo OpPop (s, ext) = map_option (\<lambda>s. (s, ext)) (hb_stackPop s)"
| "gcDo (OpNew i n p) (s, ext) = map_option (\<lambda>s. (s, ext)) (hb_arrayNew (LRoot i) n p s)"
| "gcDo (OpCopy d src) (s, ext) = map_option (\<lambda>s. (s, ext)) (hb_itemCopy d src s)"
| "gcDo (OpGrip p src) (s, ext) =
     (case itemAt s src of None \<Rightarrow> None | Some it \<Rightarrow> Some (hb_gcGripGet p it s, ext(p := 1)))"
| "gcDo (OpUngrip p) (s, ext) = map_option (\<lambda>s. (s, ext(p := 0))) (hb_gcGripDrop p s)"
| "gcDo OpCollect (s, ext) = map_option (\<lambda>s. (s, ext)) (hb_gcCollectAll True s)"

text \<open>What the callers ensure: the item exists, and the array of an element is held by an item of
  the stack other than the destination. A new block is at an address the memory manager does not use.\<close>

fun locOk :: "gcState \<Rightarrow> itemLoc option \<Rightarrow> itemLoc \<Rightarrow> bool" where
  "locOk s dest (LRoot i) = (i < length (gcRoots s))"
| "locOk s dest (LElem p k) = (k < length (gcItems s p) \<and>
     (\<exists>j<length (gcRoots s). dest \<noteq> Some (LRoot j) \<and> p \<in> List.set (itemBlocks (gcRoots s ! j))))"

fun gcGuard :: "gcOp \<Rightarrow> gcMach \<Rightarrow> bool" where
  "gcGuard OpPush (s, ext) = True"
| "gcGuard OpPop (s, ext) = (gcRoots s \<noteq> [])"
| "gcGuard (OpNew i n p) (s, ext) = (i < length (gcRoots s) \<and> \<not> isAlloc s p)"
| "gcGuard (OpCopy d src) (s, ext) = (d \<noteq> src \<and> locOk s None d \<and> locOk s (Some d) src)"
| "gcGuard (OpGrip p src) (s, ext) = (locOk s None src \<and> \<not> isAlloc s p)"
| "gcGuard (OpUngrip p) (s, ext) = (0 < ext p)"
| "gcGuard OpCollect (s, ext) = True"

definition gcInit :: gcState where
  "gcInit = \<lparr>pNext = (\<lambda>_. 0), pPrev = (\<lambda>_. 0), locked = (\<lambda>_. 0), used = (\<lambda>_. 0), refCount = (\<lambda>_. 0),
     gcItems = (\<lambda>_. []), isAlloc = (\<lambda>_. False), s_pCurrBlock = None, s_pLockedBlock = None, s_pDeletedBlock = None,
     s_uUsedFlag = HB_GC_USED_FLAG, s_bCollecting = False, gcRoots = [], vmRequest = False, gcErrors = []\<rparr>"

inductive gcReach :: "gcMach \<Rightarrow> bool" where
  init: "gcReach (gcInit, \<lambda>_. 0)"
| step: "gcReach m \<Longrightarrow> gcGuard op m \<Longrightarrow> gcDo op m = Some m' \<Longrightarrow> gcReach m'"

subsection \<open>The invariant of the machine\<close>

text \<open>The blocks some item in memory refers to.\<close>

definition refd :: "gcState \<Rightarrow> addr set" where
  "refd s = List.set (rootRefs s) \<union> (\<Union>q\<in>{q. isAlloc s q}. List.set (blockRefs s q))"

text \<open>The C code holds one reference to each grip and no item holds one; it holds no other reference.\<close>

definition gripOk :: "gcState \<Rightarrow> (addr \<Rightarrow> nat) \<Rightarrow> bool" where
  "gripOk s ext \<longleftrightarrow> (\<forall>p. if isAlloc s p \<and> locked s p \<noteq> 0 then ext p = 1 \<and> p \<notin> refd s else ext p = 0)"

definition machInv :: "gcMach \<Rightarrow> bool" where
  "machInv m = (gcInv (fst m) (snd m) \<and> gripOk (fst m) (snd m) \<and> gcErrors (fst m) = [])"

lemma count_blockRefs: "count_list (blockRefs s p) q = (\<Sum>it\<leftarrow>gcItems s p. count_list (itemBlocks it) q)"
proof -
  have "count_list (concat (map itemBlocks (rev xs))) q = (\<Sum>it\<leftarrow>xs. count_list (itemBlocks it) q)" for xs
    by (induction xs) auto
  then show ?thesis by (simp add: blockRefs_def)
qed

lemma count_rootRefs: "count_list (rootRefs s) q = (\<Sum>it\<leftarrow>gcRoots s. count_list (itemBlocks it) q)"
proof -
  have "count_list (concat (map itemBlocks xs)) q = (\<Sum>it\<leftarrow>xs. count_list (itemBlocks it) q)" for xs
    by (induction xs) auto
  then show ?thesis by (simp add: rootRefs_def)
qed

lemma sum_list_put:
  fixes f :: "'a \<Rightarrow> nat"
  shows "k < length xs \<Longrightarrow> sum_list (map f (xs[k := x])) + f (xs ! k) = sum_list (map f xs) + f x"
  by (induction xs arbitrary: k) (auto split: nat.splits)

text \<open>Writing an item changes the references by the blocks of the old and the new item.\<close>

lemma outer_put:
  assumes "itemAt s l = Some old" "finite {q. isAlloc s q}"
  shows "outer (putItem l it s) ext {q. isAlloc s q} p + count_list (itemBlocks old) p =
    outer s ext {q. isAlloc s q} p + count_list (itemBlocks it) p"
proof (cases l)
  case (LRoot i)
  then have i: "i < length (gcRoots s)" "old = gcRoots s ! i" using assms(1) by (auto split: if_splits)
  have "blockRefs (putItem l it s) = blockRefs s" using LRoot by (simp add: fun_eq_iff blockRefs_def)
  then show ?thesis
    using sum_list_put [OF i(1), of "\<lambda>it. count_list (itemBlocks it) p" it] i LRoot
    by (simp add: outer_def count_rootRefs)
next
  case (LElem a k)
  then have k: "isAlloc s a" "k < length (gcItems s a)" "old = gcItems s a ! k" using assms(1) by (auto split: if_splits)
  have r: "rootRefs (putItem l it s) = rootRefs s" using LElem by (simp add: rootRefs_def)
  have b: "blockRefs (putItem l it s) x = blockRefs s x" if "x \<noteq> a" for x
    using that LElem by (simp add: blockRefs_def)
  have "count_list (blockRefs (putItem l it s) a) p + count_list (itemBlocks old) p =
      count_list (blockRefs s a) p + count_list (itemBlocks it) p"
    using sum_list_put [OF k(2), of "\<lambda>it. count_list (itemBlocks it) p" it] k(3) LElem by (simp add: count_blockRefs)
  moreover have "(\<Sum>x\<in>{q. isAlloc s q} - {a}. count_list (blockRefs (putItem l it s) x) p) =
      (\<Sum>x\<in>{q. isAlloc s q} - {a}. count_list (blockRefs s x) p)"
    by (rule sum.cong) (simp_all add: b)
  ultimately show ?thesis
    using sum.remove [OF assms(2), of a "\<lambda>x. count_list (blockRefs s x) p"]
      sum.remove [OF assms(2), of a "\<lambda>x. count_list (blockRefs (putItem l it s) x) p"] k(1)
    by (simp add: outer_def r)
qed

text \<open>An item is taken out of memory: its block is what is still to be released.\<close>

lemma putItem_sel [simp]:
  "pNext (putItem l it s) = pNext s" "pPrev (putItem l it s) = pPrev s" "locked (putItem l it s) = locked s"
  "used (putItem l it s) = used s" "refCount (putItem l it s) = refCount s" "isAlloc (putItem l it s) = isAlloc s"
  "s_pCurrBlock (putItem l it s) = s_pCurrBlock s" "s_pLockedBlock (putItem l it s) = s_pLockedBlock s"
  "s_pDeletedBlock (putItem l it s) = s_pDeletedBlock s" "s_uUsedFlag (putItem l it s) = s_uUsedFlag s"
  "s_bCollecting (putItem l it s) = s_bCollecting s" "gcErrors (putItem l it s) = gcErrors s"
  "vmRequest (putItem l it s) = vmRequest s"
  by (cases l; simp)+

lemma putItem_refs:
  assumes "itemAt s l = Some old"
  shows "List.set (rootRefs (putItem l it s)) \<subseteq> List.set (rootRefs s) \<union> List.set (itemBlocks it)"
    "List.set (blockRefs (putItem l it s) p) \<subseteq> List.set (blockRefs s p) \<union> List.set (itemBlocks it)"
proof -
  have u: "(\<Union>x\<in>List.set (xs[i := it]). List.set (itemBlocks x)) \<subseteq> (\<Union>x\<in>List.set xs. List.set (itemBlocks x)) \<union> List.set (itemBlocks it)"
    for xs i using set_update_subset_insert [of xs i it] by blast
  show "List.set (rootRefs (putItem l it s)) \<subseteq> List.set (rootRefs s) \<union> List.set (itemBlocks it)"
    using u by (cases l) (simp_all add: rootRefs_def)
  show "List.set (blockRefs (putItem l it s) p) \<subseteq> List.set (blockRefs s p) \<union> List.set (itemBlocks it)"
    using u by (cases l) (simp_all add: blockRefs_def)
qed

lemma gcClosed_put:
  assumes "gcClosed s" "itemAt s l = Some old" "\<And>p. p \<in> List.set (itemBlocks it) \<Longrightarrow> isAlloc s p"
  shows "gcClosed (putItem l it s)"
  using assms(1,3) putItem_refs [OF assms(2), of it] unfolding gcClosed_def putItem_sel by blast

lemma itemAt_refs:
  assumes "itemAt s l = Some it" "gcClosed s" "p \<in> List.set (itemBlocks it)"
  shows "isAlloc s p"
proof (cases l)
  case (LRoot i)
  then have "p \<in> List.set (rootRefs s)" using assms by (auto simp: rootRefs_def split: if_splits)
  then show ?thesis using assms(2) by (auto simp: gcClosed_def)
next
  case (LElem a k)
  then have "p \<in> List.set (blockRefs s a)" "isAlloc s a" using assms by (auto simp: blockRefs_def split: if_splits)
  then show ?thesis using assms(2) by (auto simp: gcClosed_def)
qed

lemma relInv_put:
  assumes "relInv s ext C L []" "itemAt s l = Some old"
  shows "relInv (putItem l GNone s) ext C L (map RFree (itemBlocks old))"
proof -
  define s' where "s' = putItem l GNone s"
  have rl: "relLists s C L" and c: "relCount s ext []" and d: "relDone s []" and cl: "gcClosed s"
    using assms(1) by (simp_all add: relInv_def)
  have fin: "finite {q. isAlloc s q}" using rl by (simp add: relLists_def)
  have "relLists s' C L" using rl by (simp add: relLists_def threeLists_def inList_def s'_def)
  moreover have "gcClosed s'"
    unfolding s'_def by (rule gcClosed_put [OF cl assms(2)]) simp
  moreover have "relCount s' ext (map RFree (itemBlocks old))"
    unfolding relCount_def
  proof (intro conjI allI impI)
    fix p assume "isAlloc s' p"
    then show "refCount s' p = int (outer s' ext {q. isAlloc s' q} p + count_list (map RFree (itemBlocks old)) (RFree p))"
      using c outer_put [OF assms(2) fin, of GNone ext p] by (simp add: relCount_def s'_def)
  next
    fix p assume "RFree p \<in> List.set (map RFree (itemBlocks old))"
    then show "isAlloc s' p" using itemAt_refs [OF assms(2) cl] by (auto simp: s'_def)
  qed
  moreover have "callsOk e (map RFree xs)" for e xs using callsOk_RFree [of e xs "[]"] by simp
  then have "relDone s' (map RFree (itemBlocks old))"
    using d by (auto simp: relDone_def s'_def okUsed_def)
  ultimately show ?thesis using assms(1) by (simp add: relInv_def s'_def)
qed

lemma clear_at:
  assumes "gcInv s ext" "itemAt s l = Some old"
  obtains s' where "hb_itemClear_at l s = Some s'" "gcInv s' ext" "gcRoots s' = gcRoots (putItem l GNone s)"
    "gcErrors s' = gcErrors s" "locked s' = locked s" "\<And>p. isAlloc s' p \<Longrightarrow> isAlloc s p"
    "\<And>p. isAlloc s' p \<Longrightarrow> gcItems s' p = gcItems (putItem l GNone s) p"
    "\<And>p. isAlloc s p \<Longrightarrow> 0 < ext p \<Longrightarrow> isAlloc s' p"
proof -
  obtain C L where "relInv s ext C L []" using gcInv_relInv [OF assms(1)] .
  from gcRelease_gcInv [OF relInv_put [OF this assms(2)]] show ?thesis
    using that assms(2) by (auto simp: hb_itemClear_at_def hb_itemClear_def)
qed

text \<open>An item is written where there was none.\<close>

lemma gcInv_write:
  assumes "gcInv s ext" "itemAt s l = Some GNone" "\<And>p. p \<in> List.set (itemBlocks it) \<Longrightarrow> isAlloc s p"
    "\<And>p. isAlloc s p \<Longrightarrow> rc p + int (ext p) = refCount s p + int (count_list (itemBlocks it) p) + int (ext' p)"
    "\<And>p. isAlloc s p \<Longrightarrow> 0 < rc p"
  shows "gcInv ((putItem l it s)\<lparr>refCount := rc\<rparr>) ext'"
proof -
  define s' where "s' = (putItem l it s)\<lparr>refCount := rc\<rparr>"
  obtain C L where l: "gcLists s C L" using assms(1) by (auto simp: gcInv_def)
  have fin: "finite {q. isAlloc s q}" using l by (simp add: gcLists_def)
  have c: "gcCounts s ext" and cl: "gcClosed s" using assms(1) by (simp_all add: gcInv_def)
  have r: "rootRefs s' = rootRefs (putItem l it s)" "blockRefs s' = blockRefs (putItem l it s)"
    by (simp_all add: s'_def rootRefs_def fun_eq_iff blockRefs_def)
  have "gcLists s' C L" using l by (simp add: gcLists_def threeLists_def inList_def s'_def)
  moreover have "gcClosed s'"
    using gcClosed_put [OF cl assms(2,3)] unfolding gcClosed_def r by (simp add: s'_def)
  moreover have "gcCounts s' ext'"
    unfolding gcCounts_def
  proof (intro allI impI conjI)
    fix p assume "isAlloc s' p"
    then have p: "isAlloc s p" by (simp add: s'_def)
    have "refCount s p = int (outer s ext {q. isAlloc s q} p)"
      using c p by (simp add: gcCounts_def outer_def held_def)
    moreover have "outer (putItem l it s) ext {q. isAlloc s q} p = outer s ext {q. isAlloc s q} p + count_list (itemBlocks it) p"
      using outer_put [OF assms(2) fin, of it ext p] by simp
    moreover have "int (count_list (rootRefs s') p + held s' p + ext' p) + int (ext p) =
        int (outer (putItem l it s) ext {q. isAlloc s q} p) + int (ext' p)"
      unfolding r outer_def held_def by (simp add: s'_def)
    ultimately show "refCount s' p = int (count_list (rootRefs s') p + held s' p + ext' p)"
      using assms(4) [OF p] by (simp add: s'_def)
    show "0 < refCount s' p" using assms(5) [OF p] by (simp add: s'_def)
  qed
  ultimately show ?thesis using assms(1) unfolding s'_def [symmetric] by (auto simp: gcInv_def s'_def)
qed

lemma itemCopy_ref_eq:
  "hb_itemCopy_ref it s = s\<lparr>refCount := (\<lambda>p. refCount s p + int (count_list (itemBlocks it) p))\<rparr>"
  by (cases it) (auto simp: hb_itemCopy_ref_def hb_gcRefInc_def fun_eq_iff)

lemma gcInv_copy:
  assumes "gcInv s ext" "itemAt s l = Some GNone" "\<And>p. p \<in> List.set (itemBlocks it) \<Longrightarrow> isAlloc s p"
  shows "gcInv (hb_itemCopy_ref it (putItem l it s)) ext"
  unfolding itemCopy_ref_eq using assms(1)
  by (intro gcInv_write [OF assms]) (auto simp: gcInv_def gcCounts_def)

text \<open>A new block, with one reference of the C code.\<close>

definition newBlock :: "gcList \<Rightarrow> 16 word \<Rightarrow> nat \<Rightarrow> addr \<Rightarrow> gcState \<Rightarrow> gcState" where
  "newBlock l lck n p s =
     (let s = hb_gcLink l p (HB_GARBAGE_NEW p lck s) in s\<lparr>gcItems := (gcItems s)(p := replicate n GNone)\<rparr>)"

lemma newBlock_sel:
  "isAlloc (newBlock l lck n p s) = (isAlloc s)(p := True)" "refCount (newBlock l lck n p s) = (refCount s)(p := 1)"
  "gcItems (newBlock l lck n p s) = (gcItems s)(p := replicate n GNone)" "gcRoots (newBlock l lck n p s) = gcRoots s"
  "locked (newBlock l lck n p s) = (locked s)(p := lck)" "used (newBlock l lck n p s) = (used s)(p := s_uUsedFlag s)"
  "s_uUsedFlag (newBlock l lck n p s) = s_uUsedFlag s" "s_bCollecting (newBlock l lck n p s) = s_bCollecting s"
  "gcErrors (newBlock l lck n p s) = gcErrors s"
  by (simp_all add: newBlock_def HB_GARBAGE_NEW_def Let_def)

lemma newBlock_lists:
  assumes "gcLists s C L" "\<not> isAlloc s p" "s_uUsedFlag s \<in> {0, HB_GC_USED_FLAG}"
  shows "gcLists (newBlock L_CURR 0 n p s) (C @ [p]) L" "gcLists (newBlock L_LOCKED 1 n p s) C (L @ [p])"
proof -
  define s0 where "s0 lck = HB_GARBAGE_NEW p lck s" for lck
  have t: "threeLists s C L []" "{p. isAlloc s p} = List.set C \<union> List.set L"
    using assms(1) by (simp_all add: gcLists_def)
  have a: "inList (s0 lck) L_CURR C" "inList (s0 lck) L_LOCKED L" "inList (s0 lck) L_DELETED []" "distinct (C @ L)" for lck
    using t(1) by (simp_all add: threeLists_def inList_def s0_def HB_GARBAGE_NEW_def)
  have p: "p \<notin> List.set C" "p \<notin> List.set L" using t(2) assms(2) by auto
  have "threeLists (hb_gcLink L_CURR p (s0 0)) (C @ [p]) L []"
    using inList_link [OF a(1) p(1)] inList_link_other [OF a(1,2) _ _ p] inList_link_other [OF a(1,3) _ _ p(1)] a(4) p
    by (auto simp: threeLists_def)
  moreover have "threeLists (hb_gcLink L_LOCKED p (s0 1)) C (L @ [p]) []"
    using inList_link [OF a(2) p(2)] inList_link_other [OF a(2,1) _ _ p(2,1)] inList_link_other [OF a(2,3) _ _ p(2)] a(4) p
    by (auto simp: threeLists_def)
  moreover have "threeLists (newBlock l lck n p s) C' L' D = threeLists (hb_gcLink l p (s0 lck)) C' L' D" for l lck C' L' D
    by (simp add: newBlock_def threeLists_def inList_def s0_def Let_def)
  ultimately show "gcLists (newBlock L_CURR 0 n p s) (C @ [p]) L" "gcLists (newBlock L_LOCKED 1 n p s) C (L @ [p])"
    using assms(1,3) p t(2) by (auto simp: gcLists_def newBlock_sel)
qed

lemma newBlock_gcInv:
  assumes "gcInv s ext" "\<not> isAlloc s p" "(l, lck) \<in> {(L_CURR, 0), (L_LOCKED, 1)}"
  shows "gcInv (newBlock l lck n p s) (ext(p := 1))"
proof -
  define s' where "s' = newBlock l lck n p s"
  obtain C L where gl: "gcLists s C L" using assms(1) by (auto simp: gcInv_def)
  have fin: "finite {q. isAlloc s q}" using gl by (simp add: gcLists_def)
  have c: "gcCounts s ext" and cl: "gcClosed s" and u: "s_uUsedFlag s \<in> {0, HB_GC_USED_FLAG}"
    using assms(1) by (simp_all add: gcInv_def)
  have "concat (map itemBlocks (replicate n GNone)) = []" by (induction n) auto
  then have b: "blockRefs s' q = (if q = p then [] else blockRefs s q)" for q
    by (simp add: blockRefs_def s'_def newBlock_sel)
  have r: "rootRefs s' = rootRefs s" by (simp add: rootRefs_def s'_def newBlock_sel)
  have al: "{q. isAlloc s' q} = insert p {q. isAlloc s q}" by (auto simp: s'_def newBlock_sel)
  have "(\<Sum>x\<in>{q. isAlloc s q}. count_list (if x = p then [] else blockRefs s x) q) =
      (\<Sum>x\<in>{q. isAlloc s q}. count_list (blockRefs s x) q)" for q
    by (rule sum.cong) (use assms(2) in auto)
  then have h: "held s' q = held s q" for q
    using fin assms(2) by (simp add: held_def al b)
  have z: "count_list (rootRefs s) p = 0" "held s p = 0"
    using cl assms(2) fin unfolding gcClosed_def held_def by (auto simp: count_list_0_iff)
  have "\<exists>C L. gcLists s' C L" using newBlock_lists [OF gl assms(2) u] assms(3) unfolding s'_def by auto
  moreover have "gcCounts s' (ext(p := 1))"
    using c z by (auto simp: gcCounts_def r h) (auto simp: s'_def newBlock_sel)
  moreover have "gcClosed s'"
    using cl by (auto simp: gcClosed_def r b) (auto simp: s'_def newBlock_sel)
  ultimately show ?thesis using assms(1) unfolding s'_def [symmetric] by (simp add: gcInv_def s'_def newBlock_sel)
qed

lemma arrayNew_eq:
  "(let s = hb_gcAllocRaw p s in s\<lparr>gcItems := (gcItems s)(p := replicate n GNone)\<rparr>) = newBlock L_CURR 0 n p s"
  by (simp add: newBlock_def hb_gcAllocRaw_def)

lemma gripGet_eq:
  "hb_gcGripGet p it s =
    hb_itemCopy_ref (copiedItem it) (putItem (LElem p 0) (copiedItem it) (newBlock L_LOCKED 1 1 p s))"
  by (simp add: hb_gcGripGet_def newBlock_def Let_def)

subsection \<open>Steps of the machine\<close>

lemma gcInv_roots:
  assumes "gcInv s ext" "concat (map itemBlocks r) = rootRefs s"
  shows "gcInv (s\<lparr>gcRoots := r\<rparr>) ext"
proof -
  have "rootRefs (s\<lparr>gcRoots := r\<rparr>) = rootRefs s" "blockRefs (s\<lparr>gcRoots := r\<rparr>) = blockRefs s"
    using assms(2) by (simp_all add: rootRefs_def fun_eq_iff blockRefs_def)
  then have "gcCounts (s\<lparr>gcRoots := r\<rparr>) ext = gcCounts s ext" "gcClosed (s\<lparr>gcRoots := r\<rparr>) = gcClosed s"
    by (simp_all add: gcCounts_def gcClosed_def held_def)
  moreover have "gcLists (s\<lparr>gcRoots := r\<rparr>) C L = gcLists s C L" for C L
    by (simp add: gcLists_def threeLists_def inList_def)
  ultimately show ?thesis using assms(1) by (simp add: gcInv_def)
qed

lemma gripOk_mono:
  assumes "gripOk s ext" "locked s' = locked s" "\<And>p. isAlloc s' p \<Longrightarrow> isAlloc s p"
    "\<And>p. isAlloc s p \<Longrightarrow> 0 < ext p \<Longrightarrow> isAlloc s' p" "refd s' \<subseteq> refd s"
  shows "gripOk s' ext"
  unfolding gripOk_def
proof (intro allI)
  fix p
  have "if isAlloc s p \<and> locked s p \<noteq> 0 then ext p = 1 \<and> p \<notin> refd s else ext p = 0"
    using assms(1) unfolding gripOk_def by blast
  then show "if isAlloc s' p \<and> locked s' p \<noteq> 0 then ext p = 1 \<and> p \<notin> refd s' else ext p = 0"
    using assms(2) assms(3,4) [of p] assms(5) by (auto split: if_splits)
qed

lemma refd_sub:
  assumes "\<And>p. isAlloc s' p \<Longrightarrow> isAlloc s p" "\<And>p. isAlloc s' p \<Longrightarrow> gcItems s' p = gcItems t p"
    "gcRoots s' = gcRoots t" "isAlloc t = isAlloc s"
  shows "refd s' \<subseteq> refd t"
  using assms by (fastforce simp: refd_def rootRefs_def blockRefs_def)

lemma refd_put:
  assumes "itemAt s l = Some old"
  shows "refd (putItem l it s) \<subseteq> refd s \<union> List.set (itemBlocks it)"
  using putItem_refs [OF assms, of it] unfolding refd_def putItem_sel by blast

lemma itemAt_refd: "itemAt s l = Some it \<Longrightarrow> List.set (itemBlocks it) \<subseteq> refd s"
  by (cases l) (fastforce simp: refd_def rootRefs_def blockRefs_def split: if_splits)+

lemma machInv_clear:
  assumes "machInv (s, ext)" "itemAt s l = Some old"
  obtains s' where "hb_itemClear_at l s = Some s'" "machInv (s', ext)" "gcRoots s' = gcRoots (putItem l GNone s)"
    "\<And>p. isAlloc s' p \<Longrightarrow> isAlloc s p" "\<And>p. isAlloc s' p \<Longrightarrow> gcItems s' p = gcItems (putItem l GNone s) p"
    "refd s' \<subseteq> refd s"
proof -
  have i: "gcInv s ext" "gripOk s ext" "gcErrors s = []" using assms(1) by (simp_all add: machInv_def)
  obtain s' where s': "hb_itemClear_at l s = Some s'" "gcInv s' ext" "gcRoots s' = gcRoots (putItem l GNone s)"
    "gcErrors s' = gcErrors s" "locked s' = locked s" "\<And>p. isAlloc s' p \<Longrightarrow> isAlloc s p"
    "\<And>p. isAlloc s' p \<Longrightarrow> gcItems s' p = gcItems (putItem l GNone s) p"
    "\<And>p. isAlloc s p \<Longrightarrow> 0 < ext p \<Longrightarrow> isAlloc s' p"
    using clear_at [OF i(1) assms(2)] by metis
  have "refd s' \<subseteq> refd (putItem l GNone s)"
    by (rule refd_sub [of s' s]) (use s'(3,6,7) in simp_all)
  with refd_put [OF assms(2), of GNone] have r: "refd s' \<subseteq> refd s" by simp
  have "gripOk s' ext" by (rule gripOk_mono [OF i(2) s'(5,6,8) r])
  then have "machInv (s', ext)" using s'(2,4) i(3) by (simp add: machInv_def)
  with s' r show ?thesis using that by blast
qed

lemma machInv_copy_ref:
  assumes "machInv (s, ext)" "itemAt s l = Some GNone" "List.set (itemBlocks it) \<subseteq> refd s"
  shows "machInv (hb_itemCopy_ref it (putItem l it s), ext)"
proof -
  have i: "gcInv s ext" "gripOk s ext" "gcErrors s = []" using assms(1) by (simp_all add: machInv_def)
  have "refd s \<subseteq> {p. isAlloc s p}" using i(1) unfolding gcInv_def gcClosed_def refd_def by blast
  then have "gcInv (hb_itemCopy_ref it (putItem l it s)) ext"
    using assms(3) by (intro gcInv_copy [OF i(1) assms(2)]) auto
  moreover have "refd (hb_itemCopy_ref it (putItem l it s)) = refd (putItem l it s)"
    by (simp add: refd_def itemCopy_ref_eq rootRefs_def blockRefs_def)
  then have "gripOk (hb_itemCopy_ref it (putItem l it s)) ext"
    using refd_put [OF assms(2), of it] assms(3)
    by (intro gripOk_mono [OF i(2)]) (auto simp: itemCopy_ref_eq)
  ultimately show ?thesis using i(3) by (simp add: machInv_def itemCopy_ref_eq)
qed

lemma machInv_alloc: "machInv (s, ext) \<Longrightarrow> p \<in> List.set (rootRefs s) \<Longrightarrow> isAlloc s p"
  by (auto simp: machInv_def gcInv_def gcClosed_def)

lemma locOk_at:
  assumes "machInv (s, ext)" "locOk s dest l"
  obtains it where "itemAt s l = Some it"
proof (cases l)
  case (LElem p k)
  then have "p \<in> List.set (rootRefs s)" "k < length (gcItems s p)"
    using assms(2) nth_mem [of _ "gcRoots s"] by (auto simp: rootRefs_def)
  then show ?thesis using that LElem machInv_alloc [OF assms(1)] by simp
qed (use assms that in simp)

text \<open>The item at another place is still there after the destination is cleared.\<close>

lemma itemAt_cleared:
  assumes "machInv (s', ext)" "locOk s (Some d) l" "gcRoots s' = gcRoots (putItem d GNone s)"
    "\<And>p. isAlloc s' p \<Longrightarrow> isAlloc s p" "\<And>p. isAlloc s' p \<Longrightarrow> gcItems s' p = gcItems (putItem d GNone s) p"
  shows "itemAt s' l = (if l = d then Some GNone else itemAt s l)"
proof (cases l)
  case (LRoot i)
  then show ?thesis using assms(2,3) by (cases d) (auto simp: nth_list_update)
next
  case (LElem p k)
  then obtain j where j: "j < length (gcRoots s)" "d \<noteq> LRoot j" "p \<in> List.set (itemBlocks (gcRoots s ! j))"
    "k < length (gcItems s p)"
    using assms(2) by auto
  have "gcRoots s' ! j = gcRoots s ! j" "j < length (gcRoots s')"
    using assms(3) j(1,2) by (cases d; auto simp: nth_list_update)+
  then have "p \<in> List.set (rootRefs s')" using j(3) nth_mem [of j "gcRoots s'"] by (auto simp: rootRefs_def)
  then have p: "isAlloc s' p" by (rule machInv_alloc [OF assms(1)])
  show ?thesis
    using assms(4,5) [OF p] p j(4) LElem by (cases d) (auto simp: nth_list_update)
qed

lemma locOk_dest: "locOk s None d \<Longrightarrow> locOk s (Some d) d"
  by (cases d) auto

lemma copiedItem_sub: "List.set (itemBlocks (copiedItem it)) \<subseteq> List.set (itemBlocks it)"
  by (cases it) auto

lemma copy_step:
  assumes "machInv (s, ext)" "d \<noteq> src" "locOk s None d" "locOk s (Some d) src"
  shows "\<exists>s'. hb_itemCopy d src s = Some s' \<and> machInv (s', ext)"
proof -
  obtain old it where o: "itemAt s d = Some old" "itemAt s src = Some it"
    using locOk_at [OF assms(1,3)] locOk_at [OF assms(1,4)] by metis
  obtain s1 where s1: "hb_itemClear_at d s = Some s1" "machInv (s1, ext)" "gcRoots s1 = gcRoots (putItem d GNone s)"
    "\<And>p. isAlloc s1 p \<Longrightarrow> isAlloc s p" "\<And>p. isAlloc s1 p \<Longrightarrow> gcItems s1 p = gcItems (putItem d GNone s) p"
    using machInv_clear [OF assms(1) o(1)] by metis
  have a: "itemAt s1 d = Some GNone" "itemAt s1 src = Some it"
    using itemAt_cleared [OF s1(2) _ s1(3-5)] locOk_dest [OF assms(3)] assms(2,4) o(2) by auto
  then have "List.set (itemBlocks (copiedItem it)) \<subseteq> refd s1" using itemAt_refd copiedItem_sub by blast
  then have "machInv (hb_itemCopy_ref (copiedItem it) (putItem d (copiedItem it) s1), ext)"
    using a(1) by (intro machInv_copy_ref [OF s1(2)])
  then show ?thesis using s1(1) a by (simp add: hb_itemCopy_def)
qed

lemma gripOk_new:
  assumes "gripOk s ext" "\<not> isAlloc s p" "gcClosed s"
  shows "gripOk (newBlock L_LOCKED 1 n p s) (ext(p := 1))" "ext p = 0"
    "refd (newBlock l lck n p s) = refd s"
proof -
  have e: "concat (map itemBlocks (replicate n GNone)) = []" by (induction n) auto
  have r: "rootRefs (newBlock l lck n p s) = rootRefs s" for l lck by (simp add: rootRefs_def newBlock_sel)
  have b: "blockRefs (newBlock l lck n p s) q = (if q = p then [] else blockRefs s q)" for q l lck
    by (simp add: blockRefs_def newBlock_sel e)
  have "(\<Union>q\<in>{q. isAlloc (newBlock l lck n p s) q}. List.set (blockRefs (newBlock l lck n p s) q)) =
      (\<Union>q\<in>{q. isAlloc s q}. List.set (blockRefs s q))" for l lck
    unfolding b using assms(2) by (auto simp: newBlock_sel split: if_splits)
  then have rf: "refd (newBlock l lck n p s) = refd s" for l lck by (simp add: refd_def r)
  show "refd (newBlock l lck n p s) = refd s" by (rule rf)
  have "p \<notin> refd s" using assms(2,3) unfolding refd_def gcClosed_def by blast
  then show "gripOk (newBlock L_LOCKED 1 n p s) (ext(p := 1))"
    using assms(1) unfolding gripOk_def rf by (simp add: newBlock_sel)
  show "ext p = 0" using assms(1,2) unfolding gripOk_def by (meson)
qed

lemma grip_step:
  assumes "machInv (s, ext)" "locOk s None src" "\<not> isAlloc s p"
  shows "\<exists>it. itemAt s src = Some it \<and> machInv (hb_gcGripGet p it s, ext(p := 1))"
proof -
  obtain it where it: "itemAt s src = Some it" using locOk_at [OF assms(1,2)] .
  have i: "gcInv s ext" "gripOk s ext" "gcErrors s = []" "gcClosed s"
    using assms(1) by (simp_all add: machInv_def gcInv_def)
  define s1 where "s1 = newBlock L_LOCKED 1 1 p s"
  have "gcInv s1 (ext(p := 1))" unfolding s1_def by (rule newBlock_gcInv [OF i(1) assms(3)]) simp
  then have "machInv (s1, ext(p := 1))"
    using gripOk_new [OF i(2) assms(3) i(4)] i(3) by (simp add: machInv_def s1_def newBlock_sel)
  moreover have "itemAt s1 (LElem p 0) = Some GNone" by (simp add: s1_def newBlock_sel)
  moreover have "List.set (itemBlocks (copiedItem it)) \<subseteq> refd s1"
    using itemAt_refd [OF it] copiedItem_sub [of it] gripOk_new(3) [OF i(2) assms(3) i(4)] by (simp add: s1_def)
  ultimately have "machInv (hb_gcGripGet p it s, ext(p := 1))" unfolding gripGet_eq s1_def [symmetric] by (rule machInv_copy_ref)
  then show ?thesis using it by blast
qed

lemma new_step:
  assumes "machInv (s, ext)" "i < length (gcRoots s)" "\<not> isAlloc s p"
  shows "\<exists>s'. hb_arrayNew (LRoot i) n p s = Some s' \<and> machInv (s', ext)"
proof -
  obtain s1 where s1: "hb_itemClear_at (LRoot i) s = Some s1" "machInv (s1, ext)"
    "gcRoots s1 = gcRoots (putItem (LRoot i) GNone s)" "\<And>p. isAlloc s1 p \<Longrightarrow> isAlloc s p"
  proof (rule machInv_clear [OF assms(1)])
    show "itemAt s (LRoot i) = Some (gcRoots s ! i)" using assms(2) by simp
  qed (use that in blast)
  have np: "\<not> isAlloc s1 p" using s1(4) assms(3) by blast
  have i: "gcInv s1 ext" "gripOk s1 ext" "gcErrors s1 = []" "gcClosed s1"
    using s1(2) by (simp_all add: machInv_def gcInv_def)
  define s2 where "s2 = newBlock L_CURR 0 n p s1"
  define s3 where "s3 = putItem (LRoot i) (GArray p) s2"
  have g2: "gcInv s2 (ext(p := 1))" unfolding s2_def by (rule newBlock_gcInv [OF i(1) np]) simp
  have at: "itemAt s2 (LRoot i) = Some GNone" using s1(3) assms(2) by (simp add: s2_def newBlock_sel)
  have "gcInv ((putItem (LRoot i) (GArray p) s2)\<lparr>refCount := refCount s2\<rparr>) ext"
  proof (rule gcInv_write [OF g2 at])
    show "0 < refCount s2 q" if "isAlloc s2 q" for q using g2 that unfolding gcInv_def gcCounts_def by blast
  qed (use gripOk_new(2) [OF i(2) np i(4)] in \<open>auto simp: s2_def newBlock_sel\<close>)
  moreover have "(putItem (LRoot i) (GArray p) s2)\<lparr>refCount := refCount s2\<rparr> = s3" by (simp add: s3_def)
  ultimately have "gcInv s3 ext" by simp
  moreover have "refd s3 \<subseteq> insert p (refd s1)"
    using refd_put [OF at, of "GArray p"] gripOk_new(3) [OF i(2) np i(4)] by (simp add: s2_def s3_def)
  then have "gripOk s3 ext"
    using i(2) gripOk_new(2) [OF i(2) np i(4)] unfolding gripOk_def
    by (auto simp: s2_def s3_def newBlock_sel split: if_splits)
  ultimately have "machInv (s3, ext)" using i(3) by (simp add: machInv_def s2_def s3_def newBlock_sel)
  moreover have "hb_arrayNew (LRoot i) n p s = Some s3"
    using s1(1) unfolding hb_arrayNew_def s3_def s2_def arrayNew_eq [symmetric] by (simp add: Let_def)
  ultimately show ?thesis by blast
qed

lemma ungrip_step:
  assumes "machInv (s, ext)" "0 < ext p"
  shows "\<exists>s'. hb_gcGripDrop p s = Some s' \<and> machInv (s', ext(p := 0))"
proof -
  define e where "e = ext(p := 0)"
  have i: "gcInv s ext" "gripOk s ext" "gcErrors s = []" using assms(1) by (simp_all add: machInv_def)
  have p: "isAlloc s p" "locked s p \<noteq> 0" "ext p = 1" "p \<notin> refd s"
    using i(2) [unfolded gripOk_def, rule_format, of p] assms(2) by (simp_all split: if_splits)
  obtain C L where r: "relInv s ext C L []" using gcInv_relInv [OF i(1)] .
  have "outer s ext {q. isAlloc s q} q = outer s e {q. isAlloc s q} q + count_list [RFree p] (RFree q)" for q
    using p(3) by (auto simp: outer_def e_def)
  then have "relCount s e [RFree p]" using r p(1) by (simp add: relInv_def relCount_def)
  then have "relInv s e C L [RFree p]" using r by (simp add: relInv_def relDone_def)
  then obtain s' where s': "hb_gcRefFree p s = Some s'" "gcInv s' e" "gcRoots s' = gcRoots s" "gcErrors s' = gcErrors s"
    "locked s' = locked s" "\<And>p. isAlloc s' p \<Longrightarrow> isAlloc s p" "\<And>p. isAlloc s' p \<Longrightarrow> gcItems s' p = gcItems s p"
    "\<And>p. isAlloc s p \<Longrightarrow> 0 < e p \<Longrightarrow> isAlloc s' p"
    using gcRelease_gcInv unfolding hb_gcRefFree_def by metis
  have rf: "refd s' \<subseteq> refd s" by (rule refd_sub) (use s'(3,6,7) in simp_all)
  have "\<not> isAlloc s' p"
  proof
    assume a: "isAlloc s' p"
    then have "refCount s' p = int (count_list (rootRefs s') p + held s' p + e p)" "0 < refCount s' p"
      using s'(2) unfolding gcInv_def gcCounts_def by blast+
    moreover have "p \<notin> refd s'" using rf p(4) by blast
    then have "count_list (rootRefs s') p = 0" "\<And>q. isAlloc s' q \<Longrightarrow> count_list (blockRefs s' q) p = 0"
      by (auto simp: refd_def count_list_0_iff)
    then have "count_list (rootRefs s') p = 0" "held s' p = 0" "e p = 0"
      by (simp_all add: held_def e_def)
    ultimately show False by simp
  qed
  have "gripOk s' e"
    unfolding gripOk_def
  proof (intro allI)
    fix q
    have "if isAlloc s q \<and> locked s q \<noteq> 0 then ext q = 1 \<and> q \<notin> refd s else ext q = 0"
      using i(2) unfolding gripOk_def by blast
    then show "if isAlloc s' q \<and> locked s' q \<noteq> 0 then e q = 1 \<and> q \<notin> refd s' else e q = 0"
      using s'(5) s'(6,8) [of q] rf \<open>\<not> isAlloc s' p\<close> by (cases "q = p") (auto simp: e_def split: if_splits)
  qed
  then show ?thesis using s'(1,2,4) i(3) by (simp add: machInv_def e_def hb_gcGripDrop_def)
qed

lemma collect_step:
  assumes "machInv (s, ext)"
  shows "\<exists>s'. hb_gcCollectAll True s = Some s' \<and> machInv (s', ext)"
proof -
  have i: "gcInv s ext" "gripOk s ext" "gcErrors s = []" using assms(1) by (simp_all add: machInv_def)
  have l: "locked s p \<noteq> 0 \<longleftrightarrow> 0 < ext p" if "isAlloc s p" for p
    using i(2) that unfolding gripOk_def by (metis less_one less_numeral_extra(3))
  obtain s' where s': "hb_gcCollectAll True s = Some s'" "gcInv s' ext"
    "\<And>p. isAlloc s' p \<longleftrightarrow> isAlloc s p \<and> (locked s p \<noteq> 0 \<or> p \<in> gcLive s)"
    "\<And>p. isAlloc s' p \<Longrightarrow> gcItems s' p = gcItems s p" "gcRoots s' = gcRoots s" "gcErrors s' = gcErrors s"
    "locked s' = locked s"
    using gcCollectAll_inv [OF i(1) l] by blast
  have "refd s' \<subseteq> refd s" by (rule refd_sub) (use s'(3-5) in simp_all)
  then have "gripOk s' ext" by (intro gripOk_mono [OF i(2) s'(7)]) (use s'(3) l in auto)
  then show ?thesis using s'(1,2,6) i(3) by (simp add: machInv_def)
qed

lemma pop_step:
  assumes "machInv (s, ext)" "gcRoots s \<noteq> []"
  shows "\<exists>s'. hb_stackPop s = Some s' \<and> machInv (s', ext)"
proof -
  define i where "i = length (gcRoots s) - 1"
  obtain rs r where rs: "gcRoots s = rs @ [r]" using assms(2) by (cases "gcRoots s" rule: rev_cases) auto
  then have "itemAt s (LRoot i) = Some r" by (simp add: i_def)
  then obtain s1 where s1: "hb_itemClear_at (LRoot i) s = Some s1" "machInv (s1, ext)"
    "gcRoots s1 = gcRoots (putItem (LRoot i) GNone s)"
    using machInv_clear [OF assms(1)] by metis
  have r1: "gcRoots s1 = rs @ [GNone]" using s1(3) rs by (simp add: i_def)
  have e: "rootRefs s1 = concat (map itemBlocks rs)" by (simp add: rootRefs_def r1)
  have "gcInv (s1\<lparr>gcRoots := rs\<rparr>) ext"
    using s1(2) by (intro gcInv_roots) (simp_all add: machInv_def e)
  moreover have "refd (s1\<lparr>gcRoots := rs\<rparr>) = refd s1" by (simp add: refd_def rootRefs_def blockRefs_def r1)
  then have "gripOk (s1\<lparr>gcRoots := rs\<rparr>) ext" using s1(2) by (simp add: machInv_def gripOk_def)
  ultimately have "machInv (s1\<lparr>gcRoots := rs\<rparr>, ext)" using s1(2) by (simp add: machInv_def)
  then show ?thesis using s1(1) by (simp add: hb_stackPop_def i_def r1)
qed

lemma push_step:
  assumes "machInv (s, ext)"
  shows "machInv (hb_stackPush s, ext)"
proof -
  have "gcInv (hb_stackPush s) ext"
    unfolding hb_stackPush_def using assms by (intro gcInv_roots) (simp_all add: machInv_def rootRefs_def)
  moreover have "refd (hb_stackPush s) = refd s" by (simp add: refd_def rootRefs_def blockRefs_def hb_stackPush_def)
  then have "gripOk (hb_stackPush s) ext" using assms by (simp add: machInv_def gripOk_def hb_stackPush_def)
  ultimately show ?thesis using assms by (simp add: machInv_def hb_stackPush_def)
qed

lemma machStep:
  assumes "machInv m" "gcGuard op m"
  shows "\<exists>m'. gcDo op m = Some m' \<and> machInv m'"
proof -
  obtain s ext where m: "m = (s, ext)" by force
  note inv = assms(1) [unfolded m] and g = assms(2) [unfolded m]
  show ?thesis
  proof (cases op)
    case OpPush
    then show ?thesis using push_step [OF inv] m by simp
  next
    case OpPop
    then show ?thesis using pop_step [OF inv] g m by auto
  next
    case (OpNew i n p)
    then show ?thesis using new_step [OF inv, of i p n] g m by auto
  next
    case (OpCopy d src)
    then show ?thesis using copy_step [OF inv, of d src] g m by auto
  next
    case (OpGrip p src)
    then show ?thesis using grip_step [OF inv, of src p] g m by auto
  next
    case (OpUngrip p)
    then show ?thesis using ungrip_step [OF inv, of p] g m by auto
  next
    case OpCollect
    then show ?thesis using collect_step [OF inv] m by auto
  qed
qed

lemma machInit: "machInv (gcInit, \<lambda>_. 0)"
  by (auto simp: machInv_def gcInv_def gcLists_def threeLists_def inList_def gcCounts_def gcClosed_def gripOk_def refd_def
      gcInit_def rootRefs_def)

lemma reach_inv: "gcReach m \<Longrightarrow> machInv m"
proof (induction rule: gcReach.induct)
  case (step m op m')
  then show ?case using machStep [of m op] by simp
qed (rule machInit)

end
