(* ===== verification/HbGcProps.thy ===== *)
theory HbGcProps
  imports HbGcMach
begin

text \<open>
  What the memory management of the virtual machine promises: no item refers to a block that was
  released, the counters are the numbers of references, every operation ends, and a collection
  releases exactly the blocks that nothing reaches.
\<close>

subsection \<open>Runs of the machine\<close>

fun gcRun :: "gcOp list \<Rightarrow> gcMach \<Rightarrow> gcMach option" where
  "gcRun [] m = Some m"
| "gcRun (op # ops) m = (if gcGuard op m then Option.bind (gcDo op m) (gcRun ops) else None)"

lemma gcRun_reach: "gcReach m \<Longrightarrow> gcRun ops m = Some m' \<Longrightarrow> gcReach m'"
proof (induction ops arbitrary: m)
  case (Cons op ops)
  then obtain m1 where "gcGuard op m" "gcDo op m = Some m1" "gcRun ops m1 = Some m'"
    by (auto split: if_splits bind_splits)
  then show ?case using gcReach.step [OF Cons.prems(1)] Cons.IH by blast
qed simp

text \<open>An array whose only element is the array itself, first held by the stack and then by nothing else.\<close>

definition ringState :: gcState where
  "ringState = newBlock L_CURR 0 1 7 (gcInit\<lparr>gcRoots := [GNone]\<rparr>)
     \<lparr>refCount := (\<lambda>_. 0)(7 := 2), gcItems := (\<lambda>_. [])(7 := [GArray 7]), gcRoots := [GArray 7]\<rparr>"

lemma clear_none [simp]: "itemAt s l = Some GNone \<Longrightarrow> hb_itemClear_at l s = Some (putItem l GNone s)"
  by (simp add: hb_itemClear_at_def hb_itemClear_def)

lemma ring_reach: "gcReach (ringState, \<lambda>_. 0)"
proof (rule gcRun_reach [OF gcReach.init])
  show "gcRun [OpPush, OpNew 0 1 7, OpCopy (LElem 7 0) (LRoot 0)] (gcInit, \<lambda>_. 0) = Some (ringState, \<lambda>_. 0)"
    by (simp add: hb_stackPush_def hb_arrayNew_def hb_itemCopy_def gcInit_def hb_gcAllocRaw_def HB_GARBAGE_NEW_def
        hb_gcLink_def itemCopy_ref_eq ringState_def newBlock_def fun_eq_iff Let_def)
qed

definition lostState :: gcState where
  "lostState = ringState\<lparr>refCount := (\<lambda>_. 0)(7 := 1), gcRoots := []\<rparr>"

lemma ringState_sel [simp]:
  "gcRoots ringState = [GArray 7]" "isAlloc ringState p = (p = 7)" "gcItems ringState = (\<lambda>_. [])(7 := [GArray 7])"
  "refCount ringState = (\<lambda>_. 0)(7 := 2)" "locked ringState = (\<lambda>_. 0)"
  by (simp_all add: ringState_def newBlock_sel gcInit_def fun_eq_iff)

lemma lost_run: "gcRun [OpPop] (ringState, \<lambda>_. 0) = Some (lostState, \<lambda>_. 0)"
proof -
  have "gcRelease (ringState\<lparr>gcRoots := [GNone]\<rparr>) [RFree 7] =
      Some (ringState\<lparr>gcRoots := [GNone], refCount := (\<lambda>_. 0)(7 := 1)\<rparr>)"
    by (subst gcRelease.simps) (simp add: Let_def)
  then show ?thesis by (simp add: hb_stackPop_def hb_itemClear_at_def hb_itemClear_def lostState_def)
qed

lemma lost_reach: "gcReach (lostState, \<lambda>_. 0)"
  by (rule gcRun_reach [OF ring_reach lost_run])

lemma lost_live: "gcLive lostState = {}"
proof -
  have "p \<notin> gcLive lostState" for p
  proof
    assume "p \<in> gcLive lostState"
    then show False by induction (auto simp: lostState_def rootRefs_def)
  qed
  then show ?thesis by blast
qed

subsection \<open>Properties\<close>

text \<open>C2. No dangling reference. In every state the virtual machine reaches by creating arrays, copying
  and clearing items, taking and dropping grips and collecting, every block that the stack, a
  grip or the contents of such a block lead to is still allocated, and neither error 1301 nor error
  1302 was raised.\<close>

theorem gcReach_no_dangling:
  assumes "gcReach (s, ext)"
  shows "gcLive s \<subseteq> {p. isAlloc s p} \<and> gcErrors s = []"
proof -
  have i: "gcClosed s" "gcErrors s = []" using reach_inv [OF assms] by (simp_all add: machInv_def gcInv_def)
  have "isAlloc s p" if "p \<in> gcLive s" for p
    using that by induction (use i(1) in \<open>auto simp: gcClosed_def\<close>)
  then show ?thesis using i(2) by blast
qed

theorem gcReach_no_dangling_witness:
  "gcReach (ringState, \<lambda>_. 0) \<and> gcLive ringState \<subseteq> {7} \<and> gcErrors ringState = []"
  using gcReach_no_dangling [OF ring_reach] ring_reach by simp

text \<open>C1. A collection ends and releases exactly the garbage. In every reachable state
  \<open>hb_gcCollectAll\<close> returns; a block stays allocated if and only if it is a grip or the
  stack or a grip leads to it, and the contents of the blocks that stay do not change. Cycles of
  arrays that nothing else refers to are released.\<close>

theorem hb_gcCollectAll_exact:
  assumes "gcReach (s, ext)"
  shows "\<exists>s'. hb_gcCollectAll True s = Some s' \<and>
    (\<forall>p. isAlloc s' p = (isAlloc s p \<and> (locked s p \<noteq> 0 \<or> p \<in> gcLive s))) \<and>
    (\<forall>p. gcItems s' p = gcItems s p \<or> \<not> isAlloc s' p) \<and> gcRoots s' = gcRoots s"
proof -
  have i: "gcInv s ext" "gripOk s ext" using reach_inv [OF assms] by (simp_all add: machInv_def)
  have l: "locked s p \<noteq> 0 \<longleftrightarrow> 0 < ext p" if "isAlloc s p" for p
    using i(2) that unfolding gripOk_def by (metis less_one less_numeral_extra(3))
  show ?thesis using gcCollectAll_inv [OF i(1) l] by blast
qed

theorem hb_gcCollectAll_exact_witness:
  "isAlloc lostState 7 \<and> (\<exists>s'. hb_gcCollectAll True lostState = Some s' \<and> \<not> isAlloc s' 7)"
  using hb_gcCollectAll_exact [OF lost_reach] by (auto simp: lost_live) (simp_all add: lostState_def)

text \<open>C8. Every operation ends. In every reachable state the operations of the machine (creating an array,
  copying and clearing items with the releases of blocks that follow from it, taking and dropping
  grips, collecting) return whenever their arguments exist.\<close>

theorem gcDo_total:
  assumes "gcReach m" "gcGuard op m"
  shows "\<exists>m'. gcDo op m = Some m' \<and> gcReach m'"
proof -
  obtain m' where "gcDo op m = Some m'" using machStep [OF reach_inv [OF assms(1)] assms(2)] by blast
  then show ?thesis using gcReach.step [OF assms] by blast
qed

theorem gcDo_total_witness:
  "\<exists>m'. gcDo (OpCopy (LRoot 1) (LElem 7 0)) (hb_stackPush ringState, \<lambda>_. 0) = Some m' \<and> gcReach m'"
proof (rule gcDo_total)
  show "gcReach (hb_stackPush ringState, \<lambda>_. 0)" using gcReach.step [OF ring_reach, of OpPush] by simp
  show "gcGuard (OpCopy (LRoot 1) (LElem 7 0)) (hb_stackPush ringState, \<lambda>_. 0)"
    by (simp add: hb_stackPush_def) (rule exI [of _ 0], simp)
qed

text \<open>C15. The counters are right. In every reachable state the counter of an allocated block is the number
  of items in memory that refer to it, plus one when it is a grip the C code holds, and it is
  positive: a block whose last reference goes away is released at once.\<close>

theorem gcReach_refCount:
  assumes "gcReach (s, ext)" "isAlloc s p"
  shows "refCount s p = int (count_list (concat (map itemBlocks (gcRoots s))) p +
      (\<Sum>q\<in>{q. isAlloc s q}. count_list (blockRefs s q) p) + (if locked s p \<noteq> 0 then 1 else 0)) \<and> 0 < refCount s p"
proof -
  have i: "gcCounts s ext" "gripOk s ext" using reach_inv [OF assms(1)] by (simp_all add: machInv_def gcInv_def)
  have c: "refCount s p = int (count_list (rootRefs s) p + held s p + ext p) \<and> 0 < refCount s p"
    using i(1) assms(2) unfolding gcCounts_def by blast
  have "if isAlloc s p \<and> locked s p \<noteq> 0 then ext p = 1 \<and> p \<notin> refd s else ext p = 0"
    using i(2) unfolding gripOk_def by blast
  then have e: "ext p = (if locked s p \<noteq> 0 then 1 else 0)" using assms(2) by (simp split: if_splits)
  show ?thesis by (rule c [unfolded e held_def rootRefs_def])
qed

theorem gcReach_refCount_witness:
  "refCount ringState 7 = int (count_list [7] (7::addr) + (\<Sum>q\<in>{7::addr}. count_list (blockRefs ringState q) 7) + 0)"
  using gcReach_refCount [OF ring_reach, of 7] by (simp add: blockRefs_def)

text \<open>A lock keeps a block from the collector only: \<open>hb_gcRefFree\<close> releases a locked block with
  its last reference.\<close>

lemma hb_gcLock_refFree:
  assumes "locked s p = 0" "refCount s p = 1" "used s p AND HB_GC_DELETE = 0" "gcItems s p = []"
  shows "\<exists>s'. hb_gcRefFree p (hb_gcLock p s) = Some s' \<and> \<not> isAlloc s' p"
proof -
  define s1 where "s1 = (hb_gcLock p s)\<lparr>refCount := (refCount s)(p := 0), used := (used s)(p := used s p OR HB_GC_DELETE)\<rparr>"
  have l: "refCount (hb_gcLock p s) = refCount s" "used (hb_gcLock p s) = used s" "gcItems (hb_gcLock p s) = gcItems s"
    using assms(1) by (simp_all add: hb_gcLock_def Let_def)
  have "hb_gcRefFree p (hb_gcLock p s) = gcRelease s1 [RClear p, RDone p]"
    unfolding hb_gcRefFree_def by (subst gcRelease.simps) (simp add: Let_def l assms s1_def)
  also have "\<dots> = gcRelease s1 [RDone p]"
    by (subst gcRelease.simps) (simp add: l assms(4) s1_def)
  also have "\<dots> = Some (refDone p s1)"
    by (subst gcRelease.simps) simp
  finally show ?thesis by (simp add: refDone_def s1_def HB_GARBAGE_FREE_def)
qed

end
