(* ===== verification/HbSort.thy ===== *)
theory HbSort
  imports HbItem "HOL-Library.Multiset"
begin

text \<open>
  Sorting of arrays, \<open>src/vm/asort.c\<close>. The sort is a merge sort of the indices of the items in one
  buffer of twice their number: the result of a recursive call is in the first or in the second half,
  which the returned flag says, and the merge goes to where the first part is not. Then the items
  are swapped into place along the indices. The buffer is a function of the address; \<open>pSrc\<close>, \<open>pBuf\<close>
  and the other pointers are addresses.

  The code block is a parameter: it returns an item and may change the array while the
  sort runs, also its length.
\<close>

subsection \<open>Comparison\<close>

type_synonym sortBlock = "HB_ITEM \<Rightarrow> HB_ITEM \<Rightarrow> HB_ITEM list \<Rightarrow> HB_ITEM \<times> HB_ITEM list"

fun hb_itemGetL :: "HB_ITEM \<Rightarrow> bool" where
  "hb_itemGetL (ILogical b) = b"
| "hb_itemGetL (IInteger v l) = (v \<noteq> 0)"
| "hb_itemGetL (ILong v l) = (v \<noteq> 0)"
| "hb_itemGetL (IDouble d l dec) = (\<not> deq d (DFin 0))"
| "hb_itemGetL _ = False"

fun sortWeight :: "HB_ITEM \<Rightarrow> nat" where
  "sortWeight (IArray a obj) = 1"
| "sortWeight (IBlock b) = 2"
| "sortWeight (IString s) = 3"
| "sortWeight (ILogical b) = 4"
| "sortWeight (IDate j) = 5"
| "sortWeight (ITimeStamp j t) = 5"
| "sortWeight (IInteger v l) = 6"
| "sortWeight (ILong v l) = 6"
| "sortWeight (IDouble v l d) = 6"
| "sortWeight _ = 7"

definition itemLess_native :: "hbSet \<Rightarrow> HB_ITEM \<Rightarrow> HB_ITEM \<Rightarrow> bool" where
  "itemLess_native st p1 p2 =
     (if HB_IS_STRING p1 \<and> HB_IS_STRING p2 then hb_itemStrCmp st (strVal p1) (strVal p2) False < 0
      else if HB_IS_NUMINT p1 \<and> HB_IS_NUMINT p2 then HB_ITEM_GET_NUMINTRAW p1 < HB_ITEM_GET_NUMINTRAW p2
      else if HB_IS_NUMERIC p1 \<and> HB_IS_NUMERIC p2 then dlt (hb_itemGetND p1) (hb_itemGetND p2)
      else if HB_IS_TIMESTAMP p1 \<and> HB_IS_TIMESTAMP p2 then
        (if julianVal p1 = julianVal p2 then timeVal p1 < timeVal p2 else julianVal p1 < julianVal p2)
      else if HB_IS_DATETIME p1 \<and> HB_IS_DATETIME p2 then hb_itemGetDL p1 < hb_itemGetDL p2
      else if HB_IS_LOGICAL p1 \<and> HB_IS_LOGICAL p2 then \<not> hb_itemGetL p1 \<and> hb_itemGetL p2
      else sortWeight p1 < sortWeight p2)"

definition hb_itemIsLess :: "hbSet \<Rightarrow> sortBlock option \<Rightarrow> nat \<Rightarrow> nat \<Rightarrow> HB_ITEM list \<Rightarrow> bool \<times> HB_ITEM list" where
  "hb_itemIsLess st pBlock nItem1 nItem2 items =
     (case pBlock of
        Some blk \<Rightarrow>
          (if length items \<le> nItem1 \<or> length items \<le> nItem2 then (False, items)
           else (let (pRet, items) = blk (items ! nItem1) (items ! nItem2) items
                 in (if HB_IS_LOGICAL pRet \<or> HB_IS_NUMERIC pRet then hb_itemGetL pRet else True, items)))
      | None \<Rightarrow> (itemLess_native st (items ! nItem1) (items ! nItem2), items))"

subsection \<open>Merge sort of the indices\<close>

type_synonym 's lessFun = "nat \<Rightarrow> nat \<Rightarrow> 's \<Rightarrow> bool \<times> 's"
type_synonym indexMem = "nat \<Rightarrow> nat"

text \<open>The loop ends with one part used up; its result are the pointers and what is left of both parts.\<close>

fun mergeLoop :: "'s lessFun \<Rightarrow> nat \<Rightarrow> nat \<Rightarrow> nat \<Rightarrow> nat \<Rightarrow> nat \<Rightarrow> indexMem \<Rightarrow> 's \<Rightarrow>
    (nat \<times> nat \<times> nat) \<times> (nat \<times> nat) \<times> indexMem \<times> 's" where
  "mergeLoop lss pDst pPtr1 (Suc nCnt1) pPtr2 (Suc nCnt2) mem s =
     (let (b, s) = lss (mem pPtr2) (mem pPtr1) s in
      if b then mergeLoop lss (pDst + 1) pPtr1 (Suc nCnt1) (pPtr2 + 1) nCnt2 (mem(pDst := mem pPtr2)) s
      else mergeLoop lss (pDst + 1) (pPtr1 + 1) nCnt1 pPtr2 (Suc nCnt2) (mem(pDst := mem pPtr1)) s)"
| "mergeLoop lss pDst pPtr1 0 pPtr2 nCnt2 mem s = ((pDst, pPtr1, pPtr2), (0, nCnt2), mem, s)"
| "mergeLoop lss pDst pPtr1 (Suc nCnt1) pPtr2 0 mem s = ((pDst, pPtr1, pPtr2), (Suc nCnt1, 0), mem, s)"

fun copyLoop :: "nat \<Rightarrow> nat \<Rightarrow> nat \<Rightarrow> indexMem \<Rightarrow> indexMem" where
  "copyLoop pDst pPtr 0 mem = mem"
| "copyLoop pDst pPtr (Suc n) mem = copyLoop (pDst + 1) (pPtr + 1) n (mem(pDst := mem pPtr))"

function hb_arraySortDO :: "'s lessFun \<Rightarrow> nat \<Rightarrow> nat \<Rightarrow> nat \<Rightarrow> indexMem \<Rightarrow> 's \<Rightarrow> bool \<times> indexMem \<times> 's" where
  "hb_arraySortDO lss pSrc pBuf nCount mem s =
     (if 1 < nCount then
        (let nCnt1 = nCount div 2; nCnt2 = nCount - nCnt1;
             (fBuf1, mem, s) = hb_arraySortDO lss pSrc pBuf nCnt1 mem s;
             (fBuf2, mem, s) = hb_arraySortDO lss (pSrc + nCnt1) (pBuf + nCnt1) nCnt2 mem s;
             (pDst, pPtr1) = (if fBuf1 then (pBuf, pSrc) else (pSrc, pBuf));
             pPtr2 = (if fBuf2 then pSrc + nCnt1 else pBuf + nCnt1);
             ((pDst, pPtr1, pPtr2), (nCnt1, nCnt2), mem, s) = mergeLoop lss pDst pPtr1 nCnt1 pPtr2 nCnt2 mem s;
             mem = (if 0 < nCnt1 then copyLoop pDst pPtr1 nCnt1 mem
                    else if 0 < nCnt2 \<and> fBuf1 = fBuf2 then copyLoop pDst pPtr2 nCnt2 mem
                    else mem)
         in (\<not> fBuf1, mem, s))
      else (True, mem, s))"
  by pat_completeness auto
termination
  by (relation "measure (\<lambda>(lss, pSrc, pBuf, n, mem, s). n)") auto

declare hb_arraySortDO.simps [simp del]

subsection \<open>Moving the items\<close>

fun fillLoop :: "nat \<Rightarrow> nat \<Rightarrow> indexMem \<Rightarrow> indexMem" where
  "fillLoop nStart 0 mem = mem"
| "fillLoop nStart (Suc n) mem = (fillLoop nStart n mem)(n := nStart + n)"

text \<open>The indices of the items that are still in the array after the code block removed some.\<close>

fun filterLoop :: "nat \<Rightarrow> nat \<Rightarrow> nat \<Rightarrow> nat \<Rightarrow> nat \<Rightarrow> indexMem \<Rightarrow> nat \<times> indexMem" where
  "filterLoop nLen pDest nPos nTo 0 mem = (nTo, mem)"
| "filterLoop nLen pDest nPos nTo (Suc n) mem =
     (if mem (pDest + nPos) < nLen
      then filterLoop nLen pDest (nPos + 1) (nTo + 1) n (mem(pDest + nTo := mem (pDest + nPos)))
      else filterLoop nLen pDest (nPos + 1) nTo n mem)"

fun inverseLoop :: "nat \<Rightarrow> nat \<Rightarrow> nat \<Rightarrow> nat \<Rightarrow> indexMem \<Rightarrow> indexMem" where
  "inverseLoop pDest pPos nStart 0 mem = mem"
| "inverseLoop pDest pPos nStart (Suc n) mem =
     (let mem = inverseLoop pDest pPos nStart n mem in mem(pPos + (mem (pDest + n) - nStart) := n))"

definition hb_itemRawSwap :: "nat \<Rightarrow> nat \<Rightarrow> 'a list \<Rightarrow> 'a list" where
  "hb_itemRawSwap i j items = items[i := items ! j, j := items ! i]"

definition swapStep :: "nat \<Rightarrow> nat \<Rightarrow> nat \<Rightarrow> nat \<Rightarrow> indexMem \<times> 'a list \<Rightarrow> indexMem \<times> 'a list" where
  "swapStep pDest pPos nStart nPos s =
     (case s of (mem, items) \<Rightarrow>
        (if nPos + nStart \<noteq> mem (pDest + nPos) then
           (let items = hb_itemRawSwap (nPos + nStart) (mem (pDest + nPos)) items;
                mem = mem(pDest + mem (pPos + nPos) := mem (pDest + nPos));
                mem = mem(pPos + (mem (pDest + nPos) - nStart) := mem (pPos + nPos))
            in (mem, items))
         else (mem, items)))"

fun swapLoop :: "nat \<Rightarrow> nat \<Rightarrow> nat \<Rightarrow> nat \<Rightarrow> indexMem \<times> 'a list \<Rightarrow> indexMem \<times> 'a list" where
  "swapLoop pDest pPos nStart 0 s = s"
| "swapLoop pDest pPos nStart (Suc n) s = swapStep pDest pPos nStart n (swapLoop pDest pPos nStart n s)"

definition hb_arraySortStart :: "hbSet \<Rightarrow> sortBlock option \<Rightarrow> nat \<Rightarrow> nat \<Rightarrow> HB_ITEM list \<Rightarrow> HB_ITEM list" where
  "hb_arraySortStart st pBlock nStart nCount items =
     (let mem = fillLoop nStart nCount (\<lambda>_. 0);
          (fSrc, mem, items) = hb_arraySortDO (hb_itemIsLess st pBlock) 0 nCount nCount mem items;
          (pDest, pPos) = (if fSrc then (0, nCount) else (nCount, 0));
          (nCount, mem) =
            (if length items < nStart + nCount then
               (if nStart < length items then filterLoop (length items) pDest 0 0 nCount mem else (0, mem))
             else (nCount, mem));
          mem = inverseLoop pDest pPos nStart nCount mem
      in snd (swapLoop pDest pPos nStart nCount (mem, items)))"

text \<open>\<open>None\<close> is an argument that is not passed.\<close>

definition hb_arraySort :: "hbSet \<Rightarrow> nat option \<Rightarrow> nat option \<Rightarrow> sortBlock option \<Rightarrow> HB_ITEM list \<Rightarrow> HB_ITEM list" where
  "hb_arraySort st pnStart pnCount pBlock items =
     (let nLen = length items;
          nStart = (case pnStart of Some n \<Rightarrow> if 1 \<le> n then n else 1 | None \<Rightarrow> 1)
      in if nStart \<le> nLen then
           (let nCount = (case pnCount of Some n \<Rightarrow> if 1 \<le> n \<and> n \<le> nLen - nStart then n else nLen - nStart + 1
                                        | None \<Rightarrow> nLen - nStart + 1);
                nCount = (if nLen < nStart + nCount then nLen - nStart + 1 else nCount)
            in if 1 < nCount then hb_arraySortStart st pBlock (nStart - 1) nCount items else items)
         else items)"

end
