(* ===== verification/HbSortCorrect.thy ===== *)
theory HbSortCorrect
  imports HbSort
begin

text \<open>
  The sort of arrays is correct: the buffer of indices holds what a merge sort of lists computes, the
  moves put the items along the indices, and the result is a stable sort. With a code block of any
  kind the items are only rearranged.
\<close>

subsection \<open>Segments of the buffer\<close>

definition seg :: "indexMem \<Rightarrow> nat \<Rightarrow> nat \<Rightarrow> nat list" where
  "seg mem p n = map mem [p..<p + n]"

lemma seg_simps [simp]: "seg mem p 0 = []" "length (seg mem p n) = n"
  by (simp_all add: seg_def)

lemma seg_Suc: "seg mem p (Suc n) = mem p # seg mem (p + 1) n"
  unfolding seg_def by (simp add: upt_conv_Cons del: upt_Suc)

lemma seg_cong: "(\<And>a. p \<le> a \<Longrightarrow> a < p + n \<Longrightarrow> mem' a = mem a) \<Longrightarrow> seg mem' p n = seg mem p n"
  by (simp add: seg_def)

lemma seg_upd [simp]: "a < p \<or> p + n \<le> a \<Longrightarrow> seg (mem(a := x)) p n = seg mem p n"
  by (rule seg_cong) auto

lemma seg_add: "seg mem p (m + n) = seg mem p m @ seg mem (p + m) n"
proof -
  have "[p..<p + (m + n)] = [p..<p + m] @ [p + m..<p + m + n]"
    using upt_add_eq_append [of p "p + m" n] by (simp add: add.assoc)
  then show ?thesis by (simp add: seg_def)
qed

lemma seg_nth: "i < n \<Longrightarrow> seg mem p n ! i = mem (p + i)"
  by (simp add: seg_def)

subsection \<open>The merge sort of lists\<close>

fun mergeL :: "'s lessFun \<Rightarrow> nat list \<Rightarrow> nat list \<Rightarrow> 's \<Rightarrow> nat list \<times> 's" where
  "mergeL lss (x # xs) (y # ys) s =
     (let (b, s) = lss y x s in
      if b then map_prod ((#) y) id (mergeL lss (x # xs) ys s) else map_prod ((#) x) id (mergeL lss xs (y # ys) s))"
| "mergeL lss [] ys s = (ys, s)"
| "mergeL lss xs [] s = (xs, s)"

function sortL :: "'s lessFun \<Rightarrow> nat list \<Rightarrow> 's \<Rightarrow> nat list \<times> 's" where
  "sortL lss xs s =
     (if 1 < length xs then
        (let n = length xs div 2; (as, s) = sortL lss (take n xs) s; (bs, s) = sortL lss (drop n xs) s
         in mergeL lss as bs s)
      else (xs, s))"
  by pat_completeness auto
termination
  by (relation "measure (\<lambda>(lss, xs, s). length xs)") auto

declare sortL.simps [simp del]

lemma copyLoop_spec:
  assumes "{p..<p + n} \<inter> {d..<d + n} = {}"
  shows "seg (copyLoop d p n mem) d n = seg mem p n" "a \<notin> {d..<d + n} \<Longrightarrow> copyLoop d p n mem a = mem a"
  using assms
proof (induction n arbitrary: d p mem a)
  case (Suc n)
  case 1
  have dis: "{p + 1..<p + 1 + n} \<inter> {d + 1..<d + 1 + n} = {}" using 1 by auto
  have "d \<notin> {p + 1..<p + 1 + n}" using 1 by auto
  then have s: "seg (mem(d := mem p)) (p + 1) n = seg mem (p + 1) n" by (intro seg_upd) auto
  define m where "m = mem(d := mem p)"
  have "m d = mem p" by (simp add: m_def)
  then show ?case
    using Suc.IH(1) [OF dis, of m] Suc.IH(2) [OF _ dis, where a = d and mem = m] s
    by (simp add: seg_Suc m_def [symmetric])
  case 2
  have dis: "{p + 1..<p + 1 + n} \<inter> {d + 1..<d + 1 + n} = {}" using 2(2) by auto
  define m where "m = mem(d := mem p)"
  have "m a = mem a" using 2(1) by (auto simp: m_def)
  then show ?case using Suc.IH(2) [OF _ dis, where a = a and mem = m] 2(1) by (auto simp: m_def [symmetric])
qed simp_all

text \<open>Merging in the buffer, with the copy of what is left; \<open>inPlace\<close> says that the second part
  already is at the end of the destination.\<close>

definition mergeAll :: "'s lessFun \<Rightarrow> bool \<Rightarrow> nat \<Rightarrow> nat \<Rightarrow> nat \<Rightarrow> nat \<Rightarrow> nat \<Rightarrow> indexMem \<Rightarrow> 's \<Rightarrow> indexMem \<times> 's" where
  "mergeAll lss inPlace d p1 c1 p2 c2 mem s =
     (let ((d, p1, p2), (c1, c2), mem, s) = mergeLoop lss d p1 c1 p2 c2 mem s
      in (if 0 < c1 then copyLoop d p1 c1 mem
          else if 0 < c2 \<and> \<not> inPlace then copyLoop d p2 c2 mem else mem, s))"

lemma mergeAll_spec:
  assumes "{p1..<p1 + c1} \<inter> {d..<d + (c1 + c2)} = {}"
    "if inPlace then p2 = d + c1 else {p2..<p2 + c2} \<inter> {d..<d + (c1 + c2)} = {}"
  shows "\<exists>mem'. mergeAll lss inPlace d p1 c1 p2 c2 mem s =
      (mem', snd (mergeL lss (seg mem p1 c1) (seg mem p2 c2) s)) \<and>
    seg mem' d (c1 + c2) = fst (mergeL lss (seg mem p1 c1) (seg mem p2 c2) s) \<and>
    (\<forall>a. a \<notin> {d..<d + (c1 + c2)} \<longrightarrow> mem' a = mem a)"
  using assms
proof (induction lss d p1 c1 p2 c2 mem s rule: mergeLoop.induct)
  case (1 lss d p1 c1 p2 c2 mem s)
  obtain b s' where b: "lss (mem p2) (mem p1) s = (b, s')" by force
  show ?case
  proof (cases b)
    case True
    define m where "m = mem(d := mem p2)"
    have IH: "\<exists>mem'. mergeAll lss inPlace (d + 1) p1 (Suc c1) (p2 + 1) c2 m s' =
          (mem', snd (mergeL lss (seg m p1 (Suc c1)) (seg m (p2 + 1) c2) s')) \<and>
        seg mem' (d + 1) (Suc c1 + c2) = fst (mergeL lss (seg m p1 (Suc c1)) (seg m (p2 + 1) c2) s') \<and>
        (\<forall>a. a \<notin> {d + 1..<d + 1 + (Suc c1 + c2)} \<longrightarrow> mem' a = m a)"
      unfolding m_def by (rule "1.IH"(1) [OF b [symmetric] refl True]) (use "1.prems" in \<open>auto split: if_splits\<close>)
    have "d \<notin> {p1..<p1 + Suc c1}" using "1.prems"(1) by auto
    then have s1: "seg m p1 (Suc c1) = seg mem p1 (Suc c1)" unfolding m_def by (intro seg_upd) auto
    have "d \<notin> {p2 + 1..<p2 + 1 + c2}" using "1.prems"(2) by (auto split: if_splits)
    then have s2: "seg m (p2 + 1) c2 = seg mem (p2 + 1) c2" unfolding m_def by (intro seg_upd) auto
    have e: "mergeAll lss inPlace d p1 (Suc c1) p2 (Suc c2) mem s = mergeAll lss inPlace (d + 1) p1 (Suc c1) (p2 + 1) c2 m s'"
      using b True by (simp add: mergeAll_def m_def)
    from IH obtain mem' where m': "mergeAll lss inPlace (d + 1) p1 (Suc c1) (p2 + 1) c2 m s' =
          (mem', snd (mergeL lss (seg mem p1 (Suc c1)) (seg mem (p2 + 1) c2) s'))"
        "seg mem' (d + 1) (Suc c1 + c2) = fst (mergeL lss (seg mem p1 (Suc c1)) (seg mem (p2 + 1) c2) s')"
        "\<And>a. a \<notin> {d + 1..<d + 1 + (Suc c1 + c2)} \<Longrightarrow> mem' a = m a"
      unfolding s1 s2 by blast
    have "mem' d = mem p2" using m'(3) [of d] by (simp add: m_def)
    moreover have "mem' a = mem a" if "a \<notin> {d..<d + (Suc c1 + Suc c2)}" for a
      using m'(3) [of a] that by (auto simp: m_def)
    ultimately show ?thesis
      using m'(1,2) b True unfolding e by (intro exI [of _ mem']) (simp add: seg_Suc)
  next
    case False
    define m where "m = mem(d := mem p1)"
    have IH: "\<exists>mem'. mergeAll lss inPlace (d + 1) (p1 + 1) c1 p2 (Suc c2) m s' =
          (mem', snd (mergeL lss (seg m (p1 + 1) c1) (seg m p2 (Suc c2)) s')) \<and>
        seg mem' (d + 1) (c1 + Suc c2) = fst (mergeL lss (seg m (p1 + 1) c1) (seg m p2 (Suc c2)) s') \<and>
        (\<forall>a. a \<notin> {d + 1..<d + 1 + (c1 + Suc c2)} \<longrightarrow> mem' a = m a)"
      unfolding m_def by (rule "1.IH"(2) [OF b [symmetric] refl False]) (use "1.prems" in \<open>auto split: if_splits\<close>)
    have "d \<notin> {p1 + 1..<p1 + 1 + c1}" using "1.prems"(1) by auto
    then have s1: "seg m (p1 + 1) c1 = seg mem (p1 + 1) c1" unfolding m_def by (intro seg_upd) auto
    have "d \<notin> {p2..<p2 + Suc c2}" using "1.prems"(2) by (auto split: if_splits)
    then have s2: "seg m p2 (Suc c2) = seg mem p2 (Suc c2)" unfolding m_def by (intro seg_upd) auto
    have e: "mergeAll lss inPlace d p1 (Suc c1) p2 (Suc c2) mem s = mergeAll lss inPlace (d + 1) (p1 + 1) c1 p2 (Suc c2) m s'"
      using b False by (simp add: mergeAll_def m_def)
    from IH obtain mem' where m': "mergeAll lss inPlace (d + 1) (p1 + 1) c1 p2 (Suc c2) m s' =
          (mem', snd (mergeL lss (seg mem (p1 + 1) c1) (seg mem p2 (Suc c2)) s'))"
        "seg mem' (d + 1) (c1 + Suc c2) = fst (mergeL lss (seg mem (p1 + 1) c1) (seg mem p2 (Suc c2)) s')"
        "\<And>a. a \<notin> {d + 1..<d + 1 + (c1 + Suc c2)} \<Longrightarrow> mem' a = m a"
      unfolding s1 s2 by blast
    have "mem' d = mem p1" using m'(3) [of d] by (simp add: m_def)
    moreover have "mem' a = mem a" if "a \<notin> {d..<d + (Suc c1 + Suc c2)}" for a
      using m'(3) [of a] that by (auto simp: m_def)
    ultimately show ?thesis
      using m'(1,2) b False unfolding e by (intro exI [of _ mem']) (simp add: seg_Suc)
  qed
next
  case (2 lss d p1 p2 c2 mem s)
  show ?case
  proof (cases "inPlace \<or> c2 = 0")
    case True
    then show ?thesis using 2(2) by (intro exI [of _ mem]) (auto simp: mergeAll_def)
  next
    case False
    then have "{p2..<p2 + c2} \<inter> {d..<d + c2} = {}" using 2(2) by simp
    then show ?thesis using copyLoop_spec(1) [of p2 c2 d mem] copyLoop_spec(2) [of p2 c2 d _ mem] False by (simp add: mergeAll_def)
  qed
next
  case (3 lss d p1 n p2 mem s)
  have "{p1..<p1 + Suc n} \<inter> {d..<d + Suc n} = {}" using 3(1) by simp
  then show ?case
    using copyLoop_spec(1) [of p1 "Suc n" d mem] copyLoop_spec(2) [of p1 "Suc n" d _ mem]
    by (simp add: mergeAll_def seg_Suc del: copyLoop.simps)
qed

lemma mergeL_length: "length (fst (mergeL lss xs ys s)) = length xs + length ys"
  by (induction lss xs ys s rule: mergeL.induct) (auto split: prod.split)

lemma sortL_length: "length (fst (sortL lss xs s)) = length xs"
proof (induction lss xs s rule: sortL.induct)
  case (1 lss xs s)
  show ?case
  proof (cases "1 < length xs")
    case True
    define n where "n = length xs div 2"
    obtain as s1 where a: "sortL lss (take n xs) s = (as, s1)" by force
    obtain bs s2 where b: "sortL lss (drop n xs) s1 = (bs, s2)" by force
    have "length as = n" "length bs = length xs - n"
      using "1.IH"(1) [OF True n_def] "1.IH"(2) [OF True n_def a [symmetric] refl] a b by (simp_all add: n_def)
    moreover have "n \<le> length xs" by (simp add: n_def)
    moreover have "sortL lss xs s = mergeL lss as bs s2"
      using True a b by (subst sortL.simps) (simp add: n_def [symmetric] Let_def)
    ultimately show ?thesis using mergeL_length [of lss as bs s2] by simp
  qed (simp add: sortL.simps)
qed

text \<open>A recursive call changes nothing outside its part of the two halves of the buffer.\<close>

definition outsideSame :: "nat \<Rightarrow> nat \<Rightarrow> nat \<Rightarrow> indexMem \<Rightarrow> indexMem \<Rightarrow> bool" where
  "outsideSame p q n mem mem' \<longleftrightarrow> (\<forall>a. a \<notin> {p..<p + n} \<longrightarrow> a \<notin> {q..<q + n} \<longrightarrow> mem' a = mem a)"

lemma hb_arraySortDO_spec:
  assumes "{pSrc..<pSrc + n} \<inter> {pBuf..<pBuf + n} = {}"
  shows "\<exists>f mem'. hb_arraySortDO lss pSrc pBuf n mem s = (f, mem', snd (sortL lss (seg mem pSrc n) s)) \<and>
    seg mem' (if f then pSrc else pBuf) n = fst (sortL lss (seg mem pSrc n) s) \<and> outsideSame pSrc pBuf n mem mem'"
  using assms
proof (induction lss pSrc pBuf n mem s rule: hb_arraySortDO.induct)
  case (1 lss p q n mem s)
  show ?case
  proof (cases "1 < n")
    case False
    then show ?thesis
      by (intro exI [of _ True] exI [of _ mem]) (simp add: hb_arraySortDO.simps sortL.simps outsideSame_def)
  next
    case True
    define c1 where "c1 = n div 2"
    define c2 where "c2 = n - c1"
    have n: "n = c1 + c2" "0 < c1" "0 < c2" using True by (auto simp: c1_def c2_def)
    have d: "{p..<p + c1} \<inter> {q..<q + c1} = {}" "{p + c1..<p + c1 + c2} \<inter> {q + c1..<q + c1 + c2} = {}"
      "{p..<p + n} \<inter> {q..<q + n} = {}"
      using "1.prems" n by auto
    obtain as s1 where a: "sortL lss (seg mem p c1) s = (as, s1)" by force
    obtain f1 m1 where 1: "hb_arraySortDO lss p q c1 mem s = (f1, m1, s1)" "seg m1 (if f1 then p else q) c1 = as"
      "outsideSame p q c1 mem m1"
      using "1.IH"(1) [OF True c1_def c2_def d(1)] a by auto
    have "seg m1 (p + c1) c2 = seg mem (p + c1) c2"
      by (rule seg_cong) (use 1(3) d(3) n in \<open>auto simp: outsideSame_def\<close>)
    then obtain bs s2 where b: "sortL lss (seg m1 (p + c1) c2) s1 = (bs, s2)" "sortL lss (seg mem (p + c1) c2) s1 = (bs, s2)"
      by force
    obtain f2 m2 where 2: "hb_arraySortDO lss (p + c1) (q + c1) c2 m1 s1 = (f2, m2, s2)"
      "seg m2 (if f2 then p + c1 else q + c1) c2 = bs" "outsideSame (p + c1) (q + c1) c2 m1 m2"
      using "1.IH"(2) [OF True c1_def c2_def refl 1(1) [symmetric] refl d(2)] b(1) by auto
    define dst where "dst = (if f1 then q else p)"
    define p1 where "p1 = (if f1 then p else q)"
    define p2 where "p2 = (if f2 then p + c1 else q + c1)"
    have s1: "seg m2 p1 c1 = as"
      unfolding 1(2) [symmetric] p1_def by (rule seg_cong) (use 2(3) d(3) n in \<open>auto simp: outsideSame_def split: if_splits\<close>)
    have "{p1..<p1 + c1} \<inter> {dst..<dst + (c1 + c2)} = {}" using d(3) n by (auto simp: p1_def dst_def)
    moreover have "if f1 \<noteq> f2 then p2 = dst + c1 else {p2..<p2 + c2} \<inter> {dst..<dst + (c1 + c2)} = {}"
      using d(3) n by (auto simp: p2_def dst_def)
    ultimately obtain m3 where 3: "mergeAll lss (f1 \<noteq> f2) dst p1 c1 p2 c2 m2 s2 = (m3, snd (mergeL lss as bs s2))"
      "seg m3 dst n = fst (mergeL lss as bs s2)" "\<And>a. a \<notin> {dst..<dst + n} \<Longrightarrow> m3 a = m2 a"
      using mergeAll_spec [of p1 c1 dst c2 "f1 \<noteq> f2" p2 lss m2 s2] s1 2(2) n unfolding p2_def by auto
    have "length (seg mem p n) div 2 = c1" by (simp add: c1_def)
    moreover have "take c1 (seg mem p n) = seg mem p c1" "drop c1 (seg mem p n) = seg mem (p + c1) c2"
      unfolding n(1) seg_add by simp_all
    ultimately have l: "sortL lss (seg mem p n) s = mergeL lss as bs s2"
      using True a b(2) by (subst sortL.simps) (simp add: Let_def)
    have "hb_arraySortDO lss p q n mem s = (\<not> f1, m3, snd (mergeL lss as bs s2))"
    proof -
      obtain d' p1' p2' k1 k2 m' s' where ml: "mergeLoop lss dst p1 c1 p2 c2 m2 s2 = ((d', p1', p2'), (k1, k2), m', s')"
        by (metis prod.exhaust)
      have e: "(if f1 then (q, p) else (p, q)) = (dst, p1)" "(if f2 then p + c1 else q + c1) = p2"
        by (simp_all add: dst_def p1_def p2_def)
      show ?thesis
        using 3(1) True by (subst hb_arraySortDO.simps)
          (simp add: c1_def [symmetric] c2_def [symmetric] 1(1) 2(1) e ml Let_def mergeAll_def, auto split: if_splits)
    qed
    moreover have "outsideSame p q n mem m3"
      unfolding outsideSame_def
    proof (intro allI impI)
      fix x assume x: "x \<notin> {p..<p + n}" "x \<notin> {q..<q + n}"
      then have "m3 x = m2 x" by (intro 3(3)) (simp add: dst_def)
      also have "m2 x = m1 x" using 2(3) x n by (auto simp: outsideSame_def)
      also have "m1 x = mem x" using 1(3) x n by (auto simp: outsideSame_def)
      finally show "m3 x = mem x" .
    qed
    ultimately show ?thesis
      using 3(2) unfolding l dst_def by (intro exI [of _ "\<not> f1"] exI [of _ m3]) (auto split: if_splits)
  qed
qed

subsection \<open>What the merge sort computes\<close>

lemma mergeL_mset: "mset (fst (mergeL lss xs ys s)) = mset xs + mset ys"
  by (induction lss xs ys s rule: mergeL.induct) (auto split: prod.split)

lemma sortL_mset: "mset (fst (sortL lss xs s)) = mset xs"
proof (induction lss xs s rule: sortL.induct)
  case (1 lss xs s)
  show ?case
  proof (cases "1 < length xs")
    case True
    define n where "n = length xs div 2"
    obtain as s1 where a: "sortL lss (take n xs) s = (as, s1)" by force
    obtain bs s2 where b: "sortL lss (drop n xs) s1 = (bs, s2)" by force
    have "mset as = mset (take n xs)" "mset bs = mset (drop n xs)"
      using "1.IH"(1) [OF True n_def] "1.IH"(2) [OF True n_def a [symmetric] refl] a b by simp_all
    moreover have "sortL lss xs s = mergeL lss as bs s2"
      using True a b by (subst sortL.simps) (simp add: n_def [symmetric] Let_def)
    moreover have "mset xs = mset (take n xs) + mset (drop n xs)" by (metis append_take_drop_id mset_append)
    ultimately show ?thesis using mergeL_mset [of lss as bs s2] by simp
  qed (simp add: sortL.simps)
qed

text \<open>A comparison that depends on the items only. The order of the indices it gives: the lesser item first, and
  of two equal items the one with the lesser index.\<close>

definition stableLess :: "(nat \<Rightarrow> nat \<Rightarrow> bool) \<Rightarrow> nat \<Rightarrow> nat \<Rightarrow> bool" where
  "stableLess lt i j \<longleftrightarrow> lt i j \<or> \<not> lt j i \<and> i < j"

definition weakOrder :: "(nat \<Rightarrow> nat \<Rightarrow> bool) \<Rightarrow> nat set \<Rightarrow> bool" where
  "weakOrder lt A \<longleftrightarrow> (\<forall>i\<in>A. \<forall>j\<in>A. lt i j \<longrightarrow> \<not> lt j i) \<and>
     (\<forall>i\<in>A. \<forall>j\<in>A. \<forall>k\<in>A. \<not> lt i j \<longrightarrow> \<not> lt j k \<longrightarrow> \<not> lt i k)"

lemma stableLess_trans:
  assumes "weakOrder lt A" "{i, j, k} \<subseteq> A" "stableLess lt i j" "stableLess lt j k"
  shows "stableLess lt i k"
  using assms unfolding stableLess_def weakOrder_def by (metis insert_subset less_trans)

lemma mergeL_sorted:
  assumes "weakOrder lt A" "List.set xs \<union> List.set ys \<subseteq> A" "\<And>i j. i \<in> A \<Longrightarrow> j \<in> A \<Longrightarrow> lss i j s = (lt i j, s)"
    "sorted_wrt (stableLess lt) xs" "sorted_wrt (stableLess lt) ys" "\<And>x y. x \<in> List.set xs \<Longrightarrow> y \<in> List.set ys \<Longrightarrow> x < y"
  shows "sorted_wrt (stableLess lt) (fst (mergeL lss xs ys s)) \<and> snd (mergeL lss xs ys s) = s"
  using assms
proof (induction lss xs ys s rule: mergeL.induct)
  case (1 lss x xs y ys s)
  have st: "List.set (fst (mergeL lss as bs s)) = List.set as \<union> List.set bs" for as bs
    by (metis mergeL_mset set_mset_mset set_mset_union)
  have xy: "x < y" "{x, y} \<subseteq> A" using "1.prems" by auto
  have l: "lss y x s = (lt y x, s)" by (rule "1.prems"(3)) (use xy in auto)
  show ?case
  proof (cases "lt y x")
    case True
    have IH: "sorted_wrt (stableLess lt) (fst (mergeL lss (x # xs) ys s)) \<and> snd (mergeL lss (x # xs) ys s) = s"
      by (rule "1.IH"(1) [OF _ _ _ "1.prems"(1) _ "1.prems"(3,4)]) (use l True "1.prems" in auto)
    have yx: "stableLess lt y x" using True by (simp add: stableLess_def)
    have "stableLess lt y z" if "z \<in> List.set (x # xs) \<union> List.set ys" for z
    proof (cases "z \<in> List.set xs")
      case zin: True
      then have "stableLess lt x z" using "1.prems"(4) by simp
      with yx show ?thesis by (rule stableLess_trans [OF "1.prems"(1), rotated]) (use zin "1.prems"(2) in auto)
    qed (use that yx "1.prems"(5) in auto)
    with IH True l show ?thesis by (auto simp: st)
  next
    case False
    have IH: "sorted_wrt (stableLess lt) (fst (mergeL lss xs (y # ys) s)) \<and> snd (mergeL lss xs (y # ys) s) = s"
      by (rule "1.IH"(2) [OF _ _ _ "1.prems"(1) _ "1.prems"(3) _ "1.prems"(5)]) (use l False "1.prems" in auto)
    have xy': "stableLess lt x y" using False xy by (auto simp: stableLess_def)
    have "stableLess lt x z" if "z \<in> List.set xs \<union> List.set (y # ys)" for z
    proof (cases "z \<in> List.set ys")
      case zin: True
      then have "stableLess lt y z" using "1.prems"(5) by simp
      with xy' show ?thesis by (rule stableLess_trans [OF "1.prems"(1), rotated]) (use zin "1.prems"(2) in auto)
    qed (use that xy' "1.prems"(4) in auto)
    with IH False l show ?thesis by (auto simp: st)
  qed
qed auto

lemma sortL_sorted:
  assumes "weakOrder lt A" "List.set xs \<subseteq> A" "\<And>i j. i \<in> A \<Longrightarrow> j \<in> A \<Longrightarrow> lss i j s = (lt i j, s)" "sorted_wrt (<) xs"
  shows "sorted_wrt (stableLess lt) (fst (sortL lss xs s)) \<and> snd (sortL lss xs s) = s"
  using assms
proof (induction lss xs s rule: sortL.induct)
  case (1 lss xs s)
  show ?case
  proof (cases "1 < length xs")
    case True
    define n where "n = length xs div 2"
    have x: "xs = take n xs @ drop n xs" by simp
    have sub: "List.set (take n xs) \<subseteq> A" "List.set (drop n xs) \<subseteq> A"
      using "1.prems"(2) by (auto dest: in_set_takeD in_set_dropD)
    have so: "sorted_wrt (<) (take n xs)" "sorted_wrt (<) (drop n xs)"
      "\<And>a b. a \<in> List.set (take n xs) \<Longrightarrow> b \<in> List.set (drop n xs) \<Longrightarrow> a < b"
      using "1.prems"(4) x by (metis sorted_wrt_append)+
    obtain as where a: "sortL lss (take n xs) s = (as, s)" "sorted_wrt (stableLess lt) as"
      using "1.IH"(1) [OF True n_def "1.prems"(1) sub(1) "1.prems"(3) so(1)] by (metis prod.collapse)
    obtain bs where b: "sortL lss (drop n xs) s = (bs, s)" "sorted_wrt (stableLess lt) bs"
      using "1.IH"(2) [OF True n_def a(1) [symmetric] refl "1.prems"(1) sub(2) "1.prems"(3) so(2)] by (metis prod.collapse)
    have sets: "List.set as = List.set (take n xs)" "List.set bs = List.set (drop n xs)"
      using sortL_mset [of lss "take n xs" s] sortL_mset [of lss "drop n xs" s] a(1) b(1) by (metis fst_conv set_mset_mset)+
    have "sortL lss xs s = mergeL lss as bs s"
      using True a(1) b(1) by (subst sortL.simps) (simp add: n_def [symmetric] Let_def)
    then show ?thesis
      using mergeL_sorted [of lt A as bs lss s, OF "1.prems"(1) _ "1.prems"(3) a(2) b(2)] sets sub so(3) by simp
  next
    case False
    then have "length xs = 0 \<or> length xs = 1" by linarith
    then show ?thesis using False by (auto simp: sortL.simps length_Suc_conv)
  qed
qed

subsection \<open>The moves of the items\<close>

lemma fillLoop_spec: "seg (fillLoop s n mem) 0 n = [s..<s + n]"
proof (induction n)
  case (Suc n)
  have "seg (fillLoop s (Suc n) mem) 0 (Suc n) = seg (fillLoop s (Suc n) mem) 0 n @ [s + n]"
    using seg_add [of "fillLoop s (Suc n) mem" 0 n 1] seg_Suc [of "fillLoop s (Suc n) mem" n 0] by simp
  also have "seg (fillLoop s (Suc n) mem) 0 n = seg (fillLoop s n mem) 0 n" by simp
  finally show ?case using Suc by simp
qed simp

lemma filterLoop_spec:
  assumes "nTo \<le> nPos"
  shows "\<exists>mem'. filterLoop nLen pDest nPos nTo n mem =
      (nTo + length (filter (\<lambda>i. i < nLen) (seg mem (pDest + nPos) n)), mem') \<and>
    seg mem' pDest (nTo + length (filter (\<lambda>i. i < nLen) (seg mem (pDest + nPos) n))) =
      seg mem pDest nTo @ filter (\<lambda>i. i < nLen) (seg mem (pDest + nPos) n)"
  using assms
proof (induction n arbitrary: nPos nTo mem)
  case (Suc n)
  define x where "x = mem (pDest + nPos)"
  show ?case
  proof (cases "x < nLen")
    case True
    define m where "m = mem(pDest + nTo := x)"
    have s1: "seg m (pDest + nPos + 1) n = seg mem (pDest + nPos + 1) n"
      unfolding m_def using Suc.prems by (intro seg_upd) simp
    have "seg m pDest nTo = seg mem pDest nTo" unfolding m_def by (intro seg_upd) simp
    then have s2: "seg m pDest (nTo + 1) = seg mem pDest nTo @ [x]"
      using seg_add [of m pDest nTo 1] seg_Suc [of m "pDest + nTo" 0] by (simp add: m_def)
    define ys where "ys = filter (\<lambda>i. i < nLen) (seg mem (pDest + nPos + 1) n)"
    obtain mem' where m': "filterLoop nLen pDest (nPos + 1) (nTo + 1) n m = (nTo + 1 + length ys, mem')"
      "seg mem' pDest (nTo + 1 + length ys) = seg m pDest (nTo + 1) @ ys"
      using Suc.IH [of "nTo + 1" "nPos + 1" m] Suc.prems s1 by (auto simp: ys_def)
    have f: "filter (\<lambda>i. i < nLen) (seg mem (pDest + nPos) (Suc n)) = x # ys"
      using True by (simp add: seg_Suc x_def ys_def)
    have "filterLoop nLen pDest nPos nTo (Suc n) mem = filterLoop nLen pDest (nPos + 1) (nTo + 1) n m"
      using True by (simp add: x_def m_def)
    then show ?thesis unfolding f using m' s2 by (intro exI [of _ mem']) simp
  next
    case False
    then show ?thesis using Suc.IH [of nTo "nPos + 1" mem] Suc.prems by (simp add: seg_Suc x_def)
  qed
qed simp

definition permOf :: "nat \<Rightarrow> nat \<Rightarrow> nat list \<Rightarrow> bool" where
  "permOf s n ix \<longleftrightarrow> length ix = n \<and> distinct ix \<and> List.set ix = {s..<s + n}"

lemma inverseLoop_spec:
  assumes "permOf s n (seg mem pDest n)" "{pDest..<pDest + n} \<inter> {pPos..<pPos + n} = {}" "k \<le> n"
  shows "seg (inverseLoop pDest pPos s k mem) pDest n = seg mem pDest n \<and>
    (\<forall>i<k. inverseLoop pDest pPos s k mem (pPos + (mem (pDest + i) - s)) = i)"
  using assms(3)
proof (induction k)
  case (Suc k)
  define m where "m = inverseLoop pDest pPos s k mem"
  define j where "j = mem (pDest + k) - s"
  have IH: "seg m pDest n = seg mem pDest n" "\<And>i. i < k \<Longrightarrow> m (pPos + (mem (pDest + i) - s)) = i"
    using Suc by (auto simp: m_def)
  have e: "m (pDest + i) = mem (pDest + i)" if "i < n" for i using IH(1) that by (metis seg_nth)
  have mn: "mem (pDest + i) \<in> {s..<s + n}" if "i < n" for i
  proof -
    have "seg mem pDest n ! i \<in> List.set (seg mem pDest n)" using that by (intro nth_mem) simp
    then show ?thesis using assms(1) that by (simp add: permOf_def seg_nth)
  qed
  have ne: "mem (pDest + i) \<noteq> mem (pDest + k)" if "i < k" for i
    using assms(1) that Suc.prems nth_eq_iff_index_eq [of "seg mem pDest n" i k] by (simp add: permOf_def seg_nth)
  have "j < n" using mn [of k] Suc.prems by (auto simp: j_def)
  then have "pPos + j \<notin> {pDest..<pDest + n}" using assms(2) by auto
  then have "seg (m(pPos + j := k)) pDest n = seg m pDest n" by (intro seg_upd) auto
  moreover have E: "inverseLoop pDest pPos s (Suc k) mem = m(pPos + j := k)"
    using e [of k] Suc.prems by (simp add: m_def [symmetric] j_def Let_def)
  moreover have "(m(pPos + j := k)) (pPos + (mem (pDest + i) - s)) = i" if "i < Suc k" for i
  proof (cases "i = k")
    case False
    then have "i < k" using that by simp
    moreover from this have "mem (pDest + i) - s \<noteq> j"
      using ne [of i] mn [of i] mn [of k] Suc.prems by (auto simp: j_def)
    ultimately show ?thesis using IH(2) [of i] by simp
  qed (simp add: j_def)
  ultimately show ?case unfolding E using IH(1) by (simp del: fun_upd_apply)
qed simp

definition swapInv :: "nat \<Rightarrow> nat \<Rightarrow> nat \<Rightarrow> nat \<Rightarrow> nat list \<Rightarrow> 'a list \<Rightarrow> nat \<Rightarrow> indexMem \<times> 'a list \<Rightarrow> bool" where
  "swapInv pDest pPos s n ix items0 k st \<longleftrightarrow> (case st of (mem, items) \<Rightarrow>
     (\<forall>i. k \<le> i \<longrightarrow> i < n \<longrightarrow> s + k \<le> mem (pDest + i) \<and> mem (pDest + i) < s + n \<and> mem (pPos + (mem (pDest + i) - s)) = i) \<and>
     (\<forall>j. k \<le> j \<longrightarrow> j < n \<longrightarrow> k \<le> mem (pPos + j) \<and> mem (pPos + j) < n \<and> mem (pDest + mem (pPos + j)) = s + j) \<and>
     length items = length items0 \<and> (\<forall>i<k. items ! (s + i) = items0 ! (ix ! i)) \<and>
     (\<forall>i. k \<le> i \<longrightarrow> i < n \<longrightarrow> items ! mem (pDest + i) = items0 ! (ix ! i)) \<and>
     (\<forall>x. x < s \<or> s + n \<le> x \<longrightarrow> items ! x = items0 ! x))"

lemma rawSwap_nth:
  assumes "i < length xs" "j < length xs"
  shows "hb_itemRawSwap i j xs ! k = (if k = j then xs ! i else if k = i then xs ! j else xs ! k)"
    "length (hb_itemRawSwap i j xs) = length xs"
  using assms by (auto simp: hb_itemRawSwap_def nth_list_update)

lemma swapStep_inv:
  assumes "swapInv pDest pPos s n ix items0 k st" "k < n" "s + n \<le> length items0"
    "{pDest..<pDest + n} \<inter> {pPos..<pPos + n} = {}"
  shows "swapInv pDest pPos s n ix items0 (Suc k) (swapStep pDest pPos s k st)"
proof -
  obtain mem items where st: "st = (mem, items)" by force
  define d where "d i = mem (pDest + i)" for i
  define q where "q j = mem (pPos + j)" for j
  have D: "s + k \<le> d i" "d i < s + n" "q (d i - s) = i" if "k \<le> i" "i < n" for i
    using assms(1) that unfolding st swapInv_def d_def q_def by auto
  have Q: "k \<le> q j" "q j < n" "d (q j) = s + j" if "k \<le> j" "j < n" for j
    using assms(1) that unfolding st swapInv_def d_def q_def by auto
  have L: "length items = length items0" and lo: "\<And>i. i < k \<Longrightarrow> items ! (s + i) = items0 ! (ix ! i)"
    and hi: "\<And>i. k \<le> i \<Longrightarrow> i < n \<Longrightarrow> items ! d i = items0 ! (ix ! i)"
    and out: "\<And>x. x < s \<or> s + n \<le> x \<Longrightarrow> items ! x = items0 ! x"
    using assms(1) unfolding st swapInv_def d_def by auto
  show ?thesis
  proof (cases "d k = s + k")
    case True
    have nd: "d i \<noteq> s + k" if "k < i" "i < n" for i
      using D(3) [of i] D(3) [of k] that assms(2) True by auto
    have nq: "q j \<noteq> k" if "k < j" "j < n" for j
      using Q(3) [of j] that True by auto
    have "swapStep pDest pPos s k st = (mem, items)" using True by (simp add: swapStep_def st d_def add.commute)
    then have step: "swapStep pDest pPos s k st = (mem, items)" .
    show ?thesis
      unfolding step swapInv_def prod.case d_def [symmetric] q_def [symmetric]
    proof (intro conjI allI impI)
      fix i assume i: "Suc k \<le> i" "i < n"
      show "s + Suc k \<le> d i" using nd [of i] D(1) [of i] i by simp
      show "d i < s + n" "q (d i - s) = i" "items ! d i = items0 ! (ix ! i)" using D(2,3) [of i] hi [of i] i by simp_all
    next
      fix j assume j: "Suc k \<le> j" "j < n"
      show "Suc k \<le> q j" using nq [of j] Q(1) [of j] j by simp
      show "q j < n" "d (q j) = s + j" using Q(2,3) [of j] j by simp_all
    next
      fix i assume "i < Suc k"
      then show "items ! (s + i) = items0 ! (ix ! i)" using lo [of i] hi [of k] True assms(2) by (cases "i = k") auto
    qed (use L out in auto)
  next
    case False
    define j where "j = d k - s"
    define i0 where "i0 = q k"
    have j: "k < j" "j < n" "d k = s + j" "q j = k"
      using D [of k] False assms(2) by (auto simp: j_def)
    have i0: "k < i0" "i0 < n" "d i0 = s + k"
    proof -
      have "i0 \<noteq> k" using Q(3) [of k] False assms(2) unfolding i0_def by auto
      then show "k < i0" "i0 < n" "d i0 = s + k" using Q [of k] assms(2) by (auto simp: i0_def)
    qed
    define items' where "items' = hb_itemRawSwap (k + s) (d k) items"
    define mem1 where "mem1 = mem(pDest + i0 := d k)"
    define mem' where "mem' = mem1(pPos + j := i0)"
    have ad: "pDest + a \<noteq> pPos + b" if "a < n" "b < n" for a b using assms(4) that by auto
    have "mem1 (pDest + k) = d k" using i0(1) by (simp add: mem1_def d_def)
    moreover have "mem1 (pPos + k) = i0" using ad [of i0 k] i0(2) assms(2) by (simp add: mem1_def i0_def q_def)
    moreover have "k + s \<noteq> d k" "mem (pDest + k) = d k" "mem (pPos + k) = i0"
      using False by (simp_all add: d_def i0_def q_def)
    ultimately have step: "swapStep pDest pPos s k st = (mem', items')"
      by (simp add: swapStep_def st Let_def items'_def mem1_def [symmetric] mem'_def j_def)
    have d': "mem' (pDest + i) = (if i = i0 then s + j else d i)" if "i < n" for i
      using ad [of i j] that j by (simp add: mem'_def mem1_def d_def)
    have q': "mem' (pPos + i) = (if i = j then i0 else q i)" if "i < n" for i
      using ad [of i0 i] that i0 by (simp add: mem'_def mem1_def q_def)
    have inb: "k + s < length items" "d k < length items" using assms(2,3) j L by simp_all
    have I: "items' ! x = (if x = d k then items ! (k + s) else if x = k + s then items ! d k else items ! x)"
      "length items' = length items" for x
      unfolding items'_def using rawSwap_nth [OF inb] by auto
    have inj: "d i = d i' \<Longrightarrow> i = i'" if "k \<le> i" "i < n" "k \<le> i'" "i' < n" for i i'
      by (metis D(3) that)
    show ?thesis
      unfolding step swapInv_def prod.case
    proof (intro conjI allI impI)
      fix i assume i: "Suc k \<le> i" "i < n"
      have ne: "i \<noteq> i0 \<Longrightarrow> d i \<noteq> s + k" "d i \<noteq> s + j"
        using inj [of i i0] inj [of i k] i i0 j assms(2) by auto
      show "s + Suc k \<le> mem' (pDest + i)" "mem' (pDest + i) < s + n"
        using d' [OF i(2)] D(1,2) [of i] i j ne(1) by (auto simp: le_eq_less_or_eq)
      show "mem' (pPos + (mem' (pDest + i) - s)) = i"
      proof (cases "i = i0")
        case True
        then show ?thesis using d' [OF i(2)] q' [OF j(2)] by simp
      next
        case False
        have b: "d i - s < n" "d i - s \<noteq> j" using D(1,2) [of i] ne(2) i by auto
        then show ?thesis using d' [OF i(2)] q' [OF b(1)] D(3) [of i] i False by simp
      qed
      show "items' ! mem' (pDest + i) = items0 ! (ix ! i)"
      proof (cases "i = i0")
        case True
        have "items' ! mem' (pDest + i) = items ! (k + s)" using d' [OF i(2)] True I(1) j(3) by simp
        also have "\<dots> = items ! d i0" using i0(3) by (simp add: add.commute)
        also have "\<dots> = items0 ! (ix ! i)" using hi [of i0] i0 True by simp
        finally show ?thesis .
      next
        case False
        have "items' ! mem' (pDest + i) = items ! d i" using d' [OF i(2)] False I(1) ne j(3) by (simp add: add.commute)
        then show ?thesis using hi [of i] i by simp
      qed
    next
      fix l assume l: "Suc k \<le> l" "l < n"
      have ql: "l \<noteq> j \<Longrightarrow> q l \<noteq> k" "q l \<noteq> i0"
        using Q(3) [of l] l j i0 by auto
      show "Suc k \<le> mem' (pPos + l)" "mem' (pPos + l) < n"
        using q' [OF l(2)] Q(1,2) [of l] l i0 ql(1) by (auto simp: le_eq_less_or_eq)
      show "mem' (pDest + mem' (pPos + l)) = s + l"
      proof (cases "l = j")
        case True
        then show ?thesis using q' [OF l(2)] d' [OF i0(2)] by simp
      next
        case False
        have b: "q l < n" using Q(2) [of l] l by simp
        then show ?thesis using q' [OF l(2)] d' [OF b] Q(3) [of l] l False ql(2) by simp
      qed
    next
      show "length items' = length items0" using I(2) L by simp
    next
      fix i assume i: "i < Suc k"
      show "items' ! (s + i) = items0 ! (ix ! i)"
      proof (cases "i = k")
        case True
        then show ?thesis using I(1) [of "s + k"] hi [of k] False assms(2) by (simp add: add.commute)
      next
        case False
        then have "s + i \<noteq> d k" "s + i \<noteq> k + s" using i j by auto
        then show ?thesis using I(1) [of "s + i"] lo [of i] i False by simp
      qed
    next
      fix x assume "x < s \<or> s + n \<le> x"
      then show "items' ! x = items0 ! x" using I(1) [of x] out [of x] j assms(2) by auto
    qed
  qed
qed

lemma swapLoop_spec:
  assumes "permOf s n (seg mem pDest n)" "\<And>i. i < n \<Longrightarrow> mem (pPos + (mem (pDest + i) - s)) = i"
    "{pDest..<pDest + n} \<inter> {pPos..<pPos + n} = {}" "s + n \<le> length items"
  shows "snd (swapLoop pDest pPos s n (mem, items)) =
    take s items @ map ((!) items) (seg mem pDest n) @ drop (s + n) items"
proof -
  define ix where "ix = seg mem pDest n"
  have nth: "ix ! i = mem (pDest + i)" if "i < n" for i using that by (simp add: ix_def seg_nth)
  have p: "distinct ix" "List.set ix = {s..<s + n}" "length ix = n" using assms(1) by (simp_all add: permOf_def ix_def)
  have rng: "s \<le> mem (pDest + i) \<and> mem (pDest + i) < s + n" if "i < n" for i
    using p nth_mem [of i "ix"] nth [OF that] that by auto
  have inv0: "swapInv pDest pPos s n ix items 0 (mem, items)"
    unfolding swapInv_def prod.case
  proof (intro conjI allI impI)
    fix j assume "j < n"
    then have "s + j \<in> List.set ix" using p by simp
    then obtain i where i: "i < n" "ix ! i = s + j" using p(3) by (auto simp: in_set_conv_nth)
    then have "mem (pPos + j) = i" using assms(2) [of i] nth [of i] by simp
    then show "0 \<le> mem (pPos + j)" "mem (pPos + j) < n" "mem (pDest + mem (pPos + j)) = s + j" using i nth by simp_all
  qed (use rng assms(2) nth in auto)
  have "swapInv pDest pPos s n ix items k (swapLoop pDest pPos s k (mem, items))" if "k \<le> n" for k
    using that
  proof (induction k)
    case (Suc k)
    then show ?case using swapStep_inv [OF _ _ assms(4,3), of "ix" k] by simp
  qed (simp add: inv0)
  then obtain mem' items' where r: "swapLoop pDest pPos s n (mem, items) = (mem', items')"
    "swapInv pDest pPos s n ix items n (mem', items')"
    by (metis le_refl prod.exhaust)
  have "items' = take s items @ map ((!) items) ix @ drop (s + n) items"
  proof (rule nth_equalityI)
    show "length items' = length (take s items @ map ((!) items) ix @ drop (s + n) items)"
      using r(2) assms(4) p(3) by (simp add: swapInv_def)
    fix x assume "x < length items'"
    consider "x < s" | i where "x = s + i" "i < n" | "s + n \<le> x"
      by (metis add_diff_inverse_nat add_less_cancel_left not_less)
    then show "items' ! x = (take s items @ map ((!) items) ix @ drop (s + n) items) ! x"
    proof cases
      case 1
      then show ?thesis using r(2) assms(4) by (simp add: swapInv_def nth_append)
    next
      case 2
      then show ?thesis using r(2) assms(4) p(3) by (simp add: swapInv_def nth_append)
    next
      case 3
      then have "\<not> x < s" "\<not> x - s < n" "x - s - n = x - (s + n)" by simp_all
      then show ?thesis using 3 r(2) assms(4) p(3) by (simp add: swapInv_def nth_append)
    qed
  qed
  then show ?thesis using r(1) by (simp add: ix_def)
qed

end
