(* ===== verification/HbSortProps.thy ===== *)
theory HbSortProps
  imports HbSortCorrect
begin

text \<open>
  What \<open>hb_arraySort\<close> promises: with any code block the items of the array are only rearranged; with an order of
  the items the range becomes the stable sort of its items and the rest of the array stays.
\<close>

lemma permOf_sortL:
  "permOf s n (fst (sortL lss [s..<s + n] st))"
proof -
  have "mset (fst (sortL lss [s..<s + n] st)) = mset [s..<s + n]" by (rule sortL_mset)
  then show ?thesis
    unfolding permOf_def by (metis atLeastLessThan_upt distinct_upt length_upt mset_eq_imp_distinct_iff mset_eq_length
        mset_eq_setD add_diff_cancel_left')
qed

text \<open>The indices of the items that are still there.\<close>

definition keptIndices :: "nat \<Rightarrow> nat \<Rightarrow> nat list \<Rightarrow> nat list" where
  "keptIndices s nLen ix = (if s + length ix \<le> nLen then ix else filter (\<lambda>i. i < nLen) ix)"

lemma permOf_kept:
  assumes "permOf s n ix"
  shows "permOf s (length (keptIndices s nLen ix)) (keptIndices s nLen ix)"
    "0 < length (keptIndices s nLen ix) \<Longrightarrow> s + length (keptIndices s nLen ix) \<le> nLen"
proof -
  have ix: "length ix = n" "distinct ix" "List.set ix = {s..<s + n}" using assms by (simp_all add: permOf_def)
  show "permOf s (length (keptIndices s nLen ix)) (keptIndices s nLen ix)"
    "0 < length (keptIndices s nLen ix) \<Longrightarrow> s + length (keptIndices s nLen ix) \<le> nLen"
  proof (atomize (full), cases "s + n \<le> nLen")
    case True
    then show "permOf s (length (keptIndices s nLen ix)) (keptIndices s nLen ix) \<and>
        (0 < length (keptIndices s nLen ix) \<longrightarrow> s + length (keptIndices s nLen ix) \<le> nLen)"
      using assms ix by (simp add: keptIndices_def)
  next
    case False
    define ys where "ys = filter (\<lambda>i. i < nLen) ix"
    have k: "keptIndices s nLen ix = ys" using False ix by (simp add: keptIndices_def ys_def)
    have y: "distinct ys" "List.set ys = {s..<nLen}" using ix False by (auto simp: ys_def)
    then have "length ys = nLen - s" by (metis card_atLeastLessThan distinct_card)
    then show "permOf s (length (keptIndices s nLen ix)) (keptIndices s nLen ix) \<and>
        (0 < length (keptIndices s nLen ix) \<longrightarrow> s + length (keptIndices s nLen ix) \<le> nLen)"
      unfolding k using y by (cases "s \<le> nLen") (auto simp: permOf_def)
  qed
qed

lemma sortStart_spec:
  fixes items :: "HB_ITEM list"
  assumes "sortL (hb_itemIsLess st blk) [s..<s + n] items = (ix, items')"
  defines "kx \<equiv> keptIndices s (length items') ix"
  shows "snd (snd (hb_arraySortDO (hb_itemIsLess st blk) 0 n n (fillLoop s n (\<lambda>_. 0)) items)) = items'"
    "hb_arraySortStart st blk s n items =
      (if kx = [] then items' else take s items' @ map ((!) items') kx @ drop (s + length kx) items')"
proof -
  define mem where "mem = fillLoop s n (\<lambda>_. 0)"
  have "{0..<0 + n} \<inter> {n..<n + n} = {}" by auto
  then obtain f mem' where o: "hb_arraySortDO (hb_itemIsLess st blk) 0 n n mem items = (f, mem', items')"
    "seg mem' (if f then 0 else n) n = ix"
    using hb_arraySortDO_spec [of 0 n n "hb_itemIsLess st blk" mem items] assms(1)
    by (auto simp: mem_def fillLoop_spec)
  show "snd (snd (hb_arraySortDO (hb_itemIsLess st blk) 0 n n (fillLoop s n (\<lambda>_. 0)) items)) = items'"
    using o(1) by (simp add: mem_def)
  have p: "permOf s n ix" using permOf_sortL [of s n "hb_itemIsLess st blk" items] assms(1) by simp
  define d where "d = (if f then 0 else n)"
  define q where "q = (if f then n else 0)"
  have sg: "seg mem' d n = ix" using o(2) by (simp add: d_def)
  have kp: "permOf s (length kx) kx" and kl: "0 < length kx \<Longrightarrow> s + length kx \<le> length items'"
    using permOf_kept [OF p, of "length items'"] by (simp_all add: kx_def)
  have n': "length kx \<le> n" using p by (auto simp: kx_def keptIndices_def permOf_def)
  obtain m where m: "(if length items' < s + n then
        (if s < length items' then filterLoop (length items') d 0 0 n mem' else (0, mem')) else (n, mem')) = (length kx, m)"
      "seg m d (length kx) = kx"
  proof (cases "length items' < s + n")
    case False
    then have "kx = ix" using p by (simp add: kx_def keptIndices_def permOf_def)
    then show ?thesis using that [of mem'] False sg p by (simp add: permOf_def)
  next
    case True
    then have k: "kx = filter (\<lambda>i. i < length items') ix" using p by (auto simp: kx_def keptIndices_def permOf_def)
    show ?thesis
    proof (cases "s < length items'")
      case s: True
      obtain m where "filterLoop (length items') d 0 0 n mem' = (length kx, m)" "seg m d (length kx) = kx"
        using filterLoop_spec [of 0 0 "length items'" d n mem'] sg k by auto
      then show ?thesis using that [of m] True s by simp
    next
      case s: False
      then have "kx = []" using p k by (auto simp: permOf_def filter_empty_conv)
      then show ?thesis using that [of mem'] True s by simp
    qed
  qed
  define m' where "m' = inverseLoop d q s (length kx) m"
  have dis: "{d..<d + length kx} \<inter> {q..<q + length kx} = {}" using n' by (auto simp: d_def q_def)
  have inv: "seg m' d (length kx) = kx" "\<And>i. i < length kx \<Longrightarrow> m' (q + (m (d + i) - s)) = i"
    using inverseLoop_spec [of s "length kx" m d q "length kx"] kp m(2) dis by (simp_all add: m'_def)
  have md: "m' (d + i) = m (d + i)" if "i < length kx" for i
    using inv(1) m(2) that by (metis seg_nth)
  have e: "(if f then (0, n) else (n, 0)) = (d, q)" by (simp add: d_def q_def)
  have eq: "hb_arraySortStart st blk s n items = snd (swapLoop d q s (length kx) (m', items'))"
    unfolding hb_arraySortStart_def mem_def [symmetric] by (simp only: Let_def o(1) e prod.case m(1) m'_def)
  show "hb_arraySortStart st blk s n items =
      (if kx = [] then items' else take s items' @ map ((!) items') kx @ drop (s + length kx) items')"
  proof (cases "kx = []")
    case False
    then have "snd (swapLoop d q s (length kx) (m', items')) =
        take s items' @ map ((!) items') (seg m' d (length kx)) @ drop (s + length kx) items'"
      using kp kl inv dis md by (intro swapLoop_spec) simp_all
    then show ?thesis unfolding eq using inv(1) False by simp
  qed (simp add: eq)
qed

subsection \<open>Order\<close>

definition isOrder :: "('a \<Rightarrow> 'a \<Rightarrow> bool) \<Rightarrow> 'a set \<Rightarrow> bool" where
  "isOrder lt A \<longleftrightarrow> (\<forall>x\<in>A. \<forall>y\<in>A. lt x y \<longrightarrow> \<not> lt y x) \<and>
     (\<forall>x\<in>A. \<forall>y\<in>A. \<forall>z\<in>A. \<not> lt x y \<longrightarrow> \<not> lt y z \<longrightarrow> \<not> lt x z)"

definition stableSortOf :: "('a \<Rightarrow> 'a \<Rightarrow> bool) \<Rightarrow> 'a list \<Rightarrow> 'a list \<Rightarrow> bool" where
  "stableSortOf lt xs ys \<longleftrightarrow> mset ys = mset xs \<and> sorted_wrt (\<lambda>x y. \<not> lt y x) ys \<and>
     (\<forall>x\<in>List.set xs. filter (\<lambda>y. \<not> lt x y \<and> \<not> lt y x) ys = filter (\<lambda>y. \<not> lt x y \<and> \<not> lt y x) xs)"

lemma map_seg: "s + n \<le> length xs \<Longrightarrow> map ((!) xs) [s..<s + n] = take n (drop s xs)"
  by (intro nth_equalityI) simp_all

lemma mset_permOf:
  assumes "permOf s n ix" "n = 0 \<or> s + n \<le> length xs"
  shows "mset (map ((!) xs) ix) = mset (take n (drop s xs))"
proof -
  have "distinct ix" "List.set ix = List.set [s..<s + n]" using assms(1) by (simp_all add: permOf_def)
  then have "mset ix = mset [s..<s + n]" using set_eq_iff_mset_eq_distinct distinct_upt by blast
  then have e: "mset (map ((!) xs) ix) = mset (map ((!) xs) [s..<s + n])" by (metis mset_map)
  show ?thesis
  proof (cases "n = 0")
    case True
    then show ?thesis using assms(1) by (simp add: permOf_def)
  next
    case False
    then have "map ((!) xs) [s..<s + n] = take n (drop s xs)" using assms(2) by (intro map_seg) simp
    then show ?thesis using e by metis
  qed
qed

lemma stable_map:
  assumes "permOf s n ix" "s + n \<le> length xs" "isOrder lt (List.set (take n (drop s xs)))"
    "sorted_wrt (stableLess (\<lambda>i j. lt (xs ! i) (xs ! j))) ix"
  shows "stableSortOf lt (take n (drop s xs)) (map ((!) xs) ix)"
  unfolding stableSortOf_def
proof (intro conjI ballI)
  define A where "A = List.set (take n (drop s xs))"
  define B where "B = {s..<s + n}"
  have A: "A = (!) xs ` B" unfolding A_def B_def map_seg [OF assms(2), symmetric] by simp
  have ix: "List.set ix = B" "distinct ix" using assms(1) by (simp_all add: permOf_def B_def)
  have as: "lt x y \<Longrightarrow> \<not> lt y x" if "x \<in> A" "y \<in> A" for x y using assms(3) that unfolding isOrder_def A_def by blast
  have tr: "\<not> lt x y \<Longrightarrow> \<not> lt y z \<Longrightarrow> \<not> lt x z" if "x \<in> A" "y \<in> A" "z \<in> A" for x y z
    using assms(3) that unfolding isOrder_def A_def by blast
  show "mset (map ((!) xs) ix) = mset (take n (drop s xs))" by (rule mset_permOf) (use assms(1,2) in simp_all)
  show "sorted_wrt (\<lambda>x y. \<not> lt y x) (map ((!) xs) ix)"
    unfolding sorted_wrt_map
  proof (rule sorted_wrt_mono_rel [OF _ assms(4)])
    fix i j assume "i \<in> List.set ix" "j \<in> List.set ix" "stableLess (\<lambda>i j. lt (xs ! i) (xs ! j)) i j"
    then show "\<not> lt (xs ! j) (xs ! i)" using as [of "xs ! i" "xs ! j"] ix(1) A by (auto simp: stableLess_def)
  qed
  fix x assume "x \<in> List.set (take n (drop s xs))"
  then have x: "x \<in> A" by (simp add: A_def)
  define Q where "Q i \<longleftrightarrow> \<not> lt x (xs ! i) \<and> \<not> lt (xs ! i) x" for i
  have "sorted_wrt (<) (filter Q ix)"
  proof (rule sorted_wrt_mono_rel [OF _ sorted_wrt_filter [OF assms(4)]])
    fix i j assume "i \<in> List.set (filter Q ix)" "j \<in> List.set (filter Q ix)" "stableLess (\<lambda>i j. lt (xs ! i) (xs ! j)) i j"
    moreover from this have "\<not> lt (xs ! i) (xs ! j)"
      using tr [of "xs ! i" x "xs ! j"] x ix(1) A by (auto simp: Q_def)
    ultimately show "i < j" by (simp add: stableLess_def)
  qed
  moreover have "sorted_wrt (<) (filter Q [s..<s + n])" by (intro sorted_wrt_filter) simp
  moreover have "List.set (filter Q ix) = List.set (filter Q [s..<s + n])" using ix(1) by (auto simp: B_def)
  ultimately have "filter Q ix = filter Q [s..<s + n]"
    by (metis sorted_distinct_set_unique strict_sorted_iff)
  then have "filter (\<lambda>y. \<not> lt x y \<and> \<not> lt y x) (map ((!) xs) ix) =
      filter (\<lambda>y. \<not> lt x y \<and> \<not> lt y x) (map ((!) xs) [s..<s + n])"
    by (simp add: filter_map comp_def Q_def [abs_def])
  then show "filter (\<lambda>y. \<not> lt x y \<and> \<not> lt y x) (map ((!) xs) ix) =
      filter (\<lambda>y. \<not> lt x y \<and> \<not> lt y x) (take n (drop s xs))"
    by (simp add: map_seg [OF assms(2)])
qed

text \<open>A code block that reads its arguments only, or none.\<close>

definition pureBlock :: "sortBlock option \<Rightarrow> bool" where
  "pureBlock pBlock \<longleftrightarrow> (\<forall>blk. pBlock = Some blk \<longrightarrow> (\<forall>x y xs. blk x y xs = (fst (blk x y []), xs)))"

definition itemLess :: "hbSet \<Rightarrow> sortBlock option \<Rightarrow> HB_ITEM \<Rightarrow> HB_ITEM \<Rightarrow> bool" where
  "itemLess st pBlock x y =
     (case pBlock of
        Some blk \<Rightarrow> (let pRet = fst (blk x y []) in if HB_IS_LOGICAL pRet \<or> HB_IS_NUMERIC pRet then hb_itemGetL pRet else True)
      | None \<Rightarrow> itemLess_native st x y)"

lemma hb_itemIsLess_pure:
  assumes "pureBlock blk" "i < length items" "j < length items"
  shows "hb_itemIsLess st blk i j items = (itemLess st blk (items ! i) (items ! j), items)"
proof (cases blk)
  case (Some b)
  then have "b (items ! i) (items ! j) items = (fst (b (items ! i) (items ! j) []), items)"
    using assms(1) unfolding pureBlock_def by blast
  then show ?thesis using assms Some by (simp add: hb_itemIsLess_def itemLess_def Let_def split: prod.split)
qed (simp add: hb_itemIsLess_def itemLess_def)

lemma sortStart_stable:
  assumes "pureBlock blk" "isOrder (itemLess st blk) (List.set items)" "s + n \<le> length items"
  shows "\<exists>ys. hb_arraySortStart st blk s n items = take s items @ ys @ drop (s + n) items \<and>
    stableSortOf (itemLess st blk) (take n (drop s items)) ys \<and> length ys = n"
proof -
  define lt where "lt i j = itemLess st blk (items ! i) (items ! j)" for i j
  define ix where "ix = fst (sortL (hb_itemIsLess st blk) [s..<s + n] items)"
  have sub: "List.set (take n (drop s items)) \<subseteq> List.set items" by (meson in_set_dropD in_set_takeD subsetI)
  have A: "(!) items ` {s..<s + n} \<subseteq> List.set items" using assms(3) by auto
  have wo: "weakOrder lt {s..<s + n}"
    using assms(2) A unfolding weakOrder_def isOrder_def lt_def by (metis (no_types, lifting) image_subset_iff)
  have "sorted_wrt (stableLess lt) ix \<and> snd (sortL (hb_itemIsLess st blk) [s..<s + n] items) = items"
    unfolding ix_def
  proof (rule sortL_sorted [OF wo])
    fix i j assume "i \<in> {s..<s + n}" "j \<in> {s..<s + n}"
    then show "hb_itemIsLess st blk i j items = (lt i j, items)"
      using assms(3) hb_itemIsLess_pure [OF assms(1)] by (simp add: lt_def)
  qed auto
  then have so: "sorted_wrt (stableLess lt) ix" "sortL (hb_itemIsLess st blk) [s..<s + n] items = (ix, items)"
    by (simp_all add: ix_def prod_eq_iff)
  have p: "permOf s n ix" unfolding ix_def by (rule permOf_sortL)
  then have "keptIndices s (length items) ix = ix" using assms(3) by (simp add: keptIndices_def permOf_def)
  then have r: "hb_arraySortStart st blk s n items = take s items @ map ((!) items) ix @ drop (s + n) items"
    using sortStart_spec(2) [OF so(2)] p by (auto simp: permOf_def)
  have "isOrder (itemLess st blk) (List.set (take n (drop s items)))"
    using assms(2) sub unfolding isOrder_def by blast
  then have "stableSortOf (itemLess st blk) (take n (drop s items)) (map ((!) items) ix)"
    using so(1) by (intro stable_map [OF p assms(3)]) (simp_all add: lt_def [abs_def])
  then show ?thesis using r p by (intro exI [of _ "map ((!) items) ix"]) (simp add: permOf_def)
qed

text \<open>The range of the items to sort: the index of the first one and their number.\<close>

definition sortRange :: "nat option \<Rightarrow> nat option \<Rightarrow> nat \<Rightarrow> nat \<times> nat" where
  "sortRange pnStart pnCount nLen =
     (let s = (case pnStart of Some n \<Rightarrow> n - 1 | None \<Rightarrow> 0); rest = nLen - s
      in (s, case pnCount of Some c \<Rightarrow> if c = 0 then rest else min c rest | None \<Rightarrow> rest))"

lemma hb_arraySort_range:
  assumes "sortRange pnStart pnCount (length items) = (s, n)"
  shows "hb_arraySort st pnStart pnCount blk items = (if 1 < n then hb_arraySortStart st blk s n items else items)"
    "n = 0 \<or> s + n \<le> length items"
proof -
  define nLen where "nLen = length items"
  define nStart where "nStart = (case pnStart of Some n \<Rightarrow> if 1 \<le> n then n else 1 | None \<Rightarrow> 1)"
  define nCount where "nCount = (case pnCount of Some n \<Rightarrow> if 1 \<le> n \<and> n \<le> nLen - nStart then n else nLen - nStart + 1
    | None \<Rightarrow> nLen - nStart + 1)"
  have s: "nStart = s + 1"
    using assms by (cases pnStart) (auto simp: sortRange_def nStart_def Let_def)
  have n: "n = (case pnCount of Some c \<Rightarrow> if c = 0 then nLen - s else min c (nLen - s) | None \<Rightarrow> nLen - s)"
    using assms unfolding nLen_def by (auto simp: sortRange_def Let_def)
  show "n = 0 \<or> s + n \<le> length items"
    using n by (cases pnCount) (auto simp: nLen_def split: if_splits)
  have e: "hb_arraySort st pnStart pnCount blk items =
      (if nStart \<le> nLen then
         (let nCount = (if nLen < nStart + nCount then nLen - nStart + 1 else nCount)
          in if 1 < nCount then hb_arraySortStart st blk (nStart - 1) nCount items else items)
       else items)"
    by (simp only: hb_arraySort_def Let_def nLen_def nStart_def nCount_def)
  show "hb_arraySort st pnStart pnCount blk items = (if 1 < n then hb_arraySortStart st blk s n items else items)"
  proof (cases "nStart \<le> nLen")
    case True
    then have "(if nLen < nStart + nCount then nLen - nStart + 1 else nCount) = n"
      using n s by (cases pnCount) (auto simp: nCount_def)
    then show ?thesis unfolding e using True s by simp
  next
    case False
    then have "n = 0" using n s by (cases pnCount) auto
    then show ?thesis unfolding e using False by simp
  qed
qed

lemma stableSortOf_short: "length xs \<le> 1 \<Longrightarrow> stableSortOf lt xs xs"
  by (cases xs) (auto simp: stableSortOf_def)

lemma strCmp_less:
  assumes "cdpSort st = None" "\<not> HB_SET_EXACT st"
  shows "hb_itemStrCmp st a b False < 0 \<longleftrightarrow> a < b"
proof -
  have p: "prefix x y \<Longrightarrow> x \<noteq> y \<Longrightarrow> x < y" for x y :: string
  proof -
    assume "prefix x y" "x \<noteq> y"
    then obtain c z where "y = x @ c # z" by (metis append_self_conv neq_Nil_conv prefixE)
    then show "x < y" by (simp add: list_less_def lexord_append_rightI)
  qed
  have m: "(if length a < length b then length a else length b) = min (length a) (length b)" by simp
  note c = cmp_bytes_prefix [of a b]
  show ?thesis
  proof (cases "min (length a) (length b) = 0")
    case True
    then have "a = [] \<or> b = []" by (auto simp: min_def split: if_splits)
    then show ?thesis using assms p [of a b] by (auto simp: hb_itemStrCmp_def Let_def)
  next
    case False
    then have h: "hb_itemStrCmp st a b False =
        (let iRet = cmp_bytes (take (min (length a) (length b)) a) (take (min (length a) (length b)) b) in
         if iRet = 0 \<and> length a \<noteq> length b \<and> length a < length b then (if length a < length b then -1 else 1)
         else iRet)"
      using assms(2)
      by (simp only: hb_itemStrCmp_def Let_def assms(1) not_False_eq_True simp_thms if_False if_True option.case m)
    consider (eq) "a = b" | (pa) "prefix a b" "a \<noteq> b" | (pb) "prefix b a" "a \<noteq> b" | (no) "\<not> prefix a b" "\<not> prefix b a"
      by blast
    then show ?thesis
    proof cases
      case eq
      then show ?thesis unfolding h c by simp
    next
      case pa
      then have "length a < length b" by (simp add: prefix_length_less strict_prefix_def)
      then show ?thesis unfolding h c Let_def using pa p [OF pa] by simp
    next
      case pb
      then have "length b < length a" by (simp add: prefix_length_less strict_prefix_def)
      moreover have "b < a" using p [of b a] pb by simp
      ultimately show ?thesis unfolding h c Let_def using pb by (auto dest: less_asym)
    next
      case no
      then show ?thesis unfolding h c Let_def by simp
    qed
  qed
qed

lemma itemLess_strings:
  assumes "cdpSort st = None" "\<not> HB_SET_EXACT st"
  shows "itemLess st None (IString a) (IString b) \<longleftrightarrow> a < b"
  using strCmp_less [OF assms] by (simp add: itemLess_def itemLess_native_def)

subsection \<open>Properties\<close>

text \<open>C33. Sorting only rearranges. Whatever the code block answers, and even when it changes the array
  or its length while the sort runs, the items in the array afterwards are those the comparisons left in it,
  each as often as before, and the items outside the range are not moved.\<close>

theorem hb_arraySortStart_rearranges:
  "let items' = snd (snd (hb_arraySortDO (hb_itemIsLess st blk) 0 n n (fillLoop s n (\<lambda>_. 0)) items));
       res = hb_arraySortStart st blk s n items
   in mset res = mset items' \<and> take s res = take s items' \<and> drop (s + n) res = drop (s + n) items'"
proof -
  define ix where "ix = fst (sortL (hb_itemIsLess st blk) [s..<s + n] items)"
  define items' where "items' = snd (sortL (hb_itemIsLess st blk) [s..<s + n] items)"
  have so: "sortL (hb_itemIsLess st blk) [s..<s + n] items = (ix, items')" by (simp add: ix_def items'_def)
  have p: "permOf s n ix" unfolding ix_def by (rule permOf_sortL)
  define kx where "kx = keptIndices s (length items') ix"
  define k where "k = length kx"
  have kp: "permOf s k kx" and kl: "0 < k \<Longrightarrow> s + k \<le> length items'"
    using permOf_kept [OF p, of "length items'"] by (simp_all add: kx_def k_def)
  have kn: "k \<le> n" "k < n \<Longrightarrow> length items' \<le> s + k \<or> k = 0 \<and> length items' \<le> s"
  proof -
    show "k \<le> n" using p by (auto simp: kx_def k_def keptIndices_def permOf_def)
    assume "k < n"
    then have f: "\<not> s + n \<le> length items'" using p by (auto simp: kx_def k_def keptIndices_def permOf_def split: if_splits)
    then have "kx = filter (\<lambda>i. i < length items') ix" using p by (simp add: kx_def keptIndices_def permOf_def)
    moreover have "List.set kx = {s..<s + k}" using kp by (simp add: permOf_def)
    ultimately show "length items' \<le> s + k \<or> k = 0 \<and> length items' \<le> s"
      using p f by (auto simp: permOf_def)
  qed
  have res: "hb_arraySortStart st blk s n items =
      (if kx = [] then items' else take s items' @ map ((!) items') kx @ drop (s + k) items')"
    using sortStart_spec(2) [OF so] by (simp add: kx_def k_def)
  have "mset (hb_arraySortStart st blk s n items) = mset items' \<and> take s (hb_arraySortStart st blk s n items) = take s items' \<and>
      drop (s + n) (hb_arraySortStart st blk s n items) = drop (s + n) items'"
  proof (cases "kx = []")
    case False
    then have k: "0 < k" "s + k \<le> length items'" using kl by (auto simp: k_def)
    have "mset (map ((!) items') kx) = mset (take k (drop s items'))" using k by (intro mset_permOf [OF kp]) simp
    moreover have "items' = take s items' @ take k (drop s items') @ drop (s + k) items'"
      by (metis append_take_drop_id drop_drop add.commute)
    ultimately have "mset (take s items' @ map ((!) items') kx @ drop (s + k) items') = mset items'"
      by (metis mset_append)
    moreover have "length kx = k" by (simp add: k_def)
    ultimately show ?thesis using res False k kn by (simp add: add.commute)
  qed (simp add: res)
  then show ?thesis using sortStart_spec(1) [OF so] by (simp add: Let_def)
qed

text \<open>C12. Sorting. When the comparison (the native one, or a code block that does not change the array)
  orders the items, the range given by the start and the count becomes its own stable sort: the same items, none
  before a lesser one, equal ones in the order they had. The items outside the range stay.\<close>

theorem hb_arraySort_stable:
  assumes "pureBlock blk" "isOrder (itemLess st blk) (List.set items)"
    "sortRange pnStart pnCount (length items) = (s, n)"
  shows "\<exists>ys. hb_arraySort st pnStart pnCount blk items = take s items @ ys @ drop (s + n) items \<and>
    stableSortOf (itemLess st blk) (take n (drop s items)) ys"
proof (cases "1 < n")
  case True
  then have "s + n \<le> length items" using hb_arraySort_range(2) [OF assms(3)] by auto
  from sortStart_stable [OF assms(1,2) this] True show ?thesis
    unfolding hb_arraySort_range(1) [OF assms(3)] by auto
next
  case False
  have "items = take s items @ take n (drop s items) @ drop (s + n) items"
    by (metis append_take_drop_id drop_drop add.commute)
  moreover have "stableSortOf (itemLess st blk) (take n (drop s items)) (take n (drop s items))"
    using False by (intro stableSortOf_short) simp
  ultimately show ?thesis unfolding hb_arraySort_range(1) [OF assms(3)] if_not_P [OF False] by blast
qed

theorem hb_arraySort_stable_witness:
  "\<exists>ys. hb_arraySort set_default (Some 2) None None [ILogical True, ILogical True, ILogical False] = ILogical True # ys \<and>
    mset ys = {#ILogical True, ILogical False#}"
proof -
  let ?xs = "[ILogical True, ILogical True, ILogical False]"
  have "\<exists>ys. hb_arraySort set_default (Some 2) None None ?xs = take 1 ?xs @ ys @ drop (1 + 2) ?xs \<and>
      stableSortOf (itemLess set_default None) (take 2 (drop 1 ?xs)) ys"
    by (rule hb_arraySort_stable)
      (simp_all add: pureBlock_def isOrder_def itemLess_def itemLess_native_def sortRange_def)
  then show ?thesis by (auto simp: stableSortOf_def)
qed

text \<open>C35. Sorting an array of strings. With \<open>SET EXACT OFF\<close> and a code page that sorts by byte \<open>hb_arraySort\<close>
  without arguments gives the list of the strings in lexicographic order.\<close>

theorem hb_arraySort_strings:
  assumes "cdpSort st = None" "\<not> HB_SET_EXACT st"
  shows "hb_arraySort st None None None (map IString xs) = map IString (sort xs)"
proof -
  let ?items = "map IString xs"
  note l = itemLess_strings [OF assms]
  have o: "isOrder (itemLess st None) (List.set ?items)" by (auto simp: isOrder_def l)
  have p: "pureBlock None" by (simp add: pureBlock_def)
  have s: "sortRange None None (length ?items) = (0, length ?items)" by (simp add: sortRange_def)
  obtain ys where ys: "hb_arraySort st None None None ?items = ys" "stableSortOf (itemLess st None) ?items ys"
  proof (cases "1 < length ?items")
    case True
    then show ?thesis
      using sortStart_stable [OF p o, of 0 "length ?items"] that unfolding hb_arraySort_range(1) [OF s] by auto
  next
    case False
    then show ?thesis using that stableSortOf_short [of ?items] unfolding hb_arraySort_range(1) [OF s] by auto
  qed
  then have "mset ys = mset (map IString xs)" by (simp add: stableSortOf_def)
  then have "List.set ys = IString ` List.set xs" by (metis mset_eq_setD list.set_map)
  then have "\<forall>y\<in>List.set ys. \<exists>x. y = IString x" by blast
  then obtain zs where zs: "ys = map IString zs" using ex_map_conv by blast
  have "mset (map IString zs) = mset (map IString xs)" using ys(2) unfolding zs stableSortOf_def by blast
  then have "mset (map strVal (map IString zs)) = mset (map strVal (map IString xs))" by (metis mset_map)
  then have "mset zs = mset xs" unfolding map_map comp_def strVal.simps by simp
  moreover have "sorted zs"
    using ys(2) unfolding zs stableSortOf_def by (simp add: sorted_wrt_map l not_less)
  ultimately have "zs = sort xs" by (simp add: properties_for_sort)
  then show ?thesis using ys(1) zs by simp
qed

theorem hb_arraySort_strings_witness:
  "hb_arraySort set_default None None None (map IString [''BA'', ''B'', ''A'']) = map IString [''A'', ''B'', ''BA'']"
proof -
  have "sort [''BA'', ''B'', ''A''] = [''A'', ''B'', ''BA'']" by code_simp
  then show ?thesis
    using hb_arraySort_strings [of set_default "[''BA'', ''B'', ''A'']"] by (simp add: set_default_def)
qed

subsection \<open>Dates and timestamps in one array\<close>

lemma isOrder_subset: "isOrder lt A \<Longrightarrow> B \<subseteq> A \<Longrightarrow> isOrder lt B"
  unfolding isOrder_def by (intro conjI ballI impI) blast+

lemma hb_arraySort_sorted:
  assumes "isOrder (itemLess st None) (List.set xs)"
  shows "sorted_wrt (\<lambda>x y. \<not> itemLess st None y x) (hb_arraySort st None None None xs)"
proof -
  have p: "pureBlock None" by (simp add: pureBlock_def)
  have s: "sortRange None None (length xs) = (0, length xs)" by (simp add: sortRange_def)
  show ?thesis
  proof (cases "1 < length xs")
    case True
    then show ?thesis
      using sortStart_stable [OF p assms, of 0 "length xs"] unfolding hb_arraySort_range(1) [OF s]
      by (auto simp: stableSortOf_def)
  next
    case False
    then show ?thesis unfolding hb_arraySort_range(1) [OF s] if_not_P [OF False]
      using stableSortOf_short [of xs] by (auto simp: stableSortOf_def)
  qed
qed

text \<open>No day with a date and two times.\<close>

definition oneTimeADay :: "HB_ITEM set \<Rightarrow> bool" where
  "oneTimeADay S \<longleftrightarrow> (\<forall>j t1 t2. IDate j \<in> S \<longrightarrow> ITimeStamp j t1 \<in> S \<longrightarrow> ITimeStamp j t2 \<in> S \<longrightarrow> t1 = t2)"

lemma itemLess_dates:
  "itemLess st None (IDate i) (IDate j) = (i < j)" "itemLess st None (IDate i) (ITimeStamp j t) = (i < j)"
  "itemLess st None (ITimeStamp i t) (IDate j) = (i < j)"
  "itemLess st None (ITimeStamp i t) (ITimeStamp j u) = (i < j \<or> i = j \<and> t < u)"
  by (auto simp: itemLess_def itemLess_native_def hb_itemGetDL_def)

lemma datetime_cases:
  assumes "HB_IS_DATETIME p"
  obtains j where "p = IDate j" | j t where "p = ITimeStamp j t"
  using assms by (cases p) auto

text \<open>Where the comparison is not an order: a date between two times of its day.\<close>

lemma itemLess_gap:
  assumes "HB_IS_DATETIME x" "HB_IS_DATETIME y" "HB_IS_DATETIME z"
    and "\<not> itemLess st None x y" "\<not> itemLess st None y z" "itemLess st None x z"
  shows "\<exists>i t u. x = ITimeStamp i t \<and> y = IDate i \<and> z = ITimeStamp i u \<and> t < u"
  by (rule datetime_cases [OF assms(1)]; rule datetime_cases [OF assms(2)]; rule datetime_cases [OF assms(3)];
      insert assms(4-6); auto simp: itemLess_dates)

lemma isOrder_dates:
  assumes dt: "\<forall>p\<in>S. HB_IS_DATETIME p" and one: "oneTimeADay S"
  shows "isOrder (itemLess st None) S"
proof -
  have "\<not> itemLess st None y x" if "x \<in> S" "y \<in> S" "itemLess st None x y" for x y
  proof -
    have "HB_IS_DATETIME x" "HB_IS_DATETIME y" using dt that by blast+
    then show ?thesis using that(3) by (elim datetime_cases) (auto simp: itemLess_dates)
  qed
  moreover have "\<not> itemLess st None x z"
    if S: "x \<in> S" "y \<in> S" "z \<in> S" and l: "\<not> itemLess st None x y" "\<not> itemLess st None y z" for x y z
  proof
    assume xz: "itemLess st None x z"
    have "HB_IS_DATETIME x" "HB_IS_DATETIME y" "HB_IS_DATETIME z" using dt S by blast+
    from itemLess_gap [OF this l xz] obtain i t u where "x = ITimeStamp i t" "y = IDate i" "z = ITimeStamp i u" "t < u"
      by blast
    then show False using one S unfolding oneTimeADay_def by blast
  qed
  ultimately show ?thesis unfolding isOrder_def by blast
qed

lemma sort_mixed_dates:
  assumes "t2 < t1"
  shows "hb_arraySort st None None None [ITimeStamp j t1, IDate j, ITimeStamp j t2] = [ITimeStamp j t1, IDate j, ITimeStamp j t2]"
proof -
  let ?xs = "[ITimeStamp j t1, IDate j, ITimeStamp j t2]" and ?lss = "hb_itemIsLess st None"
  have one: "sortL ?lss [i] ?xs = ([i], ?xs)" for i by (subst sortL.simps) simp
  have two: "sortL ?lss [1, 2] ?xs = ([1, 2], ?xs)"
    by (subst sortL.simps) (simp add: one Let_def hb_itemIsLess_def itemLess_native_def hb_itemGetDL_def)
  have three: "sortL ?lss [0, 1, 2] ?xs = ([0, 1, 2], ?xs)"
    by (subst sortL.simps) (simp add: one two [simplified] Let_def hb_itemIsLess_def itemLess_native_def hb_itemGetDL_def)
  have i: "[0..<0 + 3] = [0, 1, 2::nat]" by (simp add: upt_rec)
  have "hb_arraySortStart st None 0 3 ?xs = ?xs"
    using sortStart_spec(2) [of st None 0 3 ?xs, unfolded i, OF three] by (simp add: keptIndices_def)
  then show ?thesis
    using hb_arraySort_range(1) [of None None ?xs 0 3 st None] by (simp add: sortRange_def)
qed

text \<open>C34. Which arrays of dates and timestamps are sorted. A date and a timestamp of the same day compare as
  equal whatever the time, two timestamps do not. So the native comparison orders a set of dates and timestamps
  only when no day has a date and two different times: then \<open>hb_arraySort\<close> leaves no item of an array of them before a
  lesser one, and in every other case there is an array of them where it does.\<close>

theorem hb_arraySort_mixed_dates:
  assumes "\<forall>p\<in>S. HB_IS_DATETIME p"
  shows "(\<forall>xs. List.set xs \<subseteq> S \<longrightarrow>
      sorted_wrt (\<lambda>x y. \<not> itemLess_native st y x) (hb_arraySort st None None None xs)) \<longleftrightarrow> oneTimeADay S"
proof
  have n: "itemLess_native st = itemLess st None" by (auto simp: itemLess_def fun_eq_iff)
  show "\<forall>xs. List.set xs \<subseteq> S \<longrightarrow> sorted_wrt (\<lambda>x y. \<not> itemLess_native st y x) (hb_arraySort st None None None xs)"
    if "oneTimeADay S"
    using hb_arraySort_sorted isOrder_subset [OF isOrder_dates [OF assms that]] unfolding n by blast
  assume all: "\<forall>xs. List.set xs \<subseteq> S \<longrightarrow>
      sorted_wrt (\<lambda>x y. \<not> itemLess_native st y x) (hb_arraySort st None None None xs)"
  have le: "t1 \<le> t2" if S: "IDate j \<in> S" "ITimeStamp j t1 \<in> S" "ITimeStamp j t2 \<in> S" for j t1 t2
  proof (rule ccontr)
    assume "\<not> t1 \<le> t2"
    then have t: "t2 < t1" by simp
    have "sorted_wrt (\<lambda>x y. \<not> itemLess_native st y x) [ITimeStamp j t1, IDate j, ITimeStamp j t2]"
      using all [rule_format, of "[ITimeStamp j t1, IDate j, ITimeStamp j t2]"] S sort_mixed_dates [OF t, of st j] by simp
    then show False using t by (simp add: n itemLess_dates)
  qed
  show "oneTimeADay S" unfolding oneTimeADay_def using le by (metis order_antisym)
qed

theorem hb_arraySort_mixed_dates_witness:
  "(\<exists>xs. List.set xs \<subseteq> {IDate 1, ITimeStamp 1 2, ITimeStamp 1 5} \<and>
      \<not> sorted_wrt (\<lambda>x y. \<not> itemLess_native set_default y x) (hb_arraySort set_default None None None xs)) \<and>
   sorted_wrt (\<lambda>x y. \<not> itemLess_native set_default y x)
     (hb_arraySort set_default None None None [IDate 2, ITimeStamp 1 5, IDate 1])"
proof -
  have "\<not> oneTimeADay {IDate 1, ITimeStamp 1 2, ITimeStamp 1 5}" "oneTimeADay {IDate 2, ITimeStamp 1 5, IDate 1}"
    by (auto simp: oneTimeADay_def)
  then show ?thesis
    using hb_arraySort_mixed_dates [of "{IDate 1, ITimeStamp 1 2, ITimeStamp 1 5}" set_default]
      hb_arraySort_mixed_dates [of "{IDate 2, ITimeStamp 1 5, IDate 1}" set_default] by auto
qed

end
