(* ===== verification/HbFileLock.thy ===== *)
theory HbFileLock
  imports HbBisect
begin

text \<open>
  The byte range locks of files, \<open>src/rtl/filebuf.c\<close>. A process holds the locks of one file
  in an array of ranges, sorted by their start and joined where they touch, because the locks of the
  operating system do not exclude each other inside one process.

  Offsets are signed 64 bit numbers; a sum that leaves them wraps, as it does on the platforms the
  program runs on. The lock of the operating system is a parameter. Each critical section is one
  operation here; the threads run them in any order.
\<close>

subsection \<open>State\<close>

record HB_FLOCK =
  lkStart :: int
  lkLen :: int

record HB_FILE =
  pLocks :: "HB_FLOCK list"
  uiSize :: nat
  shared :: bool
  fileMode :: int

definition HB_FLOCK_RESIZE :: nat where "HB_FLOCK_RESIZE = 16"

subsection \<open>The array of locks\<close>

function fileFindOffset_loop :: "HB_FILE \<Rightarrow> int \<Rightarrow> nat \<Rightarrow> nat \<Rightarrow> nat" where
  "fileFindOffset_loop pFile nOffset uiFirst uiLast =
     (let uiMiddle = (uiFirst + uiLast) div 2 in
      if uiFirst < uiLast then
        (let nEnd = wrap64 (lkStart (pLocks pFile ! uiMiddle) + lkLen (pLocks pFile ! uiMiddle)) in
         if 0 < nEnd \<and> nEnd \<le> nOffset then fileFindOffset_loop pFile nOffset (uiMiddle + 1) uiLast
         else fileFindOffset_loop pFile nOffset uiFirst uiMiddle)
      else uiMiddle)"
  by pat_completeness auto
termination
  by (relation "measure (\<lambda>(f, n, lo, hi). hi - lo)") auto

declare fileFindOffset_loop.simps [simp del]

definition hb_fileFindOffset :: "HB_FILE \<Rightarrow> int \<Rightarrow> nat" where
  "hb_fileFindOffset pFile nOffset = fileFindOffset_loop pFile nOffset 0 (length (pLocks pFile))"

definition hb_fileInsertLock :: "nat \<Rightarrow> int \<Rightarrow> int \<Rightarrow> HB_FILE \<Rightarrow> HB_FILE" where
  "hb_fileInsertLock uiPos nStart nLen pFile =
     (let pFile = (if length (pLocks pFile) = uiSize pFile
                   then pFile\<lparr>uiSize := uiSize pFile + HB_FLOCK_RESIZE\<rparr> else pFile)
      in pFile\<lparr>pLocks := take uiPos (pLocks pFile) @ \<lparr>lkStart = nStart, lkLen = nLen\<rparr> # drop uiPos (pLocks pFile)\<rparr>)"

definition hb_fileDeleteLock :: "nat \<Rightarrow> HB_FILE \<Rightarrow> HB_FILE" where
  "hb_fileDeleteLock uiPos pFile =
     (let pFile = pFile\<lparr>pLocks := take uiPos (pLocks pFile) @ drop (uiPos + 1) (pLocks pFile)\<rparr>
      in if 2 * HB_FLOCK_RESIZE \<le> uiSize pFile - length (pLocks pFile)
         then pFile\<lparr>uiSize := uiSize pFile - HB_FLOCK_RESIZE\<rparr> else pFile)"

definition setLock :: "nat \<Rightarrow> int \<Rightarrow> int \<Rightarrow> HB_FILE \<Rightarrow> HB_FILE" where
  "setLock uiPos nStart nLen pFile = pFile\<lparr>pLocks := (pLocks pFile)[uiPos := \<lparr>lkStart = nStart, lkLen = nLen\<rparr>]\<rparr>"

subsection \<open>Locking and unlocking\<close>

text \<open>The result, the flag \<open>fLockFS\<close> (whether the operating system has to be asked) and the file.\<close>

definition hb_fileSetLock :: "HB_FILE \<Rightarrow> int \<Rightarrow> int \<Rightarrow> bool \<times> bool \<times> HB_FILE" where
  "hb_fileSetLock pFile nStart nLen =
     (let uiPos = hb_fileFindOffset pFile nStart;
          nEnd = wrap64 (nStart + nLen);
          pLock = pLocks pFile ! uiPos;
          pPrev = pLocks pFile ! (uiPos - 1)
      in if uiPos < length (pLocks pFile) \<and> (nEnd \<le> 0 \<or> lkStart pLock < nEnd) then (False, False, pFile)
         else
           (let fRJoin = (uiPos < length (pLocks pFile) \<and> nEnd = lkStart pLock);
                fLJoin = (0 < uiPos \<and> wrap64 (lkStart pPrev + lkLen pPrev) = nStart);
                pFile =
                  (if fLJoin then
                     (if fRJoin then
                        hb_fileDeleteLock uiPos
                          (setLock (uiPos - 1) (lkStart pPrev) (wrap64 (lkLen pPrev + wrap64 (nLen + lkLen pLock))) pFile)
                      else setLock (uiPos - 1) (lkStart pPrev) (wrap64 (lkLen pPrev + nLen)) pFile)
                   else if fRJoin then
                     setLock uiPos (wrap64 (lkStart pLock - nLen)) (wrap64 (lkLen pLock + nLen)) pFile
                   else hb_fileInsertLock uiPos nStart nLen pFile)
            in (True, shared pFile, pFile)))"

text \<open>\<open>pf\<close> says whether \<open>pfLockFS\<close> is passed: then a shared file keeps the lock until the
  operating system has released it.\<close>

definition hb_fileUnlock :: "HB_FILE \<Rightarrow> bool \<Rightarrow> int \<Rightarrow> int \<Rightarrow> bool \<times> bool \<times> HB_FILE" where
  "hb_fileUnlock pFile pf nStart nLen =
     (let uiPos = hb_fileFindOffset pFile nStart; pLock = pLocks pFile ! uiPos in
      if uiPos < length (pLocks pFile) \<and> lkStart pLock \<le> nStart \<and> nLen \<le> lkLen pLock \<and>
         wrap64 (nStart - lkStart pLock) \<le> wrap64 (lkLen pLock - nLen)
      then
        (if pf \<and> shared pFile then (True, True, pFile)
         else
           (True, False,
             if nStart = lkStart pLock then
               (if nLen = lkLen pLock then hb_fileDeleteLock uiPos pFile
                else setLock uiPos (wrap64 (lkStart pLock + nLen)) (wrap64 (lkLen pLock - nLen)) pFile)
             else if wrap64 (nStart + nLen) = wrap64 (lkStart pLock + lkLen pLock) then
               setLock uiPos (lkStart pLock) (wrap64 (lkLen pLock - nLen)) pFile
             else
               setLock uiPos (lkStart pLock) (wrap64 (nStart - lkStart pLock))
                 (hb_fileInsertLock (uiPos + 1) (wrap64 (nStart + nLen))
                   (wrap64 (wrap64 (wrap64 (lkStart pLock + lkLen pLock) - nStart) - nLen)) pFile)))
      else (False, False, pFile))"

definition hb_fileTestLock :: "HB_FILE \<Rightarrow> int \<Rightarrow> int \<Rightarrow> bool" where
  "hb_fileTestLock pFile nStart nLen =
     (let uiPos = hb_fileFindOffset pFile nStart; nEnd = wrap64 (nStart + nLen) in
      uiPos < length (pLocks pFile) \<and> (nEnd \<le> 0 \<or> lkStart (pLocks pFile ! uiPos) < nEnd))"

subsection \<open>The methods of a file\<close>

definition FL_LOCK :: int where "FL_LOCK = 0"
definition FL_UNLOCK :: int where "FL_UNLOCK = 1"
definition FL_MASK :: int where "FL_MASK = 0xFF"
definition FLX_SHARED :: int where "FLX_SHARED = 0x100"
definition FO_READ :: int where "FO_READ = 0"
definition FO_WRITE :: int where "FO_WRITE = 1"

text \<open>\<open>hb_fsLockLarge\<close> is a parameter: what the operating system answers to a range and a type. The error is \<open>None\<close>
  when the answer of the operating system sets it.\<close>

definition s_fileLock :: "(int \<Rightarrow> int \<Rightarrow> int \<Rightarrow> bool) \<Rightarrow> HB_FILE \<Rightarrow> int \<Rightarrow> int \<Rightarrow> int \<Rightarrow> (bool \<times> nat option) \<times> HB_FILE" where
  "s_fileLock fsLock pFile nStart nLen iType =
     (if and iType FL_MASK = FL_UNLOCK then
        (let (fResult, fLockFS, pFile) = hb_fileUnlock pFile True nStart nLen in
         if fLockFS then ((fResult, None), snd (snd (hb_fileUnlock pFile False nStart nLen)))
         else ((fResult, Some (if fResult then 0 else 33)), pFile))
      else
        (let (fResult, fLockFS, pFile) = hb_fileSetLock pFile nStart nLen in
         if fLockFS then
           (let iType = (if fileMode pFile = FO_READ then or iType FLX_SHARED
                         else if fileMode pFile = FO_WRITE then and iType (not FLX_SHARED) else iType);
                fResult = fsLock nStart nLen iType
            in if fResult then ((True, None), pFile)
               else ((False, None), snd (snd (hb_fileUnlock pFile False nStart nLen))))
         else ((fResult, Some (if fResult then 0 else 33)), pFile)))"

end
