(* ===== verification/HbFileLockProps.thy ===== *)
theory HbFileLockProps
  imports HbFileLock
begin

text \<open>
  The array of locks stands for the set of the locked bytes: locking and unlocking are union and difference
  of sets, in whatever order the threads run, and no operation writes beyond the memory of the array.
\<close>

subsection \<open>The invariant\<close>

definition lkEnd :: "HB_FLOCK \<Rightarrow> int" where
  "lkEnd l = lkStart l + lkLen l"

text \<open>A range of bytes whose end is an offset.\<close>

definition validRange :: "int \<Rightarrow> int \<Rightarrow> bool" where
  "validRange s n \<longleftrightarrow> 0 \<le> s \<and> 0 < n \<and> s + n < 2 ^ 63"

definition locksOk :: "HB_FLOCK list \<Rightarrow> bool" where
  "locksOk ls \<longleftrightarrow> (\<forall>l\<in>List.set ls. validRange (lkStart l) (lkLen l)) \<and> sorted_wrt (\<lambda>a b. lkEnd a < lkStart b) ls"

definition fileInv :: "HB_FILE \<Rightarrow> bool" where
  "fileInv f \<longleftrightarrow> locksOk (pLocks f) \<and> length (pLocks f) \<le> uiSize f"

definition lkSet :: "HB_FLOCK \<Rightarrow> int set" where
  "lkSet l = {lkStart l..<lkEnd l}"

definition lockedBytes :: "HB_FILE \<Rightarrow> int set" where
  "lockedBytes f = (\<Union>l\<in>List.set (pLocks f). lkSet l)"

lemma valid_wrap:
  assumes "validRange s n"
  shows "wrap64 (s + n) = s + n" "0 < s + n" "wrap64 s = s" "wrap64 n = n"
  using assms by (auto simp: validRange_def is_int64_def c_defs intro!: wrap64_id)

lemma valid_wrap_end: "locksOk ls \<Longrightarrow> l \<in> List.set ls \<Longrightarrow> wrap64 (lkStart l + lkLen l) = lkEnd l \<and> 0 < lkEnd l"
  using valid_wrap [of "lkStart l" "lkLen l"] by (simp add: locksOk_def lkEnd_def)

lemma locksOk_nth_less:
  assumes "locksOk ls" "i < j" "j < length ls"
  shows "lkEnd (ls ! i) < lkStart (ls ! j)" "lkEnd (ls ! i) < lkEnd (ls ! j)"
proof -
  show 1: "lkEnd (ls ! i) < lkStart (ls ! j)"
    using assms sorted_wrt_nth_less [of "\<lambda>a b. lkEnd a < lkStart b" ls i j] by (simp add: locksOk_def)
  have "ls ! j \<in> List.set ls" using assms(3) by simp
  then have "0 < lkLen (ls ! j)" using assms(1) by (auto simp: locksOk_def validRange_def)
  then show "lkEnd (ls ! i) < lkEnd (ls ! j)" using 1 by (simp add: lkEnd_def)
qed

definition lockProbe :: "HB_FILE \<Rightarrow> int \<Rightarrow> nat \<Rightarrow> int" where
  "lockProbe f k i = (let e = wrap64 (lkStart (pLocks f ! i) + lkLen (pLocks f ! i)) in if 0 < e \<and> e \<le> k then 1 else -1)"

interpretation lockPos: bisect "\<lambda>f k. locksOk (pLocks f)" "\<lambda>f. length (pLocks f)" lockProbe "\<lambda>f i. ()"
  "\<lambda>f k lo hi. (None, fileFindOffset_loop f k lo hi)"
proof unfold_locales
  fix f :: HB_FILE and k :: int and lo hi :: nat
  show "lo < hi \<Longrightarrow> lockProbe f k ((lo + hi) div 2) = 0 \<Longrightarrow>
      (None, fileFindOffset_loop f k lo hi) = (Some (), (lo + hi) div 2)"
    by (simp add: lockProbe_def Let_def split: if_splits)
  show "lo < hi \<Longrightarrow> lockProbe f k ((lo + hi) div 2) < 0 \<Longrightarrow>
      (None :: unit option, fileFindOffset_loop f k lo hi) = (None, fileFindOffset_loop f k lo ((lo + hi) div 2))"
    by (subst fileFindOffset_loop.simps) (auto simp: lockProbe_def Let_def split: if_splits)
  show "lo < hi \<Longrightarrow> 0 < lockProbe f k ((lo + hi) div 2) \<Longrightarrow>
      (None :: unit option, fileFindOffset_loop f k lo hi) = (None, fileFindOffset_loop f k ((lo + hi) div 2 + 1) hi)"
    by (subst fileFindOffset_loop.simps) (auto simp: lockProbe_def Let_def split: if_splits)
  show "(None :: unit option, fileFindOffset_loop f k lo lo) = (None, lo)"
    by (subst fileFindOffset_loop.simps) simp
next
  fix f :: HB_FILE and k :: int and i j :: nat
  assume a: "locksOk (pLocks f)" "i < j" "j < length (pLocks f)" "lockProbe f k i \<le> 0"
  have "pLocks f ! i \<in> List.set (pLocks f)" "pLocks f ! j \<in> List.set (pLocks f)" using a(2,3) by simp_all
  then show "lockProbe f k j < 0"
    using a(4) locksOk_nth_less(2) [OF a(1-3)] valid_wrap_end [OF a(1)]
    by (auto simp: lockProbe_def Let_def split: if_splits)
qed

text \<open>The position found splits the locks into those that end before the offset and the others.\<close>

lemma findOffset_split:
  assumes "locksOk (pLocks f)"
  obtains xs ys where "pLocks f = xs @ ys" "length xs = hb_fileFindOffset f k"
    "\<And>l. l \<in> List.set xs \<Longrightarrow> lkEnd l \<le> k" "\<And>l. l \<in> List.set ys \<Longrightarrow> k < lkEnd l"
proof -
  define p where "p = hb_fileFindOffset f k"
  have "lockPos.place f k p"
    by (rule lockPos.search_none [OF assms, of k p]) (simp add: p_def hb_fileFindOffset_def)
  then have p: "p \<le> length (pLocks f)" "\<And>i. i < p \<Longrightarrow> 0 < lockProbe f k i"
    "\<And>i. p \<le> i \<Longrightarrow> i < length (pLocks f) \<Longrightarrow> lockProbe f k i < 0"
    by (auto simp: lockPos.place_def)
  note v = valid_wrap_end [OF assms]
  show ?thesis
  proof (rule that [of "take p (pLocks f)" "drop p (pLocks f)"])
    show "pLocks f = take p (pLocks f) @ drop p (pLocks f)" "length (take p (pLocks f)) = hb_fileFindOffset f k"
      using p(1) by (simp_all add: p_def)
    fix l assume "l \<in> List.set (take p (pLocks f))"
    then obtain i where i: "i < p" "l = pLocks f ! i" using p(1) by (auto simp: in_set_conv_nth)
    then have "l \<in> List.set (pLocks f)" using p(1) by simp
    with i show "lkEnd l \<le> k" using p(2) [of i] v [of l] by (auto simp: lockProbe_def Let_def split: if_splits)
  next
    fix l assume "l \<in> List.set (drop p (pLocks f))"
    then obtain i where i: "i < length (pLocks f) - p" "l = pLocks f ! (p + i)"
      by (auto simp: in_set_conv_nth)
    then have "l \<in> List.set (pLocks f)" "p + i < length (pLocks f)" by simp_all
    with i show "k < lkEnd l" using p(3) [of "p + i"] v [of l] by (auto simp: lockProbe_def Let_def split: if_splits)
  qed
qed

lemma locksOk_append:
  "locksOk (xs @ ys) \<longleftrightarrow> locksOk xs \<and> locksOk ys \<and> (\<forall>a\<in>List.set xs. \<forall>b\<in>List.set ys. lkEnd a < lkStart b)"
  by (auto simp: locksOk_def sorted_wrt_append)

lemma locksOk_Cons:
  "locksOk (y # ys) \<longleftrightarrow> validRange (lkStart y) (lkLen y) \<and> locksOk ys \<and> (\<forall>b\<in>List.set ys. lkEnd y < lkStart b)"
  by (auto simp: locksOk_def)

lemma locksOk_Nil [simp]: "locksOk []"
  by (simp add: locksOk_def)

definition locksSet :: "HB_FLOCK list \<Rightarrow> int set" where
  "locksSet ls = (\<Union>l\<in>List.set ls. lkSet l)"

lemma locksSet_simps [simp]:
  "locksSet [] = {}" "locksSet (l # ls) = lkSet l \<union> locksSet ls" "locksSet (xs @ ys) = locksSet xs \<union> locksSet ys"
  by (auto simp: locksSet_def)

lemma locksSet_low: "(\<And>l. l \<in> List.set ls \<Longrightarrow> lkEnd l \<le> k) \<Longrightarrow> x \<in> locksSet ls \<Longrightarrow> x < k"
  by (fastforce simp: locksSet_def lkSet_def)

lemma locksSet_high: "(\<And>l. l \<in> List.set ls \<Longrightarrow> k \<le> lkStart l) \<Longrightarrow> x \<in> locksSet ls \<Longrightarrow> k \<le> x"
  by (fastforce simp: locksSet_def lkSet_def)

text \<open>The position of a lock in the array, and the two ways to change the array there.\<close>

lemma insertLock_locks:
  "pLocks (hb_fileInsertLock p s n f) = take p (pLocks f) @ \<lparr>lkStart = s, lkLen = n\<rparr> # drop p (pLocks f)"
  "shared (hb_fileInsertLock p s n f) = shared f" "fileMode (hb_fileInsertLock p s n f) = fileMode f"
  "p \<le> length (pLocks f) \<Longrightarrow> length (pLocks f) \<le> uiSize f \<Longrightarrow>
    length (pLocks (hb_fileInsertLock p s n f)) \<le> uiSize (hb_fileInsertLock p s n f)"
  by (auto simp: hb_fileInsertLock_def Let_def HB_FLOCK_RESIZE_def)

lemma deleteLock_locks:
  "pLocks (hb_fileDeleteLock p f) = take p (pLocks f) @ drop (p + 1) (pLocks f)"
  "shared (hb_fileDeleteLock p f) = shared f" "fileMode (hb_fileDeleteLock p f) = fileMode f"
  "length (pLocks f) \<le> uiSize f \<Longrightarrow> length (pLocks (hb_fileDeleteLock p f)) \<le> uiSize (hb_fileDeleteLock p f)"
  by (auto simp: hb_fileDeleteLock_def Let_def HB_FLOCK_RESIZE_def)

lemma setLock_locks [simp]:
  "pLocks (setLock p s n f) = (pLocks f)[p := \<lparr>lkStart = s, lkLen = n\<rparr>]" "uiSize (setLock p s n f) = uiSize f"
  "shared (setLock p s n f) = shared f" "fileMode (setLock p s n f) = fileMode f"
  by (simp_all add: setLock_def)

subsection \<open>Locking\<close>

lemma int64_wrap: "0 \<le> x \<Longrightarrow> x < 2 ^ 63 \<Longrightarrow> wrap64 x = x"
  by (intro wrap64_id) (simp add: is_int64_def c_defs)

lemma setLock_spec:
  assumes "fileInv f" "validRange s n"
  shows "if {s..<s + n} \<inter> lockedBytes f = {}
    then \<exists>f'. hb_fileSetLock f s n = (True, shared f, f') \<and> fileInv f' \<and> lockedBytes f' = lockedBytes f \<union> {s..<s + n} \<and>
      shared f' = shared f \<and> fileMode f' = fileMode f
    else hb_fileSetLock f s n = (False, False, f)"
proof -
  have ok: "locksOk (pLocks f)" and sz: "length (pLocks f) \<le> uiSize f" using assms(1) by (simp_all add: fileInv_def)
  have LS: "lockedBytes f = locksSet (pLocks f)" for f by (simp add: lockedBytes_def locksSet_def)
  note v = valid_wrap [OF assms(2)]
  obtain xs ys where xy: "pLocks f = xs @ ys" "length xs = hb_fileFindOffset f s"
    "\<And>l. l \<in> List.set xs \<Longrightarrow> lkEnd l \<le> s" "\<And>l. l \<in> List.set ys \<Longrightarrow> s < lkEnd l"
    using findOffset_split [OF ok] by metis
  have okx: "locksOk xs" and oky: "locksOk ys" and oxy: "\<And>a b. a \<in> List.set xs \<Longrightarrow> b \<in> List.set ys \<Longrightarrow> lkEnd a < lkStart b"
    using ok unfolding xy(1) locksOk_append by auto
  show ?thesis
  proof (cases "ys \<noteq> [] \<and> lkStart (hd ys) < s + n")
    case True
    then obtain y ys' where y: "ys = y # ys'" "lkStart y < s + n" by (cases ys) auto
    then have "max s (lkStart y) \<in> {s..<s + n} \<inter> lockedBytes f"
      using xy(4) [of y] oky assms(2) unfolding LS xy(1) by (auto simp: locksOk_Cons validRange_def lkSet_def lkEnd_def max_def)
    moreover have "hb_fileSetLock f s n = (False, False, f)"
      using y v xy(1) unfolding hb_fileSetLock_def xy(2) [symmetric] by (simp add: Let_def nth_append)
    ultimately show ?thesis by (metis emptyE)
  next
    case False
    have yge: "s + n \<le> lkStart l" if "l \<in> List.set ys" for l
    proof (cases ys)
      case (Cons y ys')
      then have "s + n \<le> lkStart y" using False by simp
      moreover have "lkEnd y < lkStart l \<or> l = y" using that oky Cons by (auto simp: locksOk_Cons)
      moreover have "lkStart y < lkEnd y" using oky Cons by (simp add: locksOk_Cons validRange_def lkEnd_def)
      ultimately show ?thesis by auto
    qed (use that in simp)
    have dis: "{s..<s + n} \<inter> lockedBytes f = {}"
      using locksSet_low [of xs s] locksSet_high [of ys "s + n"] xy(3) yge unfolding LS xy(1) by fastforce
    define L where "L \<longleftrightarrow> xs \<noteq> [] \<and> lkEnd (last xs) = s"
    define R where "R \<longleftrightarrow> ys \<noteq> [] \<and> lkStart (hd ys) = s + n"
    define p where "p = length xs"
    define pL where "pL = pLocks f ! p"
    define pP where "pP = pLocks f ! (p - 1)"
    have pL: "ys \<noteq> [] \<Longrightarrow> pL = hd ys" unfolding pL_def p_def xy(1) by (cases ys) (auto simp: nth_append)
    have pP: "xs \<noteq> [] \<Longrightarrow> pP = last xs" unfolding pP_def p_def xy(1) by (cases xs rule: rev_cases) (auto simp: nth_append)
    have wP: "xs \<noteq> [] \<Longrightarrow> wrap64 (lkStart pP + lkLen pP) = lkEnd (last xs)"
      using valid_wrap_end [OF okx, of "last xs"] pP by simp
    have e: "hb_fileSetLock f s n = (True, shared f,
        (if L then (if R then hb_fileDeleteLock p (setLock (p - 1) (lkStart pP) (wrap64 (lkLen pP + wrap64 (n + lkLen pL))) f)
           else setLock (p - 1) (lkStart pP) (wrap64 (lkLen pP + n)) f)
         else if R then setLock p (wrap64 (lkStart pL - n)) (wrap64 (lkLen pL + n)) f
         else hb_fileInsertLock p s n f))"
    proof -
      have c: "\<not> (p < length (pLocks f) \<and> (s + n \<le> 0 \<or> lkStart pL < s + n))"
        using False pL v(2) by (auto simp: xy(1) p_def)
      have r: "(p < length (pLocks f) \<and> s + n = lkStart pL) = R" using pL by (auto simp: R_def xy(1) p_def)
      have l: "(0 < p \<and> wrap64 (lkStart pP + lkLen pP) = s) = L" using wP by (auto simp: L_def p_def)
      show ?thesis
        unfolding hb_fileSetLock_def xy(2) [symmetric] p_def [symmetric] v(1) pL_def [symmetric] pP_def [symmetric] Let_def
          if_not_P [OF c] r l by (simp add: insertLock_locks(2) deleteLock_locks(2))
    qed
    define f' where "f' = snd (snd (hb_fileSetLock f s n))"
    have "fileInv f' \<and> lockedBytes f' = lockedBytes f \<union> {s..<s + n} \<and> shared f' = shared f \<and> fileMode f' = fileMode f"
    proof (cases L)
      case True
      then obtain xs' x where x: "xs = xs' @ [x]" "lkEnd x = s" unfolding L_def by (cases xs rule: rev_cases) auto
      have px: "p = Suc (length xs')" "pP = x" using x pP by (simp_all add: p_def)
      have vx: "validRange (lkStart x) (lkLen x)" "locksOk xs'" "\<And>a. a \<in> List.set xs' \<Longrightarrow> lkEnd a < lkStart x"
        using okx unfolding x(1) locksOk_append by (auto simp: locksOk_Cons)
      have xle: "lkEnd a < lkStart x" "lkEnd a < s" if "a \<in> List.set xs'" for a
        using vx(1,3) that x(2) by (force simp: validRange_def lkEnd_def)+
      show ?thesis
      proof (cases R)
        case True
        then obtain y ys' where y: "ys = y # ys'" "lkStart y = s + n" unfolding R_def by (cases ys) auto
        have vy: "validRange (lkStart y) (lkLen y)" "locksOk ys'" "\<And>b. b \<in> List.set ys' \<Longrightarrow> lkEnd y < lkStart b"
          using oky unfolding y(1) by (auto simp: locksOk_Cons)
        have w: "wrap64 (lkLen x + wrap64 (n + lkLen y)) = lkLen x + n + lkLen y"
          using vx(1) vy(1) x(2) y(2) assms(2) by (subst int64_wrap; (subst int64_wrap)?) (auto simp: validRange_def lkEnd_def)
        have py: "pL = y" using pL y by simp
        define z where "z = \<lparr>lkStart = lkStart x, lkLen = lkLen x + n + lkLen y\<rparr>"
        have f': "f' = hb_fileDeleteLock p (setLock (p - 1) (lkStart x) (lkLen x + n + lkLen y) f)"
          using e \<open>L\<close> True unfolding f'_def by (simp add: px(2) py w)
        have ls: "pLocks f' = xs' @ z # ys'"
          unfolding f' deleteLock_locks setLock_locks xy(1) x y px(1) by (simp add: z_def [symmetric])
        have z: "lkEnd z = lkEnd y" "validRange (lkStart z) (lkLen z)"
          using vx(1) vy(1) x(2) y(2) assms(2) by (auto simp: z_def lkEnd_def validRange_def)
        have "locksOk (pLocks f')"
          unfolding ls locksOk_append locksOk_Cons using vx vy z xle oxy x y by (auto simp: z_def)
        moreover have "lkSet z = lkSet x \<union> {s..<s + n} \<union> lkSet y"
          using z x(2) y(2) vx(1) vy(1) assms(2) by (auto simp: lkSet_def lkEnd_def validRange_def z_def)
        then have "lockedBytes f' = lockedBytes f \<union> {s..<s + n}" unfolding LS ls xy(1) x y by auto
        moreover have "length (pLocks f') \<le> uiSize f'"
          unfolding f' by (rule deleteLock_locks(4)) (use sz in simp)
        ultimately show ?thesis unfolding fileInv_def f' by (simp add: deleteLock_locks(2,3))
      next
        case False
        have w: "wrap64 (lkLen x + n) = lkLen x + n"
          using vx(1) x(2) assms(2) by (intro int64_wrap) (auto simp: validRange_def lkEnd_def)
        define z where "z = \<lparr>lkStart = lkStart x, lkLen = lkLen x + n\<rparr>"
        have f': "f' = setLock (p - 1) (lkStart x) (lkLen x + n) f"
          using e \<open>L\<close> False unfolding f'_def by (simp add: px(2) w)
        have ls: "pLocks f' = xs' @ z # ys"
          unfolding f' setLock_locks xy(1) x px(1) by (simp add: z_def [symmetric])
        have z: "lkEnd z = s + n" "validRange (lkStart z) (lkLen z)"
          using vx(1) x(2) assms(2) by (auto simp: z_def lkEnd_def validRange_def)
        have "s + n < lkStart b" if "b \<in> List.set ys" for b
        proof (cases ys)
          case (Cons y ys')
          then have "s + n < lkStart y" using False yge [of y] by (auto simp: R_def order_less_le)
          moreover have "lkStart y < lkEnd y" "lkEnd y < lkStart b \<or> b = y"
            using oky Cons that by (auto simp: locksOk_Cons validRange_def lkEnd_def)
          ultimately show ?thesis by auto
        qed (use that in simp)
        then have "locksOk (pLocks f')"
          unfolding ls locksOk_append locksOk_Cons using vx z xle oky oxy x by (auto simp: z_def)
        moreover have "lkSet z = lkSet x \<union> {s..<s + n}"
          using z x(2) vx(1) assms(2) by (auto simp: lkSet_def lkEnd_def validRange_def z_def)
        then have "lockedBytes f' = lockedBytes f \<union> {s..<s + n}" unfolding LS ls xy(1) x by auto
        ultimately show ?thesis using sz unfolding fileInv_def f' by simp
      qed
    next
      case nL: False
      have xlt: "lkEnd a < s" if "a \<in> List.set xs" for a
      proof (cases xs rule: rev_cases)
        case (snoc xs' x)
        then have "lkEnd x < s" using nL xy(3) [of x] by (auto simp: L_def order_less_le)
        moreover have "lkEnd a < lkStart x \<or> a = x" "lkStart x < lkEnd x"
          using okx that unfolding snoc locksOk_append by (auto simp: locksOk_Cons validRange_def lkEnd_def)
        ultimately show ?thesis by auto
      qed (use that in simp)
      show ?thesis
      proof (cases R)
        case True
        then obtain y ys' where y: "ys = y # ys'" "lkStart y = s + n" unfolding R_def by (cases ys) auto
        have vy: "validRange (lkStart y) (lkLen y)" "locksOk ys'" "\<And>b. b \<in> List.set ys' \<Longrightarrow> lkEnd y < lkStart b"
          using oky unfolding y(1) by (auto simp: locksOk_Cons)
        have w: "wrap64 (lkStart y - n) = s" "wrap64 (lkLen y + n) = lkLen y + n"
          using vy(1) y(2) assms(2) by (auto simp: validRange_def intro!: int64_wrap)
        have py: "pL = y" using pL y by simp
        define z where "z = \<lparr>lkStart = s, lkLen = lkLen y + n\<rparr>"
        have f': "f' = setLock p s (lkLen y + n) f"
          using e nL True unfolding f'_def by (simp add: py w)
        have ls: "pLocks f' = xs @ z # ys'"
          unfolding f' setLock_locks xy(1) y p_def by (simp add: z_def [symmetric])
        have z: "lkEnd z = lkEnd y" "validRange (lkStart z) (lkLen z)"
          using vy(1) y(2) assms(2) by (auto simp: z_def lkEnd_def validRange_def)
        have "locksOk (pLocks f')"
          unfolding ls locksOk_append locksOk_Cons using vy z xlt okx oxy y by (auto simp: z_def)
        moreover have "lkSet z = {s..<s + n} \<union> lkSet y"
          using z y(2) vy(1) assms(2) by (auto simp: lkSet_def lkEnd_def validRange_def z_def)
        then have "lockedBytes f' = lockedBytes f \<union> {s..<s + n}" unfolding LS ls xy(1) y by auto
        ultimately show ?thesis using sz unfolding fileInv_def f' by simp
      next
        case False
        define z where "z = \<lparr>lkStart = s, lkLen = n\<rparr>"
        have f': "f' = hb_fileInsertLock p s n f"
          using e nL False unfolding f'_def by simp
        have ls: "pLocks f' = xs @ z # ys"
          unfolding f' insertLock_locks xy(1) p_def by (simp add: z_def)
        have "s + n < lkStart b" if "b \<in> List.set ys" for b
        proof (cases ys)
          case (Cons y ys')
          then have "s + n < lkStart y" using False yge [of y] by (auto simp: R_def order_less_le)
          moreover have "lkStart y < lkEnd y" "lkEnd y < lkStart b \<or> b = y"
            using oky Cons that by (auto simp: locksOk_Cons validRange_def lkEnd_def)
          ultimately show ?thesis by auto
        qed (use that in simp)
        then have "locksOk (pLocks f')"
          unfolding ls locksOk_append locksOk_Cons using xlt okx oky oxy assms(2) by (auto simp: z_def lkEnd_def)
        moreover have "lkSet z = {s..<s + n}" by (simp add: lkSet_def lkEnd_def z_def)
        then have "lockedBytes f' = lockedBytes f \<union> {s..<s + n}" unfolding LS ls xy(1) by auto
        moreover have "length (pLocks f') \<le> uiSize f'"
          unfolding f' by (rule insertLock_locks(4)) (use sz xy(1) p_def in simp_all)
        ultimately show ?thesis unfolding fileInv_def f' by (simp add: insertLock_locks(2,3))
      qed
    qed
    then show ?thesis using dis e f'_def by simp
  qed
qed

subsection \<open>Testing and unlocking\<close>

lemma testLock_spec:
  assumes "fileInv f" "validRange s n"
  shows "hb_fileTestLock f s n \<longleftrightarrow> {s..<s + n} \<inter> lockedBytes f \<noteq> {}"
proof -
  define p where "p = hb_fileFindOffset f s"
  have e: "fst (hb_fileSetLock f s n) \<longleftrightarrow> \<not> hb_fileTestLock f s n"
    unfolding hb_fileSetLock_def hb_fileTestLock_def Let_def p_def [symmetric] by simp
  show ?thesis using setLock_spec [OF assms] e by (auto split: if_splits)
qed

lemma unlock_spec:
  assumes "fileInv f" "validRange s n"
  shows "if {s..<s + n} \<subseteq> lockedBytes f
    then \<exists>f'. hb_fileUnlock f pf s n = (True, pf \<and> shared f, f') \<and> fileInv f' \<and>
      lockedBytes f' = lockedBytes f - (if pf \<and> shared f then {} else {s..<s + n}) \<and> shared f' = shared f \<and> fileMode f' = fileMode f
    else hb_fileUnlock f pf s n = (False, False, f)"
proof -
  have ok: "locksOk (pLocks f)" and sz: "length (pLocks f) \<le> uiSize f" using assms(1) by (simp_all add: fileInv_def)
  have LS: "lockedBytes f = locksSet (pLocks f)" for f by (simp add: lockedBytes_def locksSet_def)
  obtain xs ys where xy: "pLocks f = xs @ ys" "length xs = hb_fileFindOffset f s"
    "\<And>l. l \<in> List.set xs \<Longrightarrow> lkEnd l \<le> s" "\<And>l. l \<in> List.set ys \<Longrightarrow> s < lkEnd l"
    using findOffset_split [OF ok] by metis
  have okx: "locksOk xs" and oky: "locksOk ys" and oxy: "\<And>a b. a \<in> List.set xs \<Longrightarrow> b \<in> List.set ys \<Longrightarrow> lkEnd a < lkStart b"
    using ok unfolding xy(1) locksOk_append by auto
  have n: "0 < n" "0 \<le> s" "s + n < 2 ^ 63" using assms(2) by (simp_all add: validRange_def)
  show ?thesis
  proof (cases ys)
    case Nil
    then have "s \<notin> lockedBytes f" using locksSet_low [of xs s s] xy(3) unfolding LS xy(1) by auto
    moreover have "s \<in> {s..<s + n}" using n(1) by simp
    ultimately have "\<not> {s..<s + n} \<subseteq> lockedBytes f" by blast
    moreover have "hb_fileUnlock f pf s n = (False, False, f)"
      using Nil xy(1) by (simp add: hb_fileUnlock_def Let_def xy(2) [symmetric])
    ultimately show ?thesis by simp
  next
    case (Cons y ys')
    have vy: "validRange (lkStart y) (lkLen y)" "locksOk ys'" "\<And>b. b \<in> List.set ys' \<Longrightarrow> lkEnd y < lkStart b"
      using oky unfolding Cons by (auto simp: locksOk_Cons)
    have yb: "0 \<le> lkStart y" "0 < lkLen y" "lkEnd y = lkStart y + lkLen y" "lkEnd y < 2 ^ 63" "s < lkEnd y"
      using vy(1) xy(4) [of y] Cons by (auto simp: validRange_def lkEnd_def)
    define p where "p = length xs"
    have pL: "pLocks f ! p = y" "p < length (pLocks f)" by (simp_all add: p_def xy(1) Cons)
    have outx: "x < s" if "x \<in> locksSet xs" for x using locksSet_low [of xs s x] xy(3) that by blast
    have outy: "lkEnd y < x" if "x \<in> locksSet ys'" for x
      using locksSet_high [of ys' "lkEnd y + 1" x] vy(3) that by fastforce
    have eqL: "lockedBytes f = locksSet xs \<union> lkSet y \<union> locksSet ys'" unfolding LS xy(1) Cons by auto
    have sub: "{s..<s + n} \<subseteq> lockedBytes f \<longleftrightarrow> lkStart y \<le> s \<and> s + n \<le> lkEnd y"
    proof
      assume a: "{s..<s + n} \<subseteq> lockedBytes f"
      have "s \<in> lockedBytes f" using a n(1) by auto
      then have "lkStart y \<le> s" using outx [of s] outy [of s] yb(5) by (auto simp: eqL lkSet_def)
      moreover have "s + n \<le> lkEnd y"
      proof (rule ccontr)
        assume "\<not> s + n \<le> lkEnd y"
        then have "lkEnd y \<in> lockedBytes f" using a yb(5) by auto
        then show False using outx [of "lkEnd y"] outy [of "lkEnd y"] yb(5) by (auto simp: eqL lkSet_def)
      qed
      ultimately show "lkStart y \<le> s \<and> s + n \<le> lkEnd y" by blast
    next
      assume "lkStart y \<le> s \<and> s + n \<le> lkEnd y"
      then show "{s..<s + n} \<subseteq> lockedBytes f" by (auto simp: eqL lkSet_def)
    qed
    have cond: "(p < length (pLocks f) \<and> lkStart y \<le> s \<and> n \<le> lkLen y \<and> wrap64 (s - lkStart y) \<le> wrap64 (lkLen y - n)) \<longleftrightarrow>
        {s..<s + n} \<subseteq> lockedBytes f"
    proof (cases "lkStart y \<le> s \<and> n \<le> lkLen y")
      case True
      have "wrap64 (s - lkStart y) = s - lkStart y" "wrap64 (lkLen y - n) = lkLen y - n"
        using True n yb by (intro int64_wrap; linarith)+
      then show ?thesis unfolding sub using pL(2) True yb(3) by auto
    next
      case False
      then show ?thesis unfolding sub using yb(3) by auto
    qed
    show ?thesis
    proof (cases "{s..<s + n} \<subseteq> lockedBytes f")
      case False
      then have "hb_fileUnlock f pf s n = (False, False, f)"
        unfolding hb_fileUnlock_def xy(2) [symmetric] p_def [symmetric] Let_def pL(1) cond by simp
      then show ?thesis using False by simp
    next
      case True
      then have rng: "lkStart y \<le> s" "s + n \<le> lkEnd y" using sub by simp_all
      have w: "wrap64 (lkStart y + n) = lkStart y + n" "wrap64 (lkLen y - n) = lkLen y - n" "wrap64 (s + n) = s + n"
        "wrap64 (lkStart y + lkLen y) = lkEnd y" "wrap64 (s - lkStart y) = s - lkStart y"
        "wrap64 (wrap64 (lkEnd y - s) - n) = lkEnd y - s - n"
        using rng n yb by (subst int64_wrap; (subst int64_wrap)?; linarith)+
      define f' where "f' = (if pf \<and> shared f then f
        else if s = lkStart y then
          (if n = lkLen y then hb_fileDeleteLock p f else setLock p (lkStart y + n) (lkLen y - n) f)
        else if s + n = lkEnd y then setLock p (lkStart y) (lkLen y - n) f
        else setLock p (lkStart y) (s - lkStart y) (hb_fileInsertLock (p + 1) (s + n) (lkEnd y - s - n) f))"
      have e: "hb_fileUnlock f pf s n = (True, pf \<and> shared f, f')"
      proof -
        have c: "p < length (pLocks f) \<and> lkStart y \<le> s \<and> n \<le> lkLen y \<and> s - lkStart y \<le> lkLen y - n"
          using cond True unfolding w by blast
        show ?thesis
          unfolding hb_fileUnlock_def xy(2) [symmetric] p_def [symmetric] Let_def pL(1) w f'_def if_P [OF c] by simp
      qed
      have "fileInv f' \<and> lockedBytes f' = lockedBytes f - (if pf \<and> shared f then {} else {s..<s + n}) \<and>
          shared f' = shared f \<and> fileMode f' = fileMode f"
      proof (cases "pf \<and> shared f")
        case True
        then show ?thesis using assms(1) by (simp add: f'_def)
      next
        case nf: False
        have diff: "lockedBytes f' = lockedBytes f - {s..<s + n}"
          if "pLocks f' = xs @ zs @ ys'" "locksSet zs = lkSet y - {s..<s + n}" for zs
        proof -
          have "lockedBytes f' = locksSet xs \<union> (lkSet y - {s..<s + n}) \<union> locksSet ys'"
            unfolding LS that(1) locksSet_simps that(2) by blast
          moreover have "x \<notin> {s..<s + n}" if "x \<in> locksSet xs \<union> locksSet ys'" for x
            using that outx [of x] outy [of x] rng(2) by auto
          ultimately show ?thesis unfolding eqL by blast
        qed
        have okm: "locksOk (xs @ zs @ ys')"
          if "locksOk zs" "\<And>z. z \<in> List.set zs \<Longrightarrow> lkStart y \<le> lkStart z \<and> lkEnd z \<le> lkEnd y" for zs
          unfolding locksOk_append
        proof (intro conjI ballI okx that(1) vy(2))
          fix a b assume "a \<in> List.set zs" "b \<in> List.set ys'"
          then show "lkEnd a < lkStart b" using that(2) [of a] vy(3) [of b] by linarith
        next
          fix a b assume a: "a \<in> List.set xs" "b \<in> List.set (zs @ ys')"
          have "lkEnd a < lkStart y" "lkStart y < lkEnd y" using oxy [OF a(1), of y] Cons yb by auto
          then show "lkEnd a < lkStart b" using a(2) that(2) [of b] vy(3) [of b] by auto
        qed
        show ?thesis
        proof (cases "s = lkStart y \<and> n = lkLen y")
          case True
          then have f': "f' = hb_fileDeleteLock p f" using nf unfolding f'_def if_not_P [OF nf] by simp
          have ls: "pLocks f' = xs @ [] @ ys'" unfolding f' deleteLock_locks xy(1) Cons p_def by simp
          have "locksSet [] = lkSet y - {s..<s + n}" using True by (simp add: lkSet_def lkEnd_def)
          from diff [OF ls this] okm [of "[]", folded ls] show ?thesis
            using deleteLock_locks(4) [OF sz, of p] nf unfolding fileInv_def f' by (simp add: deleteLock_locks(2,3) nf)
        next
          case n1: False
          show ?thesis
          proof (cases "s = lkStart y")
            case True
            then have f': "f' = setLock p (lkStart y + n) (lkLen y - n) f"
              using n1 unfolding f'_def if_not_P [OF nf] by simp
            define z where "z = \<lparr>lkStart = lkStart y + n, lkLen = lkLen y - n\<rparr>"
            have ls: "pLocks f' = xs @ [z] @ ys'" unfolding f' setLock_locks xy(1) Cons p_def by (simp add: z_def)
            have z: "locksOk [z]" "lkStart y \<le> lkStart z" "lkEnd z \<le> lkEnd y"
              using rng n yb True n1 by (auto simp: locksOk_Cons validRange_def z_def lkEnd_def)
            have "locksSet [z] = lkSet y - {s..<s + n}" using True yb n by (auto simp: lkSet_def lkEnd_def z_def)
            from diff [OF ls this] okm [of "[z]", folded ls] z sz nf show ?thesis unfolding fileInv_def f' by auto
          next
            case sn: False
            show ?thesis
            proof (cases "s + n = lkEnd y")
              case True
              then have f': "f' = setLock p (lkStart y) (lkLen y - n) f"
                using sn unfolding f'_def if_not_P [OF nf] by simp
              define z where "z = \<lparr>lkStart = lkStart y, lkLen = lkLen y - n\<rparr>"
              have ls: "pLocks f' = xs @ [z] @ ys'" unfolding f' setLock_locks xy(1) Cons p_def by (simp add: z_def)
              have z: "locksOk [z]" "lkStart y \<le> lkStart z" "lkEnd z \<le> lkEnd y"
                using rng n yb True sn by (auto simp: locksOk_Cons validRange_def z_def lkEnd_def)
              have "locksSet [z] = lkSet y - {s..<s + n}" using True yb n rng by (auto simp: lkSet_def lkEnd_def z_def)
              from diff [OF ls this] okm [of "[z]", folded ls] z sz nf show ?thesis unfolding fileInv_def f' by auto
            next
              case False
              then have f': "f' = setLock p (lkStart y) (s - lkStart y) (hb_fileInsertLock (p + 1) (s + n) (lkEnd y - s - n) f)"
                using sn unfolding f'_def if_not_P [OF nf] by simp
              define z where "z = \<lparr>lkStart = lkStart y, lkLen = s - lkStart y\<rparr>"
              define z' where "z' = \<lparr>lkStart = s + n, lkLen = lkEnd y - s - n\<rparr>"
              have ls: "pLocks f' = xs @ [z, z'] @ ys'"
                unfolding f' setLock_locks insertLock_locks xy(1) Cons p_def by (simp add: z_def z'_def)
              have z: "locksOk [z, z']" "lkStart y \<le> lkStart z" "lkEnd z \<le> lkEnd y" "lkStart y \<le> lkStart z'" "lkEnd z' \<le> lkEnd y"
                using rng n yb sn False by (auto simp: locksOk_Cons validRange_def z_def z'_def lkEnd_def)
              have d: "locksSet [z, z'] = lkSet y - {s..<s + n}" using yb n rng by (auto simp: lkSet_def lkEnd_def z_def z'_def)
              have "length (pLocks f') \<le> uiSize f'"
                using insertLock_locks(4) [of "p + 1" f "s + n" "lkEnd y - s - n"] sz pL(2) unfolding f' by simp
              with diff [OF ls d] okm [of "[z, z']", folded ls] z nf show ?thesis
                unfolding fileInv_def f' by (auto simp: insertLock_locks(2,3))
            qed
          qed
        qed
      qed
      then show ?thesis using True e by simp
    qed
  qed
qed

subsection \<open>Any sequence of operations\<close>

datatype lockOp = OpSet int int | OpUnlock bool int int | OpTest int int

fun lockStep :: "lockOp \<Rightarrow> HB_FILE \<Rightarrow> (bool \<times> bool) \<times> HB_FILE" where
  "lockStep (OpSet s n) f = (let (r, fs, f) = hb_fileSetLock f s n in ((r, fs), f))"
| "lockStep (OpUnlock pf s n) f = (let (r, fs, f) = hb_fileUnlock f pf s n in ((r, fs), f))"
| "lockStep (OpTest s n) f = ((hb_fileTestLock f s n, False), f)"

fun lockRun :: "lockOp list \<Rightarrow> HB_FILE \<Rightarrow> (bool \<times> bool) list \<times> HB_FILE" where
  "lockRun [] f = ([], f)"
| "lockRun (op # ops) f = (let (r, f) = lockStep op f; (rs, f) = lockRun ops f in (r # rs, f))"

text \<open>The same on the set of the locked bytes; \<open>sh\<close> says whether the file is shared.\<close>

fun setStep :: "bool \<Rightarrow> lockOp \<Rightarrow> int set \<Rightarrow> (bool \<times> bool) \<times> int set" where
  "setStep sh (OpSet s n) B =
     (if {s..<s + n} \<inter> B = {} then ((True, sh), B \<union> {s..<s + n}) else ((False, False), B))"
| "setStep sh (OpUnlock pf s n) B =
     (if {s..<s + n} \<subseteq> B then ((True, pf \<and> sh), if pf \<and> sh then B else B - {s..<s + n}) else ((False, False), B))"
| "setStep sh (OpTest s n) B = (({s..<s + n} \<inter> B \<noteq> {}, False), B)"

fun setRun :: "bool \<Rightarrow> lockOp list \<Rightarrow> int set \<Rightarrow> (bool \<times> bool) list \<times> int set" where
  "setRun sh [] B = ([], B)"
| "setRun sh (op # ops) B = (let (r, B) = setStep sh op B; (rs, B) = setRun sh ops B in (r # rs, B))"

fun opRange :: "lockOp \<Rightarrow> int \<times> int" where
  "opRange (OpSet s n) = (s, n)"
| "opRange (OpUnlock pf s n) = (s, n)"
| "opRange (OpTest s n) = (s, n)"

lemma lockStep_set:
  assumes "fileInv f" "validRange (fst (opRange op)) (snd (opRange op))"
  shows "\<exists>f'. lockStep op f = (fst (setStep (shared f) op (lockedBytes f)), f') \<and> fileInv f' \<and> shared f' = shared f \<and>
    lockedBytes f' = snd (setStep (shared f) op (lockedBytes f))"
proof (cases op)
  case (OpSet s n)
  then have v: "validRange s n" using assms(2) by simp
  show ?thesis using setLock_spec [OF assms(1) v] assms(1) OpSet by (auto split: if_splits)
next
  case (OpUnlock pf s n)
  then have v: "validRange s n" using assms(2) by simp
  show ?thesis using unlock_spec [OF assms(1) v, of pf] assms(1) OpUnlock by (auto split: if_splits)
next
  case (OpTest s n)
  then have v: "validRange s n" using assms(2) by simp
  show ?thesis using testLock_spec [OF assms(1) v] assms(1) OpTest by simp
qed

lemma lockRun_set:
  assumes "fileInv f" "\<And>op. op \<in> List.set ops \<Longrightarrow> validRange (fst (opRange op)) (snd (opRange op))"
  shows "\<exists>f'. lockRun ops f = (fst (setRun (shared f) ops (lockedBytes f)), f') \<and> fileInv f' \<and>
    lockedBytes f' = snd (setRun (shared f) ops (lockedBytes f))"
  using assms
proof (induction ops arbitrary: f)
  case (Cons op ops)
  obtain r f1 where 1: "lockStep op f = (r, f1)" "fileInv f1" "shared f1 = shared f"
    "setStep (shared f) op (lockedBytes f) = (r, lockedBytes f1)"
    using lockStep_set [OF Cons.prems(1), of op] Cons.prems(2) by (metis list.set_intros(1) prod.collapse fst_conv)
  then show ?case using Cons.IH [OF 1(2)] Cons.prems(2) by (auto simp: Let_def split: prod.split)
qed simp

subsection \<open>Properties\<close>

definition newFile :: "bool \<Rightarrow> HB_FILE" where
  "newFile sh = \<lparr>pLocks = [], uiSize = 0, shared = sh, fileMode = 2\<rparr>"

lemma newFile_inv: "fileInv (newFile sh)" "lockedBytes (newFile sh) = {}" "shared (newFile sh) = sh" "fileMode (newFile sh) = 2"
  by (simp_all add: newFile_def fileInv_def lockedBytes_def)

text \<open>C13. The locks of a file are a set of bytes. Whatever ranges are locked, unlocked and tested, in any
  order of the critical sections, every answer is that of the set of the locked bytes: a lock is granted
  exactly when no byte of it is locked, an unlock exactly when all its bytes are, and the bytes locked in the end are
  those the sets give. The array of the ranges stays sorted and joined and within its allocated memory.\<close>

theorem hb_fileLock_refines_set:
  assumes "fileInv f" "\<And>op. op \<in> List.set ops \<Longrightarrow> validRange (fst (opRange op)) (snd (opRange op))"
  shows "\<exists>f'. lockRun ops f = (fst (setRun (shared f) ops (lockedBytes f)), f') \<and>
    lockedBytes f' = snd (setRun (shared f) ops (lockedBytes f)) \<and> fileInv f' \<and> length (pLocks f') \<le> uiSize f'"
  using lockRun_set [OF assms] by (auto simp: fileInv_def)

theorem hb_fileLock_refines_set_witness:
  "\<exists>f'. lockRun [OpSet 10 5, OpSet 20 5, OpSet 15 5, OpUnlock False 12 3, OpSet 14 2] (newFile False) =
      ([(True, False), (True, False), (True, False), (True, False), (False, False)], f') \<and>
    lockedBytes f' = {10..<25} - {12..<15}"
proof -
  let ?ops = "[OpSet 10 5, OpSet 20 5, OpSet 15 5, OpUnlock False 12 3, OpSet 14 2]"
  let ?f = "newFile False"
  have "\<exists>f'. lockRun ?ops ?f = (fst (setRun (shared ?f) ?ops (lockedBytes ?f)), f') \<and>
      lockedBytes f' = snd (setRun (shared ?f) ?ops (lockedBytes ?f)) \<and> fileInv f' \<and> length (pLocks f') \<le> uiSize f'"
    by (rule hb_fileLock_refines_set [OF newFile_inv(1)]) (auto simp: validRange_def)
  moreover have "setRun False ?ops {} =
      ([(True, False), (True, False), (True, False), (True, False), (False, False)], {10..<25} - {12..<15})"
    by code_simp
  ultimately show ?thesis by (auto simp: newFile_inv)
qed

text \<open>C36. The file method. \<open>s_fileLock\<close> grants a lock exactly when no byte of the range is locked in the process
  and, for a shared file, the operating system grants it; a refused lock leaves the locked bytes as they
  were. It releases a range exactly when all of it is locked.\<close>

theorem s_fileLock_spec:
  assumes "fileInv f" "validRange s n"
  shows "let res = s_fileLock fsLock f s n iType;
      osType = (if fileMode f = FO_READ then or iType FLX_SHARED
        else if fileMode f = FO_WRITE then and iType (not FLX_SHARED) else iType)
    in if and iType FL_MASK = FL_UNLOCK
    then fst (fst res) = ({s..<s + n} \<subseteq> lockedBytes f) \<and>
      lockedBytes (snd res) = (if fst (fst res) then lockedBytes f - {s..<s + n} else lockedBytes f)
    else fst (fst res) = ({s..<s + n} \<inter> lockedBytes f = {} \<and> (\<not> shared f \<or> fsLock s n osType)) \<and>
      lockedBytes (snd res) = (if fst (fst res) then lockedBytes f \<union> {s..<s + n} else lockedBytes f)"
proof (cases "and iType FL_MASK = FL_UNLOCK")
  case True
  show ?thesis
  proof (cases "{s..<s + n} \<subseteq> lockedBytes f")
    case sub: True
    obtain f1 where 1: "hb_fileUnlock f True s n = (True, shared f, f1)"
      "lockedBytes f1 = lockedBytes f - (if shared f then {} else {s..<s + n})" "fileInv f1"
      using unlock_spec [OF assms(1,2), of True] sub by auto
    show ?thesis
    proof (cases "shared f")
      case sh: True
      then have "{s..<s + n} \<subseteq> lockedBytes f1" using 1(2) sub by simp
      then obtain f2 where "hb_fileUnlock f1 False s n = (True, False, f2)" "lockedBytes f2 = lockedBytes f1 - {s..<s + n}"
        using unlock_spec [OF 1(3) assms(2), of False] by auto
      then show ?thesis using True sub sh 1 by (simp add: Let_def s_fileLock_def)
    qed (use True sub 1 in \<open>simp add: Let_def s_fileLock_def\<close>)
  next
    case False
    then have "hb_fileUnlock f True s n = (False, False, f)" using unlock_spec [OF assms(1,2), of True] by simp
    then show ?thesis using True False by (simp add: Let_def s_fileLock_def)
  qed
next
  case lock: False
  show ?thesis
  proof (cases "{s..<s + n} \<inter> lockedBytes f = {}")
    case dis: True
    obtain f1 where 1: "hb_fileSetLock f s n = (True, shared f, f1)" "lockedBytes f1 = lockedBytes f \<union> {s..<s + n}"
      "fileInv f1" "fileMode f1 = fileMode f"
      using setLock_spec [OF assms(1,2)] dis by auto
    obtain f2 where 2: "hb_fileUnlock f1 False s n = (True, False, f2)" "lockedBytes f2 = lockedBytes f1 - {s..<s + n}"
      using unlock_spec [OF 1(3) assms(2), of False] 1(2) by auto
    have "lockedBytes f2 = lockedBytes f" using dis 1(2) 2(2) by auto
    then show ?thesis using lock dis 1 2(1) by (auto simp: Let_def s_fileLock_def)
  next
    case False
    then have "hb_fileSetLock f s n = (False, False, f)" using setLock_spec [OF assms(1,2)] by simp
    then show ?thesis using lock False by (simp add: Let_def s_fileLock_def)
  qed
qed

theorem s_fileLock_spec_witness:
  "\<not> fst (fst (s_fileLock (\<lambda>s n t. t = FLX_SHARED) (newFile True) 10 5 FL_LOCK)) \<and>
    lockedBytes (snd (s_fileLock (\<lambda>s n t. t = FLX_SHARED) (newFile True) 10 5 FL_LOCK)) = {}"
  using s_fileLock_spec [OF newFile_inv(1) [of True], of 10 5 "\<lambda>s n t. t = FLX_SHARED" FL_LOCK]
  by (simp add: Let_def newFile_inv validRange_def FL_LOCK_def FL_UNLOCK_def FL_MASK_def FLX_SHARED_def FO_READ_def
      FO_WRITE_def)

text \<open>A file with one range from the first byte on whose length wrapped.\<close>

lemma wrapped_range:
  assumes f: "pLocks f = [\<lparr>lkStart = 0, lkLen = - (2 ^ 63)\<rparr>]" and n: "0 \<le> s" "0 < n"
  shows "hb_fileSetLock f s n = (False, False, f)" "hb_fileUnlock f pf s n = (False, False, f)" "hb_fileTestLock f s n"
proof -
  have "wrap64 (- (2 ^ 63)) = - (2 ^ 63)" by (simp add: wrap64_def)
  then have pos: "hb_fileFindOffset f s = 0"
    by (simp add: hb_fileFindOffset_def fileFindOffset_loop.simps f)
  have e: "wrap64 (s + n) \<le> 0 \<or> 0 < wrap64 (s + n)" by linarith
  show "hb_fileSetLock f s n = (False, False, f)" "hb_fileTestLock f s n"
    using e unfolding hb_fileSetLock_def hb_fileTestLock_def Let_def pos f by simp_all
  show "hb_fileUnlock f pf s n = (False, False, f)"
    using n unfolding hb_fileUnlock_def Let_def pos f by simp
qed

text \<open>C37. Ranges that reach the end of the offsets. When the bytes from the first one on are locked in two
  ranges, the second up to the last offset, both locks are granted and joined, but the length of the joined
  range wraps to a negative number: from then on every lock of the file is refused, no range can be released any
  more, and every range tests as locked.\<close>

theorem hb_fileSetLock_overflow:
  assumes "0 < a" "a < 2 ^ 63"
  shows "let (rs, f) = lockRun [OpSet 0 a, OpSet a (2 ^ 63 - a)] (newFile sh) in
    rs = [(True, sh), (True, sh)] \<and>
    (\<forall>s n pf. 0 \<le> s \<longrightarrow> 0 < n \<longrightarrow> hb_fileSetLock f s n = (False, False, f) \<and>
       hb_fileUnlock f pf s n = (False, False, f) \<and> hb_fileTestLock f s n)"
proof -
  have w: "wrap64 a = a" "wrap64 (2 ^ 63) = - (2 ^ 63)" using assms by (simp_all add: wrap64_def)
  define f1 where "f1 = (newFile sh)\<lparr>uiSize := 16, pLocks := [\<lparr>lkStart = 0, lkLen = a\<rparr>]\<rparr>"
  define f where "f = f1\<lparr>pLocks := [\<lparr>lkStart = 0, lkLen = - (2 ^ 63)\<rparr>]\<rparr>"
  have sh: "shared f1 = sh" "pLocks f1 = [\<lparr>lkStart = 0, lkLen = a\<rparr>]" by (simp_all add: f1_def newFile_def)
  have 1: "hb_fileSetLock (newFile sh) 0 a = (True, sh, f1)"
    using assms w(1) by (simp add: hb_fileSetLock_def hb_fileFindOffset_def fileFindOffset_loop.simps newFile_def
        hb_fileInsertLock_def HB_FLOCK_RESIZE_def f1_def)
  have pos: "hb_fileFindOffset f1 a = 1"
    using assms w(1) by (simp add: hb_fileFindOffset_def fileFindOffset_loop.simps sh)
  have 2: "hb_fileSetLock f1 a (2 ^ 63 - a) = (True, sh, f)"
    using w unfolding hb_fileSetLock_def Let_def pos sh by (simp add: setLock_def sh f_def)
  have "pLocks f = [\<lparr>lkStart = 0, lkLen = - (2 ^ 63)\<rparr>]" by (simp add: f_def)
  then show ?thesis using 1 2 wrapped_range [of f] by (simp add: Let_def)
qed

theorem hb_fileSetLock_overflow_witness:
  "let (rs, f) = lockRun [OpSet 0 1, OpSet 1 (2 ^ 63 - 1)] (newFile False) in
    rs = [(True, False), (True, False)] \<and> (\<forall>s n pf. 0 \<le> s \<longrightarrow> 0 < n \<longrightarrow> hb_fileSetLock f s n = (False, False, f) \<and>
       hb_fileUnlock f pf s n = (False, False, f) \<and> hb_fileTestLock f s n)"
  by (rule hb_fileSetLock_overflow) simp_all

end
