(* ===== verification/HbPcode.thy ===== *)
theory HbPcode
  imports HbPrelude "HOL-Library.Word"
begin

text \<open>
  The buffer of pcode the compiler generates for a function, and the passes over it:
  \<open>include/hbpcode.h\<close> (the operation codes), \<open>include/hbcompdf.h\<close> (\<open>HB_HFUNC\<close>),
  \<open>src/compiler/hbpcode.c\<close> (the size of an instruction, the linear and the tracing walk, the
  emission of bytes) and the part of \<open>src/compiler/hbmain.c\<close> that emits jumps and fills bytes with
  \<open>HB_P_NOOP\<close>.

  \<open>pCode\<close> holds the bytes in use, so \<open>nPCodePos\<close> is its length; \<open>nPCodeSize\<close> is the size of the
  allocation. The arrays \<open>pNOOPs\<close> and \<open>pJumps\<close> are lists, their counters are the lengths. Positions
  are natural numbers; the sum of a position and a signed offset is taken modulo \<open>2 ^ 64\<close>
  (\<open>HB_SIZE\<close>). The code never reads outside the buffer for the pcode the compiler generates; the
  theorems on the passes have that as part of their hypotheses.
\<close>

type_synonym HB_BYTE = "8 word"

subsection \<open>Operation codes\<close>

definition HB_P_ENDBLOCK :: HB_BYTE where [simp]: "HB_P_ENDBLOCK = 6"
definition HB_P_ENDPROC :: HB_BYTE where [simp]: "HB_P_ENDPROC = 7"
definition HB_P_JUMPNEAR :: HB_BYTE where [simp]: "HB_P_JUMPNEAR = 25"
definition HB_P_JUMP :: HB_BYTE where [simp]: "HB_P_JUMP = 26"
definition HB_P_JUMPFAR :: HB_BYTE where [simp]: "HB_P_JUMPFAR = 27"
definition HB_P_JUMPFALSENEAR :: HB_BYTE where [simp]: "HB_P_JUMPFALSENEAR = 28"
definition HB_P_JUMPFALSE :: HB_BYTE where [simp]: "HB_P_JUMPFALSE = 29"
definition HB_P_JUMPFALSEFAR :: HB_BYTE where [simp]: "HB_P_JUMPFALSEFAR = 30"
definition HB_P_JUMPTRUENEAR :: HB_BYTE where [simp]: "HB_P_JUMPTRUENEAR = 31"
definition HB_P_JUMPTRUE :: HB_BYTE where [simp]: "HB_P_JUMPTRUE = 32"
definition HB_P_JUMPTRUEFAR :: HB_BYTE where [simp]: "HB_P_JUMPTRUEFAR = 33"
definition HB_P_LINE :: HB_BYTE where [simp]: "HB_P_LINE = 36"
definition HB_P_LOCALNAME :: HB_BYTE where [simp]: "HB_P_LOCALNAME = 37"
definition HB_P_MODULENAME :: HB_BYTE where [simp]: "HB_P_MODULENAME = 51"
definition HB_P_NOOP :: HB_BYTE where [simp]: "HB_P_NOOP = 67"
definition HB_P_POP :: HB_BYTE where [simp]: "HB_P_POP = 73"
definition HB_P_PUSHBLOCK :: HB_BYTE where [simp]: "HB_P_PUSHBLOCK = 89"
definition HB_P_PUSHBLOCKSHORT :: HB_BYTE where [simp]: "HB_P_PUSHBLOCKSHORT = 90"
definition HB_P_PUSHBYTE :: HB_BYTE where [simp]: "HB_P_PUSHBYTE = 92"
definition HB_P_PUSHINT :: HB_BYTE where [simp]: "HB_P_PUSHINT = 93"
definition HB_P_PUSHLONG :: HB_BYTE where [simp]: "HB_P_PUSHLONG = 97"
definition HB_P_PUSHNIL :: HB_BYTE where [simp]: "HB_P_PUSHNIL = 100"
definition HB_P_PUSHSTR :: HB_BYTE where [simp]: "HB_P_PUSHSTR = 105"
definition HB_P_PUSHSTRSHORT :: HB_BYTE where [simp]: "HB_P_PUSHSTRSHORT = 106"
definition HB_P_SEQBEGIN :: HB_BYTE where [simp]: "HB_P_SEQBEGIN = 113"
definition HB_P_SEQEND :: HB_BYTE where [simp]: "HB_P_SEQEND = 114"
definition HB_P_STATICNAME :: HB_BYTE where [simp]: "HB_P_STATICNAME = 118"
definition HB_P_PUSHLONGLONG :: HB_BYTE where [simp]: "HB_P_PUSHLONGLONG = 128"
definition HB_P_SWITCH :: HB_BYTE where [simp]: "HB_P_SWITCH = 133"
definition HB_P_PUSHDATE :: HB_BYTE where [simp]: "HB_P_PUSHDATE = 134"
definition HB_P_PUSHSTRHIDDEN :: HB_BYTE where [simp]: "HB_P_PUSHSTRHIDDEN = 152"
definition HB_P_PUSHBLOCKLARGE :: HB_BYTE where [simp]: "HB_P_PUSHBLOCKLARGE = 161"
definition HB_P_PUSHSTRLARGE :: HB_BYTE where [simp]: "HB_P_PUSHSTRLARGE = 162"
definition HB_P_SEQALWAYS :: HB_BYTE where [simp]: "HB_P_SEQALWAYS = 166"
definition HB_P_ALWAYSBEGIN :: HB_BYTE where [simp]: "HB_P_ALWAYSBEGIN = 167"
definition HB_P_THREADSTATICS :: HB_BYTE where [simp]: "HB_P_THREADSTATICS = 179"

definition HB_P_LAST_PCODE :: nat where [simp]: "HB_P_LAST_PCODE = 181"

subsection \<open>The compiled function\<close>

record HB_HFUNC =
  szName :: "string option"
  bError :: bool
  hasPCode :: bool
  pCode :: "HB_BYTE list"
  nPCodeSize :: nat
  pNOOPs :: "nat list"
  pJumps :: "nat list"

definition nPCodePos :: "HB_HFUNC \<Rightarrow> nat" where [simp]: "nPCodePos pFunc = length (pCode pFunc)"

definition HB_PCODE_CHUNK :: nat where "HB_PCODE_CHUNK = 100"

subsection \<open>Reading and writing the operands\<close>

definition HB_SCHAR_at :: "HB_BYTE list \<Rightarrow> nat \<Rightarrow> int" where
  "HB_SCHAR_at c p = (let u = uint (c ! p) in if u < 128 then u else u - 256)"

definition HB_PCODE_MKUSHORT :: "HB_BYTE list \<Rightarrow> nat \<Rightarrow> nat" where
  "HB_PCODE_MKUSHORT c p = unat (c ! p) + 256 * unat (c ! (p + 1))"

definition HB_PCODE_MKUINT24 :: "HB_BYTE list \<Rightarrow> nat \<Rightarrow> nat" where
  "HB_PCODE_MKUINT24 c p = unat (c ! p) + 256 * unat (c ! (p + 1)) + 65536 * unat (c ! (p + 2))"

definition HB_PCODE_MKSHORT :: "HB_BYTE list \<Rightarrow> nat \<Rightarrow> int" where
  "HB_PCODE_MKSHORT c p =
     (let u = uint (c ! p) + 256 * uint (c ! (p + 1)) in if u < 2 ^ 15 then u else u - 2 ^ 16)"

definition HB_PCODE_MKINT24 :: "HB_BYTE list \<Rightarrow> nat \<Rightarrow> int" where
  "HB_PCODE_MKINT24 c p =
     (let u = uint (c ! p) + 256 * uint (c ! (p + 1)) + 65536 * uint (c ! (p + 2))
      in if uint (c ! (p + 2)) < 128 then u else u - 2 ^ 24)"

definition HB_LOBYTE :: "int \<Rightarrow> HB_BYTE" where "HB_LOBYTE w = word_of_int w"
definition HB_HIBYTE :: "int \<Rightarrow> HB_BYTE" where "HB_HIBYTE w = word_of_int (w div 2 ^ 8)"
definition HB_ULBYTE :: "int \<Rightarrow> HB_BYTE" where "HB_ULBYTE w = word_of_int (w div 2 ^ 16)"

definition HB_PUT_LE_UINT16 :: "nat \<Rightarrow> int \<Rightarrow> HB_BYTE list \<Rightarrow> HB_BYTE list" where
  "HB_PUT_LE_UINT16 p w c = (c[p := HB_LOBYTE w])[p + 1 := HB_HIBYTE w]"

definition HB_PUT_LE_UINT24 :: "nat \<Rightarrow> int \<Rightarrow> HB_BYTE list \<Rightarrow> HB_BYTE list" where
  "HB_PUT_LE_UINT24 p w c = ((c[p := HB_LOBYTE w])[p + 1 := HB_HIBYTE w])[p + 2 := HB_ULBYTE w]"

definition HB_LIM_INT8 :: "int \<Rightarrow> bool" where "HB_LIM_INT8 l \<longleftrightarrow> - 128 \<le> l \<and> l \<le> 127"
definition HB_LIM_INT16 :: "int \<Rightarrow> bool" where "HB_LIM_INT16 l \<longleftrightarrow> - 32768 \<le> l \<and> l \<le> 32767"
definition HB_LIM_INT24 :: "int \<Rightarrow> bool" where "HB_LIM_INT24 l \<longleftrightarrow> - 8388608 \<le> l \<and> l \<le> 8388607"

definition posAdd :: "nat \<Rightarrow> int \<Rightarrow> nat" where
  "posAdd p n = nat ((int p + n) mod 2 ^ 64)"

subsection \<open>The size of an instruction\<close>

definition hb_comp_pcode_len :: "nat list" where
  "hb_comp_pcode_len =
     [
      1, 1, 1, 3, 3, 1, 1, 1, 1, 1, 1, 3, 2, 3, 1, 1, 1, 1, 1, 3,
      2, 1, 9, 1, 1, 2, 3, 4, 2, 3, 4, 2, 3, 4, 1, 1, 3, 0, 2, 2,
      2, 3, 2, 1, 2, 2, 1, 1, 3, 1, 1, 0, 3, 3, 3, 3, 3, 3, 3, 0,
      3, 3, 3, 3, 3, 1, 1, 1, 1, 1, 1, 4, 1, 1, 1, 3, 2, 3, 3, 3,
      2, 3, 3, 3, 1, 1, 3, 2, 3, 0, 0, 3, 2, 3, 3, 2, 3, 5, 3, 3,
      1, 11, 1, 3, 3, 0, 0, 3, 2, 3, 1, 3, 2, 4, 4, 1, 3, 5, 0, 1,
      1, 1, 1, 3, 3, 0, 4, 1, 9, 3, 1, 1, 1, 3, 5, 1, 1, 1, 1, 1,
      1, 1, 1, 1, 3, 1, 3, 1, 1, 3, 4, 4, 0, 5, 1, 1, 1, 1, 1, 0,
      0, 0, 0, 2, 1, 1, 4, 4, 1, 1, 1, 1, 1, 3, 3, 3, 3, 3, 1, 0,
      1]"

definition hb_p_pushstrshort_size :: "HB_HFUNC \<Rightarrow> nat \<Rightarrow> nat" where
  "hb_p_pushstrshort_size pFunc nPos = 2 + unat (pCode pFunc ! (nPos + 1))"

definition hb_p_pushstr_size :: "HB_HFUNC \<Rightarrow> nat \<Rightarrow> nat" where
  "hb_p_pushstr_size pFunc nPos = 3 + HB_PCODE_MKUSHORT (pCode pFunc) (nPos + 1)"

definition hb_p_pushstrlarge_size :: "HB_HFUNC \<Rightarrow> nat \<Rightarrow> nat" where
  "hb_p_pushstrlarge_size pFunc nPos = 4 + HB_PCODE_MKUINT24 (pCode pFunc) (nPos + 1)"

definition hb_p_pushstrhidden_size :: "HB_HFUNC \<Rightarrow> nat \<Rightarrow> nat" where
  "hb_p_pushstrhidden_size pFunc nPos = 4 + HB_PCODE_MKUSHORT (pCode pFunc) (nPos + 2)"

definition hb_p_pushblock_size :: "HB_HFUNC \<Rightarrow> nat \<Rightarrow> nat" where
  "hb_p_pushblock_size pFunc nPos = HB_PCODE_MKUSHORT (pCode pFunc) (nPos + 1)"

definition hb_p_pushblockshort_size :: "HB_HFUNC \<Rightarrow> nat \<Rightarrow> nat" where
  "hb_p_pushblockshort_size pFunc nPos = unat (pCode pFunc ! (nPos + 1))"

definition hb_p_pushblocklarge_size :: "HB_HFUNC \<Rightarrow> nat \<Rightarrow> nat" where
  "hb_p_pushblocklarge_size pFunc nPos = HB_PCODE_MKUINT24 (pCode pFunc) (nPos + 1)"

text \<open>The scan for the zero byte that ends a name; the position behind it. The scan of a name without
  its terminator, which the compiler never emits, ends at the end of the buffer.\<close>

function scanZero :: "HB_BYTE list \<Rightarrow> nat \<Rightarrow> nat" where
  "scanZero c p = (if p < length c \<and> c ! p \<noteq> 0 then scanZero c (p + 1) else p + 1)"
  by pat_completeness auto
termination
  by (relation "measure (\<lambda>(c, p). length c - p)") auto

declare scanZero.simps [simp del]

definition hb_p_localname_size :: "HB_HFUNC \<Rightarrow> nat \<Rightarrow> nat" where
  "hb_p_localname_size pFunc nPos = scanZero (pCode pFunc) (nPos + 3) - nPos"

definition hb_p_modulename_size :: "HB_HFUNC \<Rightarrow> nat \<Rightarrow> nat" where
  "hb_p_modulename_size pFunc nPos = scanZero (pCode pFunc) (nPos + 1) - nPos"

definition hb_p_staticname_size :: "HB_HFUNC \<Rightarrow> nat \<Rightarrow> nat" where
  "hb_p_staticname_size pFunc nPos = scanZero (pCode pFunc) (nPos + 4) - nPos"

definition hb_p_threadstatics_size :: "HB_HFUNC \<Rightarrow> nat \<Rightarrow> nat" where
  "hb_p_threadstatics_size pFunc nPos = 3 + 2 * HB_PCODE_MKUSHORT (pCode pFunc) (nPos + 1)"

definition s_psize_table :: "HB_BYTE \<Rightarrow> (HB_HFUNC \<Rightarrow> nat \<Rightarrow> nat) option" where
  "s_psize_table op =
     (if op = HB_P_LOCALNAME then Some hb_p_localname_size
      else if op = HB_P_MODULENAME then Some hb_p_modulename_size
      else if op = HB_P_PUSHBLOCK then Some hb_p_pushblock_size
      else if op = HB_P_PUSHBLOCKSHORT then Some hb_p_pushblockshort_size
      else if op = HB_P_PUSHSTR then Some hb_p_pushstr_size
      else if op = HB_P_PUSHSTRSHORT then Some hb_p_pushstrshort_size
      else if op = HB_P_STATICNAME then Some hb_p_staticname_size
      else if op = HB_P_PUSHSTRHIDDEN then Some hb_p_pushstrhidden_size
      else if op = HB_P_PUSHBLOCKLARGE then Some hb_p_pushblocklarge_size
      else if op = HB_P_PUSHSTRLARGE then Some hb_p_pushstrlarge_size
      else if op = HB_P_THREADSTATICS then Some hb_p_threadstatics_size
      else None)"

definition hb_compPCodeSize :: "HB_HFUNC \<Rightarrow> nat \<Rightarrow> nat" where
  "hb_compPCodeSize pFunc nOffset =
     (let opcode = pCode pFunc ! nOffset in
      if unat opcode < HB_P_LAST_PCODE then
        (let nSize = hb_comp_pcode_len ! unat opcode in
         if nSize = 0 then
           (case s_psize_table opcode of Some pCall \<Rightarrow> pCall pFunc nOffset | None \<Rightarrow> 0)
         else nSize)
      else 0)"

subsection \<open>The two walks over the buffer\<close>

text \<open>\<open>hb_errInternal\<close> ends the compiler: a walk returns \<open>Inl\<close> of its code with the operation code.
  A walk that never ends is \<open>None\<close>.\<close>

datatype hb_errInternal = HB_EI_COMPBADOPSIZE HB_BYTE | HB_EI_COMPBADOPCODE HB_BYTE

type_synonym 'c evalFunc = "HB_HFUNC \<Rightarrow> nat \<Rightarrow> 'c \<Rightarrow> HB_HFUNC \<times> 'c \<times> nat"
type_synonym 'c traceFunc = "HB_HFUNC \<Rightarrow> nat \<Rightarrow> 'c \<Rightarrow> ('c \<times> nat) option"

definition evalCall :: "(HB_BYTE \<Rightarrow> 'c evalFunc option) \<Rightarrow> 'c evalFunc" where
  "evalCall pFunctions pFunc nPos cargo =
     (case pFunctions (pCode pFunc ! nPos) of
        Some pCall \<Rightarrow> pCall pFunc nPos cargo | None \<Rightarrow> (pFunc, cargo, 0))"

partial_function (option) hb_compPCodeEval ::
    "(HB_BYTE \<Rightarrow> 'c evalFunc option) \<Rightarrow> HB_HFUNC \<Rightarrow> 'c \<Rightarrow> nat
     \<Rightarrow> (hb_errInternal + HB_HFUNC \<times> 'c) option" where
  "hb_compPCodeEval pFunctions pFunc cargo nPos =
     (if nPos < nPCodePos pFunc then
        (let opcode = pCode pFunc ! nPos in
         if unat opcode < HB_P_LAST_PCODE then
           (let r = evalCall pFunctions pFunc nPos cargo;
                pFunc' = fst r; cargo' = fst (snd r); nSkip = snd (snd r);
                nSkip' = (if nSkip = 0 then
                            (if hb_comp_pcode_len ! unat opcode = 0 then
                               (case s_psize_table opcode of Some pCall \<Rightarrow> pCall pFunc' nPos | None \<Rightarrow> 0)
                             else hb_comp_pcode_len ! unat opcode)
                          else nSkip)
            in if nSkip' = 0 then Some (Inl (HB_EI_COMPBADOPSIZE opcode))
               else hb_compPCodeEval pFunctions pFunc' cargo' (nPos + nSkip'))
         else Some (Inl (HB_EI_COMPBADOPCODE opcode)))
      else Some (Inr (pFunc, cargo)))"

partial_function (option) hb_compPCodeTrace ::
    "(HB_BYTE \<Rightarrow> 'c traceFunc option) \<Rightarrow> HB_HFUNC \<Rightarrow> 'c \<Rightarrow> nat \<Rightarrow> (hb_errInternal + 'c) option" where
  "hb_compPCodeTrace pFunctions pFunc cargo nPos =
     (if nPos < nPCodePos pFunc then
        (let opcode = pCode pFunc ! nPos in
         if unat opcode < HB_P_LAST_PCODE then
           (case pFunctions opcode of
              Some pCall \<Rightarrow>
                (case pCall pFunc nPos cargo of
                   Some r \<Rightarrow> hb_compPCodeTrace pFunctions pFunc (fst r) (snd r)
                 | None \<Rightarrow> None)
            | None \<Rightarrow> hb_compPCodeTrace pFunctions pFunc cargo (nPos + hb_comp_pcode_len ! unat opcode))
         else Some (Inl (HB_EI_COMPBADOPCODE opcode)))
      else Some (Inr cargo))"

subsection \<open>Emission of bytes\<close>

definition pcodeReserve :: "nat \<Rightarrow> HB_HFUNC \<Rightarrow> HB_HFUNC" where
  "pcodeReserve k pFunc =
     (if \<not> hasPCode pFunc then pFunc\<lparr>hasPCode := True, nPCodeSize := HB_PCODE_CHUNK, pCode := []\<rparr>
      else if nPCodeSize pFunc - nPCodePos pFunc < k then pFunc\<lparr>nPCodeSize := nPCodeSize pFunc + HB_PCODE_CHUNK\<rparr>
      else pFunc)"

definition pcodeAppend :: "HB_BYTE list \<Rightarrow> HB_HFUNC \<Rightarrow> HB_HFUNC" where
  "pcodeAppend bs pFunc = pFunc\<lparr>pCode := pCode pFunc @ bs\<rparr>"

definition hb_compGenPCode1 :: "HB_BYTE \<Rightarrow> HB_HFUNC \<Rightarrow> HB_HFUNC" where
  "hb_compGenPCode1 b pFunc = pcodeAppend [b] (pcodeReserve 1 pFunc)"

definition hb_compGenPCode2 :: "HB_BYTE \<Rightarrow> HB_BYTE \<Rightarrow> HB_HFUNC \<Rightarrow> HB_HFUNC" where
  "hb_compGenPCode2 b1 b2 pFunc = pcodeAppend [b1, b2] (pcodeReserve 2 pFunc)"

definition hb_compGenPCode3 :: "HB_BYTE \<Rightarrow> HB_BYTE \<Rightarrow> HB_BYTE \<Rightarrow> HB_HFUNC \<Rightarrow> HB_HFUNC" where
  "hb_compGenPCode3 b1 b2 b3 pFunc = pcodeAppend [b1, b2, b3] (pcodeReserve 3 pFunc)"

definition hb_compGenPCode4 :: "HB_BYTE \<Rightarrow> HB_BYTE \<Rightarrow> HB_BYTE \<Rightarrow> HB_BYTE \<Rightarrow> HB_HFUNC \<Rightarrow> HB_HFUNC" where
  "hb_compGenPCode4 b1 b2 b3 b4 pFunc = pcodeAppend [b1, b2, b3, b4] (pcodeReserve 4 pFunc)"

definition hb_compGenPCodeN :: "HB_BYTE list \<Rightarrow> HB_HFUNC \<Rightarrow> HB_HFUNC" where
  "hb_compGenPCodeN pBuffer pFunc =
     (let nSize = length pBuffer;
          nGrow = (nSize div HB_PCODE_CHUNK + 1) * HB_PCODE_CHUNK;
          pFunc = (if \<not> hasPCode pFunc then pFunc\<lparr>hasPCode := True, nPCodeSize := nGrow, pCode := []\<rparr>
                   else if nPCodeSize pFunc < nPCodePos pFunc + nSize
                   then pFunc\<lparr>nPCodeSize := nPCodeSize pFunc + nGrow\<rparr> else pFunc)
      in pcodeAppend pBuffer pFunc)"

end
