(* ===== verification/HbJump.thy ===== *)
theory HbJump
  imports HbPcode
begin

text \<open>
  The jumps of the pcode, \<open>src/compiler/hbmain.c\<close>: their emission and patching, the filling of bytes
  with \<open>HB_P_NOOP\<close>, and the parts of \<open>hb_compOptimizeJumps\<close>: the scan that shortens jumps and drops
  the ones over nothing (\<open>optJumps_shorten\<close>), and the removal of the \<open>HB_P_NOOP\<close> bytes
  (\<open>optJumps_compact\<close>), which first counts for every jump how much it shrinks and how far it moves
  (\<open>optJumps_scan\<close>), then writes the new offsets (\<open>optJumps_adjust\<close>) and then moves the bytes together
  (\<open>optJumps_copy\<close>). A fatal error of the compiler is an entry of \<open>compErrors\<close>.
\<close>

subsection \<open>Errors of the compiler\<close>

datatype HB_COMP_ERR = HB_COMP_ERR_JUMP_TOO_LONG | HB_COMP_ERR_JUMP_NOT_FOUND

record HB_COMP =
  pLast :: HB_HFUNC
  compErrors :: "(char \<times> HB_COMP_ERR) list"
  fError :: bool
  fExit :: bool

definition hb_compGenError :: "char \<Rightarrow> HB_COMP_ERR \<Rightarrow> HB_COMP \<Rightarrow> HB_COMP" where
  "hb_compGenError cPrefix iError c =
     (if \<not> fExit c \<and> (cPrefix = CHR ''F'' \<or> \<not> fError c) then
        c\<lparr>compErrors := compErrors c @ [(cPrefix, iError)], fError := True,
          pLast := (pLast c)\<lparr>bError := True\<rparr>,
          fExit := (cPrefix = CHR ''F'' \<or> fExit c)\<rparr>
      else c)"

subsection \<open>Bytes without operation\<close>

definition hb_compNOOPadd :: "HB_HFUNC \<Rightarrow> nat \<Rightarrow> HB_HFUNC" where
  "hb_compNOOPadd pFunc nPos =
     pFunc\<lparr>pCode := (pCode pFunc)[nPos := HB_P_NOOP], pNOOPs := pNOOPs pFunc @ [nPos]\<rparr>"

fun hb_compNOOPfill :: "HB_HFUNC \<Rightarrow> nat \<Rightarrow> nat \<Rightarrow> bool \<Rightarrow> bool \<Rightarrow> HB_HFUNC" where
  "hb_compNOOPfill pFunc nFrom 0 fPop fCheck = pFunc"
| "hb_compNOOPfill pFunc nFrom (Suc nCount) fPop fCheck =
     (if fPop then
        hb_compNOOPfill (pFunc\<lparr>pCode := (pCode pFunc)[nFrom := HB_P_POP]\<rparr>) (nFrom + 1) nCount False fCheck
      else if fCheck \<and> pCode pFunc ! nFrom = HB_P_NOOP \<and> pNOOPs pFunc \<noteq> [] then
        hb_compNOOPfill (if nFrom \<in> set (pNOOPs pFunc) then pFunc else hb_compNOOPadd pFunc nFrom)
          (nFrom + 1) nCount False fCheck
      else hb_compNOOPfill (hb_compNOOPadd pFunc nFrom) (nFrom + 1) nCount False fCheck)"

subsection \<open>Emission and patching of jumps\<close>

definition hb_compPrepareJumps :: "HB_HFUNC \<Rightarrow> HB_HFUNC" where
  "hb_compPrepareJumps pFunc = pFunc\<lparr>pJumps := pJumps pFunc @ [nPCodePos pFunc - 4]\<rparr>"

definition genJump :: "HB_BYTE \<Rightarrow> int \<Rightarrow> HB_COMP \<Rightarrow> nat \<times> HB_COMP" where
  "genJump opcode nOffset c =
     (let c = (if HB_LIM_INT24 nOffset then c
               else hb_compGenError (CHR ''F'') HB_COMP_ERR_JUMP_TOO_LONG c);
          pFunc = hb_compPrepareJumps
                    (hb_compGenPCode4 opcode (HB_LOBYTE nOffset) (HB_HIBYTE nOffset) (HB_ULBYTE nOffset)
                       (pLast c))
      in (nPCodePos pFunc - 3, c\<lparr>pLast := pFunc\<rparr>))"

definition hb_compGenJump :: "int \<Rightarrow> HB_COMP \<Rightarrow> nat \<times> HB_COMP" where
  "hb_compGenJump nOffset c = genJump HB_P_JUMPFAR nOffset c"

definition hb_compGenJumpFalse :: "int \<Rightarrow> HB_COMP \<Rightarrow> nat \<times> HB_COMP" where
  "hb_compGenJumpFalse nOffset c = genJump HB_P_JUMPFALSEFAR nOffset c"

definition hb_compGenJumpTrue :: "int \<Rightarrow> HB_COMP \<Rightarrow> nat \<times> HB_COMP" where
  "hb_compGenJumpTrue nOffset c = genJump HB_P_JUMPTRUEFAR nOffset c"

definition hb_compGenJumpThere :: "nat \<Rightarrow> nat \<Rightarrow> HB_COMP \<Rightarrow> HB_COMP" where
  "hb_compGenJumpThere nFrom nTo c =
     (let nOffset = int nTo - int nFrom + 1 in
      if HB_LIM_INT24 nOffset then
        c\<lparr>pLast := (pLast c)\<lparr>pCode := HB_PUT_LE_UINT24 nFrom nOffset (pCode (pLast c))\<rparr>\<rparr>
      else hb_compGenError (CHR ''F'') HB_COMP_ERR_JUMP_TOO_LONG c)"

definition hb_compGenJumpHere :: "nat \<Rightarrow> HB_COMP \<Rightarrow> HB_COMP" where
  "hb_compGenJumpHere nOffset c = hb_compGenJumpThere nOffset (nPCodePos (pLast c)) c"

definition hb_compHasJump :: "HB_HFUNC \<Rightarrow> nat \<Rightarrow> bool" where
  "hb_compHasJump pFunc nPos \<longleftrightarrow>
     list_ex (\<lambda>nJumpAddr.
       let op = pCode pFunc ! nJumpAddr in
       (if op = HB_P_JUMPNEAR \<or> op = HB_P_JUMPFALSENEAR \<or> op = HB_P_JUMPTRUENEAR
        then posAdd nJumpAddr (HB_SCHAR_at (pCode pFunc) (nJumpAddr + 1))
        else if op = HB_P_JUMP \<or> op = HB_P_JUMPFALSE \<or> op = HB_P_JUMPTRUE
        then posAdd nJumpAddr (HB_PCODE_MKSHORT (pCode pFunc) (nJumpAddr + 1))
        else if op = HB_P_NOOP \<or> op = HB_P_POP then nPos + 1
        else posAdd nJumpAddr (HB_PCODE_MKINT24 (pCode pFunc) (nJumpAddr + 1))) = nPos)
     (pJumps pFunc)"

subsection \<open>Shortening of jumps\<close>

text \<open>The cases of the scan for the two byte, three byte and four byte jumps; \<open>fPop\<close> is set for the
  conditional ones, \<open>opNear\<close> and \<open>opShort\<close> are the shorter operation codes of the same jump.\<close>

definition shortenNear :: "bool \<Rightarrow> nat \<Rightarrow> HB_HFUNC \<Rightarrow> HB_HFUNC" where
  "shortenNear fPop nJumpAddr pFunc =
     (if HB_SCHAR_at (pCode pFunc) (nJumpAddr + 1) = 2
      then hb_compNOOPfill pFunc nJumpAddr 2 fPop False else pFunc)"

definition shortenShort :: "HB_BYTE \<Rightarrow> bool \<Rightarrow> nat \<Rightarrow> HB_HFUNC \<Rightarrow> HB_HFUNC" where
  "shortenShort opNear fPop nJumpAddr pFunc =
     (let nOffset = HB_PCODE_MKSHORT (pCode pFunc) (nJumpAddr + 1) in
      if nOffset = 3 then hb_compNOOPfill pFunc nJumpAddr 3 fPop False
      else if HB_LIM_INT8 nOffset then
        hb_compNOOPfill (pFunc\<lparr>pCode := (pCode pFunc)[nJumpAddr := opNear]\<rparr>) (nJumpAddr + 2) 1 False False
      else pFunc)"

definition shortenFar :: "nat \<Rightarrow> HB_BYTE \<Rightarrow> HB_BYTE \<Rightarrow> bool \<Rightarrow> nat \<Rightarrow> HB_HFUNC \<Rightarrow> HB_HFUNC" where
  "shortenFar iPass opNear opShort fPop nJumpAddr pFunc =
     (let nOffset = HB_PCODE_MKINT24 (pCode pFunc) (nJumpAddr + 1) in
      if nOffset = 4 then hb_compNOOPfill pFunc nJumpAddr 4 fPop False
      else if 0 < iPass \<and> HB_LIM_INT16 nOffset then
        (if HB_LIM_INT8 nOffset then
           hb_compNOOPfill (pFunc\<lparr>pCode := (pCode pFunc)[nJumpAddr := opNear]\<rparr>) (nJumpAddr + 2) 2 False False
         else
           hb_compNOOPfill (pFunc\<lparr>pCode := (pCode pFunc)[nJumpAddr := opShort]\<rparr>) (nJumpAddr + 3) 1 False False)
      else pFunc)"

definition optJumps_shorten1 :: "nat \<Rightarrow> nat \<Rightarrow> HB_HFUNC \<Rightarrow> HB_HFUNC" where
  "optJumps_shorten1 iPass nJumpAddr pFunc =
     (let op = pCode pFunc ! nJumpAddr in
      if op = HB_P_JUMPNEAR then shortenNear False nJumpAddr pFunc
      else if op = HB_P_JUMPFALSENEAR \<or> op = HB_P_JUMPTRUENEAR then shortenNear True nJumpAddr pFunc
      else if op = HB_P_JUMP then shortenShort HB_P_JUMPNEAR False nJumpAddr pFunc
      else if op = HB_P_JUMPFALSE then shortenShort HB_P_JUMPFALSENEAR True nJumpAddr pFunc
      else if op = HB_P_JUMPTRUE then shortenShort HB_P_JUMPTRUENEAR True nJumpAddr pFunc
      else if op = HB_P_JUMPFAR then shortenFar iPass HB_P_JUMPNEAR HB_P_JUMP False nJumpAddr pFunc
      else if op = HB_P_JUMPFALSEFAR then shortenFar iPass HB_P_JUMPFALSENEAR HB_P_JUMPFALSE True nJumpAddr pFunc
      else if op = HB_P_JUMPTRUEFAR then shortenFar iPass HB_P_JUMPTRUENEAR HB_P_JUMPTRUE True nJumpAddr pFunc
      else pFunc)"

text \<open>The loop runs over the array of jumps from its end and removes the jumps that are gone.\<close>

fun optJumps_shorten :: "nat \<Rightarrow> nat \<Rightarrow> HB_HFUNC \<Rightarrow> HB_HFUNC" where
  "optJumps_shorten iPass 0 pFunc = pFunc"
| "optJumps_shorten iPass (Suc nJump) pFunc =
     (let nJumpAddr = pJumps pFunc ! nJump;
          pFunc = optJumps_shorten1 iPass nJumpAddr pFunc
      in optJumps_shorten iPass nJump
           (if pCode pFunc ! nJumpAddr = HB_P_NOOP \<or> pCode pFunc ! nJumpAddr = HB_P_POP
            then pFunc\<lparr>pJumps := take nJump (pJumps pFunc) @ drop (nJump + 1) (pJumps pFunc)\<rparr>
            else pFunc))"

subsection \<open>Removal of the bytes without operation\<close>

definition jumpOffset :: "HB_BYTE list \<Rightarrow> nat \<Rightarrow> int option" where
  "jumpOffset code nJumpAddr =
     (let op = code ! nJumpAddr in
      if op = HB_P_JUMPNEAR \<or> op = HB_P_JUMPFALSENEAR \<or> op = HB_P_JUMPTRUENEAR
      then Some (HB_SCHAR_at code (nJumpAddr + 1))
      else if op = HB_P_JUMP \<or> op = HB_P_JUMPFALSE \<or> op = HB_P_JUMPTRUE
      then Some (HB_PCODE_MKSHORT code (nJumpAddr + 1))
      else if op = HB_P_JUMPFAR \<or> op = HB_P_JUMPTRUEFAR \<or> op = HB_P_JUMPFALSEFAR \<or> op = HB_P_ALWAYSBEGIN
              \<or> op = HB_P_SEQALWAYS \<or> op = HB_P_SEQBEGIN \<or> op = HB_P_SEQEND
      then Some (HB_PCODE_MKINT24 code (nJumpAddr + 1))
      else None)"

type_synonym scanState = "int list \<times> int list \<times> HB_COMP"

definition optJumps_scan1 :: "nat \<Rightarrow> nat \<Rightarrow> scanState \<Rightarrow> scanState" where
  "optJumps_scan1 nNOOPpos nJump st =
     (case st of (plSizes, plShifts, c) \<Rightarrow>
        let nJumpAddr = pJumps (pLast c) ! nJump in
        (case jumpOffset (pCode (pLast c)) nJumpAddr of
           None \<Rightarrow> (plSizes, plShifts, hb_compGenError (CHR ''F'') HB_COMP_ERR_JUMP_NOT_FOUND c)
         | Some nOffset \<Rightarrow>
             (if 0 < nOffset then
                (if nJumpAddr < nNOOPpos \<and> nNOOPpos < posAdd nJumpAddr nOffset
                 then plSizes[nJump := plSizes ! nJump - 1] else plSizes)
              else
                (if nNOOPpos < nJumpAddr \<and> posAdd nJumpAddr nOffset \<le> nNOOPpos
                 then plSizes[nJump := plSizes ! nJump + 1] else plSizes),
              if nNOOPpos < nJumpAddr then plShifts[nJump := plShifts ! nJump + 1] else plShifts,
              c)))"

definition optJumps_scan :: "HB_COMP \<Rightarrow> scanState" where
  "optJumps_scan c =
     (let nJumps = length (pJumps (pLast c)) in
      fold (\<lambda>nNOOPpos. fold (optJumps_scan1 nNOOPpos) [0..<nJumps]) (pNOOPs (pLast c))
        (replicate nJumps 0, replicate nJumps 0, c))"

definition optJumps_write :: "nat \<Rightarrow> int \<Rightarrow> HB_BYTE list \<Rightarrow> HB_BYTE list" where
  "optJumps_write nJumpAddr nOffset code =
     (let op = code ! nJumpAddr in
      if op = HB_P_JUMPNEAR \<or> op = HB_P_JUMPFALSENEAR \<or> op = HB_P_JUMPTRUENEAR
      then code[nJumpAddr + 1 := HB_LOBYTE (nOffset + HB_SCHAR_at code (nJumpAddr + 1))]
      else if op = HB_P_JUMP \<or> op = HB_P_JUMPFALSE \<or> op = HB_P_JUMPTRUE
      then HB_PUT_LE_UINT16 (nJumpAddr + 1) (nOffset + HB_PCODE_MKSHORT code (nJumpAddr + 1)) code
      else HB_PUT_LE_UINT24 (nJumpAddr + 1) (nOffset + HB_PCODE_MKINT24 code (nJumpAddr + 1)) code)"

definition optJumps_adjust1 :: "int list \<Rightarrow> int list \<Rightarrow> nat \<Rightarrow> HB_HFUNC \<Rightarrow> HB_HFUNC" where
  "optJumps_adjust1 plSizes plShifts nJump pFunc =
     (let nJumpAddr = pJumps pFunc ! nJump;
          pFunc = (if plSizes ! nJump \<noteq> 0
                   then pFunc\<lparr>pCode := optJumps_write nJumpAddr (plSizes ! nJump) (pCode pFunc)\<rparr> else pFunc)
      in pFunc\<lparr>pJumps := (pJumps pFunc)[nJump := nat ((int nJumpAddr - plShifts ! nJump) mod 2 ^ 64)]\<rparr>)"

definition optJumps_adjust :: "int list \<Rightarrow> int list \<Rightarrow> HB_HFUNC \<Rightarrow> HB_HFUNC" where
  "optJumps_adjust plSizes plShifts pFunc =
     fold (optJumps_adjust1 plSizes plShifts) [0..<length (pJumps pFunc)] pFunc"

text \<open>The second scan: the bytes between the removed ones are moved down, so what is left is their
  concatenation. A position that is not behind the one before it makes the number of bytes to copy
  wrap, and the copy leaves the buffer: \<open>None\<close>.\<close>

fun optJumps_copy :: "HB_BYTE list \<Rightarrow> nat \<Rightarrow> nat list \<Rightarrow> HB_BYTE list option" where
  "optJumps_copy code nNextByte [] = Some (drop nNextByte code)"
| "optJumps_copy code nNextByte (nNOOPpos # rest) =
     (if nNOOPpos < nNextByte then None
      else map_option (\<lambda>tl. take (nNOOPpos - nNextByte) (drop nNextByte code) @ tl)
             (optJumps_copy code (nNOOPpos + 1) rest))"

definition optJumps_compact :: "HB_COMP \<Rightarrow> HB_COMP option" where
  "optJumps_compact c =
     (let c = c\<lparr>pLast := (pLast c)\<lparr>pNOOPs := sort (pNOOPs (pLast c))\<rparr>\<rparr>;
          c = (if pJumps (pLast c) \<noteq> [] then
                 (case optJumps_scan c of (plSizes, plShifts, c) \<Rightarrow>
                    c\<lparr>pLast := optJumps_adjust plSizes plShifts (pLast c)\<rparr>)
               else c)
      in map_option
           (\<lambda>code. c\<lparr>pLast := (pLast c)\<lparr>pCode := code, nPCodeSize := length code, pNOOPs := []\<rparr>\<rparr>)
           (optJumps_copy (pCode (pLast c)) 0 (pNOOPs (pLast c))))"

text \<open>The two halves of a pass of \<open>hb_compOptimizeJumps\<close> on a function that has jumps.\<close>

definition optJumps_pass :: "nat \<Rightarrow> HB_COMP \<Rightarrow> HB_COMP option" where
  "optJumps_pass iPass c =
     (let pFunc = pLast c;
          c = c\<lparr>pLast := optJumps_shorten iPass (length (pJumps pFunc)) pFunc\<rparr>
      in if pNOOPs (pLast c) = [] then Some c else optJumps_compact c)"

end
