(* ===== verification/HbJumpCorrect.thy ===== *)
theory HbJumpCorrect
  imports HbJump
begin

text \<open>
  The removal of \<open>HB_P_NOOP\<close> bytes keeps every other byte, in order, and every jump leads to the new
  position of the byte it led to.
\<close>

subsection \<open>Operands\<close>

lemma uint_byte: "0 \<le> uint (b :: HB_BYTE)" "uint (b :: HB_BYTE) < 256"
  using uint_lt2p [of b] by simp_all

lemma uint_word_of_int8: "uint (word_of_int w :: HB_BYTE) = w mod 256"
  by (simp add: uint_word_of_int)

lemma bytes16: "(w::int) mod 256 + 256 * (w div 256 mod 256) = w mod 65536"
  using zmod_zmult2_eq [of 256 w 256] by simp

lemma bytes24: "(w::int) mod 256 + 256 * (w div 256 mod 256) + 65536 * (w div 65536 mod 256) = w mod 16777216"
  unfolding bytes16 using zmod_zmult2_eq [of 256 w 65536] by simp

lemma signed_mod8: "- 128 \<le> (w::int) \<Longrightarrow> w \<le> 127 \<Longrightarrow>
    (w mod 256 < 128 \<longrightarrow> w mod 256 = w) \<and> (\<not> w mod 256 < 128 \<longrightarrow> w mod 256 - 256 = w)"
  by presburger

lemma signed_mod_neg: "0 < m \<Longrightarrow> - m \<le> (w::int) \<Longrightarrow> w < 0 \<Longrightarrow> w mod m = w + m"
  using mod_pos_pos_trivial [of "w + m" m] by simp

lemma signed_mod16: "- 32768 \<le> (w::int) \<Longrightarrow> w \<le> 32767 \<Longrightarrow>
    (w mod 65536 < 32768 \<longrightarrow> w mod 65536 = w) \<and> (\<not> w mod 65536 < 32768 \<longrightarrow> w mod 65536 - 65536 = w)"
  using signed_mod_neg [of 65536 w] mod_pos_pos_trivial [of w 65536] by (cases "0 \<le> w") auto

lemma signed_mod24: "- 8388608 \<le> (w::int) \<Longrightarrow> w \<le> 8388607 \<Longrightarrow>
    (w mod 16777216 < 8388608 \<longrightarrow> w mod 16777216 = w)
    \<and> (\<not> w mod 16777216 < 8388608 \<longrightarrow> w mod 16777216 - 16777216 = w)"
  using signed_mod_neg [of 16777216 w] mod_pos_pos_trivial [of w 16777216] by (cases "0 \<le> w") auto

lemma HB_SCHAR_at_bounds: "- 128 \<le> HB_SCHAR_at c p" "HB_SCHAR_at c p \<le> 127"
  unfolding HB_SCHAR_at_def Let_def using uint_byte [of "c ! p"] by (auto simp only: split: if_splits)

lemma HB_SCHAR_at_put:
  "p < length c \<Longrightarrow> HB_LIM_INT8 w \<Longrightarrow> HB_SCHAR_at (c[p := HB_LOBYTE w]) p = w"
  using signed_mod8 [of w]
  by (simp add: HB_SCHAR_at_def HB_LOBYTE_def HB_LIM_INT8_def uint_word_of_int8 Let_def)

lemma HB_PCODE_MKSHORT_put:
  "p + 1 < length c \<Longrightarrow> HB_LIM_INT16 w \<Longrightarrow> HB_PCODE_MKSHORT (HB_PUT_LE_UINT16 p w c) p = w"
  using signed_mod16 [of w] bytes16 [of w]
  by (simp add: HB_PCODE_MKSHORT_def HB_PUT_LE_UINT16_def HB_LOBYTE_def HB_HIBYTE_def HB_LIM_INT16_def
      uint_word_of_int8 Let_def)

lemma top_byte: "((w::int) div 65536 mod 256 < 128) = (w mod 16777216 < 8388608)"
proof -
  have "w mod 16777216 = 65536 * (w div 65536 mod 256) + w mod 65536"
    using zmod_zmult2_eq [of 256 w 65536] by simp
  moreover have "0 \<le> w mod 65536" "w mod 65536 < 65536" by simp_all
  ultimately show ?thesis by linarith
qed

lemma HB_PCODE_MKINT24_put:
  "p + 2 < length c \<Longrightarrow> HB_LIM_INT24 w \<Longrightarrow> HB_PCODE_MKINT24 (HB_PUT_LE_UINT24 p w c) p = w"
  using signed_mod24 [of w] bytes24 [of w] top_byte [of w]
  by (simp add: HB_PCODE_MKINT24_def HB_PUT_LE_UINT24_def HB_LOBYTE_def HB_HIBYTE_def HB_ULBYTE_def
      HB_LIM_INT24_def uint_word_of_int8 Let_def)

text \<open>A small offset is the signed first byte of a larger operand.\<close>

lemma signed8_of_16:
  fixes x y :: int
  assumes "0 \<le> x" "x < 256" "0 \<le> y" "y < 256"
    and "- 128 \<le> (if x + 256 * y < 2 ^ 15 then x + 256 * y else x + 256 * y - 2 ^ 16)"
    and "(if x + 256 * y < 2 ^ 15 then x + 256 * y else x + 256 * y - 2 ^ 16) \<le> 127"
  shows "(if x < 128 then x else x - 256) = (if x + 256 * y < 2 ^ 15 then x + 256 * y else x + 256 * y - 2 ^ 16)"
  using assms by (auto split: if_splits)

lemma signed16_of_24:
  fixes x y z :: int
  assumes "0 \<le> x" "x < 256" "0 \<le> y" "y < 256" "0 \<le> z" "z < 256"
    and "- 32768 \<le> (if z < 128 then x + 256 * y + 65536 * z else x + 256 * y + 65536 * z - 2 ^ 24)"
    and "(if z < 128 then x + 256 * y + 65536 * z else x + 256 * y + 65536 * z - 2 ^ 24) \<le> 32767"
  shows "(if x + 256 * y < 2 ^ 15 then x + 256 * y else x + 256 * y - 2 ^ 16)
    = (if z < 128 then x + 256 * y + 65536 * z else x + 256 * y + 65536 * z - 2 ^ 24)"
  using assms by (auto split: if_splits)

lemma MKSHORT_near: "HB_LIM_INT8 (HB_PCODE_MKSHORT c p) \<Longrightarrow> HB_SCHAR_at c p = HB_PCODE_MKSHORT c p"
  unfolding HB_PCODE_MKSHORT_def HB_SCHAR_at_def HB_LIM_INT8_def Let_def
  by (intro signed8_of_16 uint_byte) blast+

lemma MKINT24_short: "HB_LIM_INT16 (HB_PCODE_MKINT24 c p) \<Longrightarrow> HB_PCODE_MKSHORT c p = HB_PCODE_MKINT24 c p"
  unfolding HB_PCODE_MKSHORT_def HB_PCODE_MKINT24_def HB_LIM_INT16_def Let_def
  by (intro signed16_of_24 uint_byte) blast+

lemma MKINT24_bounds: "HB_LIM_INT24 (HB_PCODE_MKINT24 c p)"
proof -
  have "0 \<le> x \<Longrightarrow> x < 256 \<Longrightarrow> 0 \<le> y \<Longrightarrow> y < 256 \<Longrightarrow> 0 \<le> z \<Longrightarrow> z < 256 \<Longrightarrow>
      HB_LIM_INT24 (if z < 128 then x + 256 * y + 65536 * z else x + 256 * y + 65536 * z - 2 ^ 24)" for x y z :: int
    by (auto simp: HB_LIM_INT24_def)
  then show ?thesis
    unfolding HB_PCODE_MKINT24_def Let_def by (simp only: uint_byte)
qed

lemma MKSHORT_bounds: "HB_LIM_INT16 (HB_PCODE_MKSHORT c p)"
proof -
  have "0 \<le> x \<Longrightarrow> x < 256 \<Longrightarrow> 0 \<le> y \<Longrightarrow> y < 256 \<Longrightarrow>
      HB_LIM_INT16 (if x + 256 * y < 2 ^ 15 then x + 256 * y else x + 256 * y - 2 ^ 16)" for x y :: int
    by (auto simp: HB_LIM_INT16_def)
  then show ?thesis
    unfolding HB_PCODE_MKSHORT_def Let_def by (simp only: uint_byte)
qed

subsection \<open>The new position of a byte\<close>

definition optPos :: "nat list \<Rightarrow> nat \<Rightarrow> nat" where
  "optPos noops p = p - length (filter (\<lambda>n. n < p) noops)"

lemma count_below: "distinct N \<Longrightarrow> length (filter (\<lambda>n. n < p) N) = card {n \<in> set N. n < p}"
  by (simp add: distinct_length_filter Int_def conj_commute)

lemma count_below_le: "distinct N \<Longrightarrow> length (filter (\<lambda>n. n < p) N) \<le> p"
  using card_mono [of "{..<p}" "{n \<in> set N. n < p}"] by (auto simp: count_below)

lemma count_below_split:
  "distinct N \<Longrightarrow> (p::nat) \<le> q \<Longrightarrow>
   length (filter (\<lambda>n. n < q) N) = length (filter (\<lambda>n. n < p) N) + length (filter (\<lambda>n. p \<le> n \<and> n < q) N)"
proof (induction N)
  case (Cons a N)
  then show ?case by (cases "a < p"; cases "a < q") auto
qed simp

lemma count_between_le: "distinct N \<Longrightarrow> length (filter (\<lambda>n. p \<le> n \<and> n < q) N) \<le> q - p"
proof -
  assume "distinct N"
  then have "length (filter (\<lambda>n. p \<le> n \<and> n < q) N) = card {n. (p \<le> n \<and> n < q) \<and> n \<in> set N}"
    by (simp add: distinct_length_filter Int_def)
  also have "\<dots> \<le> card {p..<q}" by (rule card_mono) auto
  finally show ?thesis by simp
qed

lemma optPos_add_count: "distinct N \<Longrightarrow> optPos N p + length (filter (\<lambda>n. n < p) N) = p"
  using count_below_le by (simp add: optPos_def)

lemma optPos_le: "optPos N p \<le> p"
  by (simp add: optPos_def)

lemma optPos_mono:
  assumes "distinct N" "p \<le> q" shows "optPos N p \<le> optPos N q"
  using count_below_split [OF assms] count_between_le [OF assms(1), of p q] assms(2)
    optPos_add_count [OF assms(1), of p] optPos_add_count [OF assms(1), of q] by linarith

text \<open>Inside a stretch without removed bytes the positions keep their distance.\<close>

lemma optPos_stretch:
  assumes "distinct N" "\<forall>n\<in>set N. \<not> (p \<le> n \<and> n < p + k)"
  shows "optPos N (p + k) = optPos N p + k"
proof -
  have "filter (\<lambda>n. p \<le> n \<and> n < p + k) N = []" using assms(2) by (auto simp: filter_empty_conv)
  then show ?thesis
    using count_below_split [OF assms(1), of p "p + k"] optPos_add_count [OF assms(1), of p]
      optPos_add_count [OF assms(1), of "p + k"] by simp
qed

lemma optPos_strict:
  assumes "distinct N" "p \<notin> set N" "p < q" shows "optPos N p < optPos N q"
proof -
  have "optPos N (p + 1) = optPos N p + 1" using assms by (intro optPos_stretch) (auto simp: le_less_Suc_eq)
  then show ?thesis using optPos_mono [OF assms(1), of "p + 1" q] assms(3) by simp
qed

lemma length_filter_upt: "distinct N \<Longrightarrow> length (filter (\<lambda>i. i \<notin> set N) [0..<p]) = optPos N p"
proof -
  assume d: "distinct N"
  have "length (filter (\<lambda>i. i \<in> set N) [0..<p]) = length (filter (\<lambda>n. n < p) N)"
    using d by (simp add: distinct_length_filter Int_def conj_commute)
  moreover have "length (filter (\<lambda>i. i \<in> set N) [0..<p]) + length (filter (\<lambda>i. i \<notin> set N) [0..<p]) = p"
    using sum_length_filter_compl [of "\<lambda>i. i \<in> set N" "[0..<p]"] by simp
  ultimately show ?thesis by (simp add: optPos_def)
qed

lemma nth_filter_upt:
  assumes "P p" "p < m"
  shows "filter P [0..<m] ! length (filter P [0..<p]) = p"
proof -
  have "[0..<m] = [0..<p] @ p # [Suc p..<m]"
    using assms(2) upt_add_eq_append [of 0 p "m - p"] by (simp add: upt_conv_Cons)
  then show ?thesis using assms(1) by (simp add: nth_append)
qed

subsection \<open>The second scan\<close>

lemma optJumps_copy_sorted:
  "sorted N \<Longrightarrow> distinct N \<Longrightarrow> (\<forall>n\<in>set N. k \<le> n \<and> n < length code) \<Longrightarrow>
   optJumps_copy code k N = Some (map ((!) code) (filter (\<lambda>i. i \<notin> set N) [k..<length code]))"
proof (induction N arbitrary: k)
  case Nil
  then show ?case by (simp add: map_nth drop_map flip: drop_upt) (metis drop_map drop_upt map_nth add_0)
next
  case (Cons n N)
  have lt: "\<forall>m\<in>set N. n < m" using Cons.prems by (auto simp: le_less)
  have split: "[k..<length code] = [k..<n] @ n # [Suc n..<length code]"
    using Cons.prems(3) upt_add_eq_append [of k n "length code - n"] by (simp add: upt_conv_Cons)
  have lo: "filter (\<lambda>i. i \<notin> set (n # N)) [k..<n] = [k..<n]"
    using lt by (auto simp: filter_id_conv)
  have hi: "filter (\<lambda>i. i \<notin> set (n # N)) [Suc n..<length code] = filter (\<lambda>i. i \<notin> set N) [Suc n..<length code]"
    by (rule filter_cong) auto
  have tk: "take (n - k) (drop k code) = map ((!) code) [k..<n]"
    using Cons.prems(3) by (intro nth_equalityI) auto
  have "optJumps_copy code (n + 1) N = Some (map ((!) code) (filter (\<lambda>i. i \<notin> set N) [n + 1..<length code]))"
    using Cons.prems lt by (intro Cons.IH) auto
  then show ?case
    using Cons.prems(3) unfolding split filter_append lo by (simp add: tk hi [simplified])
qed

lemma optJumps_copy_spec:
  assumes "sorted N" "distinct N" "\<forall>n\<in>set N. n < length code"
  obtains r where "optJumps_copy code 0 N = Some r"
    "length r = optPos N (length code)"
    "\<And>i. i < length code \<Longrightarrow> i \<notin> set N \<Longrightarrow> r ! optPos N i = code ! i"
proof
  let ?r = "map ((!) code) (filter (\<lambda>i. i \<notin> set N) [0..<length code])"
  show "optJumps_copy code 0 N = Some ?r" using assms by (intro optJumps_copy_sorted) auto
  show "length ?r = optPos N (length code)" using length_filter_upt [OF assms(2)] by simp
  show "?r ! optPos N i = code ! i" if "i < length code" "i \<notin> set N" for i
    using nth_filter_upt [of "\<lambda>i. i \<notin> set N" i "length code"] that length_filter_upt [OF assms(2), of i]
      length_filter_upt [OF assms(2), of "length code"] optPos_strict [OF assms(2) that(2,1)] by simp
qed

subsection \<open>The first scan\<close>

definition sizeStep :: "HB_BYTE list \<Rightarrow> nat \<Rightarrow> nat \<Rightarrow> int" where
  "sizeStep code a n =
     (let off = the (jumpOffset code a) in
      if 0 < off then (if a < n \<and> n < posAdd a off then - 1 else 0)
      else (if n < a \<and> posAdd a off \<le> n then 1 else 0))"

definition shiftStep :: "nat \<Rightarrow> nat \<Rightarrow> int" where
  "shiftStep a n = (if n < a then 1 else 0)"

lemma optJumps_scan1_eq:
  assumes "jumpOffset (pCode (pLast c)) (pJumps (pLast c) ! j) \<noteq> None" "j < length S" "j < length H"
  shows "optJumps_scan1 n j (S, H, c) =
    (S[j := S ! j + sizeStep (pCode (pLast c)) (pJumps (pLast c) ! j) n],
     H[j := H ! j + shiftStep (pJumps (pLast c) ! j) n], c)"
  using assms
  by (auto simp: optJumps_scan1_def sizeStep_def shiftStep_def Let_def list_update_id split: option.splits)

lemma optJumps_scan_row:
  assumes ok: "\<forall>a\<in>set (pJumps (pLast c)). jumpOffset (pCode (pLast c)) a \<noteq> None"
    and m: "m = length (pJumps (pLast c))" and k: "k \<le> m" and len: "length S = m" "length H = m"
  shows "fold (optJumps_scan1 n) [0..<k] (S, H, c) =
    (map (\<lambda>j. S ! j + (if j < k then sizeStep (pCode (pLast c)) (pJumps (pLast c) ! j) n else 0)) [0..<m],
     map (\<lambda>j. H ! j + (if j < k then shiftStep (pJumps (pLast c) ! j) n else 0)) [0..<m], c)"
  using k
proof (induction k)
  case 0
  then show ?case using len by (auto intro: nth_equalityI)
next
  case (Suc k)
  have "pJumps (pLast c) ! k \<in> set (pJumps (pLast c))" using Suc.prems m by simp
  then have "jumpOffset (pCode (pLast c)) (pJumps (pLast c) ! k) \<noteq> None" using ok by blast
  then show ?case
    using Suc len by (subst upt_Suc_append) (auto simp: optJumps_scan1_eq nth_list_update less_Suc_eq intro!: nth_equalityI)
qed

lemma optJumps_scan_rows:
  assumes ok: "\<forall>a\<in>set (pJumps (pLast c)). jumpOffset (pCode (pLast c)) a \<noteq> None"
    and m: "m = length (pJumps (pLast c))" and len: "length S = m" "length H = m"
  shows "fold (\<lambda>n. fold (optJumps_scan1 n) [0..<m]) N (S, H, c) =
    (map (\<lambda>j. S ! j + sum_list (map (sizeStep (pCode (pLast c)) (pJumps (pLast c) ! j)) N)) [0..<m],
     map (\<lambda>j. H ! j + sum_list (map (shiftStep (pJumps (pLast c) ! j)) N)) [0..<m], c)"
  using len
proof (induction N arbitrary: S H)
  case Nil
  then show ?case by (auto intro: nth_equalityI)
next
  case (Cons n N)
  then show ?case
    by (simp add: optJumps_scan_row [OF ok m order_refl] Cons.IH)
qed

lemma optJumps_scan_eq:
  assumes "\<forall>a\<in>set (pJumps (pLast c)). jumpOffset (pCode (pLast c)) a \<noteq> None"
  shows "optJumps_scan c =
    (map (\<lambda>a. sum_list (map (sizeStep (pCode (pLast c)) a) (pNOOPs (pLast c)))) (pJumps (pLast c)),
     map (\<lambda>a. sum_list (map (shiftStep a) (pNOOPs (pLast c)))) (pJumps (pLast c)), c)"
  by (simp add: optJumps_scan_def Let_def optJumps_scan_rows [OF assms refl]) (auto intro: nth_equalityI)

subsection \<open>Well-formed jumps\<close>

definition jumpSize :: "HB_BYTE list \<Rightarrow> nat \<Rightarrow> nat" where
  "jumpSize code a =
     (let op = code ! a in
      if op = HB_P_JUMPNEAR \<or> op = HB_P_JUMPFALSENEAR \<or> op = HB_P_JUMPTRUENEAR then 2
      else if op = HB_P_JUMP \<or> op = HB_P_JUMPFALSE \<or> op = HB_P_JUMPTRUE then 3
      else 4)"

definition jumpTarget :: "HB_BYTE list \<Rightarrow> nat \<Rightarrow> nat" where
  "jumpTarget code a = posAdd a (the (jumpOffset code a))"

text \<open>A jump of the buffer: its bytes are inside and none of them is without operation, and it leads
  to a position of the buffer or behind its last byte.\<close>

definition jumpWf :: "HB_BYTE list \<Rightarrow> nat list \<Rightarrow> nat \<Rightarrow> bool" where
  "jumpWf code noops a \<longleftrightarrow>
     jumpOffset code a \<noteq> None
     \<and> 0 \<le> int a + the (jumpOffset code a) \<and> int a + the (jumpOffset code a) \<le> int (length code)
     \<and> a + jumpSize code a \<le> length code
     \<and> list_all (\<lambda>n. n < a \<or> a + jumpSize code a \<le> n) noops"

definition jumpsDisjoint :: "HB_BYTE list \<Rightarrow> nat list \<Rightarrow> bool" where
  "jumpsDisjoint code jumps \<longleftrightarrow>
     distinct jumps \<and> list_all (\<lambda>a. list_all (\<lambda>b. a < b \<longrightarrow> a + jumpSize code a \<le> b) jumps) jumps"

definition noopsWf :: "HB_BYTE list \<Rightarrow> nat list \<Rightarrow> bool" where
  "noopsWf code noops \<longleftrightarrow> distinct noops \<and> list_all (\<lambda>n. n < length code) noops \<and> length code < 2 ^ 63"

lemma jumpSize_bounds: "2 \<le> jumpSize code a" "jumpSize code a \<le> 4"
  by (auto simp: jumpSize_def Let_def)

lemma posAdd_int: "0 \<le> int p + w \<Longrightarrow> int p + w < 2 ^ 64 \<Longrightarrow> int (posAdd p w) = int p + w"
  by (simp add: posAdd_def)

lemma jumpTarget_int:
  "noopsWf code N \<Longrightarrow> jumpWf code N a \<Longrightarrow> int (jumpTarget code a) = int a + the (jumpOffset code a)"
  unfolding jumpTarget_def noopsWf_def jumpWf_def by (intro posAdd_int) auto

lemma jumpTarget_le: "noopsWf code N \<Longrightarrow> jumpWf code N a \<Longrightarrow> jumpTarget code a \<le> length code"
  using jumpTarget_int [of code N a] by (simp add: jumpWf_def)

lemma jumpWf_notin: "jumpWf code N a \<Longrightarrow> i < jumpSize code a \<Longrightarrow> a + i \<notin> set N"
  by (auto simp: jumpWf_def list_all_iff)

lemma sum_sizeStep_pos:
  assumes "0 < the (jumpOffset code a)"
  shows "sum_list (map (sizeStep code a) N) = - int (length (filter (\<lambda>n. a < n \<and> n < jumpTarget code a) N))"
  using assms by (induction N) (auto simp: sizeStep_def jumpTarget_def Let_def)

lemma sum_sizeStep_neg:
  assumes "\<not> 0 < the (jumpOffset code a)"
  shows "sum_list (map (sizeStep code a) N) = int (length (filter (\<lambda>n. jumpTarget code a \<le> n \<and> n < a) N))"
  using assms by (induction N) (auto simp: sizeStep_def jumpTarget_def Let_def)

lemma sum_shiftStep: "sum_list (map (shiftStep a) N) = int (length (filter (\<lambda>n. n < a) N))"
  by (induction N) (auto simp: shiftStep_def)

text \<open>The counted sizes turn every offset into the distance of the new positions.\<close>

lemma sum_sizeStep:
  assumes wf: "noopsWf code N" and j: "jumpWf code N a"
  shows "the (jumpOffset code a) + sum_list (map (sizeStep code a) N)
    = int (optPos N (jumpTarget code a)) - int (optPos N a)"
proof -
  have d: "distinct N" using wf by (simp add: noopsWf_def)
  note t = jumpTarget_int [OF wf j]
  note c = optPos_add_count [OF d, of a] optPos_add_count [OF d, of "jumpTarget code a"]
  show ?thesis
  proof (cases "0 < the (jumpOffset code a)")
    case True
    have "a \<notin> set N" using jumpWf_notin [OF j, of 0] jumpSize_bounds [of code a] by simp
    then have "filter (\<lambda>n. a < n \<and> n < jumpTarget code a) N = filter (\<lambda>n. a \<le> n \<and> n < jumpTarget code a) N"
      by (intro filter_cong) (auto simp: le_less)
    then show ?thesis
      using True t c count_below_split [OF d, of a "jumpTarget code a"] sum_sizeStep_pos [OF True, of N] by simp
  next
    case False
    then show ?thesis
      using t c count_below_split [OF d, of "jumpTarget code a" a] sum_sizeStep_neg [OF False, of N] by simp
  qed
qed

subsection \<open>Writing the offsets\<close>

lemma jumpOffset_cong:
  assumes "\<And>i. i < jumpSize c a \<Longrightarrow> c' ! (a' + i) = c ! (a + i)"
  shows "jumpOffset c' a' = jumpOffset c a" "jumpSize c' a' = jumpSize c a"
proof -
  have 0: "c' ! a' = c ! a" and 1: "c' ! (a' + 1) = c ! (a + 1)"
    using assms [of 0] assms [of 1] jumpSize_bounds [of c a] by simp_all
  have 2: "jumpSize c a \<noteq> 2 \<Longrightarrow> c' ! (a' + 2) = c ! (a + 2)"
    and 3: "jumpSize c a = 4 \<Longrightarrow> c' ! (a' + 3) = c ! (a + 3)"
    using assms [of 2] assms [of 3] jumpSize_bounds [of c a] by simp_all
  show "jumpSize c' a' = jumpSize c a" using 0 by (simp add: jumpSize_def)
  show "jumpOffset c' a' = jumpOffset c a"
    using 0 1 2 3
    by (simp add: jumpOffset_def jumpSize_def HB_SCHAR_at_def HB_PCODE_MKSHORT_def HB_PCODE_MKINT24_def
        Let_def numeral_eq_Suc split: if_splits)
qed

definition jumpFits :: "HB_BYTE list \<Rightarrow> nat \<Rightarrow> int \<Rightarrow> bool" where
  "jumpFits code a w \<longleftrightarrow>
     (if jumpSize code a = 2 then HB_LIM_INT8 w else if jumpSize code a = 3 then HB_LIM_INT16 w else HB_LIM_INT24 w)"

lemma jumpOffset_fits: "jumpOffset code a = Some off \<Longrightarrow> jumpFits code a off"
  using HB_SCHAR_at_bounds [of code "a + 1"] MKSHORT_bounds [of code "a + 1"] MKINT24_bounds [of code "a + 1"]
  by (auto simp: jumpOffset_def jumpFits_def jumpSize_def HB_LIM_INT8_def Let_def split: if_splits)

lemma jumpFits_smaller:
  "jumpFits code a off \<Longrightarrow> (0 < off \<Longrightarrow> 0 \<le> w \<and> w \<le> off) \<Longrightarrow> (off \<le> 0 \<Longrightarrow> off \<le> w \<and> w \<le> 0) \<Longrightarrow> jumpFits code a w"
  by (cases "0 < off") (auto simp: jumpFits_def HB_LIM_INT8_def HB_LIM_INT16_def HB_LIM_INT24_def split: if_splits)

lemma length_optJumps_write [simp]: "length (optJumps_write a d code) = length code"
  by (simp add: optJumps_write_def HB_PUT_LE_UINT16_def HB_PUT_LE_UINT24_def Let_def)

lemma optJumps_write_other:
  "i \<le> a \<or> a + jumpSize code a \<le> i \<Longrightarrow> optJumps_write a d code ! i = code ! i"
  by (auto simp: optJumps_write_def jumpSize_def HB_PUT_LE_UINT16_def HB_PUT_LE_UINT24_def Let_def split: if_splits)

lemma jumpSize_optJumps_write: "jumpSize (optJumps_write a d code) a = jumpSize code a"
  using optJumps_write_other [of a a code d] by (simp add: jumpSize_def)

lemma jumpOffset_optJumps_write:
  assumes "jumpOffset code a = Some off" "a + jumpSize code a \<le> length code" "jumpFits code a (off + d)"
  shows "jumpOffset (optJumps_write a d code) a = Some (off + d)"
proof -
  let ?c = "optJumps_write a d code"
  have op: "?c ! a = code ! a" by (simp add: optJumps_write_other)
  have fit: "jumpFits code a (d + off)" using assms(3) by (simp add: add.commute)
  let ?op = "code ! a"
  consider (near) "?op = HB_P_JUMPNEAR \<or> ?op = HB_P_JUMPFALSENEAR \<or> ?op = HB_P_JUMPTRUENEAR"
    | (short) "\<not> (?op = HB_P_JUMPNEAR \<or> ?op = HB_P_JUMPFALSENEAR \<or> ?op = HB_P_JUMPTRUENEAR)"
        "?op = HB_P_JUMP \<or> ?op = HB_P_JUMPFALSE \<or> ?op = HB_P_JUMPTRUE"
    | (far) "\<not> (?op = HB_P_JUMPNEAR \<or> ?op = HB_P_JUMPFALSENEAR \<or> ?op = HB_P_JUMPTRUENEAR)"
        "\<not> (?op = HB_P_JUMP \<or> ?op = HB_P_JUMPFALSE \<or> ?op = HB_P_JUMPTRUE)" by blast
  then show ?thesis
  proof cases
    case near
    then have "jumpSize code a = 2" "off = HB_SCHAR_at code (a + 1)"
      "?c = code[a + 1 := HB_LOBYTE (d + off)]" "jumpOffset ?c a = Some (HB_SCHAR_at ?c (a + 1))"
      using assms(1) op by (simp_all only: jumpSize_def jumpOffset_def optJumps_write_def Let_def if_True option.inject)
    then show ?thesis using assms(2) fit HB_SCHAR_at_put [of "a + 1" code "d + off"] by (simp add: jumpFits_def add.commute [of off d])
  next
    case short
    then have "jumpSize code a = 3" "off = HB_PCODE_MKSHORT code (a + 1)"
      "?c = HB_PUT_LE_UINT16 (a + 1) (d + off) code" "jumpOffset ?c a = Some (HB_PCODE_MKSHORT ?c (a + 1))"
      using assms(1) op by (simp_all only: jumpSize_def jumpOffset_def optJumps_write_def Let_def if_True if_False option.inject)
    then show ?thesis using assms(2) fit HB_PCODE_MKSHORT_put [of "a + 1" code "d + off"] by (simp add: jumpFits_def add.commute [of off d])
  next
    case far
    then have "jumpSize code a = 4" "?c = HB_PUT_LE_UINT24 (a + 1) (d + HB_PCODE_MKINT24 code (a + 1)) code"
      by (simp_all only: jumpSize_def optJumps_write_def Let_def if_False)
    moreover have "off = HB_PCODE_MKINT24 code (a + 1)" "jumpOffset ?c a = Some (HB_PCODE_MKINT24 ?c (a + 1))"
      using assms(1) far unfolding jumpOffset_def Let_def op by (simp_all only: if_False split: if_split_asm) auto
    ultimately show ?thesis using assms(2) fit HB_PCODE_MKINT24_put [of "a + 1" code "d + off"] by (simp add: jumpFits_def add.commute [of off d])
  qed
qed

fun adjustCode :: "int list \<Rightarrow> nat list \<Rightarrow> HB_BYTE list \<Rightarrow> HB_BYTE list" where
  "adjustCode (d # ds) (a # as) code = adjustCode ds as (if d \<noteq> 0 then optJumps_write a d code else code)"
| "adjustCode ds as code = code"

lemma optJumps_adjust_rows:
  assumes "k \<le> length (pJumps f)" "length D = length (pJumps f)"
  shows "fold (optJumps_adjust1 D H) [0..<k] f =
    f\<lparr>pCode := adjustCode (take k D) (take k (pJumps f)) (pCode f),
      pJumps := map (\<lambda>j. nat ((int (pJumps f ! j) - H ! j) mod 2 ^ 64)) [0..<k] @ drop k (pJumps f)\<rparr>"
  using assms(1)
proof (induction k)
  case (Suc k)
  have split: "adjustCode (ds @ [d]) (as @ [a]) c
      = (if d \<noteq> 0 then optJumps_write a d (adjustCode ds as c) else adjustCode ds as c)"
    if "length ds = length as" for ds as d a c
    using that by (induction ds as arbitrary: c rule: list_induct2) auto
  have k: "k < length (pJumps f)" "k < length D" using Suc.prems assms(2) by simp_all
  then have "drop k (pJumps f) = pJumps f ! k # drop (Suc k) (pJumps f)" by (simp add: Cons_nth_drop_Suc)
  then show ?case
    using Suc k assms(2) split [of "take k D" "take k (pJumps f)"]
    by (simp add: optJumps_adjust1_def Let_def take_Suc_conv_app_nth nth_append list_update_append)
qed simp

lemma optJumps_adjust_eq:
  assumes "length D = length (pJumps f)"
  shows "optJumps_adjust D H f =
    f\<lparr>pCode := adjustCode D (pJumps f) (pCode f),
      pJumps := map (\<lambda>j. nat ((int (pJumps f ! j) - H ! j) mod 2 ^ 64)) [0..<length (pJumps f)]\<rparr>"
  using optJumps_adjust_rows [OF order_refl assms, of H] assms by (simp add: optJumps_adjust_def)

lemma length_adjustCode [simp]: "length (adjustCode D J code) = length code"
  by (induction D J code rule: adjustCode.induct) auto

text \<open>The writes do not touch each other, so each jump gets its own new offset.\<close>

lemma jumpsDisjoint_Cons:
  assumes "jumpsDisjoint code (a # as)" "b \<in> set as" "i < jumpSize code b" "jumpSize code b \<le> 4"
  shows "b + i \<le> a \<or> a + jumpSize code a \<le> b + i"
proof (cases "a < b")
  case False
  moreover have "a \<noteq> b" using assms(1,2) by (auto simp: jumpsDisjoint_def)
  ultimately have "b < a" by simp
  then have "b + jumpSize code b \<le> a" using assms(1,2) by (auto simp: jumpsDisjoint_def list_all_iff)
  then show ?thesis using assms(3) by simp
qed (use assms in \<open>auto simp: jumpsDisjoint_def list_all_iff\<close>)

lemma adjustCode_other:
  "jumpsDisjoint code J \<Longrightarrow> length D = length J \<Longrightarrow> (\<forall>a\<in>set J. i \<le> a \<or> a + jumpSize code a \<le> i) \<Longrightarrow>
   adjustCode D J code ! i = code ! i"
proof (induction D J code rule: adjustCode.induct)
  case (1 d D a J code)
  let ?c = "if d \<noteq> 0 then optJumps_write a d code else code"
  have size: "b \<in> set J \<Longrightarrow> jumpSize ?c b = jumpSize code b" for b
    using jumpsDisjoint_Cons [OF 1(2)] optJumps_write_other [of _ a code d]
    by (auto intro!: jumpOffset_cong(2) simp: jumpSize_bounds)
  have "jumpsDisjoint ?c J"
    using 1(2) size by (auto simp: jumpsDisjoint_def list_all_iff)
  moreover have "?c ! i = code ! i" using 1(4) by (simp add: optJumps_write_other)
  ultimately show ?case using 1 size by simp
qed auto

lemma adjustCode_jump:
  "jumpsDisjoint code J \<Longrightarrow> length D = length J \<Longrightarrow>
   (\<forall>j<length J. J ! j + jumpSize code (J ! j) \<le> length code \<and> jumpOffset code (J ! j) \<noteq> None
      \<and> jumpFits code (J ! j) (the (jumpOffset code (J ! j)) + D ! j)) \<Longrightarrow> j < length J \<Longrightarrow>
   jumpOffset (adjustCode D J code) (J ! j) = Some (the (jumpOffset code (J ! j)) + D ! j)
   \<and> adjustCode D J code ! (J ! j) = code ! (J ! j)"
proof (induction D J code arbitrary: j rule: adjustCode.induct)
  case (1 d D a J code)
  let ?c = "if d \<noteq> 0 then optJumps_write a d code else code"
  have same: "b \<in> set J \<Longrightarrow> i < jumpSize code b \<Longrightarrow> ?c ! (b + i) = code ! (b + i)" for b i
    using jumpsDisjoint_Cons [OF 1(2)] optJumps_write_other [of "b + i" a code d] by (simp add: jumpSize_bounds)
  have size: "b \<in> set J \<Longrightarrow> jumpSize ?c b = jumpSize code b"
    and off: "b \<in> set J \<Longrightarrow> jumpOffset ?c b = jumpOffset code b" for b
    using same by (blast intro: jumpOffset_cong)+
  have dis: "jumpsDisjoint ?c J"
    using 1(2) size by (auto simp: jumpsDisjoint_def list_all_iff)
  have all: "\<forall>j<length J. J ! j + jumpSize ?c (J ! j) \<le> length ?c \<and> jumpOffset ?c (J ! j) \<noteq> None
      \<and> jumpFits ?c (J ! j) (the (jumpOffset ?c (J ! j)) + D ! j)"
  proof (intro allI impI)
    fix j assume "j < length J"
    then show "J ! j + jumpSize ?c (J ! j) \<le> length ?c \<and> jumpOffset ?c (J ! j) \<noteq> None
      \<and> jumpFits ?c (J ! j) (the (jumpOffset ?c (J ! j)) + D ! j)"
      using 1(4) [rule_format, of "Suc j"] size [of "J ! j"] off [of "J ! j"] by (simp add: jumpFits_def)
  qed
  show ?case
  proof (cases j)
    case 0
    have "jumpOffset ?c a = Some (the (jumpOffset code a) + d)"
      using 1(4) [rule_format, of 0] jumpOffset_optJumps_write [of code a _ d] by auto
    moreover have "adjustCode D J ?c ! (a + i) = ?c ! (a + i)" if "i < jumpSize ?c a" for i
    proof (rule adjustCode_other [OF dis])
      have "jumpSize ?c a = jumpSize code a" by (simp add: jumpSize_optJumps_write)
      then show "\<forall>b\<in>set J. a + i \<le> b \<or> b + jumpSize ?c b \<le> a + i"
        using 1(2) that size by (fastforce simp: jumpsDisjoint_def list_all_iff le_less not_less)
    qed (use 1(3) in simp)
    moreover have "?c ! a = code ! a" by (simp add: optJumps_write_other)
    ultimately show ?thesis
      using 0 jumpOffset_cong(1) [of ?c a "adjustCode D J ?c" a] jumpSize_bounds [of ?c a] by (force simp del: if_split)
  next
    case (Suc k)
    then have "J ! k \<in> set J" using 1(5) by simp
    then show ?thesis
      using 1(1) [OF dis _ all, of k] 1(3,5) Suc off [of "J ! k"] same [of "J ! k" 0] jumpSize_bounds [of code "J ! k"]
      by simp
  qed
qed auto

subsection \<open>The removal as a whole\<close>

lemma optPos_sort [simp]: "optPos (sort N) p = optPos N p"
  by (simp add: optPos_def filter_sort)

definition codeWf :: "HB_HFUNC \<Rightarrow> bool" where
  "codeWf f \<longleftrightarrow> noopsWf (pCode f) (pNOOPs f) \<and> jumpsDisjoint (pCode f) (pJumps f)
     \<and> list_all (jumpWf (pCode f) (pNOOPs f)) (pJumps f)"

lemma jumpWf_sort [simp]: "jumpWf code (sort N) a = jumpWf code N a"
  by (simp add: jumpWf_def list_all_iff)

lemma noopsWf_sort [simp]: "noopsWf code (sort N) = noopsWf code N"
  by (simp add: noopsWf_def list_all_iff)

text \<open>The relation between a function and its compacted form.\<close>

definition compacted :: "HB_HFUNC \<Rightarrow> HB_HFUNC \<Rightarrow> bool" where
  "compacted f f' \<longleftrightarrow>
     pNOOPs f' = [] \<and> pJumps f' = map (optPos (pNOOPs f)) (pJumps f)
     \<and> length (pCode f') = optPos (pNOOPs f) (length (pCode f))
     \<and> (\<forall>i<length (pCode f). i \<notin> set (pNOOPs f) \<longrightarrow>
          (\<forall>a\<in>set (pJumps f). i \<le> a \<or> a + jumpSize (pCode f) a \<le> i) \<longrightarrow>
          pCode f' ! optPos (pNOOPs f) i = pCode f ! i)
     \<and> (\<forall>a\<in>set (pJumps f). jumpSize (pCode f') (optPos (pNOOPs f) a) = jumpSize (pCode f) a
          \<and> jumpOffset (pCode f') (optPos (pNOOPs f) a)
            = Some (int (optPos (pNOOPs f) (jumpTarget (pCode f) a)) - int (optPos (pNOOPs f) a)))"

lemma new_offset_fits:
  assumes wf: "noopsWf code N" and j: "jumpWf code N a"
  shows "jumpFits code a (int (optPos N (jumpTarget code a)) - int (optPos N a))"
proof -
  obtain off where off: "jumpOffset code a = Some off" using j by (auto simp: jumpWf_def)
  have d: "distinct N" using wf by (simp add: noopsWf_def)
  have t: "int (jumpTarget code a) = int a + off" using jumpTarget_int [OF wf j] off by simp
  show ?thesis
  proof (rule jumpFits_smaller [OF jumpOffset_fits [OF off]])
    assume "0 < off"
    then have le: "a \<le> jumpTarget code a" using t by simp
    show "0 \<le> int (optPos N (jumpTarget code a)) - int (optPos N a)
        \<and> int (optPos N (jumpTarget code a)) - int (optPos N a) \<le> off"
      using optPos_mono [OF d le] count_below_split [OF d le] optPos_add_count [OF d, of a]
        optPos_add_count [OF d, of "jumpTarget code a"] t by linarith
  next
    assume "off \<le> 0"
    then have le: "jumpTarget code a \<le> a" using t by simp
    show "off \<le> int (optPos N (jumpTarget code a)) - int (optPos N a)
        \<and> int (optPos N (jumpTarget code a)) - int (optPos N a) \<le> 0"
      using optPos_mono [OF d le] count_below_split [OF d le] optPos_add_count [OF d, of a]
        optPos_add_count [OF d, of "jumpTarget code a"] t by linarith
  qed
qed

lemma optJumps_compact_main:
  assumes wf: "codeWf (pLast c)"
  obtains f' where "optJumps_compact c = Some (c\<lparr>pLast := f'\<rparr>)" "compacted (pLast c) f'" "hasPCode f' = hasPCode (pLast c)"
proof -
  let ?f = "pLast c" let ?code = "pCode ?f" let ?N = "pNOOPs ?f" let ?J = "pJumps ?f"
  let ?D = "map (\<lambda>a. sum_list (map (sizeStep ?code a) (sort ?N))) ?J"
  let ?code1 = "adjustCode ?D ?J ?code"
  have n: "noopsWf ?code ?N" and dis: "jumpsDisjoint ?code ?J" and js: "\<And>a. a \<in> set ?J \<Longrightarrow> jumpWf ?code ?N a"
    using wf by (auto simp: codeWf_def list_all_iff)
  have d: "distinct ?N" and lt: "\<forall>i\<in>set (sort ?N). i < length ?code1"
    and len: "length ?code < 2 ^ 63" using n by (auto simp: noopsWf_def list_all_iff)
  obtain r where r: "optJumps_copy ?code1 0 (sort ?N) = Some r" "length r = optPos ?N (length ?code)"
    "\<And>i. i < length ?code \<Longrightarrow> i \<notin> set ?N \<Longrightarrow> r ! optPos ?N i = ?code1 ! i"
    using optJumps_copy_spec [of "sort ?N" ?code1] d lt by auto
  have D: "the (jumpOffset ?code a) + sum_list (map (sizeStep ?code a) (sort ?N))
      = int (optPos ?N (jumpTarget ?code a)) - int (optPos ?N a)" if "a \<in> set ?J" for a
    using sum_sizeStep [of ?code "sort ?N" a] n js [OF that] by simp
  have J: "nat ((int a - sum_list (map (shiftStep a) (sort ?N))) mod 2 ^ 64) = optPos ?N a" if "a \<in> set ?J" for a
  proof -
    have "int a - sum_list (map (shiftStep a) (sort ?N)) = int (optPos ?N a)"
      using optPos_add_count [OF d, of a] by (simp add: sum_shiftStep filter_sort)
    moreover have "optPos ?N a < 2 ^ 64"
      using js [OF that] len optPos_le [of ?N a] by (simp add: jumpWf_def)
    ultimately show ?thesis by simp
  qed
  let ?f' = "?f\<lparr>pCode := r, nPCodeSize := length r, pNOOPs := [], pJumps := map (optPos ?N) ?J\<rparr>"
  have "optJumps_compact c = Some (c\<lparr>pLast := ?f'\<rparr>)"
  proof (cases "?J = []")
    case True
    then show ?thesis using r(1) by (simp add: optJumps_compact_def Let_def)
  next
    case False
    let ?c = "c\<lparr>pLast := ?f\<lparr>pNOOPs := sort ?N\<rparr>\<rparr>"
    have "optJumps_scan ?c = (?D, map (\<lambda>a. sum_list (map (shiftStep a) (sort ?N))) ?J, ?c)"
      using optJumps_scan_eq [of ?c] js by (simp add: jumpWf_def)
    moreover have "map (\<lambda>j. nat ((int (?J ! j) - map (\<lambda>a. sum_list (map (shiftStep a) (sort ?N))) ?J ! j) mod 2 ^ 64))
        [0..<length ?J] = map (optPos ?N) ?J"
      using J by (intro nth_equalityI) auto
    ultimately show ?thesis using False r(1) by (simp add: optJumps_compact_def Let_def optJumps_adjust_eq)
  qed
  moreover have "compacted ?f ?f'"
  proof -
    have bytes: "r ! optPos ?N i = ?code ! i" if "i < length ?code" "i \<notin> set ?N"
      "\<forall>a\<in>set ?J. i \<le> a \<or> a + jumpSize ?code a \<le> i" for i
      using r(3) [OF that(1,2)] adjustCode_other [OF dis _ that(3), of ?D] by simp
    have jump: "jumpSize r (optPos ?N a) = jumpSize ?code a
        \<and> jumpOffset r (optPos ?N a) = Some (int (optPos ?N (jumpTarget ?code a)) - int (optPos ?N a))"
      if a: "a \<in> set ?J" for a
    proof -
      obtain j where jj: "j < length ?J" "a = ?J ! j" using a by (auto simp: in_set_conv_nth)
      have "jumpOffset ?code1 (?J ! j) = Some (the (jumpOffset ?code (?J ! j)) + ?D ! j)
          \<and> ?code1 ! (?J ! j) = ?code ! (?J ! j)"
      proof (rule adjustCode_jump [OF dis _ _ jj(1)])
        show "\<forall>j<length ?J. ?J ! j + jumpSize ?code (?J ! j) \<le> length ?code \<and> jumpOffset ?code (?J ! j) \<noteq> None
            \<and> jumpFits ?code (?J ! j) (the (jumpOffset ?code (?J ! j)) + ?D ! j)"
          using js D new_offset_fits [OF n js] by (auto simp: jumpWf_def)
      qed simp
      then have off: "jumpOffset ?code1 a = Some (int (optPos ?N (jumpTarget ?code a)) - int (optPos ?N a))"
        and size: "jumpSize ?code1 a = jumpSize ?code a" using jj D [OF a] by (auto simp: jumpSize_def)
      have "r ! (optPos ?N a + i) = ?code1 ! (a + i)" if i: "i < jumpSize ?code1 a" for i
      proof -
        have "optPos ?N (a + i) = optPos ?N a + i"
          using js [OF a] i size by (intro optPos_stretch [OF d]) (auto simp: jumpWf_def list_all_iff)
        then show ?thesis
          using r(3) [of "a + i"] jumpWf_notin [OF js [OF a]] i size js [OF a] by (simp add: jumpWf_def)
      qed
      then show ?thesis using jumpOffset_cong [of ?code1 a r "optPos ?N a"] off size by simp
    qed
    show ?thesis using bytes jump r(2) by (simp add: compacted_def)
  qed
  ultimately show ?thesis using that by simp
qed

text \<open>A compacted function is well-formed, and its jumps lead to the new positions.\<close>

lemma compacted_target:
  assumes "codeWf f" "compacted f f'" "a \<in> set (pJumps f)"
  shows "jumpTarget (pCode f') (optPos (pNOOPs f) a) = optPos (pNOOPs f) (jumpTarget (pCode f) a)"
proof -
  have n: "noopsWf (pCode f) (pNOOPs f)" and j: "jumpWf (pCode f) (pNOOPs f) a"
    using assms by (auto simp: codeWf_def list_all_iff)
  have "optPos (pNOOPs f) (jumpTarget (pCode f) a) < 2 ^ 64"
    using jumpTarget_le [OF n j] optPos_le [of "pNOOPs f" "jumpTarget (pCode f) a"] n by (simp add: noopsWf_def)
  then show ?thesis
    using assms(2,3) by (simp add: jumpTarget_def compacted_def posAdd_def)
qed

lemma compacted_codeWf:
  assumes wf: "codeWf f" and c: "compacted f f'"
  shows "codeWf f'"
proof -
  let ?p = "optPos (pNOOPs f)"
  have n: "noopsWf (pCode f) (pNOOPs f)" and dis: "jumpsDisjoint (pCode f) (pJumps f)"
    and js: "\<And>a. a \<in> set (pJumps f) \<Longrightarrow> jumpWf (pCode f) (pNOOPs f) a"
    using wf by (auto simp: codeWf_def list_all_iff)
  have d: "distinct (pNOOPs f)" using n by (simp add: noopsWf_def)
  have notin: "a \<notin> set (pNOOPs f)" if "a \<in> set (pJumps f)" for a
    using jumpWf_notin [OF js [OF that], of 0] jumpSize_bounds [of "pCode f" a] by simp
  have stretch: "?p (a + jumpSize (pCode f) a) = ?p a + jumpSize (pCode f) a" if "a \<in> set (pJumps f)" for a
    using js [OF that] by (intro optPos_stretch [OF d]) (auto simp: jumpWf_def list_all_iff)
  have size: "jumpSize (pCode f') (?p a) = jumpSize (pCode f) a" if "a \<in> set (pJumps f)" for a
    using c that by (simp add: compacted_def)
  have "length (pCode f') < 2 ^ 63"
    using c n optPos_le [of "pNOOPs f" "length (pCode f)"] by (simp add: compacted_def noopsWf_def)
  moreover have "jumpsDisjoint (pCode f') (pJumps f')"
  proof -
    have "inj_on ?p (set (pJumps f))"
      by (rule linorder_inj_onI') (metis d nat_neq_iff notin optPos_strict)
    moreover have "?p a + jumpSize (pCode f') (?p a) \<le> ?p b"
      if "a \<in> set (pJumps f)" "b \<in> set (pJumps f)" "?p a < ?p b" for a b
    proof -
      have "a < b" using that(3) optPos_mono [OF d, of b a] by (meson not_le)
      then have "a + jumpSize (pCode f) a \<le> b" using dis that by (auto simp: jumpsDisjoint_def list_all_iff)
      then show ?thesis using optPos_mono [OF d] stretch [OF that(1)] size [OF that(1)] by metis
    qed
    ultimately show ?thesis using c dis by (auto simp: jumpsDisjoint_def compacted_def list_all_iff distinct_map)
  qed
  moreover have "jumpWf (pCode f') [] (?p a)" if a: "a \<in> set (pJumps f)" for a
  proof -
    have "?p (jumpTarget (pCode f) a) \<le> length (pCode f')"
      using optPos_mono [OF d jumpTarget_le [OF n js [OF a]]] c by (simp add: compacted_def)
    moreover have "?p a + jumpSize (pCode f') (?p a) \<le> length (pCode f')"
      using optPos_mono [OF d, of "a + jumpSize (pCode f) a" "length (pCode f)"] js [OF a] stretch [OF a] size [OF a] c
      by (simp add: compacted_def jumpWf_def)
    ultimately show ?thesis using c a by (simp add: jumpWf_def compacted_def)
  qed
  ultimately show ?thesis using c by (auto simp: codeWf_def noopsWf_def compacted_def list_all_iff)
qed

end
