(* ===== verification/HbJumpShorten.thy ===== *)
theory HbJumpShorten
  imports HbJumpCorrect
begin

text \<open>
  The scan that shortens jumps: a jump over nothing becomes \<open>HB_P_NOOP\<close> bytes, after a
  \<open>HB_P_POP\<close> when it is conditional, every other jump keeps its place, its kind and its target.
\<close>

subsection \<open>Kinds of jumps\<close>

definition jumpFar :: "HB_BYTE \<Rightarrow> HB_BYTE" where
  "jumpFar op =
     (if op = HB_P_JUMPNEAR \<or> op = HB_P_JUMP then HB_P_JUMPFAR
      else if op = HB_P_JUMPFALSENEAR \<or> op = HB_P_JUMPFALSE then HB_P_JUMPFALSEFAR
      else if op = HB_P_JUMPTRUENEAR \<or> op = HB_P_JUMPTRUE then HB_P_JUMPTRUEFAR
      else op)"

definition isCondJump :: "HB_BYTE \<Rightarrow> bool" where
  "isCondJump op \<longleftrightarrow> jumpFar op = HB_P_JUMPFALSEFAR \<or> jumpFar op = HB_P_JUMPTRUEFAR"

definition isPlainJump :: "HB_BYTE \<Rightarrow> bool" where
  "isPlainJump op \<longleftrightarrow> jumpFar op = HB_P_JUMPFAR \<or> isCondJump op"

text \<open>A jump over nothing leads to the instruction behind it.\<close>

definition jumpOverNothing :: "HB_BYTE list \<Rightarrow> nat \<Rightarrow> bool" where
  "jumpOverNothing code a \<longleftrightarrow> isPlainJump (code ! a) \<and> jumpOffset code a = Some (int (jumpSize code a))"

definition jumpOutcome :: "HB_BYTE list \<Rightarrow> HB_BYTE list \<Rightarrow> nat list \<Rightarrow> nat \<Rightarrow> bool" where
  "jumpOutcome code code' noops' a \<longleftrightarrow>
     (if jumpOverNothing code a then
        (if isCondJump (code ! a) then code' ! a = HB_P_POP \<and> a \<notin> set noops' else a \<in> set noops')
        \<and> (\<forall>i. a < i \<and> i < a + jumpSize code a \<longrightarrow> i \<in> set noops')
      else jumpOffset code' a = jumpOffset code a \<and> jumpFar (code' ! a) = jumpFar (code ! a)
        \<and> jumpSize code' a \<le> jumpSize code a
        \<and> (\<forall>i. a \<le> i \<and> i < a + jumpSize code a \<longrightarrow> (i \<in> set noops') = (a + jumpSize code' a \<le> i)))"

definition shortenStep :: "HB_HFUNC \<Rightarrow> nat \<Rightarrow> HB_HFUNC \<Rightarrow> bool" where
  "shortenStep f a f1 \<longleftrightarrow>
     pJumps f1 = pJumps f \<and> length (pCode f1) = length (pCode f) \<and> noopsWf (pCode f1) (pNOOPs f1)
     \<and> (\<forall>i. i < a \<or> a + jumpSize (pCode f) a \<le> i \<longrightarrow>
          pCode f1 ! i = pCode f ! i \<and> (i \<in> set (pNOOPs f1)) = (i \<in> set (pNOOPs f)))
     \<and> jumpOutcome (pCode f) (pCode f1) (pNOOPs f1) a
     \<and> (pCode f1 ! a = HB_P_NOOP \<or> pCode f1 ! a = HB_P_POP) = jumpOverNothing (pCode f) a"

subsection \<open>Filling\<close>

lemma hb_compNOOPfill_eq:
  "hb_compNOOPfill f p k False False =
     f\<lparr>pCode := pCode (hb_compNOOPfill f p k False False), pNOOPs := pNOOPs f @ [p..<p + k]\<rparr>
   \<and> length (pCode (hb_compNOOPfill f p k False False)) = length (pCode f)
   \<and> (p + k \<le> length (pCode f) \<longrightarrow>
       (\<forall>i. pCode (hb_compNOOPfill f p k False False) ! i
          = (if p \<le> i \<and> i < p + k then HB_P_NOOP else pCode f ! i)))"
proof (induction k arbitrary: f p)
  case (Suc k)
  have "[p..<p + Suc k] = p # [Suc p..<Suc p + k]" by (simp add: upt_conv_Cons)
  then show ?case
    using Suc.IH [of "hb_compNOOPadd f p" "p + 1"]
    by (auto simp: hb_compNOOPadd_def nth_list_update simp del: upt_Suc)
qed auto

lemma fill_fields:
  "pJumps (hb_compNOOPfill f p k False False) = pJumps f"
  "pNOOPs (hb_compNOOPfill f p k False False) = pNOOPs f @ [p..<p + k]"
  "length (pCode (hb_compNOOPfill f p k False False)) = length (pCode f)"
  "p + k \<le> length (pCode f) \<Longrightarrow> pCode (hb_compNOOPfill f p k False False) ! i
     = (if p \<le> i \<and> i < p + k then HB_P_NOOP else pCode f ! i)"
  using hb_compNOOPfill_eq [of f p k] by (metis HB_HFUNC.select_convs HB_HFUNC.surjective HB_HFUNC.update_convs)+

lemma fill_cond_fields:
  assumes "0 < k"
  shows "pJumps (hb_compNOOPfill f p k fPop False) = pJumps f"
    "pNOOPs (hb_compNOOPfill f p k fPop False) = pNOOPs f @ [(if fPop then p + 1 else p)..<p + k]"
    "length (pCode (hb_compNOOPfill f p k fPop False)) = length (pCode f)"
    "p + k \<le> length (pCode f) \<Longrightarrow> pCode (hb_compNOOPfill f p k fPop False) ! i
       = (if fPop \<and> i = p then HB_P_POP else if p \<le> i \<and> i < p + k then HB_P_NOOP else pCode f ! i)"
  using assms by (cases fPop; cases k; simp add: fill_fields del: upt_Suc hb_compNOOPfill.simps(2); auto simp: fill_fields nth_list_update)+

lemma jumpWf_noop_range:
  "jumpWf code N a \<Longrightarrow> n \<in> set N \<Longrightarrow> n < a \<or> a + jumpSize code a \<le> n"
  by (auto simp: jumpWf_def list_all_iff)

subsection \<open>One jump\<close>

text \<open>Dropping a jump over nothing.\<close>

lemma shortenStep_drop:
  assumes j: "jumpWf (pCode f) (pNOOPs f) a" and n: "noopsWf (pCode f) (pNOOPs f)"
    and no: "jumpOverNothing (pCode f) a" and k: "k = jumpSize (pCode f) a" and p: "fPop = isCondJump (pCode f ! a)"
  shows "shortenStep f a (hb_compNOOPfill f a k fPop False)"
proof -
  let ?f1 = "hb_compNOOPfill f a k fPop False"
  have k0: "0 < k" and len: "a + k \<le> length (pCode f)"
    using k jumpSize_bounds [of "pCode f" a] j by (auto simp: jumpWf_def)
  note F = fill_cond_fields [OF k0, where f = f and p = a and fPop = fPop]
  have N: "n \<in> set (pNOOPs f) \<Longrightarrow> n < a \<or> a + k \<le> n" for n using jumpWf_noop_range [OF j] k by simp
  have "noopsWf (pCode ?f1) (pNOOPs ?f1)"
    using n N len by (auto simp: F noopsWf_def list_all_iff) fastforce+
  moreover have "jumpOutcome (pCode f) (pCode ?f1) (pNOOPs ?f1) a"
    using no k0 unfolding jumpOutcome_def k [symmetric] p [symmetric] F(2) F(4) [OF len] by (auto dest!: N)
  ultimately show ?thesis
    using no k0 unfolding shortenStep_def k [symmetric] F(1-3) F(4) [OF len] by (auto dest!: N)
qed

text \<open>A shorter operation code for the same jump.\<close>

lemma shortenStep_shrink:
  assumes j: "jumpWf (pCode f) (pNOOPs f) a" and n: "noopsWf (pCode f) (pNOOPs f)"
    and no: "\<not> jumpOverNothing (pCode f) a"
    and op: "jumpFar op = jumpFar (pCode f ! a)" "isPlainJump op"
    and k: "jumpSize ((pCode f)[a := op]) a = s" "s + k = jumpSize (pCode f) a"
    and off: "jumpOffset ((pCode f)[a := op]) a = jumpOffset (pCode f) a"
  shows "shortenStep f a (hb_compNOOPfill (f\<lparr>pCode := (pCode f)[a := op]\<rparr>) (a + s) k False False)"
proof -
  let ?g = "f\<lparr>pCode := (pCode f)[a := op]\<rparr>" let ?f1 = "hb_compNOOPfill ?g (a + s) k False False"
  have s2: "2 \<le> s" using k(1) jumpSize_bounds [of "(pCode f)[a := op]" a] by simp
  have len: "a + s + k \<le> length (pCode f)" using k j by (simp add: jumpWf_def add.assoc)
  have N: "n \<in> set (pNOOPs f) \<Longrightarrow> n < a \<or> a + s + k \<le> n" for n
    using jumpWf_noop_range [OF j] k(2) by (simp add: add.assoc)
  note F = fill_fields [where f = ?g and p = "a + s" and k = k]
  have byte: "pCode ?f1 ! i = (if a + s \<le> i \<and> i < a + s + k then HB_P_NOOP else if i = a then op else pCode f ! i)" for i
    using F(4) [where i = i] len s2 by (auto simp: nth_list_update)
  have same: "i < s \<Longrightarrow> pCode ?f1 ! (a + i) = (pCode f)[a := op] ! (a + i)" for i
    using byte [of "a + i"] len s2 by (auto simp: nth_list_update)
  have J: "jumpOffset (pCode ?f1) a = jumpOffset (pCode f) a" "jumpSize (pCode ?f1) a = s"
    using jumpOffset_cong [of "(pCode f)[a := op]" a "pCode ?f1" a] same k(1) off by simp_all
  have ops: "pCode ?f1 ! a = op" using byte [of a] s2 by simp
  have notN: "\<not> (op = HB_P_NOOP \<or> op = HB_P_POP)"
    using op(2) by (auto simp: isPlainJump_def isCondJump_def jumpFar_def)
  have "noopsWf (pCode ?f1) (pNOOPs ?f1)"
    using n N len by (auto simp: F noopsWf_def list_all_iff) fastforce+
  moreover have "jumpOutcome (pCode f) (pCode ?f1) (pNOOPs ?f1) a"
    using no J ops op(1) unfolding jumpOutcome_def k(2) [symmetric] by (auto simp: F dest!: N)
  ultimately show ?thesis
    using no ops notN s2 unfolding shortenStep_def k(2) [symmetric] by (auto simp: F byte dest!: N)
qed

lemma shortenStep_keep:
  assumes j: "jumpWf (pCode f) (pNOOPs f) a" and n: "noopsWf (pCode f) (pNOOPs f)"
    and no: "\<not> jumpOverNothing (pCode f) a"
  shows "shortenStep f a f"
proof -
  have "pCode f ! a \<noteq> HB_P_NOOP \<and> pCode f ! a \<noteq> HB_P_POP"
    using j by (auto simp: jumpWf_def jumpOffset_def Let_def split: if_splits)
  then show ?thesis
    using no n by (auto simp: shortenStep_def jumpOutcome_def dest!: jumpWf_noop_range [OF j])
qed

subsection \<open>The cases of the scan\<close>

lemma isPlain_far: "isPlainJump op \<Longrightarrow> op \<noteq> HB_P_NOOP \<and> op \<noteq> HB_P_POP"
  by (auto simp: isPlainJump_def isCondJump_def jumpFar_def)

lemma near_ops:
  assumes "op = HB_P_JUMPNEAR \<or> op = HB_P_JUMPFALSENEAR \<or> op = HB_P_JUMPTRUENEAR"
  shows "isPlainJump op" "code ! a = op \<Longrightarrow> jumpSize code a = 2"
    "code ! a = op \<Longrightarrow> jumpOffset code a = Some (HB_SCHAR_at code (a + 1))"
  using assms by (elim disjE; simp add: isPlainJump_def isCondJump_def jumpFar_def jumpSize_def jumpOffset_def)+

lemma short_ops:
  assumes "op = HB_P_JUMP \<or> op = HB_P_JUMPFALSE \<or> op = HB_P_JUMPTRUE"
  shows "isPlainJump op" "code ! a = op \<Longrightarrow> jumpSize code a = 3"
    "code ! a = op \<Longrightarrow> jumpOffset code a = Some (HB_PCODE_MKSHORT code (a + 1))"
  using assms by (elim disjE; simp add: isPlainJump_def isCondJump_def jumpFar_def jumpSize_def jumpOffset_def)+

lemma far_ops:
  assumes "op = HB_P_JUMPFAR \<or> op = HB_P_JUMPFALSEFAR \<or> op = HB_P_JUMPTRUEFAR"
  shows "isPlainJump op" "code ! a = op \<Longrightarrow> jumpSize code a = 4"
    "code ! a = op \<Longrightarrow> jumpOffset code a = Some (HB_PCODE_MKINT24 code (a + 1))"
  using assms by (elim disjE; simp add: isPlainJump_def isCondJump_def jumpFar_def jumpSize_def jumpOffset_def)+

lemma jumpOffset_ops:
  assumes "jumpOffset code a \<noteq> None"
  shows "(code ! a = HB_P_JUMPNEAR \<or> code ! a = HB_P_JUMPFALSENEAR \<or> code ! a = HB_P_JUMPTRUENEAR)
    \<or> (code ! a = HB_P_JUMP \<or> code ! a = HB_P_JUMPFALSE \<or> code ! a = HB_P_JUMPTRUE)
    \<or> (code ! a = HB_P_JUMPFAR \<or> code ! a = HB_P_JUMPFALSEFAR \<or> code ! a = HB_P_JUMPTRUEFAR)
    \<or> (code ! a = HB_P_ALWAYSBEGIN \<or> code ! a = HB_P_SEQALWAYS \<or> code ! a = HB_P_SEQBEGIN \<or> code ! a = HB_P_SEQEND)"
  by (rule ccontr) (use assms in \<open>simp add: jumpOffset_def Let_def\<close>)

lemma shortenNear_step:
  assumes j: "jumpWf (pCode f) (pNOOPs f) a" and n: "noopsWf (pCode f) (pNOOPs f)"
    and op: "pCode f ! a = HB_P_JUMPNEAR \<or> pCode f ! a = HB_P_JUMPFALSENEAR \<or> pCode f ! a = HB_P_JUMPTRUENEAR"
    and p: "fPop = isCondJump (pCode f ! a)"
  shows "shortenStep f a (shortenNear fPop a f)"
proof -
  note s = near_ops(1) [OF op] near_ops(2,3) [OF op refl]
  show ?thesis
  proof (cases "HB_SCHAR_at (pCode f) (a + 1) = 2")
    case True
    then have "jumpOverNothing (pCode f) a" using s by (simp add: jumpOverNothing_def)
    then show ?thesis using shortenStep_drop [OF j n _ _ p, of 2] s True by (simp add: shortenNear_def)
  next
    case False
    then have "\<not> jumpOverNothing (pCode f) a" using s by (simp add: jumpOverNothing_def)
    then show ?thesis using shortenStep_keep [OF j n] False by (simp add: shortenNear_def)
  qed
qed

lemma shortenShort_step:
  assumes j: "jumpWf (pCode f) (pNOOPs f) a" and n: "noopsWf (pCode f) (pNOOPs f)"
    and op: "pCode f ! a = HB_P_JUMP \<or> pCode f ! a = HB_P_JUMPFALSE \<or> pCode f ! a = HB_P_JUMPTRUE"
    and p: "fPop = isCondJump (pCode f ! a)"
    and opN: "opNear = HB_P_JUMPNEAR \<or> opNear = HB_P_JUMPFALSENEAR \<or> opNear = HB_P_JUMPTRUENEAR"
    and fN: "jumpFar opNear = jumpFar (pCode f ! a)"
  shows "shortenStep f a (shortenShort opNear fPop a f)"
proof -
  let ?off = "HB_PCODE_MKSHORT (pCode f) (a + 1)"
  note s = short_ops(1) [OF op] short_ops(2,3) [OF op refl]
  have "(pCode f)[a := opNear] ! a = opNear" using j s(2) by (simp add: jumpWf_def)
  note near = near_ops(1) [OF opN] near_ops(2,3) [OF opN this]
  show ?thesis
  proof (cases "?off = 3")
    case True
    then have "jumpOverNothing (pCode f) a" using s by (simp add: jumpOverNothing_def)
    then show ?thesis using shortenStep_drop [OF j n _ _ p, of 3] s True by (simp add: shortenShort_def Let_def)
  next
    case False
    then have no: "\<not> jumpOverNothing (pCode f) a" using s by (simp add: jumpOverNothing_def)
    show ?thesis
    proof (cases "HB_LIM_INT8 ?off")
      case True
      have "jumpOffset ((pCode f)[a := opNear]) a = jumpOffset (pCode f) a"
        using MKSHORT_near [OF True] near(3) s(3) by (simp add: HB_SCHAR_at_def)
      then show ?thesis
        using shortenStep_shrink [OF j n no fN near(1,2), of 1] s(2) True False by (simp add: shortenShort_def Let_def)
    qed (use shortenStep_keep [OF j n no] False in \<open>simp add: shortenShort_def Let_def\<close>)
  qed
qed

lemma shortenFar_step:
  assumes j: "jumpWf (pCode f) (pNOOPs f) a" and n: "noopsWf (pCode f) (pNOOPs f)"
    and op: "pCode f ! a = HB_P_JUMPFAR \<or> pCode f ! a = HB_P_JUMPFALSEFAR \<or> pCode f ! a = HB_P_JUMPTRUEFAR"
    and p: "fPop = isCondJump (pCode f ! a)"
    and opN: "opNear = HB_P_JUMPNEAR \<or> opNear = HB_P_JUMPFALSENEAR \<or> opNear = HB_P_JUMPTRUENEAR"
    and opS: "opShort = HB_P_JUMP \<or> opShort = HB_P_JUMPFALSE \<or> opShort = HB_P_JUMPTRUE"
    and fN: "jumpFar opNear = jumpFar (pCode f ! a)" and fS: "jumpFar opShort = jumpFar (pCode f ! a)"
  shows "shortenStep f a (shortenFar iPass opNear opShort fPop a f)"
proof -
  let ?off = "HB_PCODE_MKINT24 (pCode f) (a + 1)"
  note s = far_ops(1) [OF op] far_ops(2,3) [OF op refl]
  have upd: "(pCode f)[a := opNear] ! a = opNear" "(pCode f)[a := opShort] ! a = opShort"
    using j s(2) by (simp_all add: jumpWf_def)
  note near = near_ops(1) [OF opN] near_ops(2,3) [OF opN upd(1)]
  note short = short_ops(1) [OF opS] short_ops(2,3) [OF opS upd(2)]
  show ?thesis
  proof (cases "?off = 4")
    case True
    then have "jumpOverNothing (pCode f) a" using s by (simp add: jumpOverNothing_def)
    then show ?thesis using shortenStep_drop [OF j n _ _ p, of 4] s True by (simp add: shortenFar_def Let_def)
  next
    case no4: False
    then have no: "\<not> jumpOverNothing (pCode f) a" using s by (simp add: jumpOverNothing_def)
    show ?thesis
    proof (cases "0 < iPass \<and> HB_LIM_INT16 ?off")
      case pass: True
      note w = MKINT24_short [OF conjunct2 [OF pass]]
      show ?thesis
      proof (cases "HB_LIM_INT8 ?off")
        case True
        have "HB_SCHAR_at (pCode f) (a + 1) = ?off"
          using MKSHORT_near [of "pCode f" "a + 1"] True w by simp
        then have "jumpOffset ((pCode f)[a := opNear]) a = jumpOffset (pCode f) a"
          using near(3) s(3) by (simp add: HB_SCHAR_at_def)
        then show ?thesis
          using shortenStep_shrink [OF j n no fN near(1,2), of 2] s(2) True no4 pass by (simp add: shortenFar_def Let_def)
      next
        case False
        have "jumpOffset ((pCode f)[a := opShort]) a = jumpOffset (pCode f) a"
          using short(3) s(3) w by (simp add: HB_PCODE_MKSHORT_def)
        then show ?thesis
          using shortenStep_shrink [OF j n no fS short(1,2), of 1] s(2) False no4 pass by (simp add: shortenFar_def Let_def)
      qed
    qed (use shortenStep_keep [OF j n no] no4 in \<open>auto simp: shortenFar_def Let_def\<close>)
  qed
qed

lemma optJumps_shorten1_step:
  assumes j: "jumpWf (pCode f) (pNOOPs f) a" and n: "noopsWf (pCode f) (pNOOPs f)"
  shows "shortenStep f a (optJumps_shorten1 iPass a f)"
proof -
  note N = shortenNear_step [OF j n] and S = shortenShort_step [OF j n] and F = shortenFar_step [OF j n]
  note d = optJumps_shorten1_def Let_def isCondJump_def jumpFar_def
  have "jumpOffset (pCode f) a \<noteq> None" using j by (simp add: jumpWf_def)
  from jumpOffset_ops [OF this] show ?thesis
  proof (elim disjE)
    assume op: "pCode f ! a = HB_P_ALWAYSBEGIN"
    then show ?thesis using shortenStep_keep [OF j n] by (simp add: jumpOverNothing_def isPlainJump_def d)
  next
    assume op: "pCode f ! a = HB_P_SEQALWAYS"
    then show ?thesis using shortenStep_keep [OF j n] by (simp add: jumpOverNothing_def isPlainJump_def d)
  next
    assume op: "pCode f ! a = HB_P_SEQBEGIN"
    then show ?thesis using shortenStep_keep [OF j n] by (simp add: jumpOverNothing_def isPlainJump_def d)
  next
    assume op: "pCode f ! a = HB_P_SEQEND"
    then show ?thesis using shortenStep_keep [OF j n] by (simp add: jumpOverNothing_def isPlainJump_def d)
  next
    assume "pCode f ! a = HB_P_JUMPNEAR" then show ?thesis using N [of False] by (simp add: d)
  next
    assume "pCode f ! a = HB_P_JUMPFALSENEAR" then show ?thesis using N [of True] by (simp add: d)
  next
    assume "pCode f ! a = HB_P_JUMPTRUENEAR" then show ?thesis using N [of True] by (simp add: d)
  next
    assume "pCode f ! a = HB_P_JUMP"
    then show ?thesis using S [of False HB_P_JUMPNEAR] by (simp add: d)
  next
    assume "pCode f ! a = HB_P_JUMPFALSE"
    then show ?thesis using S [of True HB_P_JUMPFALSENEAR] by (simp add: d)
  next
    assume "pCode f ! a = HB_P_JUMPTRUE"
    then show ?thesis using S [of True HB_P_JUMPTRUENEAR] by (simp add: d)
  next
    assume "pCode f ! a = HB_P_JUMPFAR"
    then show ?thesis using F [of False HB_P_JUMPNEAR HB_P_JUMP] by (simp add: d)
  next
    assume "pCode f ! a = HB_P_JUMPFALSEFAR"
    then show ?thesis using F [of True HB_P_JUMPFALSENEAR HB_P_JUMPFALSE] by (simp add: d)
  next
    assume "pCode f ! a = HB_P_JUMPTRUEFAR"
    then show ?thesis using F [of True HB_P_JUMPTRUENEAR HB_P_JUMPTRUE] by (simp add: d)
  qed
qed

subsection \<open>The loop over the jumps\<close>

text \<open>The array may still hold jumps of dead code, whose bytes have been filled already.\<close>

definition liveJump :: "HB_BYTE list \<Rightarrow> nat \<Rightarrow> bool" where
  "liveJump code a \<longleftrightarrow> code ! a \<noteq> HB_P_NOOP"

definition jumpsWf :: "HB_BYTE list \<Rightarrow> nat list \<Rightarrow> nat list \<Rightarrow> bool" where
  "jumpsWf code noops jumps \<longleftrightarrow>
     noopsWf code noops \<and> distinct jumps
     \<and> list_all (\<lambda>a. if liveJump code a then jumpWf code noops a else a \<in> set noops) jumps
     \<and> jumpsDisjoint code (filter (liveJump code) jumps)"

definition shortenRel :: "nat list \<Rightarrow> HB_HFUNC \<Rightarrow> HB_HFUNC \<Rightarrow> bool" where
  "shortenRel js f f' \<longleftrightarrow>
     length (pCode f') = length (pCode f) \<and> noopsWf (pCode f') (pNOOPs f')
     \<and> (\<forall>i. (\<forall>a\<in>set js. liveJump (pCode f) a \<longrightarrow> i < a \<or> a + jumpSize (pCode f) a \<le> i) \<longrightarrow>
          pCode f' ! i = pCode f ! i \<and> (i \<in> set (pNOOPs f')) = (i \<in> set (pNOOPs f)))
     \<and> (\<forall>a\<in>set js. liveJump (pCode f) a \<longrightarrow> jumpOutcome (pCode f) (pCode f') (pNOOPs f') a)"

lemma jumpOutcome_cong:
  assumes "\<And>i. a \<le> i \<Longrightarrow> i < a + jumpSize code a \<Longrightarrow> code2 ! i = code1 ! i \<and> (i \<in> set N2) = (i \<in> set N1)"
    and "jumpOutcome code code1 N1 a"
  shows "jumpOutcome code code2 N2 a"
proof (cases "jumpOverNothing code a")
  case True
  then show ?thesis using assms jumpSize_bounds [of code a] by (auto simp: jumpOutcome_def)
next
  case False
  have le: "jumpSize code1 a \<le> jumpSize code a" using assms(2) False by (simp add: jumpOutcome_def)
  then have "code2 ! (a + i) = code1 ! (a + i)" if "i < jumpSize code1 a" for i using assms(1) [of "a + i"] that by simp
  from jumpOffset_cong [OF this] show ?thesis
    using assms False jumpSize_bounds [of code a] by (auto simp: jumpOutcome_def)
qed

lemma jumpOutcome_source:
  assumes "\<And>i. i < jumpSize code a \<Longrightarrow> code1 ! (a + i) = code ! (a + i)" and "jumpOutcome code1 code' N' a"
  shows "jumpOutcome code code' N' a"
proof -
  have eqs: "jumpOffset code1 a = jumpOffset code a" "jumpSize code1 a = jumpSize code a" "code1 ! a = code ! a"
    using jumpOffset_cong [of code a code1 a, OF assms(1)] assms(1) [of 0] jumpSize_bounds [of code a] by simp_all
  show ?thesis using assms(2) unfolding jumpOutcome_def jumpOverNothing_def eqs .
qed

lemma jumpWf_cong:
  assumes "\<And>i. i < jumpSize code a \<Longrightarrow> code1 ! (a + i) = code ! (a + i) \<and> (a + i \<in> set N1) = (a + i \<in> set N)"
    and "length code1 = length code"
  shows "jumpWf code N a \<Longrightarrow> jumpWf code1 N1 a"
proof -
  assume j: "jumpWf code N a"
  have c: "jumpOffset code1 a = jumpOffset code a" "jumpSize code1 a = jumpSize code a"
    using jumpOffset_cong [of code a code1 a] assms(1) by blast+
  have "n < a \<or> a + jumpSize code a \<le> n" if "n \<in> set N1" for n
  proof (rule ccontr)
    assume "\<not> (n < a \<or> a + jumpSize code a \<le> n)"
    then obtain i where "n = a + i" "i < jumpSize code a" using le_Suc_ex [of a n] by auto
    then show False using assms(1) [of i] jumpWf_notin [OF j, of i] that by simp
  qed
  then show ?thesis using j c assms(2) by (auto simp: jumpWf_def list_all_iff)
qed

lemma jumpsWf_D:
  assumes "jumpsWf code N js" "a \<in> set js" "liveJump code a"
  shows "jumpWf code N a" "noopsWf code N"
    and "b \<in> set js \<Longrightarrow> liveJump code b \<Longrightarrow> b \<noteq> a \<Longrightarrow> i < jumpSize code a \<Longrightarrow> a + i < b \<or> b + jumpSize code b \<le> a + i"
proof -
  show "jumpWf code N a" "noopsWf code N" using assms by (auto simp: jumpsWf_def list_all_iff)
  assume b: "b \<in> set js" "liveJump code b" "b \<noteq> a" "i < jumpSize code a"
  then have "a < b \<or> b < a" by linarith
  then show "a + i < b \<or> b + jumpSize code b \<le> a + i"
  proof
    assume "a < b"
    then have "a + jumpSize code a \<le> b" using assms b by (auto simp: jumpsWf_def jumpsDisjoint_def list_all_iff)
    then show ?thesis using b by simp
  next
    assume "b < a"
    then have "b + jumpSize code b \<le> a" using assms b by (auto simp: jumpsWf_def jumpsDisjoint_def list_all_iff)
    then show ?thesis by simp
  qed
qed

lemma jumpOutcome_bytes: "shortenStep f a f1 \<Longrightarrow> i < a \<or> a + jumpSize (pCode f) a \<le> i \<Longrightarrow>
    pCode f1 ! i = pCode f ! i \<and> (i \<in> set (pNOOPs f1)) = (i \<in> set (pNOOPs f))"
  unfolding shortenStep_def by blast

lemma optJumps_shorten_loop:
  assumes "jumpsWf (pCode f) (pNOOPs f) (take k (pJumps f))" "k \<le> length (pJumps f)"
  shows "shortenRel (take k (pJumps f)) f (optJumps_shorten iPass k f)
    \<and> pJumps (optJumps_shorten iPass k f)
      = filter (\<lambda>a. liveJump (pCode f) a \<and> \<not> jumpOverNothing (pCode f) a) (take k (pJumps f)) @ drop k (pJumps f)"
  using assms
proof (induction k arbitrary: f)
  case 0
  then show ?case by (simp add: shortenRel_def jumpsWf_def)
next
  case (Suc k)
  let ?J = "pJumps f" let ?b = "?J ! k" let ?T = "take k ?J"
  have T: "take (Suc k) ?J = ?T @ [?b]" and D: "drop k ?J = ?b # drop (Suc k) ?J"
    using Suc.prems(2) by (simp_all add: take_Suc_conv_app_nth Cons_nth_drop_Suc)
  have len: "length ?T = k" using Suc.prems(2) by simp
  let ?f1 = "optJumps_shorten1 iPass ?b f"
  have b: "?b \<in> set (take (Suc k) ?J)" and bT: "?b \<notin> set ?T" using Suc.prems T by (auto simp: jumpsWf_def)
  show ?case
  proof (cases "liveJump (pCode f) ?b")
    case False
    then have f1: "?f1 = f" and op: "pCode f ! ?b = HB_P_NOOP"
      by (auto simp: liveJump_def optJumps_shorten1_def Let_def)
    let ?g = "f\<lparr>pJumps := ?T @ drop (Suc k) ?J\<rparr>"
    have "jumpsWf (pCode ?g) (pNOOPs ?g) (take k (pJumps ?g))"
      using Suc.prems(1) False len unfolding T by (auto simp: jumpsWf_def)
    note IH = Suc.IH [OF this]
    have "optJumps_shorten iPass (Suc k) f = optJumps_shorten iPass k ?g"
      using f1 op by (simp add: Let_def)
    then show ?thesis
      using IH False len Suc.prems(2) unfolding T by (simp add: shortenRel_def)
  next
    case True
    have j: "jumpWf (pCode f) (pNOOPs f) ?b" and n: "noopsWf (pCode f) (pNOOPs f)"
      using jumpsWf_D [OF Suc.prems(1) b True] by simp_all
    have st: "shortenStep f ?b ?f1" by (rule optJumps_shorten1_step [OF j n])
    note out = jumpOutcome_bytes [OF st]
    let ?gone = "jumpOverNothing (pCode f) ?b"
    let ?g = "if ?gone then ?f1\<lparr>pJumps := ?T @ drop (Suc k) ?J\<rparr> else ?f1"
    have g: "pCode ?g = pCode ?f1" "pNOOPs ?g = pNOOPs ?f1" "take k (pJumps ?g) = ?T"
      "drop k (pJumps ?g) = (if ?gone then drop (Suc k) ?J else ?b # drop (Suc k) ?J)" "k \<le> length (pJumps ?g)"
      using st D len Suc.prems(2) by (auto simp: shortenStep_def)
    have keep: "pCode ?f1 ! (a + i) = pCode f ! (a + i) \<and> (a + i \<in> set (pNOOPs ?f1)) = (a + i \<in> set (pNOOPs f))"
      if "a \<in> set ?T" "liveJump (pCode f) a" "i < jumpSize (pCode f) a" for a i
    proof (rule out)
      have "a \<noteq> ?b" using that(1) bT by auto
      then show "a + i < ?b \<or> ?b + jumpSize (pCode f) ?b \<le> a + i"
        using jumpsWf_D(3) [OF Suc.prems(1) _ that(2) b True _ that(3)] that(1) T by auto
    qed
    have dead: "pCode ?f1 ! a = pCode f ! a \<and> a \<in> set (pNOOPs ?f1)" if "a \<in> set ?T" "\<not> liveJump (pCode f) a" for a
    proof -
      have a: "a \<in> set (pNOOPs f)" using Suc.prems(1) that T by (auto simp: jumpsWf_def list_all_iff)
      then show ?thesis using out [of a] jumpWf_noop_range [OF j a] by simp
    qed
    have live: "liveJump (pCode ?f1) a = liveJump (pCode f) a" if "a \<in> set ?T" for a
      using keep [OF that _, of 0] dead [OF that] jumpSize_bounds [of "pCode f" a]
      by (cases "liveJump (pCode f) a") (auto simp: liveJump_def)
    have size: "jumpSize (pCode ?f1) a = jumpSize (pCode f) a" "jumpOffset (pCode ?f1) a = jumpOffset (pCode f) a"
      "pCode ?f1 ! a = pCode f ! a" if "a \<in> set ?T" "liveJump (pCode f) a" for a
      using jumpOffset_cong [of "pCode f" a "pCode ?f1" a] keep [OF that] keep [OF that, of 0]
        jumpSize_bounds [of "pCode f" a] by simp_all
    have wf: "jumpsWf (pCode ?g) (pNOOPs ?g) (take k (pJumps ?g))"
    proof -
      have "jumpWf (pCode ?f1) (pNOOPs ?f1) a" if "a \<in> set ?T" "liveJump (pCode f) a" for a
        using jumpWf_cong [OF keep [OF that]] st jumpsWf_D(1) [OF Suc.prems(1) _ that(2)] that(1) T
        by (simp add: shortenStep_def)
      moreover have "filter (liveJump (pCode ?f1)) ?T = filter (liveJump (pCode f)) ?T"
        using live by (rule filter_cong [OF refl])
      moreover have "jumpsDisjoint (pCode ?f1) (filter (liveJump (pCode f)) ?T)"
        using Suc.prems(1) size unfolding T by (auto simp: jumpsWf_def jumpsDisjoint_def list_all_iff)
      ultimately show ?thesis
        using Suc.prems(1) st live dead unfolding g T by (auto simp: jumpsWf_def list_all_iff shortenStep_def)
    qed
    have run: "optJumps_shorten iPass (Suc k) f = optJumps_shorten iPass k ?g"
      using st by (auto simp: Let_def shortenStep_def)
    note IH = Suc.IH [OF wf g(5), unfolded g(1-3), folded run]
    let ?f' = "optJumps_shorten iPass (Suc k) f"
    have tail: "pCode ?f' ! i = pCode ?f1 ! i \<and> (i \<in> set (pNOOPs ?f')) = (i \<in> set (pNOOPs ?f1))"
      if "\<forall>a\<in>set ?T. liveJump (pCode f) a \<longrightarrow> i < a \<or> a + jumpSize (pCode f) a \<le> i" for i
      using IH that live size by (simp add: shortenRel_def g)
    have "jumpOutcome (pCode f) (pCode ?f') (pNOOPs ?f') ?b"
    proof (rule jumpOutcome_cong)
      show "jumpOutcome (pCode f) (pCode ?f1) (pNOOPs ?f1) ?b" using st by (simp add: shortenStep_def)
      fix i assume i: "?b \<le> i" "i < ?b + jumpSize (pCode f) ?b"
      show "pCode ?f' ! i = pCode ?f1 ! i \<and> (i \<in> set (pNOOPs ?f')) = (i \<in> set (pNOOPs ?f1))"
      proof (rule tail, intro ballI impI)
        fix a assume a: "a \<in> set ?T" "liveJump (pCode f) a"
        then have "a \<noteq> ?b" "a \<in> set (take (Suc k) ?J)" using bT T by auto
        moreover obtain d where "i = ?b + d" "d < jumpSize (pCode f) ?b" using i le_Suc_ex [of ?b i] by auto
        ultimately show "i < a \<or> a + jumpSize (pCode f) a \<le> i"
          using jumpsWf_D(3) [OF Suc.prems(1) b True, of a d] a(2) by simp
      qed
    qed
    moreover have "jumpOutcome (pCode f) (pCode ?f') (pNOOPs ?f') a" if "a \<in> set ?T" "liveJump (pCode f) a" for a
      using IH that live keep [OF that] by (intro jumpOutcome_source [of "pCode f" a "pCode ?f1"]) (auto simp: shortenRel_def g)
    moreover have "pCode ?f' ! i = pCode f ! i \<and> (i \<in> set (pNOOPs ?f')) = (i \<in> set (pNOOPs f))"
      if "\<forall>a\<in>set (take (Suc k) ?J). liveJump (pCode f) a \<longrightarrow> i < a \<or> a + jumpSize (pCode f) a \<le> i" for i
      using tail [of i] out [of i] that True unfolding T by auto
    ultimately have "shortenRel (take (Suc k) ?J) f ?f'"
      using IH st unfolding T by (auto simp: shortenRel_def g shortenStep_def)
    moreover have "filter (\<lambda>a. liveJump (pCode ?f1) a \<and> \<not> jumpOverNothing (pCode ?f1) a) ?T
        = filter (\<lambda>a. liveJump (pCode f) a \<and> \<not> jumpOverNothing (pCode f) a) ?T"
      using live size by (intro filter_cong) (auto simp: jumpOverNothing_def)
    ultimately show ?thesis
      using IH True g(4) unfolding T by (auto simp: g)
  qed
qed

end
