(* ===== verification/HbJumpProps.thy ===== *)
theory HbJumpProps
  imports HbJumpShorten
begin

text \<open>
  The properties of the jumps: a pass of the jump optimizer keeps the control flow, and a patched jump
  leads where it should or the error is reported.
\<close>

subsection \<open>A pass of the optimizer\<close>

lemma shorten_codeWf:
  assumes wf: "jumpsWf (pCode f) (pNOOPs f) (pJumps f)"
  shows "codeWf (optJumps_shorten iPass (length (pJumps f)) f)"
proof -
  let ?f = "optJumps_shorten iPass (length (pJumps f)) f"
  let ?K = "filter (\<lambda>a. liveJump (pCode f) a \<and> \<not> jumpOverNothing (pCode f) a) (pJumps f)"
  have rel: "shortenRel (pJumps f) f ?f" and J: "pJumps ?f = ?K"
    using optJumps_shorten_loop [of f "length (pJumps f)" iPass] wf by simp_all
  have out: "jumpOffset (pCode ?f) a = jumpOffset (pCode f) a" "jumpSize (pCode ?f) a \<le> jumpSize (pCode f) a"
    "\<And>i. a \<le> i \<Longrightarrow> i < a + jumpSize (pCode f) a \<Longrightarrow> (i \<in> set (pNOOPs ?f)) = (a + jumpSize (pCode ?f) a \<le> i)"
    if "a \<in> set ?K" for a
    using rel that by (auto simp: shortenRel_def jumpOutcome_def)
  have live: "jumpWf (pCode f) (pNOOPs f) a" if "a \<in> set ?K" for a using jumpsWf_D(1) [OF wf] that by simp
  have "jumpWf (pCode ?f) (pNOOPs ?f) a" if a: "a \<in> set ?K" for a
  proof -
    have "n < a \<or> a + jumpSize (pCode ?f) a \<le> n" if "n \<in> set (pNOOPs ?f)" for n
      using out(3) [OF a, of n] out(2) [OF a] that by (cases "a \<le> n \<and> n < a + jumpSize (pCode f) a") auto
    then show ?thesis
      using live [OF a] out(1,2) [OF a] rel by (simp add: jumpWf_def shortenRel_def list_all_iff)
  qed
  moreover have "a + jumpSize (pCode ?f) a \<le> b" if "a \<in> set ?K" "b \<in> set ?K" "a < b" for a b
  proof -
    have "a + jumpSize (pCode f) a \<le> b"
      using wf that by (auto simp: jumpsWf_def jumpsDisjoint_def list_all_iff)
    then show ?thesis using out(2) [OF that(1)] by simp
  qed
  ultimately show ?thesis
    using rel wf unfolding codeWf_def J by (auto simp: shortenRel_def jumpsDisjoint_def jumpsWf_def list_all_iff)
qed

definition shortened :: "HB_HFUNC \<Rightarrow> HB_HFUNC \<Rightarrow> bool" where
  "shortened f f1 \<longleftrightarrow> shortenRel (pJumps f) f f1 \<and> codeWf f1
     \<and> pJumps f1 = filter (\<lambda>a. liveJump (pCode f) a \<and> \<not> jumpOverNothing (pCode f) a) (pJumps f)"

lemma shorten_shortened:
  "jumpsWf (pCode f) (pNOOPs f) (pJumps f) \<Longrightarrow> shortened f (optJumps_shorten iPass (length (pJumps f)) f)"
  using optJumps_shorten_loop [of f "length (pJumps f)" iPass] shorten_codeWf by (simp add: shortened_def)

lemma shortened_D:
  assumes "shortened f f1"
  shows "distinct (pNOOPs f1)" "noopsWf (pCode f1) (pNOOPs f1)" "length (pCode f1) = length (pCode f)"
    "a \<in> set (pJumps f) \<Longrightarrow> liveJump (pCode f) a \<Longrightarrow> jumpOutcome (pCode f) (pCode f1) (pNOOPs f1) a"
    "b \<in> set (pJumps f1) \<Longrightarrow> b \<in> set (pJumps f) \<and> liveJump (pCode f) b \<and> \<not> jumpOverNothing (pCode f) b
       \<and> jumpSize (pCode f1) b \<le> jumpSize (pCode f) b"
  using assms by (auto simp: shortened_def shortenRel_def codeWf_def noopsWf_def jumpOutcome_def)

lemma optPos_next: "distinct N \<Longrightarrow> i \<notin> set N \<Longrightarrow> optPos N (i + 1) = optPos N i + 1"
  using optPos_stretch [of N i 1] by (auto simp: le_less_Suc_eq)

text \<open>A stretch of removed bytes shares its position with the byte behind it.\<close>

lemma optPos_removed:
  assumes d: "distinct N" and le: "p \<le> q" and all: "\<And>i. p \<le> i \<Longrightarrow> i < q \<Longrightarrow> i \<in> set N"
  shows "optPos N q = optPos N p"
proof -
  have "{n. (p \<le> n \<and> n < q) \<and> n \<in> set N} = {p..<q}" using all by auto
  then have "length (filter (\<lambda>n. p \<le> n \<and> n < q) N) = q - p"
    by (simp add: distinct_length_filter [OF d] Int_def)
  then show ?thesis
    using count_below_split [OF d le] optPos_add_count [OF d, of p] optPos_add_count [OF d, of q] le by simp
qed

lemma compacted_byte:
  "compacted f1 f' \<Longrightarrow> i < length (pCode f1) \<Longrightarrow> i \<notin> set (pNOOPs f1) \<Longrightarrow>
   (\<And>b. b \<in> set (pJumps f1) \<Longrightarrow> i \<le> b \<or> b + jumpSize (pCode f1) b \<le> i) \<Longrightarrow>
   pCode f' ! optPos (pNOOPs f1) i = pCode f1 ! i"
  by (simp add: compacted_def)

lemma pass_byte:
  assumes sh: "shortened f f1" and c: "compacted f1 f'"
    and i: "i < length (pCode f)" "i \<notin> set (pNOOPs f)"
      "\<forall>a\<in>set (pJumps f). liveJump (pCode f) a \<longrightarrow> i < a \<or> a + jumpSize (pCode f) a \<le> i"
  shows "pCode f' ! optPos (pNOOPs f1) i = pCode f ! i" "optPos (pNOOPs f1) (i + 1) = optPos (pNOOPs f1) i + 1"
proof -
  have same: "pCode f1 ! i = pCode f ! i" "i \<notin> set (pNOOPs f1)"
    using sh i by (auto simp: shortened_def shortenRel_def)
  have "i \<le> b \<or> b + jumpSize (pCode f1) b \<le> i" if "b \<in> set (pJumps f1)" for b
    using shortened_D(5) [OF sh that] i(3) by force
  then show "pCode f' ! optPos (pNOOPs f1) i = pCode f ! i"
    using compacted_byte [OF c _ same(2)] i(1) same(1) shortened_D(3) [OF sh] by simp
  show "optPos (pNOOPs f1) (i + 1) = optPos (pNOOPs f1) i + 1"
    by (rule optPos_next [OF shortened_D(1) [OF sh] same(2)])
qed

text \<open>The operation code at the place of a jump.\<close>

lemma pass_opcode:
  assumes wf: "jumpsWf (pCode f) (pNOOPs f) (pJumps f)" and sh: "shortened f f1" and c: "compacted f1 f'"
    and a: "a \<in> set (pJumps f)" "liveJump (pCode f) a" and aN: "a \<notin> set (pNOOPs f1)"
  shows "pCode f' ! optPos (pNOOPs f1) a = pCode f1 ! a"
proof (rule compacted_byte [OF c _ aN])
  show "a < length (pCode f1)"
    using jumpsWf_D(1) [OF wf a] jumpSize_bounds [of "pCode f" a] shortened_D(3) [OF sh] by (simp add: jumpWf_def)
  fix b assume "b \<in> set (pJumps f1)"
  note b = shortened_D(5) [OF sh this]
  show "a \<le> b \<or> b + jumpSize (pCode f1) b \<le> a"
    using jumpsWf_D(3) [OF wf a, of b 0] b jumpSize_bounds [of "pCode f" a] by (cases "b = a") auto
qed

lemma pass_drop:
  assumes wf: "jumpsWf (pCode f) (pNOOPs f) (pJumps f)" and sh: "shortened f f1" and c: "compacted f1 f'"
    and a: "a \<in> set (pJumps f)" "liveJump (pCode f) a" and no: "jumpOverNothing (pCode f) a"
  shows "optPos (pNOOPs f1) (jumpTarget (pCode f) a)
      = (if isCondJump (pCode f ! a) then optPos (pNOOPs f1) a + 1 else optPos (pNOOPs f1) a)
    \<and> (isCondJump (pCode f ! a) \<longrightarrow> pCode f' ! optPos (pNOOPs f1) a = HB_P_POP)"
proof -
  let ?pos = "optPos (pNOOPs f1)"
  note d = shortened_D(1) [OF sh] and out = shortened_D(4) [OF sh a]
  have "jumpTarget (pCode f) a = a + jumpSize (pCode f) a"
    using jumpTarget_int [OF jumpsWf_D(2,1) [OF wf a]] no by (simp add: jumpOverNothing_def)
  moreover have p1: "?pos (a + jumpSize (pCode f) a) = ?pos (a + 1)"
    using out no jumpSize_bounds [of "pCode f" a] by (intro optPos_removed [OF d]) (auto simp: jumpOutcome_def)
  moreover have "pCode f' ! ?pos a = HB_P_POP" "?pos (a + 1) = ?pos a + 1" if "isCondJump (pCode f ! a)"
  proof -
    have pop: "pCode f1 ! a = HB_P_POP" "a \<notin> set (pNOOPs f1)" using out no that by (auto simp: jumpOutcome_def)
    show "pCode f' ! ?pos a = HB_P_POP" using pass_opcode [OF wf sh c a pop(2)] pop(1) by simp
    show "?pos (a + 1) = ?pos a + 1" by (rule optPos_next [OF d pop(2)])
  qed
  moreover have "?pos (a + 1) = ?pos a" if "\<not> isCondJump (pCode f ! a)"
    using out no that by (intro optPos_removed [OF d]) (auto simp: jumpOutcome_def le_less_Suc_eq)
  ultimately show ?thesis by simp
qed

lemma pass_keep:
  assumes wf: "jumpsWf (pCode f) (pNOOPs f) (pJumps f)" and sh: "shortened f f1" and c: "compacted f1 f'"
    and a: "a \<in> set (pJumps f)" "liveJump (pCode f) a" and no: "\<not> jumpOverNothing (pCode f) a"
  shows "jumpFar (pCode f' ! optPos (pNOOPs f1) a) = jumpFar (pCode f ! a)
    \<and> jumpTarget (pCode f') (optPos (pNOOPs f1) a) = optPos (pNOOPs f1) (jumpTarget (pCode f) a)
    \<and> optPos (pNOOPs f1) (a + jumpSize (pCode f) a) = optPos (pNOOPs f1) a + jumpSize (pCode f') (optPos (pNOOPs f1) a)"
proof -
  let ?pos = "optPos (pNOOPs f1)" let ?s = "jumpSize (pCode f1) a" let ?t = "jumpSize (pCode f) a"
  note d = shortened_D(1) [OF sh]
  have a1: "a \<in> set (pJumps f1)" using sh a no by (simp add: shortened_def)
  have o: "jumpOffset (pCode f1) a = jumpOffset (pCode f) a" "jumpFar (pCode f1 ! a) = jumpFar (pCode f ! a)" "?s \<le> ?t"
    "\<And>i. a \<le> i \<Longrightarrow> i < a + ?t \<Longrightarrow> (i \<in> set (pNOOPs f1)) = (a + ?s \<le> i)"
    using shortened_D(4) [OF sh a] no by (simp_all add: jumpOutcome_def)
  have aN: "a \<notin> set (pNOOPs f1)" using o(4) [of a] jumpSize_bounds [of "pCode f" a] jumpSize_bounds [of "pCode f1" a] by simp
  have "jumpTarget (pCode f') (?pos a) = ?pos (jumpTarget (pCode f) a)"
    using compacted_target [OF _ c a1] sh o(1) by (simp add: shortened_def jumpTarget_def)
  moreover have "?pos (a + ?t) = ?pos (a + ?s)"
    using o(3,4) by (intro optPos_removed [OF d]) auto
  moreover have "?pos (a + ?s) = ?pos a + ?s"
    using o(3,4) by (intro optPos_stretch [OF d]) auto
  moreover have "jumpSize (pCode f') (?pos a) = ?s" using c a1 by (simp add: compacted_def)
  ultimately show ?thesis using pass_opcode [OF wf sh c a aN] o(2) by simp
qed

lemma compacted_refl:
  assumes "codeWf f" "pNOOPs f = []" shows "compacted f f"
proof -
  have pos: "optPos [] = (\<lambda>p. p)" by (simp add: optPos_def fun_eq_iff)
  have "jumpOffset (pCode f) a = Some (int (jumpTarget (pCode f) a) - int a)" if "a \<in> set (pJumps f)" for a
    using assms that jumpTarget_int [of "pCode f" "[]" a] by (auto simp: codeWf_def list_all_iff jumpWf_def)
  then show ?thesis using assms(2) by (simp add: compacted_def pos)
qed

lemma optJumps_pass_main:
  assumes wf: "jumpsWf (pCode (pLast c)) (pNOOPs (pLast c)) (pJumps (pLast c))"
  shows "\<exists>c'. optJumps_pass iPass c = Some c' \<and> compErrors c' = compErrors c \<and> codeWf (pLast c')
    \<and> (let f = pLast c; f' = pLast c'; code = pCode f; code' = pCode f';
           pos = optPos (pNOOPs (optJumps_shorten iPass (length (pJumps f)) f))
       in pNOOPs f' = [] \<and> length code' = pos (length code)
        \<and> pJumps f' = map pos (filter (\<lambda>a. liveJump code a \<and> \<not> jumpOverNothing code a) (pJumps f))
        \<and> (\<forall>i<length code. i \<notin> set (pNOOPs f) \<longrightarrow>
             (\<forall>a\<in>set (pJumps f). liveJump code a \<longrightarrow> i < a \<or> a + jumpSize code a \<le> i) \<longrightarrow>
             code' ! pos i = code ! i \<and> pos (i + 1) = pos i + 1)
        \<and> (\<forall>a\<in>set (pJumps f). liveJump code a \<longrightarrow>
             (if jumpOverNothing code a then
                pos (jumpTarget code a) = (if isCondJump (code ! a) then pos a + 1 else pos a)
                \<and> (isCondJump (code ! a) \<longrightarrow> code' ! pos a = HB_P_POP)
              else jumpFar (code' ! pos a) = jumpFar (code ! a)
                \<and> jumpTarget code' (pos a) = pos (jumpTarget code a)
                \<and> pos (a + jumpSize code a) = pos a + jumpSize code' (pos a))))"
proof -
  let ?f = "pLast c" let ?f1 = "optJumps_shorten iPass (length (pJumps ?f)) ?f"
  have sh: "shortened ?f ?f1" by (rule shorten_shortened [OF wf])
  then have wf1: "codeWf ?f1" by (simp add: shortened_def)
  obtain f' where f': "optJumps_pass iPass c = Some (c\<lparr>pLast := f'\<rparr>)" and c: "compacted ?f1 f'"
  proof (cases "pNOOPs ?f1 = []")
    case True
    then show ?thesis using compacted_refl [OF wf1] by (intro that [of ?f1]) (simp_all add: optJumps_pass_def Let_def)
  next
    case False
    from optJumps_compact_main [of "c\<lparr>pLast := ?f1\<rparr>"] wf1 obtain f' where
      "optJumps_compact (c\<lparr>pLast := ?f1\<rparr>) = Some (c\<lparr>pLast := ?f1, pLast := f'\<rparr>)" "compacted ?f1 f'" by auto
    then show ?thesis using False by (intro that [of f']) (simp_all add: optJumps_pass_def Let_def)
  qed
  have "codeWf f'" by (rule compacted_codeWf [OF wf1 c])
  moreover have "pNOOPs f' = []" "length (pCode f') = optPos (pNOOPs ?f1) (length (pCode ?f))"
    "pJumps f' = map (optPos (pNOOPs ?f1)) (filter (\<lambda>a. liveJump (pCode ?f) a \<and> \<not> jumpOverNothing (pCode ?f) a) (pJumps ?f))"
    using c sh shortened_D(3) [OF sh] by (simp_all add: compacted_def shortened_def)
  ultimately show ?thesis
    using f' pass_byte [OF sh c] pass_drop [OF wf sh c] pass_keep [OF wf sh c]
    by (intro exI [of _ "c\<lparr>pLast := f'\<rparr>"]) (simp add: Let_def)
qed

text \<open>C4. A pass of the jump optimizer keeps the control flow. From a function whose live jumps are
  well-formed, whatever jumps of dead code the array still holds, a pass succeeds without an error. With
  \<open>optPos\<close> the new position of each byte: every byte outside the jumps and outside the removed ones is
  at its new position, next to the same neighbour; each jump that is not over nothing is kept, is of the
  same kind, leads to the new position of its target and is followed by the instruction that followed
  it; an unconditional jump over nothing vanishes, and a conditional one becomes \<open>HB_P_POP\<close> in front of
  its target.\<close>

theorem optJumps_pass_flow:
  assumes wf: "jumpsWf (pCode (pLast c)) (pNOOPs (pLast c)) (pJumps (pLast c))"
  shows "\<exists>c'. optJumps_pass iPass c = Some c' \<and> compErrors c' = compErrors c \<and> codeWf (pLast c')
    \<and> (let f = pLast c; f' = pLast c'; code = pCode f; code' = pCode f';
           pos = optPos (pNOOPs (optJumps_shorten iPass (length (pJumps f)) f))
       in pNOOPs f' = [] \<and> length code' = pos (length code)
        \<and> pJumps f' = map pos (filter (\<lambda>a. liveJump code a \<and> \<not> jumpOverNothing code a) (pJumps f))
        \<and> (\<forall>i<length code. i \<notin> set (pNOOPs f) \<longrightarrow>
             (\<forall>a\<in>set (pJumps f). liveJump code a \<longrightarrow> i < a \<or> a + jumpSize code a \<le> i) \<longrightarrow>
             code' ! pos i = code ! i \<and> pos (i + 1) = pos i + 1)
        \<and> (\<forall>a\<in>set (pJumps f). liveJump code a \<longrightarrow>
             (if jumpOverNothing code a then
                pos (jumpTarget code a) = (if isCondJump (code ! a) then pos a + 1 else pos a)
                \<and> (isCondJump (code ! a) \<longrightarrow> code' ! pos a = HB_P_POP)
              else jumpFar (code' ! pos a) = jumpFar (code ! a)
                \<and> jumpTarget code' (pos a) = pos (jumpTarget code a)
                \<and> pos (a + jumpSize code a) = pos a + jumpSize code' (pos a))))"
  by (rule optJumps_pass_main [OF wf])

definition jumpWitness :: HB_COMP where
  "jumpWitness =
     \<lparr>pLast = \<lparr>szName = Some ''MAIN'', bError = False, hasPCode = True,
        pCode = [HB_P_JUMPFALSEFAR, 10, 0, 0, 23, HB_P_JUMPFAR, 4, 0, 0, 23, HB_P_ENDPROC],
        nPCodeSize = 100, pNOOPs = [], pJumps = [0, 5]\<rparr>,
      compErrors = [], fError = False, fExit = False\<rparr>"

lemma jumpWitness_wf: "jumpsWf (pCode (pLast jumpWitness)) (pNOOPs (pLast jumpWitness)) (pJumps (pLast jumpWitness))"
proof -
  have "noopsWf (pCode (pLast jumpWitness)) (pNOOPs (pLast jumpWitness))"
    by (simp add: noopsWf_def jumpWitness_def)
  moreover have "list_all (\<lambda>a. if liveJump (pCode (pLast jumpWitness)) a
      then jumpWf (pCode (pLast jumpWitness)) (pNOOPs (pLast jumpWitness)) a
      else a \<in> set (pNOOPs (pLast jumpWitness))) (pJumps (pLast jumpWitness))"
    by code_simp
  moreover have "distinct (pJumps (pLast jumpWitness))
      \<and> jumpsDisjoint (pCode (pLast jumpWitness)) (filter (liveJump (pCode (pLast jumpWitness))) (pJumps (pLast jumpWitness)))"
    by code_simp
  ultimately show ?thesis by (simp add: jumpsWf_def)
qed

lemma jumpWitness_eval:
  "map_option (\<lambda>c. pCode (pLast c)) (optJumps_pass 1 jumpWitness) = Some [HB_P_JUMPFALSENEAR, 4, 23, 23, HB_P_ENDPROC]"
  "map (optPos (pNOOPs (optJumps_shorten 1 2 (pLast jumpWitness)))) [0, 4, 5, 9, 10, 11] = [0, 2, 3, 3, 4, 5]"
  by code_simp+

theorem optJumps_pass_flow_witness:
  "\<exists>c'. optJumps_pass 1 jumpWitness = Some c' \<and> compErrors c' = [] \<and> codeWf (pLast c')
    \<and> pCode (pLast c') = [HB_P_JUMPFALSENEAR, 4, 23, 23, HB_P_ENDPROC]"
  using optJumps_pass_flow [OF jumpWitness_wf, of 1] jumpWitness_eval(1) by (auto simp: Let_def jumpWitness_def)

subsection \<open>Patching a jump\<close>

lemma nth_PUT_LE_UINT24: "i < p \<or> p + 2 < i \<Longrightarrow> HB_PUT_LE_UINT24 p w c ! i = c ! i"
  by (auto simp: HB_PUT_LE_UINT24_def)

text \<open>C21. A jump that is emitted with an open offset and patched after more bytes have been generated
  leads to the end of these bytes when they are in the reach of a 24 bit offset; otherwise the buffer
  keeps its bytes and the fatal error "jump too long" is reported.\<close>

theorem hb_compGenJump_here:
  assumes here: "hb_compGenJump 0 c = (nPos, c1)" and ok: "hasPCode (pLast c)" "\<not> fExit c"
    and len: "length (pCode (pLast c1)) + length bs < 2 ^ 63"
  shows "let c2 = c1\<lparr>pLast := pcodeAppend bs (pLast c1)\<rparr>; c3 = hb_compGenJumpHere nPos c2;
      a = length (pCode (pLast c))
    in pJumps (pLast c3) = pJumps (pLast c) @ [a]
     \<and> (if length bs \<le> 8388603 then
          jumpTarget (pCode (pLast c3)) a = length (pCode (pLast c3)) \<and> compErrors c3 = compErrors c
          \<and> pCode (pLast c3) ! a = HB_P_JUMPFAR \<and> take a (pCode (pLast c3)) = pCode (pLast c)
          \<and> drop (a + 4) (pCode (pLast c3)) = bs
        else compErrors c3 = compErrors c @ [(CHR ''F'', HB_COMP_ERR_JUMP_TOO_LONG)] \<and> fExit c3
          \<and> pCode (pLast c3) = pCode (pLast c) @ [HB_P_JUMPFAR, 0, 0, 0] @ bs)"
proof -
  let ?a = "length (pCode (pLast c))" let ?code = "pCode (pLast c) @ [HB_P_JUMPFAR, 0, 0, 0] @ bs"
  have 1: "nPos = ?a + 1" "pCode (pLast c1) = pCode (pLast c) @ [HB_P_JUMPFAR, 0, 0, 0]"
    "pJumps (pLast c1) = pJumps (pLast c) @ [?a]" "compErrors c1 = compErrors c" "fExit c1 = fExit c"
    using here ok(1) by (auto simp: hb_compGenJump_def genJump_def hb_compGenPCode4_def pcodeAppend_def pcodeReserve_def
        hb_compPrepareJumps_def Let_def HB_LIM_INT24_def HB_LOBYTE_def HB_HIBYTE_def HB_ULBYTE_def)
  let ?off = "4 + int (length bs)"
  let ?new = "HB_PUT_LE_UINT24 (?a + 1) ?off ?code"
  have other: "?new ! i = ?code ! i" if "i \<le> ?a \<or> ?a + 3 < i" for i
    using that by (intro nth_PUT_LE_UINT24) auto
  have lennew: "length ?new = ?a + 4 + length bs" by (simp add: HB_PUT_LE_UINT24_def)
  have "take ?a ?new = pCode (pLast c)" "drop (?a + 4) ?new = bs"
    using lennew by (auto intro!: nth_equalityI simp: other [simplified] nth_append)
  moreover have "jumpTarget ?new ?a = ?a + 4 + length bs" if "length bs \<le> 8388603"
  proof -
    have "HB_PCODE_MKINT24 ?new (?a + 1) = ?off" using that by (intro HB_PCODE_MKINT24_put) (auto simp: HB_LIM_INT24_def)
    moreover have "?new ! ?a = HB_P_JUMPFAR" using other [of ?a] by simp
    ultimately have "jumpOffset ?new ?a = Some ?off" by (simp add: jumpOffset_def)
    then show ?thesis using len 1(2) posAdd_int [of ?a ?off] by (simp add: jumpTarget_def)
  qed
  ultimately show ?thesis
    using 1 ok(2) other [of ?a] lennew
    by (simp add: hb_compGenJumpHere_def hb_compGenJumpThere_def hb_compGenError_def pcodeAppend_def Let_def
        HB_LIM_INT24_def)
qed

theorem hb_compGenJump_here_witness:
  "let c1 = snd (hb_compGenJump 0 jumpWitness);
       c3 = hb_compGenJumpHere 12 (c1\<lparr>pLast := pcodeAppend [23, 23] (pLast c1)\<rparr>)
   in pJumps (pLast c3) = [0, 5, 11] \<and> jumpTarget (pCode (pLast c3)) 11 = length (pCode (pLast c3))
    \<and> drop 15 (pCode (pLast c3)) = [23, 23]"
proof -
  define c1 where "c1 = snd (hb_compGenJump 0 jumpWitness)"
  have "hb_compGenJump 0 jumpWitness = (12, c1)"
    unfolding c1_def by (rule prod_eqI) (simp_all, code_simp)
  moreover have "hasPCode (pLast jumpWitness)" "\<not> fExit jumpWitness" by (simp_all add: jumpWitness_def)
  moreover have "length (pCode (pLast c1)) + length [23, 23 :: HB_BYTE] < 2 ^ 63"
    unfolding c1_def by (simp add: hb_compGenJump_def genJump_def hb_compGenPCode4_def pcodeAppend_def pcodeReserve_def
        hb_compPrepareJumps_def Let_def jumpWitness_def HB_LIM_INT24_def)
  ultimately have "let c3 = hb_compGenJumpHere 12 (c1\<lparr>pLast := pcodeAppend [23, 23] (pLast c1)\<rparr>);
      a = length (pCode (pLast jumpWitness))
    in pJumps (pLast c3) = pJumps (pLast jumpWitness) @ [a] \<and> jumpTarget (pCode (pLast c3)) a = length (pCode (pLast c3))
      \<and> drop (a + 4) (pCode (pLast c3)) = [23, 23]"
    using hb_compGenJump_here [of jumpWitness 12 c1 "[23, 23]"] unfolding Let_def by simp
  moreover have "length (pCode (pLast jumpWitness)) = 11" "pJumps (pLast jumpWitness) = [0, 5]"
    by (simp_all add: jumpWitness_def)
  ultimately show ?thesis unfolding c1_def [symmetric] Let_def by simp
qed

end
