(* ===== verification/HbDead.thy ===== *)
theory HbDead
  imports HbJumpShorten
begin

text \<open>
  The removal of dead code, \<open>src/compiler/hbdead.c\<close>. A trace follows the control flow from the first
  instruction and marks the bytes it passes (\<open>2\<close>) and the targets it still has to follow (\<open>1\<close>); the
  bytes without a mark are filled with \<open>HB_P_NOOP\<close>, which the jump optimizer removes.

  \<open>pCodeMark\<close> has one entry for each byte in use, so its length is \<open>nPCodeSize\<close> of the trace, and
  \<open>nJumpCount\<close> is the length of \<open>pnJumps\<close>.
\<close>

subsection \<open>The state of the trace\<close>

record HB_CODETRACE_INFO =
  pCodeMark :: "nat list"
  pnJumps :: "nat list"
  nJumpPos :: nat
  nJumpSize :: nat
  fFinished :: bool

definition HB_JUMPADDR_ALLOC :: nat where "HB_JUMPADDR_ALLOC = 64"

definition hb_compCodeTraceAddJump :: "nat \<Rightarrow> HB_CODETRACE_INFO \<Rightarrow> HB_CODETRACE_INFO" where
  "hb_compCodeTraceAddJump nPos pInfo =
     (if pCodeMark pInfo ! nPos = 0 then
        pInfo\<lparr>nJumpSize := (if nJumpSize pInfo = 0 then HB_JUMPADDR_ALLOC
                            else if nJumpSize pInfo = length (pnJumps pInfo)
                            then nJumpSize pInfo + HB_JUMPADDR_ALLOC else nJumpSize pInfo),
              pnJumps := pnJumps pInfo @ [nPos],
              pCodeMark := (pCodeMark pInfo)[nPos := 1]\<rparr>
      else pInfo)"

function nextPos_loop :: "HB_CODETRACE_INFO \<Rightarrow> HB_CODETRACE_INFO \<times> nat" where
  "nextPos_loop pInfo =
     (if nJumpPos pInfo < length (pnJumps pInfo) then
        (let nPos = pnJumps pInfo ! nJumpPos pInfo;
             pInfo = pInfo\<lparr>nJumpPos := nJumpPos pInfo + 1\<rparr>
         in if pCodeMark pInfo ! nPos = 1 then (pInfo, nPos) else nextPos_loop pInfo)
      else (pInfo\<lparr>fFinished := True\<rparr>, length (pCodeMark pInfo)))"
  by pat_completeness auto
termination
  by (relation "measure (\<lambda>i. length (pnJumps i) - nJumpPos i)") auto

declare nextPos_loop.simps [simp del]

definition hb_compCodeTraceNextPos :: "HB_CODETRACE_INFO \<Rightarrow> nat \<Rightarrow> HB_CODETRACE_INFO \<times> nat" where
  "hb_compCodeTraceNextPos pInfo nPos =
     (if nPos < length (pCodeMark pInfo) \<and> pCodeMark pInfo ! nPos = 0 then (pInfo, nPos)
      else nextPos_loop pInfo)"

definition hb_compCodeTraceMark :: "nat \<Rightarrow> nat \<Rightarrow> HB_CODETRACE_INFO \<Rightarrow> HB_CODETRACE_INFO" where
  "hb_compCodeTraceMark nPos nSize pInfo =
     (if 0 < nSize then
        pInfo\<lparr>pCodeMark := take nPos (pCodeMark pInfo) @ replicate nSize 2 @ drop (nPos + nSize) (pCodeMark pInfo)\<rparr>
      else pInfo)"

subsection \<open>The trace of the instructions\<close>

type_synonym deadFunc = "HB_CODETRACE_INFO traceFunc"

definition nearTarget :: "HB_HFUNC \<Rightarrow> nat \<Rightarrow> nat" where
  "nearTarget pFunc nPos = posAdd nPos (HB_SCHAR_at (pCode pFunc) (nPos + 1))"

definition shortTarget :: "HB_HFUNC \<Rightarrow> nat \<Rightarrow> nat" where
  "shortTarget pFunc nPos = posAdd nPos (HB_PCODE_MKSHORT (pCode pFunc) (nPos + 1))"

definition farTarget :: "HB_HFUNC \<Rightarrow> nat \<Rightarrow> nat" where
  "farTarget pFunc nPos = posAdd nPos (HB_PCODE_MKINT24 (pCode pFunc) (nPos + 1))"

definition hb_p_default_trace :: deadFunc where
  "hb_p_default_trace pFunc nPos cargo =
     (let nSize = hb_compPCodeSize pFunc nPos
      in Some (hb_compCodeTraceNextPos (hb_compCodeTraceMark nPos nSize cargo) (nPos + nSize)))"

definition hb_p_jumpnear_trace :: deadFunc where
  "hb_p_jumpnear_trace pFunc nPos cargo =
     Some (hb_compCodeTraceNextPos (hb_compCodeTraceMark nPos 2 cargo) (nearTarget pFunc nPos))"

definition hb_p_jump_trace :: deadFunc where
  "hb_p_jump_trace pFunc nPos cargo =
     Some (hb_compCodeTraceNextPos (hb_compCodeTraceMark nPos 3 cargo) (shortTarget pFunc nPos))"

definition hb_p_jumpfar_trace :: deadFunc where
  "hb_p_jumpfar_trace pFunc nPos cargo =
     Some (hb_compCodeTraceNextPos (hb_compCodeTraceMark nPos 4 cargo) (farTarget pFunc nPos))"

definition hb_p_jumpfalsenear_trace :: deadFunc where
  "hb_p_jumpfalsenear_trace pFunc nPos cargo =
     Some (hb_compCodeTraceNextPos
       (hb_compCodeTraceAddJump (nearTarget pFunc nPos) (hb_compCodeTraceMark nPos 2 cargo)) (nPos + 2))"

definition hb_p_jumpfalse_trace :: deadFunc where
  "hb_p_jumpfalse_trace pFunc nPos cargo =
     Some (hb_compCodeTraceNextPos
       (hb_compCodeTraceAddJump (shortTarget pFunc nPos) (hb_compCodeTraceMark nPos 3 cargo)) (nPos + 3))"

definition hb_p_jumpfalsefar_trace :: deadFunc where
  "hb_p_jumpfalsefar_trace pFunc nPos cargo =
     Some (hb_compCodeTraceNextPos
       (hb_compCodeTraceAddJump (farTarget pFunc nPos) (hb_compCodeTraceMark nPos 4 cargo)) (nPos + 4))"

definition hb_p_jumptruenear_trace :: deadFunc where
  "hb_p_jumptruenear_trace pFunc nPos cargo =
     Some (hb_compCodeTraceNextPos
       (hb_compCodeTraceAddJump (nearTarget pFunc nPos) (hb_compCodeTraceMark nPos 2 cargo)) (nPos + 2))"

definition hb_p_jumptrue_trace :: deadFunc where
  "hb_p_jumptrue_trace pFunc nPos cargo =
     Some (hb_compCodeTraceNextPos
       (hb_compCodeTraceAddJump (shortTarget pFunc nPos) (hb_compCodeTraceMark nPos 3 cargo)) (nPos + 3))"

definition hb_p_jumptruefar_trace :: deadFunc where
  "hb_p_jumptruefar_trace pFunc nPos cargo =
     Some (hb_compCodeTraceNextPos
       (hb_compCodeTraceAddJump (farTarget pFunc nPos) (hb_compCodeTraceMark nPos 4 cargo)) (nPos + 4))"

definition hb_p_seqalways_trace :: deadFunc where
  "hb_p_seqalways_trace pFunc nPos cargo =
     Some (hb_compCodeTraceNextPos
       (hb_compCodeTraceAddJump (farTarget pFunc nPos) (hb_compCodeTraceMark nPos 4 cargo)) (nPos + 4))"

definition hb_p_alwaysbegin_trace :: deadFunc where
  "hb_p_alwaysbegin_trace pFunc nPos cargo =
     Some (hb_compCodeTraceNextPos
       (hb_compCodeTraceAddJump (farTarget pFunc nPos) (hb_compCodeTraceMark nPos 4 cargo)) (nPos + 4))"

definition hb_p_seqbegin_trace :: deadFunc where
  "hb_p_seqbegin_trace pFunc nPos cargo =
     (let nRecoverPos = farTarget pFunc nPos;
          cargo = (if pCode pFunc ! nRecoverPos \<noteq> HB_P_SEQEND \<and> pCode pFunc ! posAdd nRecoverPos (- 4) = HB_P_SEQEND
                   then hb_compCodeTraceAddJump (posAdd nRecoverPos (- 4)) cargo else cargo)
      in Some (hb_compCodeTraceNextPos
           (hb_compCodeTraceAddJump nRecoverPos (hb_compCodeTraceMark nPos 4 cargo)) (nPos + 4)))"

definition hb_p_seqend_trace :: deadFunc where
  "hb_p_seqend_trace pFunc nPos cargo =
     Some (hb_compCodeTraceNextPos (hb_compCodeTraceMark nPos 4 cargo) (farTarget pFunc nPos))"

text \<open>A case of \<open>HB_P_SWITCH\<close>: the value, then the jump. The end of the value and whether it is the
  default clause; the target of the jump and its end.\<close>

definition switchValue :: "HB_HFUNC \<Rightarrow> nat \<Rightarrow> nat \<times> bool" where
  "switchValue pFunc p =
     (let op = pCode pFunc ! p in
      if op = HB_P_PUSHBYTE then (p + 2, False)
      else if op = HB_P_PUSHINT then (p + 3, False)
      else if op = HB_P_PUSHLONG \<or> op = HB_P_PUSHDATE then (p + 5, False)
      else if op = HB_P_PUSHLONGLONG then (p + 9, False)
      else if op = HB_P_PUSHSTRSHORT then (p + 2 + unat (pCode pFunc ! (p + 1)), False)
      else if op = HB_P_PUSHSTR then (p + 3 + HB_PCODE_MKUSHORT (pCode pFunc) (p + 1), False)
      else if op = HB_P_PUSHSTRLARGE then (p + 4 + HB_PCODE_MKUINT24 (pCode pFunc) (p + 1), False)
      else if op = HB_P_PUSHNIL then (p + 1, True)
      else (p, False))"

definition switchJump :: "HB_HFUNC \<Rightarrow> nat \<Rightarrow> nat \<times> nat" where
  "switchJump pFunc p =
     (let op = pCode pFunc ! p in
      if op = HB_P_JUMPNEAR then (nearTarget pFunc p, p + 2)
      else if op = HB_P_JUMP then (shortTarget pFunc p, p + 3)
      else (farTarget pFunc p, p + 4))"

text \<open>The loop over the cases; the counter is an unsigned 16 bit number, and the default clause sets it
  to the number of cases, so a switch with 65535 cases wraps there.\<close>

partial_function (option) switch_loop ::
    "HB_HFUNC \<Rightarrow> nat \<Rightarrow> nat \<Rightarrow> nat \<Rightarrow> HB_CODETRACE_INFO \<Rightarrow> (HB_CODETRACE_INFO \<times> nat \<times> nat) option" where
  "switch_loop pFunc usCases us nPos cargo =
     (if us < usCases then
        (let v = switchValue pFunc nPos;
             j = switchJump pFunc (fst v);
             us = (if snd v then usCases else us)
         in switch_loop pFunc usCases ((us + 1) mod 2 ^ 16) (snd j) (hb_compCodeTraceAddJump (fst j) cargo))
      else Some (cargo, nPos, us))"

definition hb_p_switch_trace :: deadFunc where
  "hb_p_switch_trace pFunc nPos cargo =
     (let nStart = nPos; usCases = HB_PCODE_MKUSHORT (pCode pFunc) (nPos + 1) in
      case switch_loop pFunc usCases 0 (nPos + 3) cargo of
        Some (cargo, nPos, us) \<Rightarrow>
          (let cargo = hb_compCodeTraceMark nStart (nPos - nStart) cargo
           in Some (hb_compCodeTraceNextPos cargo (if usCases < us then length (pCodeMark cargo) else nPos)))
      | None \<Rightarrow> None)"

definition hb_p_endblock_trace :: deadFunc where
  "hb_p_endblock_trace pFunc nPos cargo =
     (let cargo = hb_compCodeTraceMark nPos 1 cargo
      in Some (hb_compCodeTraceNextPos cargo (length (pCodeMark cargo))))"

definition hb_p_endproc_trace :: deadFunc where
  "hb_p_endproc_trace pFunc nPos cargo =
     (let cargo = hb_compCodeTraceMark nPos 1 cargo
      in Some (hb_compCodeTraceNextPos cargo (length (pCodeMark cargo))))"

definition s_codeTraceFuncTable :: "HB_BYTE \<Rightarrow> deadFunc option" where
  "s_codeTraceFuncTable op =
     Some (if op = HB_P_ENDBLOCK then hb_p_endblock_trace
      else if op = HB_P_ENDPROC then hb_p_endproc_trace
      else if op = HB_P_JUMPNEAR then hb_p_jumpnear_trace
      else if op = HB_P_JUMP then hb_p_jump_trace
      else if op = HB_P_JUMPFAR then hb_p_jumpfar_trace
      else if op = HB_P_JUMPFALSENEAR then hb_p_jumpfalsenear_trace
      else if op = HB_P_JUMPFALSE then hb_p_jumpfalse_trace
      else if op = HB_P_JUMPFALSEFAR then hb_p_jumpfalsefar_trace
      else if op = HB_P_JUMPTRUENEAR then hb_p_jumptruenear_trace
      else if op = HB_P_JUMPTRUE then hb_p_jumptrue_trace
      else if op = HB_P_JUMPTRUEFAR then hb_p_jumptruefar_trace
      else if op = HB_P_SEQBEGIN then hb_p_seqbegin_trace
      else if op = HB_P_SEQEND then hb_p_seqend_trace
      else if op = HB_P_SWITCH then hb_p_switch_trace
      else if op = HB_P_SEQALWAYS then hb_p_seqalways_trace
      else if op = HB_P_ALWAYSBEGIN then hb_p_alwaysbegin_trace
      else hb_p_default_trace)"

subsection \<open>Filling the dead bytes\<close>

text \<open>The loop over the marks: the length of the current run of bytes without a mark, and the last byte
  with one.\<close>

fun markDead_loop :: "nat list \<Rightarrow> nat \<Rightarrow> nat \<Rightarrow> nat \<Rightarrow> HB_HFUNC \<Rightarrow> HB_HFUNC \<times> nat \<times> nat" where
  "markDead_loop [] nPos nCount bLastCode pFunc = (pFunc, nCount, bLastCode)"
| "markDead_loop (m # marks) nPos nCount bLastCode pFunc =
     (if m = 0 then markDead_loop marks (nPos + 1) (nCount + 1) bLastCode pFunc
      else markDead_loop marks (nPos + 1) 0 (unat (pCode pFunc ! nPos))
             (if 0 < nCount then hb_compNOOPfill pFunc (nPos - nCount) nCount False True else pFunc))"

definition hb_compCodeTraceMarkDead :: "bool \<Rightarrow> HB_HFUNC \<Rightarrow> (hb_errInternal + HB_HFUNC) option" where
  "hb_compCodeTraceMarkDead fOptJump pFunc =
     (if \<not> fOptJump \<or> nPCodePos pFunc < 2 then Some (Inr pFunc)
      else
        let code_info = \<lparr>pCodeMark = replicate (nPCodePos pFunc) 0, pnJumps = [], nJumpPos = 0,
                         nJumpSize = 0, fFinished = False\<rparr> in
        case hb_compPCodeTrace s_codeTraceFuncTable pFunc code_info 0 of
          None \<Rightarrow> None
        | Some (Inl e) \<Rightarrow> Some (Inl e)
        | Some (Inr code_info) \<Rightarrow>
            Some (Inr
              (if fFinished code_info then
                 (case markDead_loop (pCodeMark code_info) 0 0 HB_P_LAST_PCODE pFunc of
                    (pFunc, nCount, bLastCode) \<Rightarrow>
                      let bEnd = (case szName pFunc of Some n \<Rightarrow> HB_P_ENDPROC | None \<Rightarrow> HB_P_ENDBLOCK);
                          nPos = length (pCodeMark code_info);
                          fKeep = (0 < nCount \<and> bLastCode \<noteq> unat bEnd);
                          nPos = (if fKeep then nPos - 1 else nPos);
                          nCount = (if fKeep then nCount - 1 else nCount)
                      in if 0 < nCount then hb_compNOOPfill pFunc (nPos - nCount) nCount False True else pFunc)
               else pFunc)))"

end
