(* ===== verification/HbDeadCorrect.thy ===== *)
theory HbDeadCorrect
  imports HbDead
begin

text \<open>
  The trace marks exactly the bytes of the instructions the control flow can reach, and it ends.
\<close>

subsection \<open>The control flow of the pcode\<close>

text \<open>For an instruction: its size, the positions it may transfer the control to besides the one it
  continues with, and that one, if there is any. The handler of \<open>HB_P_SEQBEGIN\<close> also keeps the
  \<open>HB_P_SEQEND\<close> in front of the recover code.\<close>

fun switchFlow :: "HB_HFUNC \<Rightarrow> nat \<Rightarrow> nat \<Rightarrow> nat list \<times> nat \<times> bool" where
  "switchFlow f 0 p = ([], p, False)"
| "switchFlow f (Suc n) p =
     (let v = switchValue f p; j = switchJump f (fst v) in
      if snd v then ([fst j], snd j, True)
      else (case switchFlow f n (snd j) of (ts, e, d) \<Rightarrow> (fst j # ts, e, d)))"

definition switchAt :: "HB_HFUNC \<Rightarrow> nat \<Rightarrow> nat list \<times> nat \<times> bool" where
  "switchAt f p = switchFlow f (HB_PCODE_MKUSHORT (pCode f) (p + 1)) (p + 3)"

definition instrSize :: "HB_HFUNC \<Rightarrow> nat \<Rightarrow> nat" where
  "instrSize f p =
     (if pCode f ! p = HB_P_SWITCH then fst (snd (switchAt f p)) - p else hb_compPCodeSize f p)"

definition instrTargets :: "HB_HFUNC \<Rightarrow> nat \<Rightarrow> nat list" where
  "instrTargets f p =
     (let op = pCode f ! p; t = jumpTarget (pCode f) p in
      if isCondJump op \<or> op = HB_P_SEQALWAYS \<or> op = HB_P_ALWAYSBEGIN then [t]
      else if op = HB_P_SEQBEGIN then
        (if pCode f ! t \<noteq> HB_P_SEQEND \<and> pCode f ! posAdd t (- 4) = HB_P_SEQEND then [posAdd t (- 4)] else []) @ [t]
      else if op = HB_P_SWITCH then fst (switchAt f p)
      else [])"

definition instrNext :: "HB_HFUNC \<Rightarrow> nat \<Rightarrow> nat option" where
  "instrNext f p =
     (let op = pCode f ! p in
      if jumpFar op = HB_P_JUMPFAR \<or> op = HB_P_SEQEND then Some (jumpTarget (pCode f) p)
      else if op = HB_P_ENDBLOCK \<or> op = HB_P_ENDPROC then None
      else if op = HB_P_SWITCH \<and> snd (snd (switchAt f p)) then None
      else Some (p + instrSize f p))"

inductive flowReach :: "HB_HFUNC \<Rightarrow> nat \<Rightarrow> bool" for f where
  start: "flowReach f 0"
| target: "flowReach f p \<Longrightarrow> q \<in> set (instrTargets f p) \<Longrightarrow> flowReach f q"
| cont: "flowReach f p \<Longrightarrow> instrNext f p = Some q \<Longrightarrow> flowReach f q"

text \<open>Well-formed pcode: \<open>starts\<close> holds the first instruction and is closed under the control flow, its
  instructions have a size, lie in the buffer and do not overlap.\<close>

definition instrWf :: "HB_HFUNC \<Rightarrow> nat list \<Rightarrow> nat \<Rightarrow> bool" where
  "instrWf f starts p \<longleftrightarrow>
     unat (pCode f ! p) < HB_P_LAST_PCODE \<and> 0 < instrSize f p \<and> p + instrSize f p \<le> length (pCode f)
     \<and> list_all (\<lambda>q. q \<in> set starts) (instrTargets f p)
     \<and> (case instrNext f p of None \<Rightarrow> True | Some q \<Rightarrow> q \<in> set starts)
     \<and> (pCode f ! p = HB_P_SWITCH \<longrightarrow>
          HB_PCODE_MKUSHORT (pCode f) (p + 1) < 65535 \<and> p \<notin> set (instrTargets f p))"

definition traceWf :: "HB_HFUNC \<Rightarrow> nat list \<Rightarrow> bool" where
  "traceWf f starts \<longleftrightarrow>
     0 \<in> set starts \<and> list_all (instrWf f starts) starts
     \<and> list_all (\<lambda>p. list_all (\<lambda>q. p < q \<longrightarrow> p + instrSize f p \<le> q) starts) starts"

lemma traceWf_D:
  assumes "traceWf f S" "p \<in> set S"
  shows "unat (pCode f ! p) < HB_P_LAST_PCODE" "0 < instrSize f p" "p + instrSize f p \<le> length (pCode f)"
    "q \<in> set (instrTargets f p) \<Longrightarrow> q \<in> set S" "instrNext f p = Some q \<Longrightarrow> q \<in> set S"
    "q \<in> set S \<Longrightarrow> p < q \<Longrightarrow> p + instrSize f p \<le> q" "p < length (pCode f)"
proof -
  have w: "instrWf f S p" using assms by (simp add: traceWf_def list_all_iff)
  then show size: "unat (pCode f ! p) < HB_P_LAST_PCODE" "0 < instrSize f p" "p + instrSize f p \<le> length (pCode f)"
    unfolding instrWf_def by blast+
  then show "p < length (pCode f)" by linarith
  show "q \<in> set (instrTargets f p) \<Longrightarrow> q \<in> set S" using w unfolding instrWf_def list_all_iff by blast
  show "instrNext f p = Some q \<Longrightarrow> q \<in> set S"
    using conjunct1 [OF conjunct2 [OF conjunct2 [OF conjunct2 [OF conjunct2 [OF w [unfolded instrWf_def]]]]]] by simp
  show "q \<in> set S \<Longrightarrow> p < q \<Longrightarrow> p + instrSize f p \<le> q"
    using assms unfolding traceWf_def list_all_iff by blast
qed

lemma flowReach_starts:
  assumes "traceWf f S" "flowReach f p" shows "p \<in> set S"
  using assms(2)
proof (induction rule: flowReach.induct)
  case start
  then show ?case using assms(1) by (simp add: traceWf_def)
qed (use traceWf_D(4,5) [OF assms(1)] in blast)+

text \<open>The bytes of the instructions that are reached.\<close>

definition liveByte :: "HB_HFUNC \<Rightarrow> nat \<Rightarrow> bool" where
  "liveByte f i \<longleftrightarrow> (\<exists>p. flowReach f p \<and> p \<le> i \<and> i < p + instrSize f p)"

lemma traceWf_same_instr:
  "traceWf f S \<Longrightarrow> p \<in> set S \<Longrightarrow> q \<in> set S \<Longrightarrow> p \<le> q \<Longrightarrow> q < p + instrSize f p \<Longrightarrow> q = p"
  using traceWf_D(6) [of f S p q] by (cases "p < q") auto

subsection \<open>Marks\<close>

lemma AddJump_simps [simp]:
  "length (pCodeMark (hb_compCodeTraceAddJump q c)) = length (pCodeMark c)"
  "nJumpPos (hb_compCodeTraceAddJump q c) = nJumpPos c"
  "fFinished (hb_compCodeTraceAddJump q c) = fFinished c"
  by (simp_all add: hb_compCodeTraceAddJump_def)

lemma Mark_simps [simp]:
  "p + n \<le> length (pCodeMark c) \<Longrightarrow> length (pCodeMark (hb_compCodeTraceMark p n c)) = length (pCodeMark c)"
  "pnJumps (hb_compCodeTraceMark p n c) = pnJumps c" "nJumpPos (hb_compCodeTraceMark p n c) = nJumpPos c"
  "nJumpSize (hb_compCodeTraceMark p n c) = nJumpSize c" "fFinished (hb_compCodeTraceMark p n c) = fFinished c"
  by (simp_all add: hb_compCodeTraceMark_def)

lemma Mark_nth:
  "p + n \<le> length (pCodeMark c) \<Longrightarrow> i < length (pCodeMark c) \<Longrightarrow>
   pCodeMark (hb_compCodeTraceMark p n c) ! i = (if p \<le> i \<and> i < p + n then 2 else pCodeMark c ! i)"
  by (auto simp: hb_compCodeTraceMark_def nth_append min_def)

lemma Mark_AddJump:
  assumes "p + n \<le> length (pCodeMark c)" "q < length (pCodeMark c)" "q < p \<or> p + n \<le> q"
  shows "hb_compCodeTraceMark p n (hb_compCodeTraceAddJump q c) = hb_compCodeTraceAddJump q (hb_compCodeTraceMark p n c)"
proof (cases "0 < n")
  case True
  have "pCodeMark (hb_compCodeTraceMark p n (hb_compCodeTraceAddJump q c))
      = pCodeMark (hb_compCodeTraceAddJump q (hb_compCodeTraceMark p n c))"
    using assms by (intro nth_equalityI) (auto simp: Mark_nth hb_compCodeTraceAddJump_def nth_list_update)
  moreover have "pCodeMark (hb_compCodeTraceMark p n c) ! q = pCodeMark c ! q"
    using assms Mark_nth [of p n c q] by auto
  ultimately show ?thesis
    by (intro HB_CODETRACE_INFO.equality) (simp_all add: hb_compCodeTraceAddJump_def hb_compCodeTraceMark_def True)
qed (simp add: hb_compCodeTraceMark_def)

lemma Mark_AddJumps:
  "p + n \<le> length (pCodeMark c) \<Longrightarrow> (\<forall>q\<in>set qs. q < length (pCodeMark c) \<and> (q < p \<or> p + n \<le> q)) \<Longrightarrow>
   hb_compCodeTraceMark p n (fold hb_compCodeTraceAddJump qs c) = fold hb_compCodeTraceAddJump qs (hb_compCodeTraceMark p n c)"
proof (induction qs arbitrary: c)
  case (Cons q qs)
  then show ?case using Cons.IH [of "hb_compCodeTraceAddJump q c"] by (simp add: Mark_AddJump)
qed simp

lemma AddJumps_length [simp]: "length (pCodeMark (fold hb_compCodeTraceAddJump qs c)) = length (pCodeMark c)"
  by (induction qs arbitrary: c) simp_all

text \<open>Adding targets turns the unmarked ones into marks \<open>1\<close> and puts them into the queue.\<close>

lemma AddJumps_spec:
  "(\<forall>q\<in>set qs. q < length (pCodeMark c)) \<Longrightarrow>
   nJumpPos (fold hb_compCodeTraceAddJump qs c) = nJumpPos c
   \<and> fFinished (fold hb_compCodeTraceAddJump qs c) = fFinished c
   \<and> (\<forall>i<length (pCodeMark c). pCodeMark (fold hb_compCodeTraceAddJump qs c) ! i
        = (if pCodeMark c ! i = 0 \<and> i \<in> set qs then 1 else pCodeMark c ! i))
   \<and> (\<exists>new. pnJumps (fold hb_compCodeTraceAddJump qs c) = pnJumps c @ new
        \<and> set new = {q \<in> set qs. pCodeMark c ! q = 0})"
proof (induction qs arbitrary: c)
  case (Cons q qs)
  let ?c = "hb_compCodeTraceAddJump q c"
  have q: "\<forall>q\<in>set qs. q < length (pCodeMark ?c)" using Cons.prems by simp
  from Cons.IH [OF q] obtain new where new: "pnJumps (fold hb_compCodeTraceAddJump qs ?c) = pnJumps ?c @ new"
    "set new = {q \<in> set qs. pCodeMark ?c ! q = 0}" by auto
  have m: "i < length (pCodeMark c) \<Longrightarrow> pCodeMark ?c ! i = (if pCodeMark c ! i = 0 \<and> i = q then 1 else pCodeMark c ! i)" for i
    using Cons.prems by (auto simp: hb_compCodeTraceAddJump_def nth_list_update)
  have "\<exists>new. pnJumps (fold hb_compCodeTraceAddJump (q # qs) c) = pnJumps c @ new
      \<and> set new = {r \<in> set (q # qs). pCodeMark c ! r = 0}"
  proof (cases "pCodeMark c ! q = 0")
    case True
    then have "pnJumps ?c = pnJumps c @ [q]" by (simp add: hb_compCodeTraceAddJump_def)
    then show ?thesis using new m Cons.prems True by (intro exI [of _ "q # new"]) auto
  next
    case False
    then have "?c = c" by (simp add: hb_compCodeTraceAddJump_def)
    then show ?thesis using new False by auto
  qed
  then show ?case using Cons.IH [OF q] m by auto
qed simp

subsection \<open>A step of the trace\<close>

definition traceStep :: "HB_HFUNC \<Rightarrow> nat \<Rightarrow> HB_CODETRACE_INFO \<Rightarrow> HB_CODETRACE_INFO \<times> nat" where
  "traceStep f p c =
     hb_compCodeTraceNextPos (fold hb_compCodeTraceAddJump (instrTargets f p) (hb_compCodeTraceMark p (instrSize f p) c))
       (case instrNext f p of None \<Rightarrow> length (pCode f) | Some q \<Rightarrow> q)"

lemma pcode_len_simps:
  "hb_comp_pcode_len ! 6 = 1" "hb_comp_pcode_len ! 7 = 1"
  "hb_comp_pcode_len ! 25 = 2" "hb_comp_pcode_len ! 26 = 3" "hb_comp_pcode_len ! 27 = 4"
  "hb_comp_pcode_len ! 28 = 2" "hb_comp_pcode_len ! 29 = 3" "hb_comp_pcode_len ! 30 = 4"
  "hb_comp_pcode_len ! 31 = 2" "hb_comp_pcode_len ! 32 = 3" "hb_comp_pcode_len ! 33 = 4"
  "hb_comp_pcode_len ! 113 = 4" "hb_comp_pcode_len ! 114 = 4" "hb_comp_pcode_len ! 166 = 4" "hb_comp_pcode_len ! 167 = 4"
  by code_simp+

lemma flow_size:
  "pCode f ! p \<in> {HB_P_ENDBLOCK, HB_P_ENDPROC} \<Longrightarrow> instrSize f p = 1"
  "pCode f ! p \<in> {HB_P_JUMPNEAR, HB_P_JUMPFALSENEAR, HB_P_JUMPTRUENEAR} \<Longrightarrow> instrSize f p = 2"
  "pCode f ! p \<in> {HB_P_JUMP, HB_P_JUMPFALSE, HB_P_JUMPTRUE} \<Longrightarrow> instrSize f p = 3"
  "pCode f ! p \<in> {HB_P_JUMPFAR, HB_P_JUMPFALSEFAR, HB_P_JUMPTRUEFAR, HB_P_SEQBEGIN, HB_P_SEQEND, HB_P_SEQALWAYS, HB_P_ALWAYSBEGIN}
     \<Longrightarrow> instrSize f p = 4"
  by (auto simp: instrSize_def hb_compPCodeSize_def Let_def pcode_len_simps)

lemma flow_target:
  "pCode f ! p \<in> {HB_P_JUMPNEAR, HB_P_JUMPFALSENEAR, HB_P_JUMPTRUENEAR} \<Longrightarrow> nearTarget f p = jumpTarget (pCode f) p"
  "pCode f ! p \<in> {HB_P_JUMP, HB_P_JUMPFALSE, HB_P_JUMPTRUE} \<Longrightarrow> shortTarget f p = jumpTarget (pCode f) p"
  "pCode f ! p \<in> {HB_P_JUMPFAR, HB_P_JUMPFALSEFAR, HB_P_JUMPTRUEFAR, HB_P_SEQBEGIN, HB_P_SEQEND, HB_P_SEQALWAYS, HB_P_ALWAYSBEGIN}
     \<Longrightarrow> farTarget f p = jumpTarget (pCode f) p"
  by (auto simp: nearTarget_def shortTarget_def farTarget_def jumpTarget_def jumpOffset_def)

lemma flow_kinds:
  "pCode f ! p \<in> {HB_P_JUMPNEAR, HB_P_JUMP, HB_P_JUMPFAR, HB_P_SEQEND} \<Longrightarrow>
     instrTargets f p = [] \<and> instrNext f p = Some (jumpTarget (pCode f) p)"
  "pCode f ! p \<in> {HB_P_JUMPFALSENEAR, HB_P_JUMPFALSE, HB_P_JUMPFALSEFAR, HB_P_JUMPTRUENEAR, HB_P_JUMPTRUE, HB_P_JUMPTRUEFAR,
       HB_P_SEQALWAYS, HB_P_ALWAYSBEGIN} \<Longrightarrow>
     instrTargets f p = [jumpTarget (pCode f) p] \<and> instrNext f p = Some (p + instrSize f p)"
  "pCode f ! p \<in> {HB_P_ENDBLOCK, HB_P_ENDPROC} \<Longrightarrow> instrTargets f p = [] \<and> instrNext f p = None"
  by (auto simp: instrTargets_def instrNext_def isCondJump_def jumpFar_def)

lemma switch_loop_flow:
  "us + n = usCases \<Longrightarrow> usCases < 65535 \<Longrightarrow>
   switch_loop f usCases us p c = (case switchFlow f n p of (ts, e, d) \<Rightarrow>
     Some (fold hb_compCodeTraceAddJump ts c, e, if d then usCases + 1 else usCases))"
proof (induction n arbitrary: us p c)
  case 0
  then show ?case by (simp add: switch_loop.simps)
next
  case (Suc n)
  let ?v = "switchValue f p" let ?j = "switchJump f (fst ?v)"
  show ?case
  proof (cases "snd ?v")
    case True
    then show ?thesis
      using Suc.prems by (subst switch_loop.simps) (simp add: Let_def switch_loop.simps)
  next
    case False
    then show ?thesis
      using Suc.prems Suc.IH [of "us + 1" "snd ?j" "hb_compCodeTraceAddJump (fst ?j) c"]
      by (subst switch_loop.simps, cases "switchFlow f n (snd ?j)") (simp add: Let_def)
  qed
qed

lemma target_apart:
  assumes wf: "traceWf f S" and p: "p \<in> set S" and q: "q \<in> set S" "q \<noteq> p"
  shows "q < length (pCode f) \<and> (q < p \<or> p + instrSize f p \<le> q)"
  using traceWf_D(6) [OF wf p q(1)] traceWf_D(6) [OF wf q(1) p] traceWf_D(7) [OF wf q(1)] q by (cases "p < q") auto

lemma handler_switch:
  assumes wf: "traceWf f S" and p: "p \<in> set S" and len: "length (pCodeMark c) = length (pCode f)"
    and op: "pCode f ! p = HB_P_SWITCH"
  shows "hb_p_switch_trace f p c = Some (traceStep f p c)"
proof -
  obtain ts e d where sw: "switchAt f p = (ts, e, d)" by (cases "switchAt f p") auto
  have w: "instrWf f S p" using wf p by (simp add: traceWf_def list_all_iff)
  have size: "instrSize f p = e - p" and tg: "instrTargets f p = ts"
    and nxt: "instrNext f p = (if d then None else Some (p + (e - p)))"
    using op sw by (simp_all add: instrSize_def instrTargets_def instrNext_def isCondJump_def jumpFar_def)
  have few: "HB_PCODE_MKUSHORT (pCode f) (p + 1) < 65535" and self: "p \<notin> set ts"
    using w op tg by (simp_all add: instrWf_def)
  have pe: "p + (e - p) = e" "p + (e - p) \<le> length (pCodeMark c)"
    using traceWf_D(2,3) [OF wf p] size len by simp_all
  have "\<forall>q\<in>set ts. q < length (pCodeMark c) \<and> (q < p \<or> p + (e - p) \<le> q)"
    using target_apart [OF wf p] traceWf_D(4) [OF wf p] self tg size len by auto
  then have mark: "hb_compCodeTraceMark p (e - p) (fold hb_compCodeTraceAddJump ts c)
      = fold hb_compCodeTraceAddJump ts (hb_compCodeTraceMark p (e - p) c)"
    by (rule Mark_AddJumps [OF pe(2)])
  have "switch_loop f (HB_PCODE_MKUSHORT (pCode f) (p + 1)) 0 (p + 3) c
      = Some (fold hb_compCodeTraceAddJump ts c, e, if d then HB_PCODE_MKUSHORT (pCode f) (p + 1) + 1 else HB_PCODE_MKUSHORT (pCode f) (p + 1))"
    using switch_loop_flow [OF _ few, of 0 "HB_PCODE_MKUSHORT (pCode f) (p + 1)" f "p + 3" c] sw by (simp add: switchAt_def)
  then show ?thesis
    using mark pe len by (simp add: hb_p_switch_trace_def traceStep_def Let_def size tg nxt)
qed

lemma handler_seqbegin:
  assumes wf: "traceWf f S" and p: "p \<in> set S" and len: "length (pCodeMark c) = length (pCode f)"
    and op: "pCode f ! p = HB_P_SEQBEGIN"
  shows "hb_p_seqbegin_trace f p c = Some (traceStep f p c)"
proof -
  let ?t = "jumpTarget (pCode f) p" let ?b = "posAdd ?t (- 4)"
  have size: "instrSize f p = 4" and ft: "farTarget f p = ?t" using op flow_size(4) flow_target(3) by auto
  have tg: "instrTargets f p = (if pCode f ! ?t \<noteq> HB_P_SEQEND \<and> pCode f ! ?b = HB_P_SEQEND then [?b] else []) @ [?t]"
    and nxt: "instrNext f p = Some (p + 4)"
    using op size by (simp_all add: instrTargets_def instrNext_def isCondJump_def jumpFar_def Let_def)
  have le: "p + 4 \<le> length (pCodeMark c)" using traceWf_D(3) [OF wf p] size len by simp
  show ?thesis
  proof (cases "pCode f ! ?t \<noteq> HB_P_SEQEND \<and> pCode f ! ?b = HB_P_SEQEND")
    case True
    then have b: "?b \<in> set (instrTargets f p)" using tg by simp
    have "?b \<noteq> p" using True op by auto
    then have "?b < length (pCodeMark c) \<and> (?b < p \<or> p + 4 \<le> ?b)"
      using target_apart [OF wf p traceWf_D(4) [OF wf p b]] size len by simp
    then show ?thesis
      using True Mark_AddJump [OF le, of ?b] by (simp add: hb_p_seqbegin_trace_def traceStep_def ft tg nxt size Let_def)
  next
    case False
    then show ?thesis by (auto simp: hb_p_seqbegin_trace_def traceStep_def ft tg nxt size Let_def)
  qed
qed

lemma handler_default:
  assumes no: "pCode f ! p \<notin> {HB_P_ENDBLOCK, HB_P_ENDPROC, HB_P_JUMPNEAR, HB_P_JUMP, HB_P_JUMPFAR,
      HB_P_JUMPFALSENEAR, HB_P_JUMPFALSE, HB_P_JUMPFALSEFAR, HB_P_JUMPTRUENEAR, HB_P_JUMPTRUE, HB_P_JUMPTRUEFAR,
      HB_P_SEQBEGIN, HB_P_SEQEND, HB_P_SWITCH, HB_P_SEQALWAYS, HB_P_ALWAYSBEGIN}"
  shows "hb_p_default_trace f p c = Some (traceStep f p c)"
    "s_codeTraceFuncTable (pCode f ! p) = Some hb_p_default_trace"
proof -
  have far: "jumpFar (pCode f ! p) = pCode f ! p" using no unfolding jumpFar_def by simp
  have "instrTargets f p = []" "instrNext f p = Some (p + instrSize f p)" "instrSize f p = hb_compPCodeSize f p"
    using no unfolding instrTargets_def instrNext_def instrSize_def isCondJump_def far Let_def by simp_all
  then show "hb_p_default_trace f p c = Some (traceStep f p c)"
    by (simp add: hb_p_default_trace_def traceStep_def Let_def)
  show "s_codeTraceFuncTable (pCode f ! p) = Some hb_p_default_trace"
    using no unfolding s_codeTraceFuncTable_def by simp
qed

lemma handler_step:
  assumes wf: "traceWf f S" and p: "p \<in> set S" and len: "length (pCodeMark c) = length (pCode f)"
  shows "\<exists>h. s_codeTraceFuncTable (pCode f ! p) = Some h \<and> h f p c = Some (traceStep f p c)"
proof -
  let ?op = "pCode f ! p"
  have le: "p + instrSize f p \<le> length (pCodeMark c)" using traceWf_D(3) [OF wf p] len by simp
  note sz = flow_size [of f p] and tg = flow_target [of f p] and kd = flow_kinds [of f p]
  consider "?op = HB_P_ENDBLOCK" | "?op = HB_P_ENDPROC" | "?op = HB_P_JUMPNEAR" | "?op = HB_P_JUMP"
    | "?op = HB_P_JUMPFAR" | "?op = HB_P_JUMPFALSENEAR" | "?op = HB_P_JUMPFALSE" | "?op = HB_P_JUMPFALSEFAR"
    | "?op = HB_P_JUMPTRUENEAR" | "?op = HB_P_JUMPTRUE" | "?op = HB_P_JUMPTRUEFAR" | "?op = HB_P_SEQEND"
    | "?op = HB_P_SEQALWAYS" | "?op = HB_P_ALWAYSBEGIN" | (seq) "?op = HB_P_SEQBEGIN" | (switch) "?op = HB_P_SWITCH"
    | (other) "?op \<notin> {HB_P_ENDBLOCK, HB_P_ENDPROC, HB_P_JUMPNEAR, HB_P_JUMP, HB_P_JUMPFAR,
      HB_P_JUMPFALSENEAR, HB_P_JUMPFALSE, HB_P_JUMPFALSEFAR, HB_P_JUMPTRUENEAR, HB_P_JUMPTRUE, HB_P_JUMPTRUEFAR,
      HB_P_SEQBEGIN, HB_P_SEQEND, HB_P_SWITCH, HB_P_SEQALWAYS, HB_P_ALWAYSBEGIN}"
    by blast
  then show ?thesis
  proof cases
    case 1 then show ?thesis using sz kd le len
      by (simp add: s_codeTraceFuncTable_def hb_p_endblock_trace_def traceStep_def Let_def)
  next case 2 then show ?thesis using sz kd le len
      by (simp add: s_codeTraceFuncTable_def hb_p_endproc_trace_def traceStep_def Let_def)
  next case 3 then show ?thesis using sz tg kd
      by (simp add: s_codeTraceFuncTable_def hb_p_jumpnear_trace_def traceStep_def)
  next case 4 then show ?thesis using sz tg kd
      by (simp add: s_codeTraceFuncTable_def hb_p_jump_trace_def traceStep_def)
  next case 5 then show ?thesis using sz tg kd
      by (simp add: s_codeTraceFuncTable_def hb_p_jumpfar_trace_def traceStep_def)
  next case 6 then show ?thesis using sz tg kd
      by (simp add: s_codeTraceFuncTable_def hb_p_jumpfalsenear_trace_def traceStep_def)
  next case 7 then show ?thesis using sz tg kd
      by (simp add: s_codeTraceFuncTable_def hb_p_jumpfalse_trace_def traceStep_def)
  next case 8 then show ?thesis using sz tg kd
      by (simp add: s_codeTraceFuncTable_def hb_p_jumpfalsefar_trace_def traceStep_def)
  next case 9 then show ?thesis using sz tg kd
      by (simp add: s_codeTraceFuncTable_def hb_p_jumptruenear_trace_def traceStep_def)
  next case 10 then show ?thesis using sz tg kd
      by (simp add: s_codeTraceFuncTable_def hb_p_jumptrue_trace_def traceStep_def)
  next case 11 then show ?thesis using sz tg kd
      by (simp add: s_codeTraceFuncTable_def hb_p_jumptruefar_trace_def traceStep_def)
  next case 12 then show ?thesis using sz tg kd
      by (simp add: s_codeTraceFuncTable_def hb_p_seqend_trace_def traceStep_def)
  next case 13 then show ?thesis using sz tg kd
      by (simp add: s_codeTraceFuncTable_def hb_p_seqalways_trace_def traceStep_def)
  next case 14 then show ?thesis using sz tg kd
      by (simp add: s_codeTraceFuncTable_def hb_p_alwaysbegin_trace_def traceStep_def)
  next case seq
    then have "s_codeTraceFuncTable ?op = Some hb_p_seqbegin_trace" by (simp add: s_codeTraceFuncTable_def)
    then show ?thesis using handler_seqbegin [OF wf p len seq] by blast
  next case switch
    then have "s_codeTraceFuncTable ?op = Some hb_p_switch_trace" by (simp add: s_codeTraceFuncTable_def)
    then show ?thesis using handler_switch [OF wf p len switch] by blast
  next case other
    then show ?thesis using handler_default(1) [OF other, of c] handler_default(2) [OF other] by blast
  qed
qed

subsection \<open>The invariant of the trace\<close>

text \<open>What is known when the trace is about to process position \<open>p\<close>: marks \<open>2\<close> are the bytes of the
  processed instructions, all of them reached, and the targets of these are marked or come next; a mark
  \<open>1\<close> is in the rest of the queue or comes next.\<close>

definition pending :: "HB_CODETRACE_INFO \<Rightarrow> nat list" where
  "pending c = drop (nJumpPos c) (pnJumps c)"

definition markInv :: "HB_HFUNC \<Rightarrow> nat list \<Rightarrow> HB_CODETRACE_INFO \<Rightarrow> (nat \<Rightarrow> bool) \<Rightarrow> bool" where
  "markInv f S c nxt \<longleftrightarrow>
     length (pCodeMark c) = length (pCode f) \<and> nJumpPos c \<le> length (pnJumps c)
     \<and> (\<forall>q\<in>set (pnJumps c). q \<in> set S \<and> flowReach f q)
     \<and> (\<forall>i<length (pCode f). pCodeMark c ! i \<le> 2 \<and> (pCodeMark c ! i = 1 \<longrightarrow> i \<in> set S \<and> (nxt i \<or> i \<in> set (pending c)))
          \<and> (pCodeMark c ! i = 2 \<longleftrightarrow> (\<exists>s\<in>set S. pCodeMark c ! s = 2 \<and> s \<le> i \<and> i < s + instrSize f s)))
     \<and> (\<forall>s\<in>set S. pCodeMark c ! s = 2 \<longrightarrow> flowReach f s
          \<and> (\<forall>q\<in>set (instrTargets f s). pCodeMark c ! q \<noteq> 0)
          \<and> (\<forall>q. instrNext f s = Some q \<longrightarrow> pCodeMark c ! q \<noteq> 0 \<or> nxt q))
     \<and> (pCodeMark c ! 0 \<noteq> 0 \<or> nxt 0)"

text \<open>The search for the next position.\<close>

lemma nextPos_loop_spec:
  "nJumpPos c \<le> length (pnJumps c) \<Longrightarrow> (\<And>q. q \<in> set (pnJumps c) \<Longrightarrow> q < length (pCodeMark c)) \<Longrightarrow>
   nextPos_loop c = (c', p') \<Longrightarrow>
   pCodeMark c' = pCodeMark c \<and> pnJumps c' = pnJumps c \<and> nJumpPos c' \<le> length (pnJumps c')
   \<and> (p' = length (pCodeMark c) \<and> fFinished c' \<and> pending c' = []
      \<or> p' \<in> set (pnJumps c) \<and> p' < length (pCodeMark c) \<and> pCodeMark c ! p' = 1)
   \<and> (\<forall>i\<in>set (pending c). pCodeMark c ! i = 1 \<longrightarrow> i = p' \<or> i \<in> set (pending c'))"
proof (induction c arbitrary: c' p' rule: nextPos_loop.induct)
  case (1 c)
  show ?case
  proof (cases "nJumpPos c < length (pnJumps c)")
    case False
    then show ?thesis using 1(2,4) by (auto simp: nextPos_loop.simps [of c] pending_def)
  next
    case True
    let ?q = "pnJumps c ! nJumpPos c" let ?c = "c\<lparr>nJumpPos := nJumpPos c + 1\<rparr>"
    have pend: "pending c = ?q # pending ?c" using True by (simp add: pending_def Cons_nth_drop_Suc)
    have q: "?q \<in> set (pnJumps c)" using True by simp
    show ?thesis
    proof (cases "pCodeMark c ! ?q = 1")
      case eq: True
      then have "c' = ?c" "p' = ?q" using 1(4) True by (simp_all add: nextPos_loop.simps [of c] Let_def)
      then show ?thesis using True eq q 1(3) pend by auto
    next
      case False
      then have "nextPos_loop ?c = (c', p')" using 1(4) True by (simp add: nextPos_loop.simps [of c] Let_def)
      from 1(1) [OF True refl refl _ _ _ this] show ?thesis using False True 1(3) pend by auto
    qed
  qed
qed

lemma nextPos_spec:
  assumes "nJumpPos c \<le> length (pnJumps c)" "\<And>q. q \<in> set (pnJumps c) \<Longrightarrow> q < length (pCodeMark c)"
    "hb_compCodeTraceNextPos c q = (c', p')"
  shows "pCodeMark c' = pCodeMark c \<and> pnJumps c' = pnJumps c \<and> nJumpPos c' \<le> length (pnJumps c')
   \<and> (p' = length (pCodeMark c) \<and> fFinished c' \<and> pending c' = []
      \<or> p' < length (pCodeMark c) \<and> (p' \<in> set (pnJumps c) \<and> pCodeMark c ! p' = 1 \<or> p' = q \<and> pCodeMark c ! p' = 0))
   \<and> (\<forall>i\<in>set (pending c). pCodeMark c ! i = 1 \<longrightarrow> i = p' \<or> i \<in> set (pending c'))
   \<and> (q < length (pCodeMark c) \<longrightarrow> pCodeMark c ! q \<noteq> 0 \<or> q = p')"
proof (cases "q < length (pCodeMark c) \<and> pCodeMark c ! q = 0")
  case True
  then show ?thesis using assms by (auto simp: hb_compCodeTraceNextPos_def)
next
  case False
  then have "nextPos_loop c = (c', p')" using assms(3) unfolding hb_compCodeTraceNextPos_def by (simp only: if_False)
  from nextPos_loop_spec [OF assms(1,2) this] show ?thesis using False by auto
qed

text \<open>The invariant after the marks of an instruction are set and its targets are queued.\<close>

lemma markInv_step:
  assumes wf: "traceWf f S" and inv: "markInv f S c (\<lambda>i. i = p)" and p: "p \<in> set S" "flowReach f p" "pCodeMark c ! p \<noteq> 2"
  defines "c2 \<equiv> fold hb_compCodeTraceAddJump (instrTargets f p) (hb_compCodeTraceMark p (instrSize f p) c)"
  shows "markInv f S c2 (\<lambda>i. instrNext f p = Some i)"
    "pCodeMark c2 ! p = 2" "\<And>s. s \<in> set S \<Longrightarrow> pCodeMark c ! s = 2 \<Longrightarrow> pCodeMark c2 ! s = 2"
    "\<forall>i<length (pCode f). pCodeMark c2 ! i = 1 \<longrightarrow> i \<in> set (pending c2)"
proof -
  let ?m = "pCodeMark c" let ?n = "length (pCode f)" let ?ts = "instrTargets f p"
  let ?c1 = "hb_compCodeTraceMark p (instrSize f p) c"
  note D = traceWf_D [OF wf]
  have len: "length ?m = ?n" using inv by (simp add: markInv_def)
  have le: "p + instrSize f p \<le> length ?m" and pos: "0 < instrSize f p" using D(2,3) [OF p(1)] len by simp_all
  have m1: "i < ?n \<Longrightarrow> pCodeMark ?c1 ! i = (if p \<le> i \<and> i < p + instrSize f p then 2 else ?m ! i)" for i
    using Mark_nth [OF le] len by simp
  have len1: "length (pCodeMark ?c1) = ?n" using le len by simp
  have tsS: "q \<in> set ?ts \<Longrightarrow> q \<in> set S" and tsR: "q \<in> set ?ts \<Longrightarrow> flowReach f q" for q
    using D(4) [OF p(1)] flowReach.target [OF p(2)] by blast+
  have tsn: "\<forall>q\<in>set ?ts. q < length (pCodeMark ?c1)" using tsS D(7) len1 by auto
  from AddJumps_spec [OF tsn] obtain new where A: "nJumpPos c2 = nJumpPos c"
    "\<And>i. i < ?n \<Longrightarrow> pCodeMark c2 ! i = (if pCodeMark ?c1 ! i = 0 \<and> i \<in> set ?ts then 1 else pCodeMark ?c1 ! i)"
    "pnJumps c2 = pnJumps c @ new" "set new = {q \<in> set ?ts. pCodeMark ?c1 ! q = 0}"
    unfolding c2_def by (auto simp: len1)
  have len2: "length (pCodeMark c2) = ?n" using len1 by (simp add: c2_def)
  have m2: "pCodeMark c2 ! i = (if p \<le> i \<and> i < p + instrSize f p then 2 else if ?m ! i = 0 \<and> i \<in> set ?ts then 1 else ?m ! i)"
    if "i < ?n" for i using A(2) [OF that] m1 [OF that] by simp
  have inS: "s < ?n" "p \<le> s \<and> s < p + instrSize f p \<longleftrightarrow> s = p" if "s \<in> set S" for s
    using D(7) [OF that] traceWf_same_instr [OF wf p(1) that] pos by auto
  have m2S: "pCodeMark c2 ! s = (if s = p then 2 else if ?m ! s = 0 \<and> s \<in> set ?ts then 1 else ?m ! s)" if "s \<in> set S" for s
    using m2 inS [OF that] by simp
  show "pCodeMark c2 ! p = 2" using m2S [OF p(1)] by simp
  show "\<And>s. s \<in> set S \<Longrightarrow> pCodeMark c ! s = 2 \<Longrightarrow> pCodeMark c2 ! s = 2" using m2S by simp
  have two: "pCodeMark c2 ! s = 2 \<longleftrightarrow> s = p \<or> ?m ! s = 2" if "s \<in> set S" for s using m2S [OF that] by simp
  have nz: "?m ! s \<noteq> 0 \<Longrightarrow> pCodeMark c2 ! s \<noteq> 0" if "s \<in> set S" for s using m2S [OF that] by simp
  have pend: "set (pending c2) = set (pending c) \<union> set new" using A(1,3) inv by (auto simp: pending_def markInv_def)
  have queue: "\<forall>q\<in>set (pnJumps c2). q \<in> set S \<and> flowReach f q"
    using A(3,4) inv tsS tsR by (auto simp: markInv_def)
  have bytes: "pCodeMark c2 ! i \<le> 2 \<and> (pCodeMark c2 ! i = 1 \<longrightarrow> i \<in> set S \<and> i \<in> set (pending c2))
      \<and> (pCodeMark c2 ! i = 2 \<longleftrightarrow> (\<exists>s\<in>set S. pCodeMark c2 ! s = 2 \<and> s \<le> i \<and> i < s + instrSize f s))" if i: "i < ?n" for i
  proof -
    have old: "?m ! i \<le> 2" "?m ! i = 1 \<Longrightarrow> i \<in> set S \<and> (i = p \<or> i \<in> set (pending c))"
      "?m ! i = 2 \<longleftrightarrow> (\<exists>s\<in>set S. ?m ! s = 2 \<and> s \<le> i \<and> i < s + instrSize f s)"
      using inv i by (simp_all add: markInv_def)
    have "pCodeMark c2 ! i = 1 \<Longrightarrow> i \<in> set S \<and> i \<in> set (pending c2)"
    proof -
      assume one: "pCodeMark c2 ! i = 1"
      then have out: "\<not> (p \<le> i \<and> i < p + instrSize f p)" using m2 [OF i] by auto
      show "i \<in> set S \<and> i \<in> set (pending c2)"
      proof (cases "?m ! i = 0 \<and> i \<in> set ?ts")
        case True
        then show ?thesis using A(4) m1 [OF i] out tsS pend by auto
      next
        case False
        then have "?m ! i = 1" using one m2 [OF i] out by auto
        then show ?thesis using old(2) out pos pend by auto
      qed
    qed
    moreover have "pCodeMark c2 ! i = 2 \<longleftrightarrow> (\<exists>s\<in>set S. pCodeMark c2 ! s = 2 \<and> s \<le> i \<and> i < s + instrSize f s)"
    proof -
      have "pCodeMark c2 ! i = 2 \<longleftrightarrow> (p \<le> i \<and> i < p + instrSize f p) \<or> ?m ! i = 2" using m2 [OF i] by auto
      also have "\<dots> \<longleftrightarrow> (\<exists>s\<in>set S. pCodeMark c2 ! s = 2 \<and> s \<le> i \<and> i < s + instrSize f s)"
        using two p(1) unfolding old(3) by blast
      finally show ?thesis .
    qed
    moreover have "pCodeMark c2 ! i \<le> 2" using m2 [OF i] old(1) by simp
    ultimately show ?thesis by blast
  qed
  then show "\<forall>i<length (pCode f). pCodeMark c2 ! i = 1 \<longrightarrow> i \<in> set (pending c2)" by blast
  have closed: "flowReach f s \<and> (\<forall>q\<in>set (instrTargets f s). pCodeMark c2 ! q \<noteq> 0)
      \<and> (\<forall>q. instrNext f s = Some q \<longrightarrow> pCodeMark c2 ! q \<noteq> 0 \<or> instrNext f p = Some q)"
    if s: "s \<in> set S" "pCodeMark c2 ! s = 2" for s
  proof (cases "s = p")
    case True
    have "pCodeMark c2 ! q \<noteq> 0" if "q \<in> set ?ts" for q using m2S [OF tsS [OF that]] that by simp
    then show ?thesis using True p(2) by simp
  next
    case False
    then have "?m ! s = 2" using two s by simp
    then have old: "flowReach f s" "\<forall>q\<in>set (instrTargets f s). ?m ! q \<noteq> 0"
      "\<forall>q. instrNext f s = Some q \<longrightarrow> ?m ! q \<noteq> 0 \<or> q = p" using inv s(1) by (simp_all add: markInv_def)
    moreover have "pCodeMark c2 ! q \<noteq> 0" if "instrNext f s = Some q" for q
      using old(3) that nz [OF D(5) [OF s(1) that]] m2S [OF p(1)] by auto
    ultimately show ?thesis using nz D(4) [OF s(1)] by blast
  qed
  have "0 \<in> set S" using wf by (simp add: traceWf_def)
  then have "pCodeMark c2 ! 0 \<noteq> 0" using inv nz m2S [of 0] by (auto simp: markInv_def)
  then show "markInv f S c2 (\<lambda>i. instrNext f p = Some i)"
    using len2 queue bytes closed A(1,3) inv unfolding markInv_def by simp
qed

text \<open>Choosing the next position keeps the invariant.\<close>

lemma markInv_next:
  assumes wf: "traceWf f S" and inv: "markInv f S c (\<lambda>i. nxt = Some i)"
    and pend: "\<forall>i<length (pCode f). pCodeMark c ! i = 1 \<longrightarrow> i \<in> set (pending c)"
    and n: "\<And>q. nxt = Some q \<Longrightarrow> q \<in> set S \<and> flowReach f q"
    and c': "hb_compCodeTraceNextPos c (case nxt of None \<Rightarrow> length (pCode f) | Some q \<Rightarrow> q) = (c', p')"
  shows "markInv f S c' (\<lambda>i. i = p') \<and> pCodeMark c' = pCodeMark c
    \<and> (p' = length (pCode f) \<and> fFinished c' \<and> pending c' = []
       \<or> p' \<in> set S \<and> flowReach f p' \<and> pCodeMark c ! p' \<noteq> 2)"
proof -
  let ?q = "case nxt of None \<Rightarrow> length (pCode f) | Some q \<Rightarrow> q"
  have len: "length (pCodeMark c) = length (pCode f)" and pos: "nJumpPos c \<le> length (pnJumps c)"
    and Q: "\<And>q. q \<in> set (pnJumps c) \<Longrightarrow> q \<in> set S \<and> flowReach f q" using inv by (simp_all add: markInv_def)
  have lt: "\<And>q. q \<in> set (pnJumps c) \<Longrightarrow> q < length (pCodeMark c)" using Q traceWf_D(7) [OF wf] len by simp
  note N = nextPos_spec [OF pos lt c', unfolded len]
  have nq: "pCodeMark c ! i \<noteq> 0 \<or> i = p'" if "nxt = Some i" for i
    using N that n [OF that] traceWf_D(7) [OF wf, of i] by auto
  have P: "p' = length (pCode f) \<and> fFinished c' \<and> pending c' = [] \<or> p' \<in> set S \<and> flowReach f p' \<and> pCodeMark c ! p' \<noteq> 2"
  proof -
    have "p' \<in> set S \<and> flowReach f p'" if "p' < length (pCode f)" "p' = ?q"
      using that n by (cases nxt) auto
    then show ?thesis using N Q by auto
  qed
  have "\<forall>i<length (pCode f). pCodeMark c ! i = 1 \<longrightarrow> i = p' \<or> i \<in> set (pending c')" using N pend by blast
  moreover have "pCodeMark c' = pCodeMark c" "pnJumps c' = pnJumps c" "nJumpPos c' \<le> length (pnJumps c')"
    using N by blast+
  moreover have "\<forall>s\<in>set S. pCodeMark c ! s = 2 \<longrightarrow> flowReach f s
      \<and> (\<forall>q\<in>set (instrTargets f s). pCodeMark c ! q \<noteq> 0)
      \<and> (\<forall>q. instrNext f s = Some q \<longrightarrow> pCodeMark c ! q \<noteq> 0 \<or> q = p')"
    using inv nq unfolding markInv_def by blast
  moreover have "pCodeMark c ! 0 \<noteq> 0 \<or> 0 = p'" using inv nq unfolding markInv_def by blast
  moreover have "length (pCodeMark c) = length (pCode f) \<and> (\<forall>q\<in>set (pnJumps c). q \<in> set S \<and> flowReach f q)
      \<and> (\<forall>i<length (pCode f). pCodeMark c ! i \<le> 2 \<and> (pCodeMark c ! i = 1 \<longrightarrow> i \<in> set S)
          \<and> (pCodeMark c ! i = 2 \<longleftrightarrow> (\<exists>s\<in>set S. pCodeMark c ! s = 2 \<and> s \<le> i \<and> i < s + instrSize f s)))"
    using inv unfolding markInv_def by blast
  ultimately show ?thesis using P unfolding markInv_def by simp
qed

subsection \<open>The trace ends and is exact\<close>

lemma trace_run:
  assumes wf: "traceWf f S"
  shows "markInv f S c (\<lambda>i. i = p) \<Longrightarrow>
     p = length (pCode f) \<and> fFinished c \<and> pending c = [] \<or> p \<in> set S \<and> flowReach f p \<and> pCodeMark c ! p \<noteq> 2 \<Longrightarrow>
   \<exists>c'. hb_compPCodeTrace s_codeTraceFuncTable f c p = Some (Inr c') \<and> fFinished c' \<and> pending c' = []
     \<and> markInv f S c' (\<lambda>i. i = length (pCode f))"
proof (induction "card {s \<in> set S. pCodeMark c ! s \<noteq> 2}" arbitrary: c p rule: less_induct)
  case less
  show ?case
  proof (cases "p = length (pCode f) \<and> fFinished c \<and> pending c = []")
    case True
    then show ?thesis using less.prems(1) by (subst hb_compPCodeTrace.simps) simp
  next
    case False
    then have p: "p \<in> set S" "flowReach f p" "pCodeMark c ! p \<noteq> 2" using less.prems(2) by auto
    have len: "length (pCodeMark c) = length (pCode f)" using less.prems(1) by (simp add: markInv_def)
    obtain h where h: "s_codeTraceFuncTable (pCode f ! p) = Some h" "h f p c = Some (traceStep f p c)"
      using handler_step [OF wf p(1) len] by blast
    obtain c' p' where st: "traceStep f p c = (c', p')" by (cases "traceStep f p c")
    let ?c2 = "fold hb_compCodeTraceAddJump (instrTargets f p) (hb_compCodeTraceMark p (instrSize f p) c)"
    note A = markInv_step [OF wf less.prems(1) p]
    have nx: "instrNext f p = Some q \<Longrightarrow> q \<in> set S \<and> flowReach f q" for q
      using traceWf_D(5) [OF wf p(1)] flowReach.cont [OF p(2)] by blast
    note B = markInv_next [OF wf A(1,4) nx st [unfolded traceStep_def]]
    have "{s \<in> set S. pCodeMark c' ! s \<noteq> 2} \<subset> {s \<in> set S. pCodeMark c ! s \<noteq> 2}"
      using A(2,3) B p by auto
    then have "card {s \<in> set S. pCodeMark c' ! s \<noteq> 2} < card {s \<in> set S. pCodeMark c ! s \<noteq> 2}"
      by (intro psubset_card_mono) auto
    from less.hyps [OF this, of p'] B obtain c'' where
      "hb_compPCodeTrace s_codeTraceFuncTable f c' p' = Some (Inr c'') \<and> fFinished c'' \<and> pending c'' = []
        \<and> markInv f S c'' (\<lambda>i. i = length (pCode f))" by auto
    then show ?thesis
      using h st traceWf_D(1,7) [OF wf p(1)] by (subst hb_compPCodeTrace.simps) (auto simp: Let_def)
  qed
qed

lemma trace_exact:
  assumes wf: "traceWf f S"
  obtains c where "hb_compPCodeTrace s_codeTraceFuncTable f
      \<lparr>pCodeMark = replicate (length (pCode f)) 0, pnJumps = [], nJumpPos = 0, nJumpSize = 0, fFinished = False\<rparr> 0 = Some (Inr c)"
    "fFinished c" "length (pCodeMark c) = length (pCode f)"
    "\<And>i. i < length (pCode f) \<Longrightarrow> (pCodeMark c ! i \<noteq> 0) = liveByte f i"
proof -
  let ?c0 = "\<lparr>pCodeMark = replicate (length (pCode f)) 0, pnJumps = [], nJumpPos = 0, nJumpSize = 0, fFinished = False\<rparr>"
  have 0: "0 \<in> set S" "0 < length (pCode f)" using wf traceWf_D(7) [OF wf, of 0] by (auto simp: traceWf_def)
  have "markInv f S ?c0 (\<lambda>i. i = 0)"
    using 0 traceWf_D(7) [OF wf] by (auto simp: markInv_def pending_def)
  from trace_run [OF wf this] 0 flowReach.start obtain c where
    c: "hb_compPCodeTrace s_codeTraceFuncTable f ?c0 0 = Some (Inr c)" "fFinished c" "pending c = []"
      "markInv f S c (\<lambda>i. i = length (pCode f))" by auto
  let ?m = "pCodeMark c"
  have n: "length ?m = length (pCode f)" using c(4) by (simp add: markInv_def)
  have no1: "?m ! i \<noteq> 0 \<longleftrightarrow> ?m ! i = 2" if "i < length (pCode f)" for i
  proof -
    have "?m ! i \<le> 2" "?m ! i \<noteq> 1" using c(3,4) that by (auto simp: markInv_def)
    then show ?thesis by linarith
  qed
  have S2: "?m ! s = 2 \<longleftrightarrow> flowReach f s" if "s \<in> set S" for s
  proof
    show "?m ! s = 2 \<Longrightarrow> flowReach f s" using c(4) that by (simp add: markInv_def)
    have "flowReach f s \<Longrightarrow> s \<in> set S \<and> ?m ! s = 2"
    proof (induction rule: flowReach.induct)
      case start
      have "?m ! 0 \<noteq> 0 \<or> 0 = length (pCode f)" using c(4) unfolding markInv_def by blast
      then show ?case using 0 no1 [of 0] by simp
    next
      case (target p q)
      then have "q \<in> set S" "?m ! q \<noteq> 0" using traceWf_D(4) [OF wf] c(4) unfolding markInv_def by blast+
      then show ?case using no1 traceWf_D(7) [OF wf] by simp
    next
      case (cont p q)
      have q: "q \<in> set S" using cont traceWf_D(5) [OF wf] by blast
      have "?m ! q \<noteq> 0 \<or> q = length (pCode f)" using cont c(4) unfolding markInv_def by blast
      then have "?m ! q \<noteq> 0" using traceWf_D(7) [OF wf q] by simp
      then show ?case using q no1 traceWf_D(7) [OF wf] by simp
    qed
    then show "flowReach f s \<Longrightarrow> ?m ! s = 2" by blast
  qed
  have "(?m ! i \<noteq> 0) = liveByte f i" if "i < length (pCode f)" for i
  proof -
    have "?m ! i = 2 \<longleftrightarrow> (\<exists>s\<in>set S. ?m ! s = 2 \<and> s \<le> i \<and> i < s + instrSize f s)"
      using c(4) that by (simp add: markInv_def)
    also have "\<dots> \<longleftrightarrow> (\<exists>s\<in>set S. flowReach f s \<and> s \<le> i \<and> i < s + instrSize f s)"
      by (rule bex_cong [OF refl]) (simp add: S2)
    also have "\<dots> \<longleftrightarrow> liveByte f i"
      unfolding liveByte_def using flowReach_starts [OF wf] by (auto simp: Bex_def)
    finally show ?thesis using no1 [OF that] by blast
  qed
  with c(1,2) n show ?thesis by (rule that)
qed

end
