(* ===== verification/HbDeadFlow.thy ===== *)
theory HbDeadFlow
  imports HbDeadCorrect
begin

text \<open>
  The control flow out of an instruction depends on its bytes alone, so filling the code that cannot be
  reached keeps the reachable instructions and the flow between them.
\<close>

subsection \<open>The size of an instruction depends on its bytes\<close>

definition sameBytes :: "HB_HFUNC \<Rightarrow> HB_HFUNC \<Rightarrow> nat \<Rightarrow> nat \<Rightarrow> bool" where
  "sameBytes f' f a b \<longleftrightarrow> length (pCode f') = length (pCode f) \<and> (\<forall>i. a \<le> i \<and> i < b \<longrightarrow> pCode f' ! i = pCode f ! i)"

lemma sameBytes_D: "sameBytes f' f a b \<Longrightarrow> a \<le> i \<Longrightarrow> i < b \<Longrightarrow> pCode f' ! i = pCode f ! i"
  by (simp add: sameBytes_def)

lemma sameBytes_mono: "sameBytes f' f a b \<Longrightarrow> a \<le> a' \<Longrightarrow> b' \<le> b \<Longrightarrow> sameBytes f' f a' b'"
  by (simp add: sameBytes_def)

lemma sameBytes_sym: "sameBytes f' f a b \<Longrightarrow> sameBytes f f' a b"
  by (simp add: sameBytes_def)

lemma scanZero_ge: "p < scanZero c p"
proof (induction c p rule: scanZero.induct)
  case (1 c p)
  show ?case using 1 by (subst scanZero.simps) (auto dest: Suc_lessD)
qed

lemma scanZero_same:
  "sameBytes f' f a b \<Longrightarrow> a \<le> p \<Longrightarrow> scanZero (pCode f) p \<le> b \<Longrightarrow> scanZero (pCode f') p = scanZero (pCode f) p"
proof (induction "pCode f" p rule: scanZero.induct)
  case (1 p)
  show ?case
  proof (cases "p < length (pCode f) \<and> pCode f ! p \<noteq> 0")
    case True
    then have e: "scanZero (pCode f) p = scanZero (pCode f) (p + 1)" by (subst scanZero.simps) simp
    then have "p < b" using 1(4) scanZero_ge [of "p + 1" "pCode f"] by linarith
    then have "pCode f' ! p = pCode f ! p" "length (pCode f') = length (pCode f)" using 1(2,3) by (auto simp: sameBytes_def)
    then have "scanZero (pCode f') p = scanZero (pCode f') (p + 1)" using True by (subst scanZero.simps) simp
    then show ?thesis using e 1(1) [OF True 1(2)] 1(3,4) by simp
  next
    case False
    then have e: "scanZero (pCode f) p = p + 1" by (subst scanZero.simps) (simp only: if_False)
    then have "p < b" using 1(4) by simp
    then have "pCode f' ! p = pCode f ! p" "length (pCode f') = length (pCode f)" using 1(2,3) by (auto simp: sameBytes_def)
    then have "\<not> (p < length (pCode f') \<and> pCode f' ! p \<noteq> 0)" using False by simp
    then have "scanZero (pCode f') p = p + 1" by (subst scanZero.simps) (simp only: if_False)
    then show ?thesis using e by simp
  qed
qed

lemma MKUSHORT_same: "sameBytes f' f a b \<Longrightarrow> a \<le> p \<Longrightarrow> p + 2 \<le> b \<Longrightarrow> HB_PCODE_MKUSHORT (pCode f') p = HB_PCODE_MKUSHORT (pCode f) p"
  by (simp add: HB_PCODE_MKUSHORT_def sameBytes_def)

lemma MKSHORT_same: "sameBytes f' f a b \<Longrightarrow> a \<le> p \<Longrightarrow> p + 2 \<le> b \<Longrightarrow> HB_PCODE_MKSHORT (pCode f') p = HB_PCODE_MKSHORT (pCode f) p"
  by (simp add: HB_PCODE_MKSHORT_def sameBytes_def)

lemma MKUINT24_same: "sameBytes f' f a b \<Longrightarrow> a \<le> p \<Longrightarrow> p + 3 \<le> b \<Longrightarrow> HB_PCODE_MKUINT24 (pCode f') p = HB_PCODE_MKUINT24 (pCode f) p"
  by (simp add: HB_PCODE_MKUINT24_def sameBytes_def)

lemma SCHAR_same: "sameBytes f' f a b \<Longrightarrow> a \<le> p \<Longrightarrow> p + 1 \<le> b \<Longrightarrow> HB_SCHAR_at (pCode f') p = HB_SCHAR_at (pCode f) p"
  by (simp add: HB_SCHAR_at_def sameBytes_def)

lemmas operand_same = MKUSHORT_same MKSHORT_same MKUINT24_same SCHAR_same

lemma jump_same:
  assumes "sameBytes f' f a b" "a \<le> p" "p + jumpSize (pCode f) p \<le> b"
  shows "jumpOffset (pCode f') p = jumpOffset (pCode f) p" "jumpSize (pCode f') p = jumpSize (pCode f) p"
    "jumpTarget (pCode f') p = jumpTarget (pCode f) p"
proof -
  have b: "pCode f' ! (p + i) = pCode f ! (p + i)" if "i < jumpSize (pCode f) p" for i
    using assms that by (intro sameBytes_D [OF assms(1)]) auto
  show "jumpOffset (pCode f') p = jumpOffset (pCode f) p" "jumpSize (pCode f') p = jumpSize (pCode f) p"
    using jumpOffset_cong [of "pCode f" p "pCode f'" p] b by blast+
  then show "jumpTarget (pCode f') p = jumpTarget (pCode f) p" by (simp add: jumpTarget_def)
qed

lemma switchValue_ge: "p \<le> fst (switchValue f p)"
  by (auto simp: switchValue_def Let_def)

lemma switchJump_ge: "p + 2 \<le> snd (switchJump f p)"
  by (auto simp: switchJump_def Let_def)

lemma switchValue_same:
  assumes "sameBytes f' f a b" "a \<le> p" "fst (switchValue f p) < b"
  shows "switchValue f' p = switchValue f p"
proof -
  have p: "p < b" using assms(3) switchValue_ge [of p f] by linarith
  then have op: "pCode f' ! p = pCode f ! p" using assms by (auto simp: sameBytes_def)
  show ?thesis
    using assms p op
    by (auto simp: switchValue_def Let_def sameBytes_def HB_PCODE_MKUSHORT_def HB_PCODE_MKUINT24_def split: if_splits)
qed

lemma switchJump_same:
  assumes "sameBytes f' f a b" "a \<le> p" "snd (switchJump f p) \<le> b"
  shows "switchJump f' p = switchJump f p"
proof -
  have op: "pCode f' ! p = pCode f ! p" using assms switchJump_ge [of p f] by (auto simp: sameBytes_def)
  show ?thesis
    using assms op
    by (auto simp: switchJump_def Let_def sameBytes_def nearTarget_def shortTarget_def farTarget_def HB_SCHAR_at_def
        HB_PCODE_MKSHORT_def HB_PCODE_MKINT24_def numeral_eq_Suc split: if_splits)
qed

lemma switchFlow_ge: "p \<le> fst (snd (switchFlow f n p))"
proof (induction n arbitrary: p)
  case (Suc n)
  show ?case
    using Suc [of "snd (switchJump f (fst (switchValue f p)))"] switchValue_ge [of p f]
      switchJump_ge [of "fst (switchValue f p)" f]
    by (auto simp: Let_def split: prod.splits)
qed simp

lemma switchFlow_same:
  "sameBytes f' f a b \<Longrightarrow> a \<le> p \<Longrightarrow> fst (snd (switchFlow f n p)) \<le> b \<Longrightarrow> switchFlow f' n p = switchFlow f n p"
proof (induction n arbitrary: p)
  case (Suc n)
  let ?v = "switchValue f p" let ?j = "switchJump f (fst ?v)"
  have e: "snd ?j \<le> b"
    using Suc.prems(3) switchFlow_ge [of "snd ?j" f n] by (auto simp: Let_def split: if_splits prod.splits)
  have ge: "p \<le> fst ?v" "fst ?v + 2 \<le> snd ?j" using switchValue_ge switchJump_ge by blast+
  have v: "switchValue f' p = ?v" using switchValue_same [OF Suc.prems(1,2)] e ge by simp
  have j: "switchJump f' (fst ?v) = ?j" using switchJump_same [OF Suc.prems(1) _ e] ge Suc.prems(2) by simp
  show ?case
  proof (cases "snd ?v")
    case True
    then show ?thesis using v j by (simp add: Let_def)
  next
    case False
    then have "switchFlow f' n (snd ?j) = switchFlow f n (snd ?j)"
      using Suc.IH [of "snd ?j"] Suc.prems ge by (auto simp: Let_def split: prod.splits)
    then show ?thesis using v j False by (simp add: Let_def)
  qed
qed simp

text \<open>The operation code of a code block and the size field behind it, which counts itself.\<close>

definition blockHead :: "HB_BYTE \<Rightarrow> nat" where
  "blockHead op = (if op = HB_P_PUSHBLOCK then 3 else if op = HB_P_PUSHBLOCKSHORT then 2 else if op = HB_P_PUSHBLOCKLARGE then 4 else 0)"

lemma switch_size3: "unat (pCode f ! p) < HB_P_LAST_PCODE \<Longrightarrow> pCode f ! p = HB_P_SWITCH \<Longrightarrow> p + 3 \<le> p + instrSize f p"
  using switchFlow_ge [of "p + 3" f "HB_PCODE_MKUSHORT (pCode f) (p + 1)"] by (simp add: instrSize_def switchAt_def)

lemma instrSize_same:
  assumes same: "sameBytes f' f p (p + instrSize f p)" and last: "unat (pCode f ! p) < HB_P_LAST_PCODE"
    and pos: "0 < instrSize f p" and block: "blockHead (pCode f ! p) \<le> instrSize f p"
  shows "instrSize f' p = instrSize f p"
proof -
  have op: "pCode f' ! p = pCode f ! p" using sameBytes_D [OF same, of p] pos by simp
  show ?thesis
  proof (cases "pCode f ! p = HB_P_SWITCH")
    case True
    have "HB_PCODE_MKUSHORT (pCode f') (p + 1) = HB_PCODE_MKUSHORT (pCode f) (p + 1)"
      using switch_size3 [OF last True] by (intro MKUSHORT_same [OF same]) auto
    moreover have "switchFlow f' n (p + 3) = switchFlow f n (p + 3)" if "n = HB_PCODE_MKUSHORT (pCode f) (p + 1)" for n
      using that True switchFlow_ge [of "p + 3" f n]
      by (intro switchFlow_same [OF same]) (simp_all add: instrSize_def switchAt_def)
    ultimately show ?thesis using op True by (simp add: instrSize_def switchAt_def)
  next
    case False
    note nosw = False
    show ?thesis
    proof (cases "hb_comp_pcode_len ! unat (pCode f ! p) = 0")
      case False
      then show ?thesis using nosw op last by (simp add: instrSize_def hb_compPCodeSize_def Let_def)
    next
      case True
      have sz: "instrSize g p = (case s_psize_table (pCode f ! p) of Some pCall \<Rightarrow> pCall g p | None \<Rightarrow> 0)"
        if "pCode g ! p = pCode f ! p" for g
        using that nosw True last by (simp add: instrSize_def hb_compPCodeSize_def Let_def)
      obtain h where h: "s_psize_table (pCode f ! p) = Some h"
        using sz [of f] pos by (cases "s_psize_table (pCode f ! p)") auto
      have szf: "instrSize f p = h f p" "instrSize f' p = h f' p" using sz [of f] sz [of f'] op h by simp_all
      note S = same [unfolded szf(1)]
      have scan: "scanZero (pCode f') (p + k) - p = scanZero (pCode f) (p + k) - p"
        if "h f p = scanZero (pCode f) (p + k) - p" for k
        using that scanZero_ge [of "p + k" "pCode f"] scanZero_same [OF S, of "p + k"] by simp
      note defs = hb_p_localname_size_def hb_p_modulename_size_def hb_p_staticname_size_def
      note defs2 = hb_p_threadstatics_size_def hb_p_pushstrshort_size_def hb_p_pushstr_size_def hb_p_pushstrlarge_size_def
        hb_p_pushstrhidden_size_def hb_p_pushblock_size_def hb_p_pushblockshort_size_def hb_p_pushblocklarge_size_def
      consider "h = hb_p_localname_size" | "h = hb_p_modulename_size" | "h = hb_p_staticname_size"
        | "h = hb_p_threadstatics_size" | "h = hb_p_pushstrshort_size" | "h = hb_p_pushstr_size" | "h = hb_p_pushstrlarge_size"
        | "h = hb_p_pushstrhidden_size"
        | "blockHead (pCode f ! p) = 3" "h = hb_p_pushblock_size" | "blockHead (pCode f ! p) = 2" "h = hb_p_pushblockshort_size"
        | "blockHead (pCode f ! p) = 4" "h = hb_p_pushblocklarge_size"
        using h by (auto simp: s_psize_table_def blockHead_def split: if_splits)
      then have "h f' p = h f p"
      proof cases
        case 1 then show ?thesis using scan [of 3] by (simp add: defs)
      next
        case 2 then show ?thesis using scan [of 1] by (simp add: defs)
      next
        case 3 then show ?thesis using scan [of 4] by (simp add: defs)
      next
        case 4 then show ?thesis using S by (simp add: defs2 MKUSHORT_same [OF S])
      next
        case 5 then show ?thesis using S by (simp add: defs2 sameBytes_D [OF S])
      next
        case 6 then show ?thesis using S by (simp add: defs2 MKUSHORT_same [OF S])
      next
        case 7 then show ?thesis using S by (simp add: defs2 MKUINT24_same [OF S])
      next
        case 8 then show ?thesis using S by (simp add: defs2 MKUSHORT_same [OF S])
      next
        case 9 then show ?thesis using block szf(1) MKUSHORT_same [OF S, of "p + 1"] by (simp add: defs2)
      next
        case 10 then show ?thesis using block szf(1) sameBytes_D [OF S, of "p + 1"] by (simp add: defs2)
      next
        case 11 then show ?thesis using block szf(1) MKUINT24_same [OF S, of "p + 1"] by (simp add: defs2)
      qed
      then show ?thesis using szf by simp
    qed
  qed
qed

subsection \<open>The control flow after the fill\<close>

lemma nth_beyond: "length xs = length ys \<Longrightarrow> length xs \<le> i \<Longrightarrow> xs ! i = ys ! i"
  by (induction xs ys arbitrary: i rule: list_induct2) (auto simp: nth_Cons' )

lemma instr_same:
  assumes same: "sameBytes f' f p (p + instrSize f p)" and last: "unat (pCode f ! p) < HB_P_LAST_PCODE"
    and pos: "0 < instrSize f p" and block: "blockHead (pCode f ! p) \<le> instrSize f p"
    and seq: "\<And>t. pCode f ! p = HB_P_SEQBEGIN \<Longrightarrow> t = jumpTarget (pCode f) p \<Longrightarrow> pCode f' ! t = pCode f ! t \<and>
      (pCode f ! t \<noteq> HB_P_SEQEND \<longrightarrow> (pCode f' ! posAdd t (- 4) = HB_P_SEQEND) = (pCode f ! posAdd t (- 4) = HB_P_SEQEND))"
  shows "instrSize f' p = instrSize f p" "instrTargets f' p = instrTargets f p" "instrNext f' p = instrNext f p"
proof -
  show size: "instrSize f' p = instrSize f p" by (rule instrSize_same [OF same last pos block])
  have op: "pCode f' ! p = pCode f ! p" using sameBytes_D [OF same, of p] pos by simp
  have sw: "switchAt f' p = switchAt f p" if sw: "pCode f ! p = HB_P_SWITCH"
  proof -
    have "HB_PCODE_MKUSHORT (pCode f') (p + 1) = HB_PCODE_MKUSHORT (pCode f) (p + 1)"
      using switch_size3 [OF last sw] by (intro MKUSHORT_same [OF same]) auto
    moreover have "switchFlow f' n (p + 3) = switchFlow f n (p + 3)" if "n = HB_PCODE_MKUSHORT (pCode f) (p + 1)" for n
      using that sw switchFlow_ge [of "p + 3" f n]
      by (intro switchFlow_same [OF same]) (simp_all add: instrSize_def switchAt_def)
    ultimately show ?thesis by (simp add: switchAt_def)
  qed
  have tgt: "jumpTarget (pCode f') p = jumpTarget (pCode f) p"
    if "isCondJump (pCode f ! p) \<or> jumpFar (pCode f ! p) = HB_P_JUMPFAR
      \<or> pCode f ! p \<in> {HB_P_SEQBEGIN, HB_P_SEQEND, HB_P_SEQALWAYS, HB_P_ALWAYSBEGIN}"
  proof (rule jump_same(3) [OF same order_refl])
    show "p + jumpSize (pCode f) p \<le> p + instrSize f p"
      using that flow_size [of f p] by (auto simp: isCondJump_def jumpFar_def jumpSize_def split: if_splits)
  qed
  show "instrTargets f' p = instrTargets f p"
  proof (cases "pCode f ! p = HB_P_SEQBEGIN")
    case True
    then show ?thesis using seq [OF True refl] tgt op by (auto simp: instrTargets_def Let_def)
  next
    case False
    then show ?thesis using tgt op sw by (auto simp: instrTargets_def Let_def)
  qed
  show "instrNext f' p = instrNext f p"
    using tgt op sw size by (auto simp: instrNext_def Let_def)
qed

text \<open>The size field of a code block that can be reached lies inside of the instruction.\<close>

definition blocksWf :: "HB_HFUNC \<Rightarrow> nat list \<Rightarrow> bool" where
  "blocksWf f starts \<longleftrightarrow> list_all (\<lambda>p. blockHead (pCode f ! p) \<le> instrSize f p) starts"

text \<open>Two functions with the same bytes in the code the control flow can reach, where no other byte became
  \<open>HB_P_SEQEND\<close>, have the same control flow.\<close>

lemma flow_kept:
  assumes wf: "traceWf f S" and block: "blocksWf f S" and len: "length (pCode f') = length (pCode f)"
    and live: "\<And>i. liveByte f i \<Longrightarrow> pCode f' ! i = pCode f ! i"
    and dead: "\<And>i. i < length (pCode f) \<Longrightarrow> pCode f' ! i = HB_P_SEQEND \<Longrightarrow> pCode f ! i = HB_P_SEQEND"
    and p: "flowReach f p"
  shows "instrSize f' p = instrSize f p" "instrTargets f' p = instrTargets f p" "instrNext f' p = instrNext f p"
proof -
  have pS: "p \<in> set S" by (rule flowReach_starts [OF wf p])
  note w = traceWf_D [OF wf pS]
  have same: "sameBytes f' f p (p + instrSize f p)"
    using len live p by (auto simp: sameBytes_def liveByte_def)
  have first: "liveByte f q" if "flowReach f q" for q
    using that traceWf_D(2) [OF wf flowReach_starts [OF wf that]] by (auto simp: liveByte_def)
  have seq: "pCode f' ! t = pCode f ! t \<and>
      (pCode f ! t \<noteq> HB_P_SEQEND \<longrightarrow> (pCode f' ! posAdd t (- 4) = HB_P_SEQEND) = (pCode f ! posAdd t (- 4) = HB_P_SEQEND))"
    if op: "pCode f ! p = HB_P_SEQBEGIN" and t: "t = jumpTarget (pCode f) p" for t
  proof -
    have tg: "t \<in> set (instrTargets f p)" using op t by (simp add: instrTargets_def Let_def isCondJump_def jumpFar_def)
    have "(pCode f' ! posAdd t (- 4) = HB_P_SEQEND) = (pCode f ! posAdd t (- 4) = HB_P_SEQEND)" if ne: "pCode f ! t \<noteq> HB_P_SEQEND"
    proof (cases "posAdd t (- 4) < length (pCode f)")
      case True
      have "pCode f' ! posAdd t (- 4) = HB_P_SEQEND" if "pCode f ! posAdd t (- 4) = HB_P_SEQEND"
      proof -
        have "posAdd t (- 4) \<in> set (instrTargets f p)"
          using op t ne that by (simp add: instrTargets_def Let_def isCondJump_def jumpFar_def)
        then have "flowReach f (posAdd t (- 4))" by (rule flowReach.target [OF p])
        then show ?thesis using live [OF first] that by simp
      qed
      then show ?thesis using dead [OF True] by blast
    next
      case False
      then show ?thesis using nth_beyond [OF len, of "posAdd t (- 4)"] len by simp
    qed
    then show ?thesis using live [OF first [OF flowReach.target [OF p tg]]] by blast
  qed
  have "blockHead (pCode f ! p) \<le> instrSize f p" using block pS by (simp add: blocksWf_def list_all_iff)
  from instr_same [OF same w(1,2) this seq]
  show "instrSize f' p = instrSize f p" "instrTargets f' p = instrTargets f p" "instrNext f' p = instrNext f p" by blast+
qed

lemma flowReach_kept:
  assumes "traceWf f S" "blocksWf f S" "length (pCode f') = length (pCode f)"
    and "\<And>i. liveByte f i \<Longrightarrow> pCode f' ! i = pCode f ! i"
    and "\<And>i. i < length (pCode f) \<Longrightarrow> pCode f' ! i = HB_P_SEQEND \<Longrightarrow> pCode f ! i = HB_P_SEQEND"
  shows "flowReach f' p = flowReach f p"
proof
  note k = flow_kept [OF assms]
  show "flowReach f p" if "flowReach f' p"
    using that
  proof (induction rule: flowReach.induct)
    case start
    then show ?case by (rule flowReach.start)
  next
    case (target p q)
    then show ?case using k(2) by (metis flowReach.target)
  next
    case (cont p q)
    then show ?case using k(3) by (metis flowReach.cont)
  qed
  show "flowReach f' p" if "flowReach f p"
    using that
  proof (induction rule: flowReach.induct)
    case start
    then show ?case by (rule flowReach.start)
  next
    case (target p q)
    then show ?case using k(2) by (metis flowReach.target)
  next
    case (cont p q)
    then show ?case using k(3) by (metis flowReach.cont)
  qed
qed

end
