(* ===== verification/HbDeadProps.thy ===== *)
theory HbDeadProps
  imports HbDeadFlow HbJumpProps
begin

text \<open>
  The properties of the removal of dead code: it touches nothing the control flow can reach, fills
  everything else, and leaves the tables of jumps and \<open>HB_P_NOOP\<close> bytes as the jump optimizer needs
  them.
\<close>

subsection \<open>Filling with the check for bytes filled before\<close>

definition noopsOk :: "HB_HFUNC \<Rightarrow> bool" where
  "noopsOk f \<longleftrightarrow> distinct (pNOOPs f) \<and> list_all (\<lambda>n. n < length (pCode f) \<and> pCode f ! n = HB_P_NOOP) (pNOOPs f)"

text \<open>\<open>filled f f' P\<close>: exactly the bytes in \<open>P\<close> have been filled.\<close>

definition filled :: "HB_HFUNC \<Rightarrow> HB_HFUNC \<Rightarrow> (nat \<Rightarrow> bool) \<Rightarrow> bool" where
  "filled f f' P \<longleftrightarrow>
     length (pCode f') = length (pCode f) \<and> pJumps f' = pJumps f \<and> szName f' = szName f \<and> noopsOk f'
     \<and> (\<forall>i<length (pCode f). pCode f' ! i = (if P i then HB_P_NOOP else pCode f ! i)
          \<and> (i \<in> set (pNOOPs f')) = (P i \<or> i \<in> set (pNOOPs f)))"

lemma filled_refl: "noopsOk f \<Longrightarrow> (\<And>i. i < length (pCode f) \<Longrightarrow> \<not> P i) \<Longrightarrow> filled f f P"
  by (auto simp: filled_def)

lemma filled_trans:
  "filled f g P \<Longrightarrow> filled g h Q \<Longrightarrow> (\<And>i. i < length (pCode f) \<Longrightarrow> R i = (P i \<or> Q i)) \<Longrightarrow> filled f h R"
  by (auto simp: filled_def)

lemma filled_cong: "filled f g P \<Longrightarrow> (\<And>i. i < length (pCode f) \<Longrightarrow> P i = Q i) \<Longrightarrow> filled f g Q"
  by (auto simp: filled_def)

lemma NOOPadd_filled:
  assumes "noopsOk f" "p < length (pCode f)" "pCode f ! p \<noteq> HB_P_NOOP \<or> p \<notin> set (pNOOPs f)"
  shows "filled f (hb_compNOOPadd f p) (\<lambda>i. i = p)"
proof -
  have "p \<notin> set (pNOOPs f)" using assms by (auto simp: noopsOk_def list_all_iff)
  then show ?thesis
    using assms(1,2) by (auto simp: filled_def noopsOk_def hb_compNOOPadd_def list_all_iff nth_list_update)
qed

lemma NOOPfill_filled:
  "noopsOk f \<Longrightarrow> p + k \<le> length (pCode f) \<Longrightarrow> filled f (hb_compNOOPfill f p k False True) (\<lambda>i. p \<le> i \<and> i < p + k)"
proof (induction k arbitrary: f p)
  case 0
  then show ?case by (simp add: filled_refl)
next
  case (Suc k)
  let ?g = "if pCode f ! p = HB_P_NOOP \<and> p \<in> set (pNOOPs f) then f else hb_compNOOPadd f p"
  have g: "filled f ?g (\<lambda>i. i = p)"
  proof (cases "pCode f ! p = HB_P_NOOP \<and> p \<in> set (pNOOPs f)")
    case True
    then show ?thesis using Suc.prems(1) by (auto simp: filled_def)
  next
    case False
    then have "filled f (hb_compNOOPadd f p) (\<lambda>i. i = p)" using Suc.prems by (intro NOOPadd_filled) auto
    then show ?thesis using False by (simp only: if_False)
  qed
  have eq: "hb_compNOOPfill f p (Suc k) False True = hb_compNOOPfill ?g (p + 1) k False True"
    by auto
  have "filled ?g (hb_compNOOPfill ?g (p + 1) k False True) (\<lambda>i. p + 1 \<le> i \<and> i < p + 1 + k)"
    using g Suc.prems by (intro Suc.IH) (simp_all add: filled_def)
  then show ?case unfolding eq by (rule filled_trans [OF g]) auto
qed

subsection \<open>The loop over the marks\<close>

lemma markDead_loop_filled:
  "ms = drop p M \<Longrightarrow> p \<le> length M \<Longrightarrow> length M = length (pCode f) \<Longrightarrow> noopsOk f \<Longrightarrow> k \<le> p \<Longrightarrow>
   (\<forall>i. p - k \<le> i \<and> i < p \<longrightarrow> M ! i = 0) \<Longrightarrow> markDead_loop ms p k b f = (f', k', b') \<Longrightarrow>
   k' \<le> length M \<and> (\<forall>i. length M - k' \<le> i \<and> i < length M \<longrightarrow> M ! i = 0)
   \<and> filled f f' (\<lambda>i. p - k \<le> i \<and> i < length M - k' \<and> M ! i = 0)"
proof (induction ms arbitrary: p k b f)
  case Nil
  then have p: "p = length M" by simp
  then have "f' = f" "k' = k" using Nil.prems(7) by simp_all
  then show ?case using Nil.prems p by (auto intro!: filled_refl)
next
  case (Cons m ms)
  have p: "p < length M" using Cons.prems(1) by (metis drop_all list.distinct(1) not_le)
  have m: "m = M ! p" "ms = drop (p + 1) M"
    using Cons.prems(1) p by (simp_all add: Cons_nth_drop_Suc [symmetric])
  show ?case
  proof (cases "m = 0")
    case True
    then have zero: "\<forall>i. p + 1 - (k + 1) \<le> i \<and> i < p + 1 \<longrightarrow> M ! i = 0"
      using Cons.prems(6) m by (auto simp: less_Suc_eq)
    have run: "markDead_loop ms (p + 1) (k + 1) b f = (f', k', b')" using Cons.prems(7) True by simp
    show ?thesis
      using Cons.IH [OF m(2) _ Cons.prems(3,4) _ zero run] p Cons.prems(5) by simp
  next
    case False
    let ?g = "if 0 < k then hb_compNOOPfill f (p - k) k False True else f"
    have g: "filled f ?g (\<lambda>i. p - k \<le> i \<and> i < p)"
      using NOOPfill_filled [OF Cons.prems(4), of "p - k" k] p Cons.prems(3,4,5) by (auto simp: filled_refl)
    have run: "markDead_loop ms (p + 1) 0 (unat (pCode f ! p)) ?g = (f', k', b')" using Cons.prems(7) False by simp
    have IH: "k' \<le> length M \<and> (\<forall>i. length M - k' \<le> i \<and> i < length M \<longrightarrow> M ! i = 0)
        \<and> filled ?g f' (\<lambda>i. p + 1 - 0 \<le> i \<and> i < length M - k' \<and> M ! i = 0)"
      using g p Cons.prems(3) by (intro Cons.IH [OF m(2) _ _ _ _ _ run]) (simp_all add: filled_def)
    have "p < length M - k'"
      using IH p m(1) False by (metis (no_types) le_less_linear)
    then have "filled f f' (\<lambda>i. p - k \<le> i \<and> i < length M - k' \<and> M ! i = 0)"
      using IH Cons.prems(6) m(1) False
      by (intro filled_trans [OF g, of f']) (auto simp: Suc_le_eq not_less le_less)
    then show ?thesis using IH by blast
  qed
qed

subsection \<open>Dead code\<close>

text \<open>The byte the code keeps although no instruction that is reached has it: the end marker.\<close>

definition keptEnd :: "HB_HFUNC \<Rightarrow> HB_HFUNC \<Rightarrow> nat \<Rightarrow> bool" where
  "keptEnd f f' i \<longleftrightarrow> i + 1 = length (pCode f) \<and> pCode f' ! i = pCode f ! i \<and> (i \<in> set (pNOOPs f')) = (i \<in> set (pNOOPs f))"

lemma markDead_main:
  assumes wf: "traceWf f S" and ok: "noopsOk f" and two: "2 \<le> length (pCode f)"
  obtains f' where "hb_compCodeTraceMarkDead True f = Some (Inr f')" "length (pCode f') = length (pCode f)"
    "pJumps f' = pJumps f" "noopsOk f'"
    "\<And>i. i < length (pCode f) \<Longrightarrow> liveByte f i \<Longrightarrow> pCode f' ! i = pCode f ! i \<and> (i \<in> set (pNOOPs f')) = (i \<in> set (pNOOPs f))"
    "\<And>i. i < length (pCode f) \<Longrightarrow> \<not> liveByte f i \<Longrightarrow> pCode f' ! i = HB_P_NOOP \<and> i \<in> set (pNOOPs f') \<or> keptEnd f f' i"
proof -
  let ?n = "length (pCode f)"
  obtain c where c: "hb_compPCodeTrace s_codeTraceFuncTable f
      \<lparr>pCodeMark = replicate ?n 0, pnJumps = [], nJumpPos = 0, nJumpSize = 0, fFinished = False\<rparr> 0 = Some (Inr c)"
    "fFinished c" "length (pCodeMark c) = ?n" "\<And>i. i < ?n \<Longrightarrow> (pCodeMark c ! i \<noteq> 0) = liveByte f i"
    using trace_exact [OF wf] by blast
  obtain g k b where run: "markDead_loop (pCodeMark c) 0 0 HB_P_LAST_PCODE f = (g, k, b)"
    by (cases "markDead_loop (pCodeMark c) 0 0 HB_P_LAST_PCODE f") auto
  have L: "k \<le> ?n" "\<forall>i. ?n - k \<le> i \<and> i < ?n \<longrightarrow> pCodeMark c ! i = 0"
    "filled f g (\<lambda>i. i < ?n - k \<and> pCodeMark c ! i = 0)"
    using markDead_loop_filled [of "pCodeMark c" 0 "pCodeMark c" f 0, OF _ _ c(3) ok _ _ run] c(3) by simp_all
  define e where "e = unat (case szName g of Some n \<Rightarrow> HB_P_ENDPROC | None \<Rightarrow> HB_P_ENDBLOCK)"
  let ?keep = "0 < k \<and> b \<noteq> e"
  let ?k = "if ?keep then k - 1 else k"
  let ?f' = "if 0 < ?k then hb_compNOOPfill g (?n - k) ?k False True else g"
  have f': "hb_compCodeTraceMarkDead True f = Some (Inr ?f')"
  proof -
    have pos: "(if ?keep then ?n - 1 else ?n) - ?k = ?n - k" by auto
    have "hb_compCodeTraceMarkDead True f
        = Some (Inr (if 0 < ?k then hb_compNOOPfill g ((if ?keep then ?n - 1 else ?n) - ?k) ?k False True else g))"
      unfolding hb_compCodeTraceMarkDead_def Let_def nPCodePos_def using two c(1-3)
      by (simp only: simp_thms if_False not_less [symmetric] option.case sum.case if_True run prod.case e_def [symmetric])
    then show ?thesis unfolding pos .
  qed
  have "filled g ?f' (\<lambda>i. ?n - k \<le> i \<and> i < ?n - k + ?k)"
    using NOOPfill_filled [of g "?n - k" ?k] L(1,3) by (auto simp: filled_refl filled_def)
  then have "filled f ?f' (\<lambda>i. i < ?n - k \<and> pCodeMark c ! i = 0 \<or> ?n - k \<le> i \<and> i < ?n - k + ?k)"
    by (rule filled_trans [OF L(3)]) simp
  moreover have "(i < ?n - k \<and> pCodeMark c ! i = 0 \<or> ?n - k \<le> i \<and> i < ?n - k + ?k)
      = (\<not> liveByte f i \<and> \<not> (?keep \<and> i + 1 = ?n))" if "i < ?n" for i
  proof -
    have "pCodeMark c ! i = 0 \<longleftrightarrow> \<not> liveByte f i" using c(4) [OF that] by blast
    moreover have "?n - k \<le> i \<Longrightarrow> pCodeMark c ! i = 0" using L(2) that by blast
    moreover have "?n - k \<le> i \<Longrightarrow> (i < ?n - k + ?k) = (\<not> (?keep \<and> i + 1 = ?n))" using L(1) that by auto
    moreover have "i < ?n - k \<Longrightarrow> \<not> (?keep \<and> i + 1 = ?n)" by auto
    ultimately show ?thesis by (cases "i < ?n - k") (auto simp: not_less)
  qed
  ultimately have F: "filled f ?f' (\<lambda>i. \<not> liveByte f i \<and> \<not> (?keep \<and> i + 1 = ?n))" by (rule filled_cong)
  show ?thesis
  proof (rule that [OF f'])
    show "length (pCode ?f') = ?n" "pJumps ?f' = pJumps f" "noopsOk ?f'" using F unfolding filled_def by blast+
    fix i assume i: "i < ?n"
    show "liveByte f i \<Longrightarrow> pCode ?f' ! i = pCode f ! i \<and> (i \<in> set (pNOOPs ?f')) = (i \<in> set (pNOOPs f))"
      using F i unfolding filled_def by simp
    show "\<not> liveByte f i \<Longrightarrow> pCode ?f' ! i = HB_P_NOOP \<and> i \<in> set (pNOOPs ?f') \<or> keptEnd f ?f' i"
      using F i unfolding filled_def keptEnd_def by (cases "?keep \<and> i + 1 = ?n") simp_all
  qed
qed

text \<open>C6. The removal of dead code is exact and ends. In well-formed pcode every byte of an instruction
  the control flow can reach from the first one is kept, every other byte is filled with
  \<open>HB_P_NOOP\<close> and recorded once in the table, where only the end marker of the function may stay.\<close>

theorem hb_compCodeTraceMarkDead_exact:
  assumes "traceWf f starts" and "noopsOk f" and "2 \<le> length (pCode f)"
  shows "\<exists>f'. hb_compCodeTraceMarkDead True f = Some (Inr f') \<and> length (pCode f') = length (pCode f)
    \<and> pJumps f' = pJumps f \<and> distinct (pNOOPs f')
    \<and> (\<forall>i<length (pCode f).
         if liveByte f i then pCode f' ! i = pCode f ! i \<and> (i \<in> set (pNOOPs f')) = (i \<in> set (pNOOPs f))
         else pCode f' ! i = HB_P_NOOP \<and> i \<in> set (pNOOPs f') \<or> keptEnd f f' i)"
proof -
  obtain f' where "hb_compCodeTraceMarkDead True f = Some (Inr f')" "length (pCode f') = length (pCode f)"
    "pJumps f' = pJumps f" "noopsOk f'"
    "\<And>i. i < length (pCode f) \<Longrightarrow> liveByte f i \<Longrightarrow> pCode f' ! i = pCode f ! i \<and> (i \<in> set (pNOOPs f')) = (i \<in> set (pNOOPs f))"
    "\<And>i. i < length (pCode f) \<Longrightarrow> \<not> liveByte f i \<Longrightarrow> pCode f' ! i = HB_P_NOOP \<and> i \<in> set (pNOOPs f') \<or> keptEnd f f' i"
    by (rule markDead_main [OF assms]) blast
  then show ?thesis by (intro exI [of _ f']) (simp add: noopsOk_def)
qed

subsection \<open>The tables after the removal\<close>

text \<open>A jump is inside one instruction or outside all of them.\<close>

definition jumpAligned :: "HB_HFUNC \<Rightarrow> nat list \<Rightarrow> nat \<Rightarrow> bool" where
  "jumpAligned f starts a \<longleftrightarrow>
     list_ex (\<lambda>p. p \<le> a \<and> a + jumpSize (pCode f) a \<le> p + instrSize f p) starts
     \<or> list_all (\<lambda>p. a + jumpSize (pCode f) a \<le> p \<or> p + instrSize f p \<le> a) starts"

lemma liveByte_instr:
  assumes wf: "traceWf f S" and p: "p \<in> set S" "p \<le> i" "i < p + instrSize f p"
  shows "liveByte f i \<longleftrightarrow> flowReach f p"
proof
  assume "liveByte f i"
  then obtain q where q: "flowReach f q" "q \<le> i" "i < q + instrSize f q" by (auto simp: liveByte_def)
  have "q \<in> set S" by (rule flowReach_starts [OF wf q(1)])
  then have "q = p" using traceWf_D(6) [OF wf] p q by (metis le_less_trans not_le linorder_neqE_nat)
  then show "flowReach f p" using q by simp
qed (use p in \<open>auto simp: liveByte_def\<close>)

lemma jumpAligned_uniform:
  assumes wf: "traceWf f S" and a: "jumpAligned f S a"
  shows "(\<forall>i<jumpSize (pCode f) a. liveByte f (a + i)) \<or> (\<forall>i<jumpSize (pCode f) a. \<not> liveByte f (a + i))"
  using a unfolding jumpAligned_def
proof
  assume "list_ex (\<lambda>p. p \<le> a \<and> a + jumpSize (pCode f) a \<le> p + instrSize f p) S"
  then obtain p where "p \<in> set S" "p \<le> a" "a + jumpSize (pCode f) a \<le> p + instrSize f p" by (auto simp: list_ex_iff)
  then show ?thesis using liveByte_instr [OF wf, of p] by (cases "flowReach f p") auto
next
  assume "list_all (\<lambda>p. a + jumpSize (pCode f) a \<le> p \<or> p + instrSize f p \<le> a) S"
  then have "\<not> liveByte f (a + i)" if "i < jumpSize (pCode f) a" for i
    using flowReach_starts [OF wf] that by (fastforce simp: liveByte_def list_all_iff)
  then show ?thesis by blast
qed

text \<open>The code \<open>f'\<close> has the code \<open>f\<close> at the positions \<open>pos\<close>: its bytes outside of the jumps and, for each jump,
  a jump to the same place; \<open>reachedKept\<close> is the same for the bytes and jumps that can be reached.\<close>

definition jumpMapped :: "HB_BYTE list \<Rightarrow> HB_BYTE list \<Rightarrow> (nat \<Rightarrow> nat) \<Rightarrow> nat \<Rightarrow> bool" where
  "jumpMapped code code' pos a \<longleftrightarrow>
     (if jumpOverNothing code a then
        pos (jumpTarget code a) = (if isCondJump (code ! a) then pos a + 1 else pos a)
        \<and> (isCondJump (code ! a) \<longrightarrow> code' ! pos a = HB_P_POP)
      else jumpFar (code' ! pos a) = jumpFar (code ! a)
        \<and> jumpTarget code' (pos a) = pos (jumpTarget code a)
        \<and> pos (a + jumpSize code a) = pos a + jumpSize code' (pos a))"

definition inJump :: "HB_HFUNC \<Rightarrow> nat \<Rightarrow> bool" where
  "inJump f i \<longleftrightarrow> (\<exists>a\<in>set (pJumps f). liveJump (pCode f) a \<and> a \<le> i \<and> i < a + jumpSize (pCode f) a)"

definition flowMapped :: "HB_HFUNC \<Rightarrow> HB_HFUNC \<Rightarrow> (nat \<Rightarrow> nat) \<Rightarrow> bool" where
  "flowMapped f f' pos \<longleftrightarrow>
     (\<forall>i<length (pCode f). i \<notin> set (pNOOPs f) \<longrightarrow> \<not> inJump f i \<longrightarrow>
        pCode f' ! pos i = pCode f ! i \<and> pos (i + 1) = pos i + 1)
     \<and> (\<forall>a\<in>set (pJumps f). liveJump (pCode f) a \<longrightarrow> jumpMapped (pCode f) (pCode f') pos a)"

definition reachedKept :: "HB_HFUNC \<Rightarrow> HB_HFUNC \<Rightarrow> (nat \<Rightarrow> nat) \<Rightarrow> bool" where
  "reachedKept f f' pos \<longleftrightarrow>
     (\<forall>i<length (pCode f). liveByte f i \<longrightarrow> i \<notin> set (pNOOPs f) \<longrightarrow> \<not> inJump f i \<longrightarrow>
        pCode f' ! pos i = pCode f ! i \<and> pos (i + 1) = pos i + 1)
     \<and> (\<forall>a\<in>set (pJumps f). liveJump (pCode f) a \<longrightarrow> liveByte f a \<longrightarrow> jumpMapped (pCode f) (pCode f') pos a)"

lemma not_inJump:
  "(\<not> inJump f i) = (\<forall>a\<in>set (pJumps f). liveJump (pCode f) a \<longrightarrow> i < a \<or> a + jumpSize (pCode f) a \<le> i)"
  by (auto simp: inJump_def not_le)

lemma optJumps_pass_mapped:
  assumes "jumpsWf (pCode (pLast c)) (pNOOPs (pLast c)) (pJumps (pLast c))"
  obtains c' where "optJumps_pass iPass c = Some c'" "compErrors c' = compErrors c" "codeWf (pLast c')"
    "flowMapped (pLast c) (pLast c') (optPos (pNOOPs (optJumps_shorten iPass (length (pJumps (pLast c))) (pLast c))))"
proof -
  obtain c' where c': "optJumps_pass iPass c = Some c' \<and> compErrors c' = compErrors c \<and> codeWf (pLast c') \<and>
      flowMapped (pLast c) (pLast c') (optPos (pNOOPs (optJumps_shorten iPass (length (pJumps (pLast c))) (pLast c))))"
    using optJumps_pass_main [OF assms, of iPass] unfolding Let_def flowMapped_def jumpMapped_def not_inJump by blast
  then show ?thesis by (intro that) blast+
qed

lemma liveByte_bound: "traceWf f S \<Longrightarrow> liveByte f i \<Longrightarrow> i < length (pCode f)"
  using flowReach_starts traceWf_D(3) by (fastforce simp: liveByte_def)

lemma flowMapped_reached:
  assumes wf: "traceWf f S" and js: "jumpsWf (pCode f) (pNOOPs f) (pJumps f)"
    and al: "\<forall>a\<in>set (pJumps f). liveJump (pCode f) a \<longrightarrow> jumpAligned f S a"
    and len: "length (pCode g) = length (pCode f)" and J: "pJumps g = pJumps f"
    and live: "\<And>i. i < length (pCode f) \<Longrightarrow> liveByte f i \<Longrightarrow> pCode g ! i = pCode f ! i \<and> (i \<in> set (pNOOPs g)) = (i \<in> set (pNOOPs f))"
    and keep: "\<And>a. a \<in> set (pJumps f) \<Longrightarrow> liveJump (pCode g) a \<Longrightarrow>
      liveJump (pCode f) a \<and> jumpSize (pCode g) a = jumpSize (pCode f) a"
    and m: "flowMapped g f' pos"
  shows "reachedKept f f' pos"
proof -
  have "inJump g i \<Longrightarrow> inJump f i" for i using J keep unfolding inJump_def by metis
  then have 1: "pCode f' ! pos i = pCode f ! i \<and> pos (i + 1) = pos i + 1"
    if "i < length (pCode f)" "liveByte f i" "i \<notin> set (pNOOPs f)" "\<not> inJump f i" for i
    using m live [OF that(1,2)] that len by (auto simp: flowMapped_def)
  have 2: "jumpMapped (pCode f) (pCode f') pos a" if a: "a \<in> set (pJumps f)" "liveJump (pCode f) a" "liveByte f a" for a
  proof -
    have "\<forall>i<jumpSize (pCode f) a. liveByte f (a + i)"
      using jumpAligned_uniform [OF wf, of a] al a jumpSize_bounds [of "pCode f" a]
      by (metis add.right_neutral less_le_trans zero_less_numeral)
    then have "sameBytes g f a (a + jumpSize (pCode f) a)"
      using live liveByte_bound [OF wf] len by (force simp: sameBytes_def le_iff_add)
    note s = jump_same [OF this order_refl order_refl]
    have op: "pCode g ! a = pCode f ! a" using live a(3) liveByte_bound [OF wf] by blast
    then have "jumpMapped (pCode g) (pCode f') pos a" using m J a by (simp add: flowMapped_def liveJump_def)
    then show ?thesis unfolding jumpMapped_def jumpOverNothing_def s op .
  qed
  show ?thesis using 1 2 by (simp add: reachedKept_def)
qed

lemma markDead_tables:
  assumes wf: "traceWf f S" and ok: "noopsOk f" and two: "2 \<le> length (pCode f)"
    and js: "jumpsWf (pCode f) (pNOOPs f) (pJumps f)"
    and al: "\<forall>a\<in>set (pJumps f). liveJump (pCode f) a \<longrightarrow> jumpAligned f S a"
  obtains f' where "hb_compCodeTraceMarkDead True f = Some (Inr f')" "length (pCode f') = length (pCode f)"
    "pJumps f' = pJumps f" "jumpsWf (pCode f') (pNOOPs f') (pJumps f')"
    "\<And>i. i < length (pCode f) \<Longrightarrow> liveByte f i \<Longrightarrow> pCode f' ! i = pCode f ! i \<and> (i \<in> set (pNOOPs f')) = (i \<in> set (pNOOPs f))"
    "\<And>i. i < length (pCode f) \<Longrightarrow> \<not> liveByte f i \<Longrightarrow> pCode f' ! i = HB_P_NOOP \<or> pCode f' ! i = pCode f ! i"
    "\<And>a. a \<in> set (pJumps f) \<Longrightarrow> liveJump (pCode f') a \<Longrightarrow>
       liveJump (pCode f) a \<and> jumpSize (pCode f') a = jumpSize (pCode f) a"
proof -
  let ?n = "length (pCode f)"
  obtain f' where f': "hb_compCodeTraceMarkDead True f = Some (Inr f')" "length (pCode f') = ?n"
    "pJumps f' = pJumps f" "noopsOk f'"
    "\<And>i. i < ?n \<Longrightarrow> liveByte f i \<Longrightarrow> pCode f' ! i = pCode f ! i \<and> (i \<in> set (pNOOPs f')) = (i \<in> set (pNOOPs f))"
    "\<And>i. i < ?n \<Longrightarrow> \<not> liveByte f i \<Longrightarrow> pCode f' ! i = HB_P_NOOP \<and> i \<in> set (pNOOPs f') \<or> keptEnd f f' i"
    by (rule markDead_main [OF wf ok two]) blast
  have N: "noopsWf (pCode f') (pNOOPs f')"
    using f'(2,4) js by (auto simp: noopsOk_def noopsWf_def jumpsWf_def list_all_iff)
  have gone: "pCode f' ! a = HB_P_NOOP \<and> a \<in> set (pNOOPs f')"
    if "a \<in> set (pJumps f)" "a < ?n" "pCode f ! a = HB_P_NOOP \<and> a \<in> set (pNOOPs f)" for a
    using f'(5,6) [OF that(2)] that(3) by (cases "liveByte f a") (auto simp: keptEnd_def)
  have cases: "(\<forall>i<jumpSize (pCode f) a. pCode f' ! (a + i) = pCode f ! (a + i) \<and> (a + i \<in> set (pNOOPs f')) = (a + i \<in> set (pNOOPs f)))
      \<or> pCode f' ! a = HB_P_NOOP \<and> a \<in> set (pNOOPs f')"
    if a: "a \<in> set (pJumps f)" "liveJump (pCode f) a" for a
  proof -
    have len: "a + jumpSize (pCode f) a \<le> ?n" using jumpsWf_D(1) [OF js a] by (simp add: jumpWf_def)
    have s: "2 \<le> jumpSize (pCode f) a" by (rule jumpSize_bounds)
    from jumpAligned_uniform [OF wf] al a
    consider "\<forall>i<jumpSize (pCode f) a. liveByte f (a + i)" | "\<forall>i<jumpSize (pCode f) a. \<not> liveByte f (a + i)" by blast
    then show ?thesis
    proof cases
      case 1
      then show ?thesis using f'(5) len by simp
    next
      case 2
      then have "\<not> liveByte f a" using s by (metis add.right_neutral less_le_trans zero_less_numeral)
      then show ?thesis using f'(6) [of a] len s by (auto simp: keptEnd_def)
    qed
  qed
  have keep: "jumpWf (pCode f') (pNOOPs f') a \<and> jumpSize (pCode f') a = jumpSize (pCode f) a \<and> liveJump (pCode f) a"
    if a: "a \<in> set (pJumps f)" "liveJump (pCode f') a" for a
  proof -
    have live: "liveJump (pCode f) a"
    proof (rule ccontr)
      assume d: "\<not> liveJump (pCode f) a"
      then have "a \<in> set (pNOOPs f)" using js a(1) by (auto simp: jumpsWf_def list_all_iff)
      moreover from this have "a < ?n" using js by (auto simp: jumpsWf_def noopsWf_def list_all_iff)
      ultimately show False using gone [OF a(1)] d a(2) by (simp add: liveJump_def)
    qed
    have same: "i < jumpSize (pCode f) a \<Longrightarrow>
        pCode f' ! (a + i) = pCode f ! (a + i) \<and> (a + i \<in> set (pNOOPs f')) = (a + i \<in> set (pNOOPs f))" for i
      using cases [OF a(1) live] a(2) by (auto simp: liveJump_def)
    have "jumpSize (pCode f') a = jumpSize (pCode f) a"
      using jumpOffset_cong(2) [of "pCode f" a "pCode f'" a] same by blast
    then show ?thesis using jumpWf_cong [OF same f'(2) jumpsWf_D(1) [OF js a(1) live]] live by blast
  qed
  have dead: "a \<in> set (pNOOPs f')" if a: "a \<in> set (pJumps f)" "\<not> liveJump (pCode f') a" for a
  proof (cases "liveJump (pCode f) a")
    case True
    have "0 < jumpSize (pCode f) a" using jumpSize_bounds [of "pCode f" a] by simp
    then show ?thesis using cases [OF a(1) True] a(2) True by (force simp: liveJump_def)
  next
    case False
    then have "a \<in> set (pNOOPs f)" using js a(1) by (auto simp: jumpsWf_def list_all_iff)
    moreover from this have "a < ?n" using js by (auto simp: jumpsWf_def noopsWf_def list_all_iff)
    ultimately show ?thesis using gone [OF a(1)] False by (simp add: liveJump_def)
  qed
  have wf': "jumpsWf (pCode f') (pNOOPs f') (pJumps f')"
    using N js keep dead unfolding f'(3) jumpsWf_def jumpsDisjoint_def by (auto simp: list_all_iff)
  show ?thesis
  proof (rule that [OF f'(1-3) wf'])
    show "pCode f' ! i = pCode f ! i \<and> (i \<in> set (pNOOPs f')) = (i \<in> set (pNOOPs f))"
      if "i < length (pCode f)" "liveByte f i" for i using f'(5) that by blast
    show "pCode f' ! i = HB_P_NOOP \<or> pCode f' ! i = pCode f ! i" if "i < length (pCode f)" "\<not> liveByte f i" for i
      using f'(6) [OF that] by (auto simp: keptEnd_def)
    show "liveJump (pCode f) a \<and> jumpSize (pCode f') a = jumpSize (pCode f) a"
      if "a \<in> set (pJumps f)" "liveJump (pCode f') a" for a using keep [OF that] by blast
  qed
qed

text \<open>C18. The removal of dead code prepares the code for the jump optimizer, and both together keep the reachable
  code. When each jump lies inside one instruction or outside all of them, well-formed tables of jumps and
  \<open>HB_P_NOOP\<close> bytes are well-formed after the removal, the same instructions can be reached, and a pass of
  the jump optimizer succeeds on the result without an error. With \<open>optPos\<close> the position the pass gives
  each byte: every byte of the original code that can be reached, outside the jumps and not an \<open>HB_P_NOOP\<close>
  of the table, is in the final code, next to the same neighbour, and each jump of the original code that
  can be reached leads in the final code to the new position of its original target and continues with the
  instruction that followed it; over nothing it vanishes or becomes \<open>HB_P_POP\<close> as for C4.\<close>

theorem hb_compCodeTraceMarkDead_jumps:
  assumes wf: "traceWf (pLast c) starts" and ok: "noopsOk (pLast c)"
    and two: "2 \<le> length (pCode (pLast c))" and blocks: "blocksWf (pLast c) starts"
    and js: "jumpsWf (pCode (pLast c)) (pNOOPs (pLast c)) (pJumps (pLast c))"
    and al: "\<forall>a\<in>set (pJumps (pLast c)). liveJump (pCode (pLast c)) a \<longrightarrow> jumpAligned (pLast c) starts a"
  shows "\<exists>f' c'. hb_compCodeTraceMarkDead True (pLast c) = Some (Inr f')
    \<and> jumpsWf (pCode f') (pNOOPs f') (pJumps f') \<and> (\<forall>p. flowReach f' p = flowReach (pLast c) p)
    \<and> optJumps_pass iPass (c\<lparr>pLast := f'\<rparr>) = Some c' \<and> compErrors c' = compErrors c \<and> codeWf (pLast c')
    \<and> reachedKept (pLast c) (pLast c') (optPos (pNOOPs (optJumps_shorten iPass (length (pJumps f')) f')))"
proof -
  let ?f = "pLast c"
  obtain f' where f': "hb_compCodeTraceMarkDead True ?f = Some (Inr f')" "length (pCode f') = length (pCode ?f)"
    "pJumps f' = pJumps ?f" "jumpsWf (pCode f') (pNOOPs f') (pJumps f')"
    and live: "\<And>i. i < length (pCode ?f) \<Longrightarrow> liveByte ?f i \<Longrightarrow>
      pCode f' ! i = pCode ?f ! i \<and> (i \<in> set (pNOOPs f')) = (i \<in> set (pNOOPs ?f))"
    and dead: "\<And>i. i < length (pCode ?f) \<Longrightarrow> \<not> liveByte ?f i \<Longrightarrow> pCode f' ! i = HB_P_NOOP \<or> pCode f' ! i = pCode ?f ! i"
    and keep: "\<And>a. a \<in> set (pJumps ?f) \<Longrightarrow> liveJump (pCode f') a \<Longrightarrow>
      liveJump (pCode ?f) a \<and> jumpSize (pCode f') a = jumpSize (pCode ?f) a"
    by (rule markDead_tables [OF wf ok two js al]) blast
  have flow: "flowReach f' p = flowReach ?f p" for p
  proof (rule flowReach_kept [OF wf blocks f'(2)])
    show "pCode f' ! i = pCode ?f ! i" if "liveByte ?f i" for i
      using live [OF liveByte_bound [OF wf that] that] by simp
    show "pCode ?f ! i = HB_P_SEQEND" if "i < length (pCode ?f)" "pCode f' ! i = HB_P_SEQEND" for i
      using live [OF that(1)] dead [OF that(1)] that(2) by (cases "liveByte ?f i") auto
  qed
  obtain c' where c': "optJumps_pass iPass (c\<lparr>pLast := f'\<rparr>) = Some c'" "compErrors c' = compErrors c"
    "codeWf (pLast c')" "flowMapped f' (pLast c') (optPos (pNOOPs (optJumps_shorten iPass (length (pJumps f')) f')))"
    by (rule optJumps_pass_mapped [of "c\<lparr>pLast := f'\<rparr>" iPass]) (simp_all add: f'(4))
  have "reachedKept ?f (pLast c') (optPos (pNOOPs (optJumps_shorten iPass (length (pJumps f')) f')))"
    by (rule flowMapped_reached [OF wf js al f'(2,3) live keep c'(4)])
  then show ?thesis using f'(1,4) flow c'(1-3) by blast
qed

definition deadWitness :: HB_COMP where
  "deadWitness =
     \<lparr>pLast = \<lparr>szName = Some ''MAIN'', bError = False, hasPCode = True,
        pCode = [HB_P_JUMPFAR, 12, 0, 0, HB_P_POP, HB_P_JUMPFALSEFAR, 4, 0, 0, 23, 23, HB_P_NOOP, 23, HB_P_ENDPROC],
        nPCodeSize = 100, pNOOPs = [], pJumps = [0, 5]\<rparr>,
      compErrors = [], fError = False, fExit = False\<rparr>"


lemma deadWitness_trace: "traceWf (pLast deadWitness) [0, 12, 13]"
  unfolding traceWf_def instrWf_def HB_P_LAST_PCODE_def deadWitness_def
  by (simp add: instrSize_def instrTargets_def instrNext_def isCondJump_def jumpFar_def jumpTarget_def jumpOffset_def
      HB_PCODE_MKINT24_def posAdd_def hb_compPCodeSize_def Let_def hb_comp_pcode_len_def)

lemma deadWitness_noops: "noopsOk (pLast deadWitness)" "2 \<le> length (pCode (pLast deadWitness))"
  by (simp_all add: noopsOk_def deadWitness_def)

lemma deadWitness_jumps: "jumpsWf (pCode (pLast deadWitness)) (pNOOPs (pLast deadWitness)) (pJumps (pLast deadWitness))"
  by (simp add: deadWitness_def jumpsWf_def noopsWf_def jumpWf_def jumpsDisjoint_def liveJump_def jumpOffset_def jumpSize_def
      HB_PCODE_MKINT24_def Let_def)

lemma deadWitness_blocks: "blocksWf (pLast deadWitness) [0, 12, 13]"
  by (simp add: blocksWf_def deadWitness_def blockHead_def)

lemma deadWitness_aligned: "\<forall>a\<in>set (pJumps (pLast deadWitness)). jumpAligned (pLast deadWitness) [0, 12, 13] a"
  by (simp add: deadWitness_def jumpAligned_def instrSize_def hb_compPCodeSize_def jumpSize_def Let_def hb_comp_pcode_len_def)

lemma deadWitness_size: "p \<in> {0, 12, 13} \<Longrightarrow> p + instrSize (pLast deadWitness) p \<le> 4 \<or> 12 \<le> p"
  by (auto simp: deadWitness_def instrSize_def hb_compPCodeSize_def Let_def hb_comp_pcode_len_def)

lemma deadWitness_dead: "\<not> liveByte (pLast deadWitness) 5"
  using flowReach_starts [OF deadWitness_trace] deadWitness_size by (force simp: liveByte_def)

theorem hb_compCodeTraceMarkDead_exact_witness:
  "\<exists>f'. hb_compCodeTraceMarkDead True (pLast deadWitness) = Some (Inr f')
    \<and> length (pCode f') = 14 \<and> pCode f' ! 5 = HB_P_NOOP \<and> 5 \<in> set (pNOOPs f')"
proof -
  obtain f' where f': "hb_compCodeTraceMarkDead True (pLast deadWitness) = Some (Inr f')"
    "length (pCode f') = length (pCode (pLast deadWitness))"
    "\<forall>i<length (pCode (pLast deadWitness)). if liveByte (pLast deadWitness) i
         then pCode f' ! i = pCode (pLast deadWitness) ! i \<and> (i \<in> set (pNOOPs f')) = (i \<in> set (pNOOPs (pLast deadWitness)))
         else pCode f' ! i = HB_P_NOOP \<and> i \<in> set (pNOOPs f') \<or> keptEnd (pLast deadWitness) f' i"
    using hb_compCodeTraceMarkDead_exact [OF deadWitness_trace deadWitness_noops] by blast
  have n: "length (pCode (pLast deadWitness)) = 14" by (simp add: deadWitness_def)
  then have "pCode f' ! 5 = HB_P_NOOP \<and> 5 \<in> set (pNOOPs f')"
    using f'(3) [rule_format, of 5] deadWitness_dead by (simp add: keptEnd_def)
  then show ?thesis using f'(1,2) n by auto
qed

theorem hb_compCodeTraceMarkDead_jumps_witness:
  "\<exists>f' c'. hb_compCodeTraceMarkDead True (pLast deadWitness) = Some (Inr f')
    \<and> optJumps_pass 1 (deadWitness\<lparr>pLast := f'\<rparr>) = Some c' \<and> compErrors c' = [] \<and> codeWf (pLast c')"
proof -
  have "compErrors deadWitness = []" by (simp add: deadWitness_def)
  then show ?thesis
    using hb_compCodeTraceMarkDead_jumps [OF deadWitness_trace deadWitness_noops deadWitness_blocks deadWitness_jumps, of 1]
      deadWitness_aligned by auto
qed

end
