(* ===== verification/HbLabel.thy ===== *)
theory HbLabel
  imports HbJumpCorrect
begin

text \<open>
  The table of labels the C code generators use, \<open>src/compiler/hblbl.c\<close>: one walk over the pcode counts
  the jumps to each position, then the positions with a jump are numbered in their order.
\<close>

subsection \<open>Counting the jumps\<close>

record HB_LABEL_INFO =
  fSetSeqBegin :: bool
  fCondJump :: bool
  pnLabels :: "nat list"

definition labelAdd :: "nat \<Rightarrow> HB_LABEL_INFO \<Rightarrow> HB_LABEL_INFO" where
  "labelAdd nPos cargo = cargo\<lparr>pnLabels := (pnLabels cargo)[nPos := pnLabels cargo ! nPos + 1]\<rparr>"

type_synonym labelFunc = "HB_LABEL_INFO evalFunc"

definition hb_p_jumpnear_label :: labelFunc where
  "hb_p_jumpnear_label pFunc nPos cargo =
     (pFunc, labelAdd (posAdd nPos (HB_SCHAR_at (pCode pFunc) (nPos + 1))) cargo, 2)"

definition hb_p_jump_label :: labelFunc where
  "hb_p_jump_label pFunc nPos cargo =
     (pFunc, labelAdd (posAdd nPos (HB_PCODE_MKSHORT (pCode pFunc) (nPos + 1))) cargo, 3)"

definition hb_p_jumpfar_label :: labelFunc where
  "hb_p_jumpfar_label pFunc nPos cargo =
     (pFunc, labelAdd (posAdd nPos (HB_PCODE_MKINT24 (pCode pFunc) (nPos + 1))) cargo, 4)"

definition hb_p_jumpfalsenear_label :: labelFunc where
  "hb_p_jumpfalsenear_label pFunc nPos cargo =
     (pFunc, labelAdd (posAdd nPos (HB_SCHAR_at (pCode pFunc) (nPos + 1))) (cargo\<lparr>fCondJump := True\<rparr>), 2)"

definition hb_p_jumpfalse_label :: labelFunc where
  "hb_p_jumpfalse_label pFunc nPos cargo =
     (pFunc, labelAdd (posAdd nPos (HB_PCODE_MKSHORT (pCode pFunc) (nPos + 1))) (cargo\<lparr>fCondJump := True\<rparr>), 3)"

definition hb_p_jumpfalsefar_label :: labelFunc where
  "hb_p_jumpfalsefar_label pFunc nPos cargo =
     (pFunc, labelAdd (posAdd nPos (HB_PCODE_MKINT24 (pCode pFunc) (nPos + 1))) (cargo\<lparr>fCondJump := True\<rparr>), 4)"

definition hb_p_jumptruenear_label :: labelFunc where
  "hb_p_jumptruenear_label pFunc nPos cargo =
     (pFunc, labelAdd (posAdd nPos (HB_SCHAR_at (pCode pFunc) (nPos + 1))) (cargo\<lparr>fCondJump := True\<rparr>), 2)"

definition hb_p_jumptrue_label :: labelFunc where
  "hb_p_jumptrue_label pFunc nPos cargo =
     (pFunc, labelAdd (posAdd nPos (HB_PCODE_MKSHORT (pCode pFunc) (nPos + 1))) (cargo\<lparr>fCondJump := True\<rparr>), 3)"

definition hb_p_jumptruefar_label :: labelFunc where
  "hb_p_jumptruefar_label pFunc nPos cargo =
     (pFunc, labelAdd (posAdd nPos (HB_PCODE_MKINT24 (pCode pFunc) (nPos + 1))) (cargo\<lparr>fCondJump := True\<rparr>), 4)"

definition hb_p_seqalways_label :: labelFunc where
  "hb_p_seqalways_label pFunc nPos cargo =
     (pFunc, if fSetSeqBegin cargo then labelAdd (posAdd nPos (HB_PCODE_MKINT24 (pCode pFunc) (nPos + 1))) cargo
             else cargo, 4)"

definition hb_p_alwaysbegin_label :: labelFunc where
  "hb_p_alwaysbegin_label pFunc nPos cargo =
     (pFunc, if fSetSeqBegin cargo then labelAdd (posAdd nPos (HB_PCODE_MKINT24 (pCode pFunc) (nPos + 1))) cargo
             else cargo, 4)"

definition hb_p_seqbegin_label :: labelFunc where
  "hb_p_seqbegin_label pFunc nPos cargo =
     (pFunc, if fSetSeqBegin cargo then labelAdd (posAdd nPos (HB_PCODE_MKINT24 (pCode pFunc) (nPos + 1))) cargo
             else cargo, 4)"

definition hb_p_seqend_label :: labelFunc where
  "hb_p_seqend_label pFunc nPos cargo =
     (let nOffset = HB_PCODE_MKINT24 (pCode pFunc) (nPos + 1) in
      (pFunc, if fSetSeqBegin cargo \<or> nOffset \<noteq> 4 then labelAdd (posAdd nPos nOffset) cargo else cargo, 4))"

definition s_GenLabelFuncTable :: "HB_BYTE \<Rightarrow> labelFunc option" where
  "s_GenLabelFuncTable op =
     (if op = HB_P_JUMPNEAR then Some hb_p_jumpnear_label
      else if op = HB_P_JUMP then Some hb_p_jump_label
      else if op = HB_P_JUMPFAR then Some hb_p_jumpfar_label
      else if op = HB_P_JUMPFALSENEAR then Some hb_p_jumpfalsenear_label
      else if op = HB_P_JUMPFALSE then Some hb_p_jumpfalse_label
      else if op = HB_P_JUMPFALSEFAR then Some hb_p_jumpfalsefar_label
      else if op = HB_P_JUMPTRUENEAR then Some hb_p_jumptruenear_label
      else if op = HB_P_JUMPTRUE then Some hb_p_jumptrue_label
      else if op = HB_P_JUMPTRUEFAR then Some hb_p_jumptruefar_label
      else if op = HB_P_SEQBEGIN then Some hb_p_seqbegin_label
      else if op = HB_P_SEQEND then Some hb_p_seqend_label
      else if op = HB_P_SEQALWAYS then Some hb_p_seqalways_label
      else if op = HB_P_ALWAYSBEGIN then Some hb_p_alwaysbegin_label
      else None)"

subsection \<open>Numbering\<close>

fun numberLabels :: "nat list \<Rightarrow> nat \<Rightarrow> nat list" where
  "numberLabels [] nLabel = []"
| "numberLabels (l # ls) nLabel =
     (if l \<noteq> 0 then (nLabel + 1) # numberLabels ls (nLabel + 1) else l # numberLabels ls nLabel)"

definition hb_compGenLabelTable :: "HB_HFUNC \<Rightarrow> HB_LABEL_INFO \<Rightarrow> (hb_errInternal + HB_LABEL_INFO) option" where
  "hb_compGenLabelTable pFunc label_info =
     (case hb_compPCodeEval s_GenLabelFuncTable pFunc label_info 0 of
        None \<Rightarrow> None
      | Some (Inl e) \<Rightarrow> Some (Inl e)
      | Some (Inr (pFunc, label_info)) \<Rightarrow>
          Some (Inr (label_info\<lparr>pnLabels := numberLabels (take (nPCodePos pFunc) (pnLabels label_info)) 0
                                @ drop (nPCodePos pFunc) (pnLabels label_info)\<rparr>)))"

subsection \<open>The walk\<close>

text \<open>The positions of the instructions in the order of the buffer.\<close>

fun codeLine :: "HB_HFUNC \<Rightarrow> nat \<Rightarrow> nat list \<Rightarrow> bool" where
  "codeLine f p [] \<longleftrightarrow> p = length (pCode f)"
| "codeLine f p (q # qs) \<longleftrightarrow>
     q = p \<and> p < length (pCode f) \<and> unat (pCode f ! p) < HB_P_LAST_PCODE
     \<and> 0 < hb_compPCodeSize f p \<and> codeLine f (p + hb_compPCodeSize f p) qs"

text \<open>The position an instruction asks a label for.\<close>

definition labelOf :: "HB_HFUNC \<Rightarrow> bool \<Rightarrow> nat \<Rightarrow> nat option" where
  "labelOf f fSeq p =
     (let op = pCode f ! p in
      case jumpOffset (pCode f) p of
        None \<Rightarrow> None
      | Some off \<Rightarrow>
          if op = HB_P_SEQALWAYS \<or> op = HB_P_ALWAYSBEGIN \<or> op = HB_P_SEQBEGIN then (if fSeq then Some (posAdd p off) else None)
          else if op = HB_P_SEQEND then (if fSeq \<or> off \<noteq> 4 then Some (posAdd p off) else None)
          else Some (posAdd p off))"

definition condJump :: "HB_BYTE \<Rightarrow> bool" where
  "condJump op \<longleftrightarrow> op \<in> {HB_P_JUMPFALSENEAR, HB_P_JUMPFALSE, HB_P_JUMPFALSEFAR,
     HB_P_JUMPTRUENEAR, HB_P_JUMPTRUE, HB_P_JUMPTRUEFAR}"

definition labelStep :: "HB_HFUNC \<Rightarrow> nat \<Rightarrow> HB_LABEL_INFO \<Rightarrow> HB_LABEL_INFO" where
  "labelStep f p c =
     (let c = (if condJump (pCode f ! p) then c\<lparr>fCondJump := True\<rparr> else c)
      in case labelOf f (fSetSeqBegin c) p of None \<Rightarrow> c | Some q \<Rightarrow> labelAdd q c)"

lemma label_len_simps:
  "hb_comp_pcode_len ! 25 = 2" "hb_comp_pcode_len ! 26 = 3" "hb_comp_pcode_len ! 27 = 4"
  "hb_comp_pcode_len ! 28 = 2" "hb_comp_pcode_len ! 29 = 3" "hb_comp_pcode_len ! 30 = 4"
  "hb_comp_pcode_len ! 31 = 2" "hb_comp_pcode_len ! 32 = 3" "hb_comp_pcode_len ! 33 = 4"
  "hb_comp_pcode_len ! 113 = 4" "hb_comp_pcode_len ! 114 = 4" "hb_comp_pcode_len ! 166 = 4" "hb_comp_pcode_len ! 167 = 4"
  by code_simp+

lemma label_handler:
  "evalCall s_GenLabelFuncTable f p c = (f, labelStep f p c, snd (snd (evalCall s_GenLabelFuncTable f p c)))
   \<and> snd (snd (evalCall s_GenLabelFuncTable f p c)) \<in> {0, hb_compPCodeSize f p}"
proof (cases "jumpOffset (pCode f) p")
  case None
  let ?op = "pCode f ! p"
  have no: "?op \<notin> {HB_P_JUMPNEAR, HB_P_JUMP, HB_P_JUMPFAR, HB_P_JUMPFALSENEAR, HB_P_JUMPFALSE, HB_P_JUMPFALSEFAR,
      HB_P_JUMPTRUENEAR, HB_P_JUMPTRUE, HB_P_JUMPTRUEFAR, HB_P_SEQBEGIN, HB_P_SEQEND, HB_P_SEQALWAYS, HB_P_ALWAYSBEGIN}"
    by (rule notI) (use None in \<open>auto simp: jumpOffset_def Let_def\<close>)
  then have "s_GenLabelFuncTable ?op = None" "\<not> condJump ?op"
    unfolding s_GenLabelFuncTable_def condJump_def by simp_all
  then show ?thesis using None by (simp add: evalCall_def labelStep_def labelOf_def Let_def)
next
  case (Some off)
  then have "jumpOffset (pCode f) p \<noteq> None" by simp
  then have "pCode f ! p \<in> {HB_P_JUMPNEAR, HB_P_JUMP, HB_P_JUMPFAR, HB_P_JUMPFALSENEAR, HB_P_JUMPFALSE, HB_P_JUMPFALSEFAR,
      HB_P_JUMPTRUENEAR, HB_P_JUMPTRUE, HB_P_JUMPTRUEFAR, HB_P_SEQBEGIN, HB_P_SEQEND, HB_P_SEQALWAYS, HB_P_ALWAYSBEGIN}"
    by (rule contrapos_np) (simp add: jumpOffset_def Let_def)
  then show ?thesis
    by (elim insertE emptyE)
      (simp_all add: evalCall_def s_GenLabelFuncTable_def labelStep_def labelOf_def condJump_def jumpOffset_def
        hb_compPCodeSize_def label_len_simps hb_p_jumpnear_label_def hb_p_jump_label_def hb_p_jumpfar_label_def
        hb_p_jumpfalsenear_label_def hb_p_jumpfalse_label_def hb_p_jumpfalsefar_label_def hb_p_jumptruenear_label_def
        hb_p_jumptrue_label_def hb_p_jumptruefar_label_def hb_p_seqbegin_label_def hb_p_seqend_label_def
        hb_p_seqalways_label_def hb_p_alwaysbegin_label_def)
qed

lemma label_walk:
  "codeLine f p ps \<Longrightarrow>
   hb_compPCodeEval s_GenLabelFuncTable f c p = Some (Inr (f, fold (labelStep f) ps c))"
proof (induction ps arbitrary: p c)
  case Nil
  then show ?case by (subst hb_compPCodeEval.simps) simp
next
  case (Cons q qs)
  obtain k where k: "evalCall s_GenLabelFuncTable f p c = (f, labelStep f p c, k)" "k \<in> {0, hb_compPCodeSize f p}"
    using label_handler [of f p c] by metis
  have pos: "p < length (pCode f)" "unat (pCode f ! p) < 181" "0 < hb_compPCodeSize f p" "q = p"
    and tl: "codeLine f (p + hb_compPCodeSize f p) qs" using Cons.prems by auto
  have eq: "(if k = 0 then (if hb_comp_pcode_len ! unat (pCode f ! p) = 0
      then (case s_psize_table (pCode f ! p) of Some pCall \<Rightarrow> pCall f p | None \<Rightarrow> 0)
      else hb_comp_pcode_len ! unat (pCode f ! p)) else k) = hb_compPCodeSize f p"
    using k(2) pos(2) by (auto simp: hb_compPCodeSize_def Let_def)
  have "hb_compPCodeEval s_GenLabelFuncTable f c p
      = hb_compPCodeEval s_GenLabelFuncTable f (labelStep f p c) (p + hb_compPCodeSize f p)"
    by (subst hb_compPCodeEval.simps)
      (use pos in \<open>simp only: nPCodePos_def HB_P_LAST_PCODE_def if_True Let_def k(1) fst_conv snd_conv eq; simp\<close>)
  then show ?case using pos(4) Cons.IH [OF tl] by simp
qed

lemma labelStep_fields:
  "fSetSeqBegin (labelStep f p c) = fSetSeqBegin c"
  "fCondJump (labelStep f p c) = (fCondJump c \<or> condJump (pCode f ! p))"
  "length (pnLabels (labelStep f p c)) = length (pnLabels c)"
  "(\<forall>q. labelOf f (fSetSeqBegin c) p = Some q \<longrightarrow> q < length (pnLabels c)) \<Longrightarrow> i < length (pnLabels c) \<Longrightarrow>
     pnLabels (labelStep f p c) ! i = pnLabels c ! i + (if labelOf f (fSetSeqBegin c) p = Some i then 1 else 0)"
  by (auto simp: labelStep_def labelAdd_def Let_def split: option.split)

lemma labelSteps:
  "(\<forall>p\<in>set ps. \<forall>q. labelOf f (fSetSeqBegin c) p = Some q \<longrightarrow> q < length (pnLabels c)) \<Longrightarrow>
   fCondJump (fold (labelStep f) ps c) = (fCondJump c \<or> (\<exists>p\<in>set ps. condJump (pCode f ! p)))
   \<and> length (pnLabels (fold (labelStep f) ps c)) = length (pnLabels c)
   \<and> (\<forall>i<length (pnLabels c). pnLabels (fold (labelStep f) ps c) ! i
        = pnLabels c ! i + length (filter (\<lambda>p. labelOf f (fSetSeqBegin c) p = Some i) ps))"
proof (induction ps arbitrary: c)
  case (Cons p ps)
  then show ?case using Cons.IH [of "labelStep f p c"] labelStep_fields [where f = f and p = p and c = c] by auto
qed simp

lemma numberLabels_nth:
  "i < length ls \<Longrightarrow> numberLabels ls k ! i
     = (if ls ! i \<noteq> 0 then k + length (filter (\<lambda>l. l \<noteq> 0) (take (i + 1) ls)) else 0)"
proof (induction ls arbitrary: i k)
  case (Cons l ls)
  then show ?case by (cases i) auto
qed simp

lemma length_numberLabels [simp]: "length (numberLabels ls k) = length ls"
  by (induction ls arbitrary: k) simp_all

lemma length_filter_take:
  "n \<le> length ls \<Longrightarrow> length (filter P (take n ls)) = card {j. j < n \<and> P (ls ! j)}"
  using length_filter_conv_card [of P "take n ls"] by (simp add: min_def conj_commute cong: conj_cong)

text \<open>C17. The table of labels of the code generators: exactly the positions an instruction jumps to have a
  label, the labels are the numbers from 1 in the order of the positions, so they are distinct and
  without a gap, and the flag for conditional jumps is set exactly when there is one.\<close>

theorem hb_compGenLabelTable_spec:
  assumes line: "codeLine f 0 ps" and zero: "pnLabels c = replicate (length (pCode f)) 0"
    and inside: "\<forall>p\<in>set ps. \<forall>q. labelOf f (fSetSeqBegin c) p = Some q \<longrightarrow> q < length (pCode f)"
  shows "\<exists>c'. hb_compGenLabelTable f c = Some (Inr c')
    \<and> fCondJump c' = (fCondJump c \<or> (\<exists>p\<in>set ps. condJump (pCode f ! p)))
    \<and> (\<forall>i<length (pCode f). pnLabels c' ! i =
         (if \<exists>p\<in>set ps. labelOf f (fSetSeqBegin c) p = Some i
          then card {j. j \<le> i \<and> (\<exists>p\<in>set ps. labelOf f (fSetSeqBegin c) p = Some j)} else 0))"
proof -
  let ?n = "length (pCode f)" let ?c = "fold (labelStep f) ps c" let ?ls = "take ?n (pnLabels ?c)"
  let ?L = "\<lambda>i. \<exists>p\<in>set ps. labelOf f (fSetSeqBegin c) p = Some i"
  have S: "fCondJump ?c = (fCondJump c \<or> (\<exists>p\<in>set ps. condJump (pCode f ! p)))" "length (pnLabels ?c) = ?n"
    "\<And>i. i < ?n \<Longrightarrow> pnLabels ?c ! i = length (filter (\<lambda>p. labelOf f (fSetSeqBegin c) p = Some i) ps)"
    using labelSteps [of ps f c] inside zero by auto
  have nz: "?ls ! i \<noteq> 0 \<longleftrightarrow> ?L i" if "i < ?n" for i
    using S(3) [of i] that by (auto simp: filter_empty_conv)
  have "numberLabels ?ls 0 ! i = (if ?L i then card {j. j \<le> i \<and> ?L j} else 0)" if i: "i < ?n" for i
  proof -
    have "{j. j < i + 1 \<and> ?ls ! j \<noteq> 0} = {j. j \<le> i \<and> ?L j}" using nz i by (auto simp: less_Suc_eq_le)
    then show ?thesis
      using numberLabels_nth [of i ?ls 0] length_filter_take [of "i + 1" ?ls "\<lambda>l. l \<noteq> 0"] nz [OF i] i S(2) by simp
  qed
  moreover have "length (numberLabels ?ls 0) = ?n" using S(2) by simp
  ultimately show ?thesis
    using label_walk [OF line, of c] S(1) by (simp add: hb_compGenLabelTable_def nth_append)
qed

definition labelWitness :: HB_HFUNC where
  "labelWitness = \<lparr>szName = Some ''MAIN'', bError = False, hasPCode = True,
     pCode = [23, HB_P_JUMPFALSENEAR, 3, 23, HB_P_JUMPNEAR, 252, HB_P_ENDPROC],
     nPCodeSize = 100, pNOOPs = [], pJumps = [1, 4]\<rparr>"

lemma labelWitness_line: "codeLine labelWitness 0 [0, 1, 3, 4, 6]"
  by (simp add: labelWitness_def hb_compPCodeSize_def hb_comp_pcode_len_def)

lemma labelWitness_labels:
  "labelOf labelWitness False 0 = None" "labelOf labelWitness False 1 = Some 4" "labelOf labelWitness False 3 = None"
  "labelOf labelWitness False 4 = Some 0" "labelOf labelWitness False 6 = None"
  by (simp_all add: labelWitness_def labelOf_def jumpOffset_def posAdd_def HB_SCHAR_at_def Let_def)

theorem hb_compGenLabelTable_spec_witness:
  "\<exists>c'. hb_compGenLabelTable labelWitness \<lparr>fSetSeqBegin = False, fCondJump = False, pnLabels = replicate 7 0\<rparr> = Some (Inr c')
     \<and> fCondJump c' \<and> pnLabels c' ! 0 = 1 \<and> pnLabels c' ! 1 = 0 \<and> pnLabels c' ! 4 = 2"
proof -
  let ?c = "\<lparr>fSetSeqBegin = False, fCondJump = False, pnLabels = replicate 7 0\<rparr>"
  have n: "length (pCode labelWitness) = 7" "pCode labelWitness ! 1 = HB_P_JUMPFALSENEAR" by (simp_all add: labelWitness_def)
  have L: "(\<exists>p\<in>set [0, 1, 3, 4, 6]. labelOf labelWitness False p = Some i) \<longleftrightarrow> i = 0 \<or> i = 4" for i
    by (auto simp: labelWitness_labels labelWitness_labels(2) [simplified])
  have "{j::nat. j \<le> 0 \<and> (j = 0 \<or> j = 4)} = {0}" "{j::nat. j \<le> 4 \<and> (j = 0 \<or> j = 4)} = {0, 4}" by auto
  moreover have "pnLabels ?c = replicate (length (pCode labelWitness)) 0" using n by simp
  moreover have "\<forall>p\<in>set [0, 1, 3, 4, 6]. \<forall>q. labelOf labelWitness (fSetSeqBegin ?c) p = Some q \<longrightarrow> q < length (pCode labelWitness)"
    using n by (simp add: labelWitness_labels labelWitness_labels(2) [simplified])
  ultimately show ?thesis
    using hb_compGenLabelTable_spec [OF labelWitness_line, of ?c] n unfolding HB_LABEL_INFO.select_convs L
    by (auto simp: condJump_def)
qed

end
