(* ===== verification/HbUtf8.thy ===== *)
theory HbUtf8
  imports HbPrelude "HOL-Library.Word"
begin

text \<open>
  The UTF-8 conversions and string functions of \<open>src/rtl/cdpapi.c\<close>. A character of the program is
  an unsigned 16 bit number (\<open>HB_WCHAR\<close>); the decoder is a state machine with the number \<open>n\<close> of bytes
  that still have to come, which reads one byte at a time and does not consume the byte that breaks a
  sequence. Sequences of four to six bytes are read, and their value is cut to 16 bits.
\<close>

type_synonym HB_WCHAR = "16 word"
type_synonym HB_UCHAR = "8 word"

unbundle bit_operations_syntax

subsection \<open>Single characters\<close>

definition hb_cdpUTF8CharSize :: "HB_WCHAR \<Rightarrow> nat" where
  "hb_cdpUTF8CharSize wc = (if wc < 0x0080 then 1 else if wc < 0x0800 then 2 else 3)"

definition hb_cdpU16CharToUTF8 :: "HB_WCHAR \<Rightarrow> HB_UCHAR list" where
  "hb_cdpU16CharToUTF8 wc =
     (if wc < 0x0080 then [ucast (wc AND 0xff)]
      else if wc < 0x0800 then
        [ucast (0xc0 OR (drop_bit 6 wc AND 0x1f)), ucast (0x80 OR (wc AND 0x3f))]
      else
        [ucast (0xe0 OR (drop_bit 12 wc AND 0x0f)), ucast (0x80 OR (drop_bit 6 wc AND 0x3f)),
         ucast (0x80 OR (wc AND 0x3f))])"

definition hb_cdpUTF8ToU16NextChar :: "HB_UCHAR \<Rightarrow> nat \<Rightarrow> HB_WCHAR \<Rightarrow> bool \<times> nat \<times> HB_WCHAR" where
  "hb_cdpUTF8ToU16NextChar ucChar n wc =
     (if 0 < n then
        (if ucChar AND 0xc0 \<noteq> 0x80 then (False, 0, wc)
         else (True, n - 1, push_bit 6 wc OR (ucast ucChar AND 0x3f)))
      else
        (let wc = ucast ucChar in
         if 0xc0 \<le> ucChar then
           (if ucChar < 0xe0 then (True, 1, wc AND 0x1f)
            else if ucChar < 0xf0 then (True, 2, wc AND 0x0f)
            else if ucChar < 0xf8 then (True, 3, wc AND 0x07)
            else if ucChar < 0xfc then (True, 4, wc AND 0x03)
            else if ucChar < 0xfe then (True, 5, wc AND 0x01)
            else (True, 0, wc))
         else (True, 0, wc)))"

text \<open>The step of every loop over a byte string: the position moves when the byte was consumed.\<close>

definition utf8Step :: "HB_UCHAR list \<Rightarrow> nat \<Rightarrow> nat \<Rightarrow> HB_WCHAR \<Rightarrow> nat \<times> nat \<times> HB_WCHAR" where
  "utf8Step pSrc nPos n wc =
     (case hb_cdpUTF8ToU16NextChar (pSrc ! nPos) n wc of
        (fOk, n, wc) \<Rightarrow> (if fOk then nPos + 1 else nPos, n, wc))"

lemma utf8Step_measure:
  assumes "utf8Step pSrc nPos n wc = (nPos', n', wc')" "nPos < k"
  shows "2 * (k - nPos') + (if 0 < n' then 1 else 0) < 2 * (k - nPos) + (if 0 < n then 1 else (0::nat))"
  using assms
  by (auto simp: utf8Step_def hb_cdpUTF8ToU16NextChar_def Let_def split: if_splits)

subsection \<open>Reading and writing characters\<close>

function utf8Get_loop :: "HB_UCHAR list \<Rightarrow> nat \<Rightarrow> nat \<Rightarrow> HB_WCHAR \<Rightarrow> (nat \<times> HB_WCHAR) option" where
  "utf8Get_loop pSrc nIndex n wc =
     (if nIndex < length pSrc then
        (case utf8Step pSrc nIndex n wc of
           (nIndex, n, wc) \<Rightarrow> if n = 0 then Some (nIndex, wc) else utf8Get_loop pSrc nIndex n wc)
      else if 0 < n then Some (nIndex, wc) else None)"
  by pat_completeness auto
termination
proof (relation "measure (\<lambda>(s, p, n, wc). 2 * (length s - p) + (if 0 < n then 1 else 0))", goal_cases)
  case (2 pSrc p n wc p' x n' wc')
  then have "utf8Step pSrc p n wc = (p', n', wc')" by simp
  from utf8Step_measure [OF this 2(1)] show ?case by simp
qed simp

declare utf8Get_loop.simps [simp del]

text \<open>\<open>None\<close> is the result \<open>HB_FALSE\<close>, which leaves the index as it is.\<close>

definition hb_cdpUTF8_get :: "HB_UCHAR list \<Rightarrow> nat \<Rightarrow> (nat \<times> HB_WCHAR) option" where
  "hb_cdpUTF8_get pSrc nIndex = utf8Get_loop pSrc nIndex 0 0"

text \<open>The buffer of \<open>nLen\<close> bytes holds the bytes written so far; the index is their number.\<close>

definition hb_cdpUTF8_put :: "nat \<Rightarrow> HB_WCHAR \<Rightarrow> HB_UCHAR list \<Rightarrow> HB_UCHAR list option" where
  "hb_cdpUTF8_put nLen wc pDst =
     (if length pDst + hb_cdpUTF8CharSize wc \<le> nLen then Some (pDst @ hb_cdpU16CharToUTF8 wc) else None)"

subsection \<open>String functions\<close>

function utf8Length_loop :: "HB_UCHAR list \<Rightarrow> nat \<Rightarrow> nat \<Rightarrow> HB_WCHAR \<Rightarrow> nat \<Rightarrow> nat" where
  "utf8Length_loop pSrc nPos n wc nDst =
     (if nPos < length pSrc then
        (case utf8Step pSrc nPos n wc of
           (nPos, n, wc) \<Rightarrow> utf8Length_loop pSrc nPos n wc (if n = 0 then nDst + 1 else nDst))
      else if 0 < n then nDst + 1 else nDst)"
  by pat_completeness auto
termination
  by (relation "measure (\<lambda>(s, p, n, wc, d). 2 * (length s - p) + (if 0 < n then 1 else 0))")
    (auto dest: utf8Step_measure [OF sym] split: prod.split)

declare utf8Length_loop.simps [simp del]

definition hb_cdpUTF8StringLength :: "HB_UCHAR list \<Rightarrow> nat" where
  "hb_cdpUTF8StringLength pSrc = utf8Length_loop pSrc 0 0 0 0"

text \<open>The loop that skips \<open>nSkip\<close> characters.\<close>

function utf8Skip :: "HB_UCHAR list \<Rightarrow> nat \<Rightarrow> nat \<Rightarrow> HB_WCHAR \<Rightarrow> nat \<Rightarrow> nat \<times> HB_WCHAR" where
  "utf8Skip pSrc nPos n wc nSkip =
     (if nPos < length pSrc \<and> 0 < nSkip then
        (case utf8Step pSrc nPos n wc of
           (nPos, n, wc) \<Rightarrow> utf8Skip pSrc nPos n wc (if n = 0 then nSkip - 1 else nSkip))
      else (nPos, wc))"
  by pat_completeness auto
termination
  by (relation "measure (\<lambda>(s, p, n, wc, k). 2 * (length s - p) + (if 0 < n then 1 else 0))")
    (auto dest: utf8Step_measure [OF sym] split: prod.split)

declare utf8Skip.simps [simp del]

function utf8Peek_loop :: "HB_UCHAR list \<Rightarrow> nat \<Rightarrow> nat \<Rightarrow> HB_WCHAR \<Rightarrow> HB_WCHAR" where
  "utf8Peek_loop pSrc nPos n wc =
     (if nPos < length pSrc then
        (case utf8Step pSrc nPos n wc of
           (nPos, n, wc) \<Rightarrow> if n = 0 then wc else utf8Peek_loop pSrc nPos n wc)
      else 0)"
  by pat_completeness auto
termination
proof (relation "measure (\<lambda>(s, p, n, wc). 2 * (length s - p) + (if 0 < n then 1 else 0))", goal_cases)
  case (2 pSrc p n wc p' x n' wc')
  then have "utf8Step pSrc p n wc = (p', n', wc')" by simp
  from utf8Step_measure [OF this 2(1)] show ?case by simp
qed simp

declare utf8Peek_loop.simps [simp del]

definition hb_cdpUTF8StringPeek :: "HB_UCHAR list \<Rightarrow> nat \<Rightarrow> HB_WCHAR" where
  "hb_cdpUTF8StringPeek pSrc nPos =
     (case utf8Skip pSrc 0 0 0 nPos of (nPos2, wc) \<Rightarrow> utf8Peek_loop pSrc nPos2 0 wc)"

definition hb_cdpUTF8StringSubstr :: "HB_UCHAR list \<Rightarrow> nat \<Rightarrow> nat \<Rightarrow> HB_UCHAR list option" where
  "hb_cdpUTF8StringSubstr pSrc nFrom nCount =
     (if 0 < nCount \<and> pSrc \<noteq> [] then
        (case utf8Skip pSrc 0 0 0 nFrom of (nPos, wc) \<Rightarrow>
           if nPos < length pSrc then
             (case utf8Skip pSrc nPos 0 wc nCount of (nEnd, wc) \<Rightarrow> Some (take (nEnd - nPos) (drop nPos pSrc)))
           else None)
      else None)"

text \<open>The search. Reading a character starts with the number of missing bytes the character before it
  left, which is not 0 when the text ended inside a sequence; the inner loop stops at a byte that breaks a
  sequence. \<open>utf8Char\<close> is that inner loop.\<close>

function utf8Char :: "HB_UCHAR list \<Rightarrow> nat \<Rightarrow> nat \<Rightarrow> HB_WCHAR \<Rightarrow> nat \<times> nat \<times> HB_WCHAR" where
  "utf8Char s nPos n wc =
     (case hb_cdpUTF8ToU16NextChar (s ! nPos) n wc of
        (fOk, n, wc) \<Rightarrow>
          if \<not> fOk then (nPos, n, wc)
          else if 0 < n \<and> nPos + 1 < length s then utf8Char s (nPos + 1) n wc
          else (nPos + 1, n, wc))"
  by pat_completeness auto
termination
  by (relation "measure (\<lambda>(s, p, n, wc). length s - p)") auto

declare utf8Char.simps [simp del]

record UTF8_AT =
  nPosN :: nat
  nPosH :: nat
  nPosX :: nat
  nPos :: nat
  nRAt :: nat
  nAt :: nat
  wcN :: HB_WCHAR
  wcH :: HB_WCHAR
  nN :: nat
  nH :: nat

text \<open>One turn of the outer loop: the result when it returns, or the new state.\<close>

definition utf8At_step ::
    "HB_UCHAR list \<Rightarrow> HB_UCHAR list \<Rightarrow> nat \<Rightarrow> bool \<Rightarrow> UTF8_AT \<Rightarrow> nat + UTF8_AT" where
  "utf8At_step szNeedle szHaystack nStart fReverse st =
     (case utf8Char szHaystack (nPosH st) (nH st) (wcH st) of (posH, missH, wH) \<Rightarrow>
      let st = st\<lparr>nPosH := posH, nH := missH, wcH := wH, nPos := nPos st + 1\<rparr> in
      if nPos st < nStart then Inr st
      else
        (case utf8Char szNeedle (nPosN st) (nN st) (wcN st) of (posN, missN, wN) \<Rightarrow>
         let st = st\<lparr>nPosN := posN, nN := missN, wcN := wN\<rparr> in
         if wcH st = wcN st then
           (let st = (if nAt st = 0 then st\<lparr>nAt := nPos st, nPosX := nPosH st\<rparr> else st) in
            if nPosN st = length szNeedle then
              (if fReverse then
                 Inr (st\<lparr>nRAt := nAt st, nPos := nAt st, nAt := 0, nPosH := nPosX st, nPosX := 0, nPosN := 0\<rparr>)
               else Inl (nAt st))
            else Inr st)
         else
           (let st = (if nAt st \<noteq> 0 then st\<lparr>nPos := nAt st, nAt := 0, nPosH := nPosX st, nPosX := 0\<rparr> else st)
            in Inr (st\<lparr>nPosN := 0\<rparr>))))"

partial_function (option) utf8At_loop ::
    "HB_UCHAR list \<Rightarrow> HB_UCHAR list \<Rightarrow> nat \<Rightarrow> nat \<Rightarrow> bool \<Rightarrow> UTF8_AT \<Rightarrow> nat option" where
  "utf8At_loop szNeedle szHaystack nStart nEnd fReverse st =
     (if nPosH st < length szHaystack \<and> nPosN st < length szNeedle \<and> nPos st < nEnd then
        (case utf8At_step szNeedle szHaystack nStart fReverse st of
           Inl r \<Rightarrow> Some r
         | Inr st \<Rightarrow> utf8At_loop szNeedle szHaystack nStart nEnd fReverse st)
      else Some (nRAt st))"

definition hb_cdpUTF8StringAt :: "HB_UCHAR list \<Rightarrow> HB_UCHAR list \<Rightarrow> nat \<Rightarrow> nat \<Rightarrow> bool \<Rightarrow> nat option" where
  "hb_cdpUTF8StringAt szNeedle szHaystack nStart nEnd fReverse =
     utf8At_loop szNeedle szHaystack nStart nEnd fReverse
       \<lparr>nPosN = 0, nPosH = 0, nPosX = 0, nPos = 0, nRAt = 0, nAt = 0, wcN = 0, wcH = 0, nN = 0, nH = 0\<rparr>"

end
