(* ===== verification/HbUtf8Correct.thy ===== *)
theory HbUtf8Correct
  imports HbUtf8
begin

text \<open>
  The decoder reads back what the encoder wrote, character by character, and the string functions are
  the list functions on the decoded text.
\<close>

subsection \<open>One character\<close>

lemma small_word:
  assumes "(y :: 16 word) < word_of_nat k" "k < 2 ^ 16" "\<And>i. i < k \<Longrightarrow> P (word_of_nat i)"
  shows "P y"
proof -
  have "unat y < k" using assms(1,2) by (simp add: word_less_nat_alt unat_of_nat)
  from assms(3) [OF this] show ?thesis by simp
qed

lemma cont_byte:
  assumes "(y :: 16 word) < 0x40"
  shows "(ucast (0x80 OR y) :: 8 word) AND 0xc0 = 0x80 \<and> (ucast (ucast (0x80 OR y) :: 8 word) :: 16 word) AND 0x3f = y"
proof (rule small_word [of y 64])
  fix i :: nat assume "i < 64"
  then have "i \<in> set [0..<64]" by simp
  then show "(ucast (0x80 OR (word_of_nat i :: 16 word)) :: 8 word) AND 0xc0 = 0x80
      \<and> (ucast (ucast (0x80 OR (word_of_nat i :: 16 word)) :: 8 word) :: 16 word) AND 0x3f = word_of_nat i"
    by (simp add: upt_conv_Cons del: upt_Suc) (elim disjE; simp)
qed (use assms in simp_all)

lemma lead2_byte:
  assumes "(y :: 16 word) < 0x20"
  shows "0xc0 \<le> (ucast (0xc0 OR y) :: 8 word) \<and> (ucast (0xc0 OR y) :: 8 word) < 0xe0
    \<and> (ucast (ucast (0xc0 OR y) :: 8 word) :: 16 word) AND 0x1f = y"
proof (rule small_word [of y 32])
  fix i :: nat assume "i < 32"
  then have "i \<in> set [0..<32]" by simp
  then show "0xc0 \<le> (ucast (0xc0 OR (word_of_nat i :: 16 word)) :: 8 word) \<and> (ucast (0xc0 OR (word_of_nat i :: 16 word)) :: 8 word) < 0xe0
      \<and> (ucast (ucast (0xc0 OR (word_of_nat i :: 16 word)) :: 8 word) :: 16 word) AND 0x1f = word_of_nat i"
    by (simp add: upt_conv_Cons del: upt_Suc) (elim disjE; simp)
qed (use assms in simp_all)

lemma lead3_byte:
  assumes "(y :: 16 word) < 0x10"
  shows "0xe0 \<le> (ucast (0xe0 OR y) :: 8 word) \<and> (ucast (0xe0 OR y) :: 8 word) < 0xf0
    \<and> (ucast (ucast (0xe0 OR y) :: 8 word) :: 16 word) AND 0x0f = y"
proof (rule small_word [of y 16])
  fix i :: nat assume "i < 16"
  then have "i \<in> set [0..<16]" by simp
  then show "0xe0 \<le> (ucast (0xe0 OR (word_of_nat i :: 16 word)) :: 8 word) \<and> (ucast (0xe0 OR (word_of_nat i :: 16 word)) :: 8 word) < 0xf0
      \<and> (ucast (ucast (0xe0 OR (word_of_nat i :: 16 word)) :: 8 word) :: 16 word) AND 0x0f = word_of_nat i"
    by (simp add: upt_conv_Cons del: upt_Suc) (elim disjE; simp)
qed (use assms in simp_all)

lemma ascii_byte:
  assumes "(y :: 16 word) < 0x80"
  shows "(ucast y :: 8 word) < 0xc0 \<and> (ucast (ucast y :: 8 word) :: 16 word) = y"
proof -
  have u: "unat y < 128" using assms by (simp add: word_less_nat_alt)
  then have "unat (ucast y :: 8 word) = unat y" by (simp add: unsigned_ucast_eq unsigned_take_bit_eq take_bit_nat_eq_self)
  then show ?thesis using u by (simp add: word_less_nat_alt word_unat_eq_iff unsigned_ucast_eq unsigned_take_bit_eq take_bit_nat_eq_self)
qed

lemma masks: "(0x3f :: 16 word) = mask 6" "(0x1f :: 16 word) = mask 5" "(0x0f :: 16 word) = mask 4" "(0xff :: 16 word) = mask 8"
  by (simp_all add: mask_eq_exp_minus_1)

lemma split_word: "push_bit n (drop_bit n (a :: 16 word)) OR take_bit n a = a"
  by (rule bit_eqI) (auto simp: bit_simps)

lemma mask_less: "n < 16 \<Longrightarrow> (a :: 16 word) AND mask n < 2 ^ n"
  using and_mask_less' [of n a] by simp

lemma small_bits:
  assumes "(wc :: 16 word) < 2 ^ n" "n < 16" "n \<le> m + k"
  shows "drop_bit m wc AND mask k = drop_bit m wc"
proof -
  have "take_bit n wc = wc"
    using less_mask_eq [OF assms(1)] by (simp add: take_bit_eq_mask)
  then have "j < n" if "bit wc j" for j using that by (metis bit_take_bit_iff)
  then show ?thesis using assms(3) by (intro bit_eqI) (fastforce simp: bit_simps)
qed

lemma drop12_mask: "drop_bit 12 (wc :: 16 word) AND mask 4 = drop_bit 12 wc"
  by (rule bit_eqI) (auto simp: bit_simps dest: bit_imp_le_length)

lemma join2: "(wc :: 16 word) < 0x800 \<Longrightarrow> push_bit 6 (drop_bit 6 wc AND 0x1f) OR (wc AND 0x3f) = wc"
  using small_bits [of wc 11 6 5] split_word [of 6 wc] by (simp add: masks take_bit_eq_mask)

lemma join3: "push_bit 6 (push_bit 6 (drop_bit 12 wc AND 0x0f) OR (drop_bit 6 wc AND 0x3f)) OR (wc AND 0x3f) = (wc :: 16 word)"
  using split_word [of 6 "drop_bit 6 wc"] split_word [of 6 wc] drop12_mask [of wc] by (simp add: masks take_bit_eq_mask drop_bit_drop_bit)

text \<open>The decoder on the bytes of one character.\<close>

lemma NextChar_encoded:
  assumes "bs = hb_cdpU16CharToUTF8 wc"
  shows "length bs = hb_cdpUTF8CharSize wc"
    "length bs = 1 \<Longrightarrow> hb_cdpUTF8ToU16NextChar (bs ! 0) 0 w = (True, 0, wc)"
    "length bs = 2 \<Longrightarrow> \<exists>x. hb_cdpUTF8ToU16NextChar (bs ! 0) 0 w = (True, 1, x)
       \<and> hb_cdpUTF8ToU16NextChar (bs ! 1) 1 x = (True, 0, wc)"
    "length bs = 3 \<Longrightarrow> \<exists>x y. hb_cdpUTF8ToU16NextChar (bs ! 0) 0 w = (True, 2, x)
       \<and> hb_cdpUTF8ToU16NextChar (bs ! 1) 2 x = (True, 1, y) \<and> hb_cdpUTF8ToU16NextChar (bs ! 2) 1 y = (True, 0, wc)"
    "length bs \<in> {1, 2, 3}"
proof -
  have m: "(a :: 16 word) AND 0x3f < 0x40" "(a :: 16 word) AND 0x1f < 0x20" "(a :: 16 word) AND 0x0f < 0x10" for a
    using mask_less [of 6 a] mask_less [of 5 a] mask_less [of 4 a] by (simp_all add: masks)
  note C6 = cont_byte [OF m(1)] and L2 = lead2_byte [OF m(2)] and L3 = lead3_byte [OF m(3)]
  show "length bs = hb_cdpUTF8CharSize wc" "length bs \<in> {1, 2, 3}"
    by (simp_all add: assms hb_cdpU16CharToUTF8_def hb_cdpUTF8CharSize_def)
  show "hb_cdpUTF8ToU16NextChar (bs ! 0) 0 w = (True, 0, wc)" if "length bs = 1"
  proof -
    have wc: "wc < 0x80" using that assms by (auto simp: hb_cdpU16CharToUTF8_def split: if_splits)
    then have "wc AND 0xff = wc" using small_bits [of wc 7 0 8] by (simp add: masks)
    then show ?thesis using wc ascii_byte [OF wc]
      by (simp add: assms hb_cdpU16CharToUTF8_def hb_cdpUTF8ToU16NextChar_def Let_def not_le)
  qed
  show "\<exists>x. hb_cdpUTF8ToU16NextChar (bs ! 0) 0 w = (True, 1, x)
       \<and> hb_cdpUTF8ToU16NextChar (bs ! 1) 1 x = (True, 0, wc)" if "length bs = 2"
  proof -
    have wc: "\<not> wc < 0x80" "wc < 0x800" using that assms by (auto simp: hb_cdpU16CharToUTF8_def split: if_splits)
    then show ?thesis using L2 [of "drop_bit 6 wc"] C6 [of wc] join2 [OF wc(2)]
      by (simp add: assms hb_cdpU16CharToUTF8_def hb_cdpUTF8ToU16NextChar_def Let_def)
  qed
  show "\<exists>x y. hb_cdpUTF8ToU16NextChar (bs ! 0) 0 w = (True, 2, x)
       \<and> hb_cdpUTF8ToU16NextChar (bs ! 1) 2 x = (True, 1, y) \<and> hb_cdpUTF8ToU16NextChar (bs ! 2) 1 y = (True, 0, wc)" if "length bs = 3"
  proof -
    have wc: "\<not> wc < 0x80" "\<not> wc < 0x800" using that assms by (auto simp: hb_cdpU16CharToUTF8_def split: if_splits)
    have c0: "(0xc0 :: 8 word) \<le> ucast (0xe0 OR (drop_bit 12 wc AND 0x0f))"
      using L3 [of "drop_bit 12 wc"] by (rule order_trans [rotated, OF conjunct1]) simp
    then show ?thesis using wc L3 [of "drop_bit 12 wc"] C6 [of wc] C6 [of "drop_bit 6 wc"] join3 [of wc]
      by (simp add: assms hb_cdpU16CharToUTF8_def hb_cdpUTF8ToU16NextChar_def Let_def not_less [symmetric])
  qed
qed

subsection \<open>One character inside a text\<close>

text \<open>\<open>charAt pSrc p wc\<close>: the encoding of \<open>wc\<close> stands at position \<open>p\<close>.\<close>

definition charAt :: "HB_UCHAR list \<Rightarrow> nat \<Rightarrow> HB_WCHAR \<Rightarrow> bool" where
  "charAt pSrc p wc \<longleftrightarrow> (\<exists>rest. drop p pSrc = hb_cdpU16CharToUTF8 wc @ rest)"

lemma charAt_D:
  assumes "charAt pSrc p wc"
  shows "i < hb_cdpUTF8CharSize wc \<Longrightarrow> pSrc ! (p + i) = hb_cdpU16CharToUTF8 wc ! i"
    "p + hb_cdpUTF8CharSize wc \<le> length pSrc"
proof -
  obtain rest where r: "drop p pSrc = hb_cdpU16CharToUTF8 wc @ rest" using assms by (auto simp: charAt_def)
  have len: "length (hb_cdpU16CharToUTF8 wc) = hb_cdpUTF8CharSize wc" by (rule NextChar_encoded(1) [OF refl])
  have pos: "0 < hb_cdpUTF8CharSize wc" by (simp add: hb_cdpUTF8CharSize_def)
  have "length pSrc - p = hb_cdpUTF8CharSize wc + length rest" using arg_cong [OF r, of length] len by simp
  then show le: "p + hb_cdpUTF8CharSize wc \<le> length pSrc" using pos by linarith
  assume "i < hb_cdpUTF8CharSize wc"
  then show "pSrc ! (p + i) = hb_cdpU16CharToUTF8 wc ! i"
    using arg_cong [OF r, of "\<lambda>l. l ! i"] le len by (simp add: nth_append)
qed

lemma charAt_run:
  assumes "charAt pSrc p wc"
  obtains (one) "hb_cdpUTF8CharSize wc = 1" "p < length pSrc" "\<And>w. hb_cdpUTF8ToU16NextChar (pSrc ! p) 0 w = (True, 0, wc)"
  | (two) x where "hb_cdpUTF8CharSize wc = 2" "p + 1 < length pSrc"
      "\<And>w. hb_cdpUTF8ToU16NextChar (pSrc ! p) 0 w = (True, 1, x)"
      "hb_cdpUTF8ToU16NextChar (pSrc ! (p + 1)) 1 x = (True, 0, wc)"
  | (three) x y where "hb_cdpUTF8CharSize wc = 3" "p + 2 < length pSrc"
      "\<And>w. hb_cdpUTF8ToU16NextChar (pSrc ! p) 0 w = (True, 2, x)"
      "hb_cdpUTF8ToU16NextChar (pSrc ! (p + 1)) 2 x = (True, 1, y)"
      "hb_cdpUTF8ToU16NextChar (pSrc ! (p + 2)) 1 y = (True, 0, wc)"
proof -
  note N = NextChar_encoded [OF refl, of wc] and D = charAt_D [OF assms]
  have any: "hb_cdpUTF8ToU16NextChar b 0 w = hb_cdpUTF8ToU16NextChar b 0 0" for b w
    by (simp add: hb_cdpUTF8ToU16NextChar_def)
  consider "hb_cdpUTF8CharSize wc = 1" | "hb_cdpUTF8CharSize wc = 2" | "hb_cdpUTF8CharSize wc = 3"
    using N(1) N(5) by fastforce
  then show ?thesis
  proof cases
    case 1
    have b: "hb_cdpUTF8ToU16NextChar (pSrc ! p) 0 0 = (True, 0, wc)" "p < length pSrc"
      using 1 N(2) [of 0] N(1) D(1) [of 0] D(2) by simp_all
    have "hb_cdpUTF8ToU16NextChar (pSrc ! p) 0 w = (True, 0, wc)" for w using any [of "pSrc ! p" w] b(1) by simp
    with 1 b(2) show ?thesis by (rule one)
  next
    case 2
    then obtain x where "hb_cdpUTF8ToU16NextChar (hb_cdpU16CharToUTF8 wc ! 0) 0 0 = (True, 1, x)"
      "hb_cdpUTF8ToU16NextChar (hb_cdpU16CharToUTF8 wc ! 1) 1 x = (True, 0, wc)" using N(3) [of 0] N(1) by auto
    then have b: "hb_cdpUTF8ToU16NextChar (pSrc ! p) 0 0 = (True, 1, x)" "p + 1 < length pSrc"
      "hb_cdpUTF8ToU16NextChar (pSrc ! (p + 1)) 1 x = (True, 0, wc)"
      using 2 D(1) [of 0] D(1) [of 1] D(2) by simp_all
    have "hb_cdpUTF8ToU16NextChar (pSrc ! p) 0 w = (True, 1, x)" for w using any [of "pSrc ! p" w] b(1) by simp
    from two [OF 2 b(2) this b(3)] show ?thesis .
  next
    case 3
    then obtain x y where "hb_cdpUTF8ToU16NextChar (hb_cdpU16CharToUTF8 wc ! 0) 0 0 = (True, 2, x)"
      "hb_cdpUTF8ToU16NextChar (hb_cdpU16CharToUTF8 wc ! 1) 2 x = (True, 1, y)"
      "hb_cdpUTF8ToU16NextChar (hb_cdpU16CharToUTF8 wc ! 2) 1 y = (True, 0, wc)" using N(4) [of 0] N(1) by auto
    then have b: "hb_cdpUTF8ToU16NextChar (pSrc ! p) 0 0 = (True, 2, x)" "p + 2 < length pSrc"
      "hb_cdpUTF8ToU16NextChar (pSrc ! (p + 1)) 2 x = (True, 1, y)"
      "hb_cdpUTF8ToU16NextChar (pSrc ! (p + 2)) 1 y = (True, 0, wc)"
      using 3 D(1) [of 0] D(1) [of 1] D(1) [of 2] D(2) by simp_all
    have "hb_cdpUTF8ToU16NextChar (pSrc ! p) 0 w = (True, 2, x)" for w using any [of "pSrc ! p" w] b(1) by simp
    from three [OF 3 b(2) this b(3,4)] show ?thesis .
  qed
qed

lemma charAt_get:
  assumes "charAt pSrc p wc"
  shows "utf8Get_loop pSrc p 0 w = Some (p + hb_cdpUTF8CharSize wc, wc)"
  using assms
  by (cases rule: charAt_run) (simp_all add: utf8Get_loop.simps utf8Step_def)

lemma charAt_skip:
  assumes "charAt pSrc p wc"
  shows "utf8Skip pSrc p 0 w (Suc k) = utf8Skip pSrc (p + hb_cdpUTF8CharSize wc) 0 wc k"
  using assms
proof (cases rule: charAt_run)
  case one then show ?thesis by (subst utf8Skip.simps) (simp add: utf8Step_def)
next
  case two then show ?thesis
    by (subst utf8Skip.simps, simp add: utf8Step_def) (subst utf8Skip.simps, simp add: utf8Step_def)
next
  case three then show ?thesis
    by (subst utf8Skip.simps, simp add: utf8Step_def)
      (subst utf8Skip.simps, simp add: utf8Step_def, subst utf8Skip.simps, simp add: utf8Step_def numeral_3_eq_3)
qed

lemma charAt_peek:
  assumes "charAt pSrc p wc"
  shows "utf8Peek_loop pSrc p 0 w = wc"
  using assms
  by (cases rule: charAt_run) (simp_all add: utf8Peek_loop.simps utf8Step_def)

lemma charAt_char:
  assumes "charAt pSrc p wc"
  shows "utf8Char pSrc p 0 w = (p + hb_cdpUTF8CharSize wc, 0, wc)"
  using assms
  by (cases rule: charAt_run) (simp_all add: utf8Char.simps)

end
