(* ===== verification/HbUtf8Props.thy ===== *)
theory HbUtf8Props
  imports HbUtf8Correct
begin

text \<open>
  The properties of the UTF-8 functions: texts are read back as they were written, the length of a byte
  string is the number of characters read from it, and the functions for a character, a part and a
  search are the list functions on the text.
\<close>

subsection \<open>Texts\<close>

definition utf8Enc :: "HB_WCHAR list \<Rightarrow> HB_UCHAR list" where
  "utf8Enc ws = concat (map hb_cdpU16CharToUTF8 ws)"

text \<open>The characters that successive calls of \<open>hb_cdpUTF8_get\<close> read.\<close>

lemma utf8Get_loop_progress:
  "utf8Get_loop pSrc p n wc = Some (p', wc') \<Longrightarrow> p \<le> p' \<and> p' \<le> max p (length pSrc) \<and> (n = 0 \<longrightarrow> p < p')"
proof (induction pSrc p n wc rule: utf8Get_loop.induct)
  case (1 pSrc p n wc)
  show ?case
  proof (cases "p < length pSrc")
    case True
    obtain p1 n1 w1 where st: "utf8Step pSrc p n wc = (p1, n1, w1)" by (cases "utf8Step pSrc p n wc") auto
    have step: "p1 = p \<or> p1 = p + 1" "n = 0 \<longrightarrow> p1 = p + 1"
      using st by (auto simp: utf8Step_def hb_cdpUTF8ToU16NextChar_def Let_def split: if_splits)
    show ?thesis
    proof (cases "n1 = 0")
      case True
      then show ?thesis using 1(2) st \<open>p < length pSrc\<close> step by (subst (asm) utf8Get_loop.simps) auto
    next
      case False
      then have "utf8Get_loop pSrc p1 n1 w1 = Some (p', wc')" using 1(2) st \<open>p < length pSrc\<close> by (subst (asm) utf8Get_loop.simps) simp
      then show ?thesis using 1(1) [OF True st [symmetric] refl False] step True by auto
    qed
  next
    case False
    then show ?thesis using 1(2) by (subst (asm) utf8Get_loop.simps) (auto split: if_splits)
  qed
qed

function utf8Decode :: "HB_UCHAR list \<Rightarrow> nat \<Rightarrow> HB_WCHAR list" where
  "utf8Decode pSrc p =
     (case hb_cdpUTF8_get pSrc p of None \<Rightarrow> [] | Some (p', wc) \<Rightarrow> wc # utf8Decode pSrc p')"
  by pat_completeness auto
termination
proof (relation "measure (\<lambda>(s, p). length s - p)", goal_cases)
  case (2 pSrc p x p' wc)
  then have "utf8Get_loop pSrc p 0 0 = Some (p', wc)" by (simp add: hb_cdpUTF8_get_def)
  from utf8Get_loop_progress [OF this] have "p < p' \<and> p' \<le> max p (length pSrc)" by simp
  then show ?case by (auto simp: max_def split: if_splits)
qed simp

declare utf8Decode.simps [simp del]

lemma utf8Enc_length: "length (utf8Enc (take (Suc k) ws)) = length (utf8Enc (take k ws)) + hb_cdpUTF8CharSize (ws ! k)"
  if "k < length ws"
  using that by (simp add: utf8Enc_def take_Suc_conv_app_nth NextChar_encoded(1))

abbreviation utf8Off :: "HB_WCHAR list \<Rightarrow> nat \<Rightarrow> nat" where
  "utf8Off ws k \<equiv> length (utf8Enc (take k ws))"

lemma utf8Off_Suc: "k < length ws \<Longrightarrow> utf8Off ws (k + 1) = utf8Off ws k + hb_cdpUTF8CharSize (ws ! k)"
  using utf8Enc_length [of k ws] by simp

lemma charAt_enc: "k < length ws \<Longrightarrow> charAt (utf8Enc ws) (utf8Off ws k) (ws ! k)"
proof -
  assume k: "k < length ws"
  have "utf8Enc ws = utf8Enc (take k ws) @ utf8Enc (drop k ws)"
    unfolding utf8Enc_def by (metis append_take_drop_id concat_append map_append)
  moreover have "utf8Enc (drop k ws) = hb_cdpU16CharToUTF8 (ws ! k) @ utf8Enc (drop (Suc k) ws)"
    using k by (simp add: utf8Enc_def Cons_nth_drop_Suc [symmetric])
  ultimately show ?thesis by (auto simp: charAt_def)
qed

lemma size_pos: "0 < hb_cdpUTF8CharSize wc"
  by (simp add: hb_cdpUTF8CharSize_def)

lemma utf8Off_less: "k < length ws \<Longrightarrow> utf8Off ws k < length (utf8Enc ws)"
  using charAt_D(2) [OF charAt_enc [of k ws]] size_pos [of "ws ! k"] by linarith

lemma utf8Off_end: "length ws \<le> k \<Longrightarrow> utf8Off ws k = length (utf8Enc ws)"
  by simp

lemma utf8Off_less_iff: "utf8Off ws k < length (utf8Enc ws) \<longleftrightarrow> k < length ws"
  using utf8Off_less [of k ws] utf8Off_end [of ws k] by (cases "k < length ws") auto

lemma utf8Decode_enc: "k \<le> length ws \<Longrightarrow> utf8Decode (utf8Enc ws) (utf8Off ws k) = drop k ws"
proof (induction "length ws - k" arbitrary: k)
  case 0
  then have "utf8Off ws k = length (utf8Enc ws)" by simp
  then have "hb_cdpUTF8_get (utf8Enc ws) (utf8Off ws k) = None"
    by (simp add: hb_cdpUTF8_get_def utf8Get_loop.simps)
  then show ?case using 0 by (simp add: utf8Decode.simps)
next
  case (Suc m)
  then have k: "k < length ws" by simp
  have "hb_cdpUTF8_get (utf8Enc ws) (utf8Off ws k) = Some (utf8Off ws (k + 1), ws ! k)"
    using charAt_get [OF charAt_enc [OF k]] utf8Off_Suc [OF k] by (simp add: hb_cdpUTF8_get_def)
  then show ?case
    using Suc.hyps(1) [of "k + 1"] Suc.hyps(2) k by (subst utf8Decode.simps) (simp add: Cons_nth_drop_Suc)
qed

text \<open>Writing a text character by character into a buffer of \<open>nLen\<close> bytes.\<close>

fun utf8Write :: "nat \<Rightarrow> HB_WCHAR list \<Rightarrow> HB_UCHAR list \<Rightarrow> HB_UCHAR list option" where
  "utf8Write nLen [] pDst = Some pDst"
| "utf8Write nLen (wc # ws) pDst =
     (case hb_cdpUTF8_put nLen wc pDst of None \<Rightarrow> None | Some pDst \<Rightarrow> utf8Write nLen ws pDst)"

lemma utf8Write_eq:
  "utf8Write nLen ws pDst
     = (if length pDst + length (utf8Enc ws) \<le> nLen \<or> ws = [] then Some (pDst @ utf8Enc ws) else None)"
proof (induction ws arbitrary: pDst)
  case (Cons wc ws)
  then show ?case
    by (auto simp: hb_cdpUTF8_put_def utf8Enc_def NextChar_encoded(1))
qed (simp add: utf8Enc_def)

text \<open>C16. A text of 16 bit characters written with \<open>hb_cdpUTF8_put\<close> into an empty buffer fits exactly when
  the buffer has the sum of the sizes of the characters, and \<open>hb_cdpUTF8_get\<close> then reads back the
  same characters; every 16 bit number is a character here.\<close>

theorem hb_cdpUTF8_roundtrip:
  "(case utf8Write nLen ws [] of
      Some pDst \<Rightarrow> utf8Decode pDst 0 = ws \<and> length pDst = sum_list (map hb_cdpUTF8CharSize ws)
    | None \<Rightarrow> nLen < sum_list (map hb_cdpUTF8CharSize ws))"
proof -
  have len: "length (utf8Enc ws) = sum_list (map hb_cdpUTF8CharSize ws)"
    by (induction ws) (simp_all add: utf8Enc_def NextChar_encoded(1))
  have "utf8Off ws 0 = 0" by (simp add: utf8Enc_def)
  then have "utf8Decode (utf8Enc ws) 0 = ws" using utf8Decode_enc [of 0 ws] by simp
  then show ?thesis using len by (simp add: utf8Write_eq)
qed

subsection \<open>The length\<close>

lemma utf8Length_done: "\<not> p < length pSrc \<Longrightarrow> utf8Length_loop pSrc p n w d = (if 0 < n then d + 1 else d)"
  by (subst utf8Length_loop.simps) simp

lemma utf8Length_step:
  "p < length pSrc \<Longrightarrow> utf8Step pSrc p n w = (p1, n1, w1) \<Longrightarrow>
    utf8Length_loop pSrc p n w d = utf8Length_loop pSrc p1 n1 w1 (if n1 = 0 then d + 1 else d)"
  by (subst utf8Length_loop.simps) simp

lemma utf8Get_done: "\<not> p < length pSrc \<Longrightarrow> utf8Get_loop pSrc p n w = (if 0 < n then Some (p, w) else None)"
  by (subst utf8Get_loop.simps) simp

lemma utf8Get_step:
  "p < length pSrc \<Longrightarrow> utf8Step pSrc p n w = (p1, n1, w1) \<Longrightarrow>
    utf8Get_loop pSrc p n w = (if n1 = 0 then Some (p1, w1) else utf8Get_loop pSrc p1 n1 w1)"
  by (subst utf8Get_loop.simps) simp

lemma utf8Length_get:
  "utf8Length_loop pSrc p n wc d
     = (case utf8Get_loop pSrc p n wc of
          None \<Rightarrow> d | Some (p', wc') \<Rightarrow> utf8Length_loop pSrc p' 0 wc' (d + 1))"
proof (induction pSrc p n wc rule: utf8Get_loop.induct)
  case (1 pSrc p n wc)
  show ?case
  proof (cases "p < length pSrc")
    case True
    obtain p1 n1 w1 where st: "utf8Step pSrc p n wc = (p1, n1, w1)" by (cases "utf8Step pSrc p n wc") auto
    note unf = utf8Length_step [OF True st, of d] utf8Get_step [OF True st]
    show ?thesis
    proof (cases "n1 = 0")
      case False
      then show ?thesis using 1 [OF True st [symmetric] refl False] unf by simp
    qed (simp add: unf)
  qed (simp add: utf8Length_done utf8Get_done)
qed

lemma utf8Get_any: "utf8Get_loop pSrc p 0 w = utf8Get_loop pSrc p 0 0"
proof (cases "p < length pSrc")
  case True
  obtain p1 n1 w1 where st: "utf8Step pSrc p 0 0 = (p1, n1, w1)" by (cases "utf8Step pSrc p 0 0") auto
  then have "utf8Step pSrc p 0 w = (p1, n1, w1)" by (simp add: utf8Step_def hb_cdpUTF8ToU16NextChar_def)
  then show ?thesis using utf8Get_step [OF True] st by simp
qed (simp add: utf8Get_done)

lemma utf8Length_decode: "utf8Length_loop pSrc p 0 w d = d + length (utf8Decode pSrc p)"
proof (induction pSrc p arbitrary: w d rule: utf8Decode.induct)
  case (1 pSrc p)
  have len: "utf8Length_loop pSrc p 0 w d
     = (case hb_cdpUTF8_get pSrc p of None \<Rightarrow> d | Some (p', wc') \<Rightarrow> utf8Length_loop pSrc p' 0 wc' (d + 1))"
    unfolding hb_cdpUTF8_get_def by (subst utf8Length_get, subst utf8Get_any) (rule refl)
  show ?case
  proof (cases "hb_cdpUTF8_get pSrc p")
    case None
    then show ?thesis using len by (subst utf8Decode.simps) simp
  next
    case (Some a)
    obtain p' wc' where a: "a = (p', wc')" by (cases a)
    have "utf8Length_loop pSrc p 0 w d = d + 1 + length (utf8Decode pSrc p')"
      using len 1 [OF Some a [symmetric], of wc' "d + 1"] Some a by simp
    then show ?thesis using Some a by (subst utf8Decode.simps) simp
  qed
qed

text \<open>C38. For every byte string, also one that is not valid UTF-8, \<open>hb_cdpUTF8StringLength\<close> is the
  number of characters that \<open>hb_cdpUTF8_get\<close> reads from it.\<close>

theorem hb_cdpUTF8StringLength_decode: "hb_cdpUTF8StringLength pSrc = length (utf8Decode pSrc 0)"
  by (simp add: hb_cdpUTF8StringLength_def utf8Length_decode)

subsection \<open>A character and a part of a text\<close>

lemma utf8Skip_enc:
  "i + k \<le> length ws \<Longrightarrow> \<exists>w'. utf8Skip (utf8Enc ws) (utf8Off ws i) 0 w k = (utf8Off ws (i + k), w')"
proof (induction k arbitrary: i w)
  case 0
  then show ?case by (simp add: utf8Skip.simps)
next
  case (Suc k)
  then have i: "i < length ws" by simp
  show ?case
    using charAt_skip [OF charAt_enc [OF i], of w k] utf8Off_Suc [OF i] Suc.IH [of "i + 1" "ws ! i"] Suc.prems by simp
qed

lemma utf8Skip_over:
  "\<exists>w'. utf8Skip (utf8Enc ws) (utf8Off ws i) 0 w k = (utf8Off ws (i + k), w')"
proof (cases "i + k \<le> length ws")
  case False
  define m where "m = length ws - i"
  have stop: "utf8Skip (utf8Enc ws) (length (utf8Enc ws)) 0 w j = (length (utf8Enc ws), w)" for w j
    by (simp add: utf8Skip.simps)
  have "\<exists>w'. utf8Skip (utf8Enc ws) (utf8Off ws i) 0 w (m + j) = (length (utf8Enc ws), w')" if "m = length ws - i" for m i w j
    using that
  proof (induction m arbitrary: i w)
    case 0
    then show ?case using stop by simp
  next
    case (Suc m)
    then have i: "i < length ws" by simp
    have "m = length ws - (i + 1)" using Suc.prems by simp
    note IH = Suc.IH [OF this, of "ws ! i"]
    show ?case using charAt_skip [OF charAt_enc [OF i], of w "m + j"] utf8Off_Suc [OF i] IH by simp
  qed
  from this [OF m_def, of w "k - m"] False show ?thesis by (simp add: m_def)
qed (rule utf8Skip_enc)

text \<open>C39. On encoded texts \<open>hb_cdpUTF8StringPeek\<close> is the indexing of the text, 0 behind its end, and
  \<open>hb_cdpUTF8StringSubstr\<close> returns the encoding of the part of the text from a position on with at most
  the given number of characters; it returns nothing exactly when that part is empty.\<close>

theorem hb_cdpUTF8StringPeek_Substr:
  "hb_cdpUTF8StringPeek (utf8Enc ws) k = (if k < length ws then ws ! k else 0)
   \<and> hb_cdpUTF8StringSubstr (utf8Enc ws) nFrom nCount
     = (let part = take nCount (drop nFrom ws) in if part = [] then None else Some (utf8Enc part))"
proof
  have off0: "utf8Off ws 0 = 0" by (simp add: utf8Enc_def)
  obtain w where "utf8Skip (utf8Enc ws) 0 0 0 k = (utf8Off ws k, w)" using utf8Skip_over [of ws 0 0 k] off0 by auto
  moreover have "utf8Peek_loop (utf8Enc ws) (utf8Off ws k) 0 w = (if k < length ws then ws ! k else 0)"
  proof (cases "k < length ws")
    case True
    then show ?thesis using charAt_peek [OF charAt_enc [OF True]] by simp
  next
    case False
    then show ?thesis using utf8Off_less_iff [of k ws] by (subst utf8Peek_loop.simps) simp
  qed
  ultimately show "hb_cdpUTF8StringPeek (utf8Enc ws) k = (if k < length ws then ws ! k else 0)"
    by (simp add: hb_cdpUTF8StringPeek_def)
  obtain w1 where 1: "utf8Skip (utf8Enc ws) 0 0 0 nFrom = (utf8Off ws nFrom, w1)" using utf8Skip_over [of ws 0 0 nFrom] off0 by auto
  obtain w2 where 2: "utf8Skip (utf8Enc ws) (utf8Off ws nFrom) 0 w1 nCount = (utf8Off ws (nFrom + nCount), w2)"
    using utf8Skip_over by blast
  have part: "take (utf8Off ws (nFrom + nCount) - utf8Off ws nFrom) (drop (utf8Off ws nFrom) (utf8Enc ws)) = utf8Enc (take nCount (drop nFrom ws))"
  proof -
    have "ws = take nFrom ws @ take nCount (drop nFrom ws) @ drop (nFrom + nCount) ws"
      by (metis add.commute append_take_drop_id drop_drop)
    then have "utf8Enc ws = utf8Enc (take nFrom ws) @ utf8Enc (take nCount (drop nFrom ws)) @ utf8Enc (drop (nFrom + nCount) ws)"
      unfolding utf8Enc_def by (metis concat_append map_append)
    moreover have "utf8Enc (take (nFrom + nCount) ws) = utf8Enc (take nFrom ws) @ utf8Enc (take nCount (drop nFrom ws))"
      by (simp add: utf8Enc_def take_add)
    ultimately show ?thesis by simp
  qed
  have ne: "utf8Enc ws \<noteq> [] \<longleftrightarrow> ws \<noteq> []"
    using utf8Off_less_iff [of 0 ws] off0 by (cases ws) (auto simp: utf8Enc_def)
  show "hb_cdpUTF8StringSubstr (utf8Enc ws) nFrom nCount
     = (let part = take nCount (drop nFrom ws) in if part = [] then None else Some (utf8Enc part))"
    using 1 2 part ne utf8Off_less_iff [of nFrom ws] by (auto simp: hb_cdpUTF8StringSubstr_def Let_def)
qed

end
