(* ===== verification/HbUtf8At.thy ===== *)
theory HbUtf8At
  imports HbUtf8Props
begin

text \<open>
  The search \<open>hb_cdpUTF8StringAt\<close> on encoded texts. The loop over bytes is refined to a search over the
  characters, whose state is the start \<open>b\<close> of the attempt, the number \<open>k\<close> of characters that agree
  and the last place found; the search is then compared with the list of all the places.
\<close>

subsection \<open>The search over the characters\<close>

function atSearch :: "HB_WCHAR list \<Rightarrow> HB_WCHAR list \<Rightarrow> nat \<Rightarrow> nat \<Rightarrow> bool \<Rightarrow> nat \<Rightarrow> nat \<Rightarrow> nat \<Rightarrow> nat" where
  "atSearch pat ws nStart nEnd fReverse b k r =
     (if b + k < length ws \<and> k < length pat \<and> b + k < nEnd then
        (if b + k + 1 < nStart then atSearch pat ws nStart nEnd fReverse (b + 1) 0 r
         else if ws ! (b + k) = pat ! k then
           (if k + 1 < length pat then atSearch pat ws nStart nEnd fReverse b (k + 1) r
            else if fReverse then atSearch pat ws nStart nEnd fReverse (b + 1) 0 (b + 1)
            else b + 1)
         else atSearch pat ws nStart nEnd fReverse (b + 1) 0 r)
      else r)"
  by pat_completeness auto
termination
  by (relation "measures [\<lambda>(pat, ws, s, e, f, b, k, r). length ws - b, \<lambda>(pat, ws, s, e, f, b, k, r). length pat - k]") auto

declare atSearch.simps [simp del]

definition atRel :: "HB_WCHAR list \<Rightarrow> HB_WCHAR list \<Rightarrow> UTF8_AT \<Rightarrow> nat \<Rightarrow> nat \<Rightarrow> nat \<Rightarrow> bool" where
  "atRel pat ws st b k r \<longleftrightarrow>
     nPosN st = utf8Off pat k \<and> nPosH st = utf8Off ws (b + k) \<and> nPos st = b + k \<and> nN st = 0 \<and> nH st = 0
     \<and> nRAt st = r \<and> nAt st = (if k = 0 then 0 else b + 1) \<and> (0 < k \<longrightarrow> nPosX st = utf8Off ws (b + 1))"

lemma utf8Off_0: "utf8Enc [] = []"
  by (simp add: utf8Enc_def)

lemma utf8Off_full: "k < length pat \<Longrightarrow> utf8Off pat (k + 1) = length (utf8Enc pat) \<longleftrightarrow> k + 1 = length pat"
  using utf8Off_less_iff [of "k + 1" pat] utf8Off_end [of pat "k + 1"] by (cases "k + 1 < length pat") auto

lemma utf8At_step_refines:
  assumes rel: "atRel pat ws st b k r" and h: "b + k < length ws" and k: "k < length pat"
    and start: "0 < k \<longrightarrow> nStart \<le> b + 1"
  shows "case utf8At_step (utf8Enc pat) (utf8Enc ws) nStart fReverse st of
      Inl x \<Rightarrow> nStart \<le> b + k + 1 \<and> ws ! (b + k) = pat ! k \<and> k + 1 = length pat \<and> \<not> fReverse \<and> x = b + 1
    | Inr st' \<Rightarrow>
        (if b + k + 1 < nStart \<or> ws ! (b + k) \<noteq> pat ! k then atRel pat ws st' (b + 1) 0 r
         else if k + 1 < length pat then atRel pat ws st' b (k + 1) r
         else fReverse \<and> atRel pat ws st' (b + 1) 0 (b + 1))"
proof -
  have H: "utf8Char (utf8Enc ws) (nPosH st) (nH st) (wcH st) = (utf8Off ws (b + k + 1), 0, ws ! (b + k))"
    using charAt_char [OF charAt_enc [OF h]] utf8Off_Suc [OF h] rel by (simp add: atRel_def)
  have N: "utf8Char (utf8Enc pat) (nPosN st) (nN st) (wcN st) = (utf8Off pat (k + 1), 0, pat ! k)"
    using charAt_char [OF charAt_enc [OF k]] utf8Off_Suc [OF k] rel by (simp add: atRel_def)
  note R = rel [unfolded atRel_def]
  show ?thesis
  proof (cases "b + k + 1 < nStart")
    case True
    then have "k = 0" using start by auto
    then show ?thesis using True R H by (simp add: utf8At_step_def atRel_def utf8Off_0)
  next
    case False
    note F = False
    show ?thesis
    proof (cases "ws ! (b + k) = pat ! k")
      case True
      note M = True
      show ?thesis
      proof (cases "k + 1 = length pat")
        case True
        then have full: "utf8Off pat (k + 1) = length (utf8Enc pat)" using utf8Off_full [OF k] by blast
        show ?thesis using True F M R H N full
          by (cases "k = 0"; cases fReverse) (simp_all add: utf8At_step_def atRel_def utf8Off_0 Let_def)
      next
        case False
        then have part: "utf8Off pat (k + 1) \<noteq> length (utf8Enc pat)" using utf8Off_full [OF k] by blast
        have "k + 1 < length pat" using False k by simp
        then show ?thesis using F M R H N part
          by (cases "k = 0") (simp_all add: utf8At_step_def atRel_def utf8Off_0 Let_def)
      qed
    next
      case False
      then show ?thesis using F R H N
        by (cases "k = 0") (simp_all add: utf8At_step_def atRel_def utf8Off_0 Let_def)
    qed
  qed
qed

lemma utf8At_loop_refines:
  "atRel pat ws st b k r \<Longrightarrow> (0 < k \<longrightarrow> nStart \<le> b + 1) \<Longrightarrow>
    utf8At_loop (utf8Enc pat) (utf8Enc ws) nStart nEnd fReverse st = Some (atSearch pat ws nStart nEnd fReverse b k r)"
proof (induction pat ws nStart nEnd fReverse b k r arbitrary: st rule: atSearch.induct)
  case (1 pat ws nStart nEnd fReverse b k r)
  have guard: "(nPosH st < length (utf8Enc ws) \<and> nPosN st < length (utf8Enc pat) \<and> nPos st < nEnd)
      = (b + k < length ws \<and> k < length pat \<and> b + k < nEnd)"
    using 1(5) utf8Off_less_iff [of "b + k" ws] utf8Off_less_iff [of k pat] by (simp add: atRel_def)
  show ?case
  proof (cases "b + k < length ws \<and> k < length pat \<and> b + k < nEnd")
    case False
    have "utf8At_loop (utf8Enc pat) (utf8Enc ws) nStart nEnd fReverse st = Some (nRAt st)"
      by (subst utf8At_loop.simps, subst guard) (simp only: False if_False)
    moreover have "atSearch pat ws nStart nEnd fReverse b k r = r"
      by (subst atSearch.simps) (simp only: False if_False)
    ultimately show ?thesis using 1(5) by (simp add: atRel_def)
  next
    case True
    then have h: "b + k < length ws" and k: "k < length pat" by auto
    note step = utf8At_step_refines [OF 1(5) h k 1(6), of fReverse]
    have loop: "utf8At_loop (utf8Enc pat) (utf8Enc ws) nStart nEnd fReverse st
        = (case utf8At_step (utf8Enc pat) (utf8Enc ws) nStart fReverse st of Inl r \<Rightarrow> Some r
           | Inr st \<Rightarrow> utf8At_loop (utf8Enc pat) (utf8Enc ws) nStart nEnd fReverse st)"
      by (subst utf8At_loop.simps, subst guard) (simp only: True if_True simp_thms)
    show ?thesis
    proof (cases "utf8At_step (utf8Enc pat) (utf8Enc ws) nStart fReverse st")
      case (Inl x)
      then show ?thesis using loop step True by (subst atSearch.simps) simp
    next
      case (Inr st')
      consider (early) "b + k + 1 < nStart" | (differ) "\<not> b + k + 1 < nStart" "ws ! (b + k) \<noteq> pat ! k"
        | (more) "\<not> b + k + 1 < nStart" "ws ! (b + k) = pat ! k" "k + 1 < length pat"
        | (full) "\<not> b + k + 1 < nStart" "ws ! (b + k) = pat ! k" "\<not> k + 1 < length pat" by blast
      then show ?thesis
      proof cases
        case early
        then show ?thesis using loop step Inr 1(1) [OF True early, of st'] True by (subst atSearch.simps) simp
      next
        case differ
        then show ?thesis using loop step Inr 1(4) [OF True differ, of st'] True by (subst atSearch.simps) simp
      next
        case more
        have "0 < k + 1 \<longrightarrow> nStart \<le> b + 1" using more(1) 1(6) by (cases "k = 0") auto
        then show ?thesis using more loop step Inr 1(2) [OF True more, of st'] True by (subst atSearch.simps) simp
      next
        case full
        then have "fReverse" using step Inr by simp
        then show ?thesis using full loop step Inr 1(3) [OF True full \<open>fReverse\<close>, of st'] True by (subst atSearch.simps) simp
      qed
    qed
  qed
qed

subsection \<open>The places of a pattern\<close>

definition atHit :: "HB_WCHAR list \<Rightarrow> HB_WCHAR list \<Rightarrow> nat \<Rightarrow> nat \<Rightarrow> nat \<Rightarrow> bool" where
  "atHit pat ws nStart nEnd p \<longleftrightarrow>
     pat \<noteq> [] \<and> nStart \<le> p \<and> p - 1 + length pat \<le> nEnd \<and> take (length pat) (drop (p - 1) ws) = pat"

definition atPick :: "bool \<Rightarrow> nat \<Rightarrow> nat list \<Rightarrow> nat" where
  "atPick fReverse r hits = (if fReverse then last (r # hits) else hd (hits @ [r]))"

lemma atHit_room: "atHit pat ws nStart nEnd p \<Longrightarrow> p - 1 + length pat \<le> length ws"
proof -
  assume "atHit pat ws nStart nEnd p"
  then have "take (length pat) (drop (p - 1) ws) = pat" "pat \<noteq> []" by (simp_all add: atHit_def)
  from arg_cong [OF this(1), of length] this(2) show ?thesis by (cases pat) auto
qed

definition atHits :: "HB_WCHAR list \<Rightarrow> HB_WCHAR list \<Rightarrow> nat \<Rightarrow> nat \<Rightarrow> nat \<Rightarrow> nat list" where
  "atHits pat ws nStart nEnd b = filter (atHit pat ws nStart nEnd) [b + 1..<length ws + 1]"

lemma atHits_split:
  "b < length ws \<Longrightarrow> atHits pat ws nStart nEnd b
     = (if atHit pat ws nStart nEnd (b + 1) then [b + 1] else []) @ atHits pat ws nStart nEnd (b + 1)"
  unfolding atHits_def by (subst upt_conv_Cons) simp_all

lemma atSearch_spec:
  "take k (drop b ws) = take k pat \<Longrightarrow> k < length pat \<Longrightarrow> b + k \<le> length ws \<Longrightarrow> (0 < k \<longrightarrow> nStart \<le> b + 1) \<Longrightarrow>
    atSearch pat ws nStart nEnd fReverse b k r
      = atPick fReverse r (atHits pat ws nStart nEnd b)"
proof (induction pat ws nStart nEnd fReverse b k r rule: atSearch.induct)
  case (1 pat ws nStart nEnd fReverse b k r)
  show ?case
  proof (cases "b + k < length ws \<and> b + k < nEnd")
    case False
    have "\<not> atHit pat ws nStart nEnd p" if "b + 1 \<le> p" for p
      using that False 1(6,7) atHit_room [of pat ws nStart nEnd p] by (auto simp: atHit_def)
    then have "atHits pat ws nStart nEnd b = []" by (auto simp: atHits_def filter_empty_conv)
    then show ?thesis using False by (subst atSearch.simps) (auto simp: atPick_def)
  next
    case True
    then have G: "b + k < length ws \<and> k < length pat \<and> b + k < nEnd" using 1(6) by simp
    have ne: "pat \<noteq> []" using 1(6) by auto
    have "b < length ws" using True by simp
    note split = atHits_split [OF this, of pat nStart nEnd]
    have "k < length (drop b ws)" using G by (simp add: less_diff_conv add.commute)
    note at_drop = take_Suc_conv_app_nth [OF this]
    have next_char: "take (k + 1) (drop b ws) = take k pat @ [ws ! (b + k)]" "take (k + 1) pat = take k pat @ [pat ! k]"
      using G 1(5) at_drop take_Suc_conv_app_nth [of k pat] by simp_all
    consider (early) "b + k + 1 < nStart" | (differ) "\<not> b + k + 1 < nStart" "ws ! (b + k) \<noteq> pat ! k"
        | (more) "\<not> b + k + 1 < nStart" "ws ! (b + k) = pat ! k" "k + 1 < length pat"
        | (full) "\<not> b + k + 1 < nStart" "ws ! (b + k) = pat ! k" "\<not> k + 1 < length pat" by blast
    then show ?thesis
    proof cases
      case early
      then have "\<not> atHit pat ws nStart nEnd (b + 1)" by (simp add: atHit_def)
      then show ?thesis using 1(1) [OF G early] early G ne split by (subst atSearch.simps) simp
    next
      case differ
      have "\<not> atHit pat ws nStart nEnd (b + 1)"
      proof
        assume "atHit pat ws nStart nEnd (b + 1)"
        then have "take (length pat) (drop b ws) = pat" by (simp add: atHit_def)
        from arg_cong [OF this, of "\<lambda>l. l ! k"] show False using differ(2) G by simp
      qed
      then show ?thesis using 1(4) [OF G differ] differ G ne split by (subst atSearch.simps) simp
    next
      case more
      have "nStart \<le> b + 1" using more(1) 1(8) by (cases "k = 0") auto
      then show ?thesis using 1(2) [OF G more] more G ne next_char by (subst atSearch.simps) simp
    next
      case full
      have "nStart \<le> b + 1" using full(1) 1(8) by (cases "k = 0") auto
      moreover have "length pat = k + 1" using full(3) G by simp
      ultimately have hit: "atHit pat ws nStart nEnd (b + 1)" using G full(2) next_char by (auto simp: atHit_def)
      show ?thesis
      proof (cases fReverse)
        case True
        then show ?thesis using 1(3) [OF G full True] full G ne split hit by (subst atSearch.simps) (simp add: atPick_def)
      next
        case False
        then show ?thesis using full G ne split hit by (subst atSearch.simps) (simp add: atPick_def)
      qed
    qed
  qed
qed

text \<open>C11. On encoded texts \<open>hb_cdpUTF8StringAt\<close> always returns, with the first place, or the last place
  when it searches backwards, at which the pattern stands between the characters \<open>nStart\<close> and \<open>nEnd\<close>,
  counted from 1, and 0 when there is none or the pattern is empty.\<close>

theorem hb_cdpUTF8StringAt_spec:
  "hb_cdpUTF8StringAt (utf8Enc pat) (utf8Enc ws) nStart nEnd fReverse
     = Some (let hits = filter (\<lambda>p. pat \<noteq> [] \<and> nStart \<le> p \<and> p - 1 + length pat \<le> nEnd
                                   \<and> take (length pat) (drop (p - 1) ws) = pat) [1..<length ws + 1]
             in if hits = [] then 0 else if fReverse then last hits else hd hits)"
proof -
  let ?st = "\<lparr>nPosN = 0, nPosH = 0, nPosX = 0, nPos = 0, nRAt = 0, nAt = 0, wcN = 0, wcH = 0, nN = 0, nH = 0\<rparr>"
  let ?hits = "atHits pat ws nStart nEnd 0"
  have "atRel pat ws ?st 0 0 0" by (simp add: atRel_def utf8Enc_def)
  from utf8At_loop_refines [OF this]
  have "hb_cdpUTF8StringAt (utf8Enc pat) (utf8Enc ws) nStart nEnd fReverse = Some (atSearch pat ws nStart nEnd fReverse 0 0 0)"
    by (simp add: hb_cdpUTF8StringAt_def)
  moreover have "atSearch pat ws nStart nEnd fReverse 0 0 0 = atPick fReverse 0 ?hits"
  proof (cases "pat = []")
    case True
    then show ?thesis by (subst atSearch.simps) (simp add: atHits_def atHit_def atPick_def)
  next
    case False
    then show ?thesis using atSearch_spec [of 0 0 ws pat nStart nEnd fReverse 0] by simp
  qed
  moreover have "atPick fReverse 0 ?hits = (if ?hits = [] then 0 else if fReverse then last ?hits else hd ?hits)"
    by (simp add: atPick_def)
  moreover have "?hits = filter (\<lambda>p. pat \<noteq> [] \<and> nStart \<le> p \<and> p - 1 + length pat \<le> nEnd
      \<and> take (length pat) (drop (p - 1) ws) = pat) [1..<length ws + 1]"
    unfolding atHits_def atHit_def [abs_def] by (simp only: add_0)
  ultimately show ?thesis by (simp only: Let_def)
qed

end
