(* ===== verification/Spec2Isabelle.thy ===== *)
theory Spec2Isabelle
  imports HbDateStr HbStrWild HbDynSym HbVmOps HbHashProps HbExprFold HbGcProps HbSortProps HbFileLockProps
    HbJumpProps HbDeadProps HbLabel HbUtf8At
begin

text \<open>
  Verification of the core of Harbour, the xBase compiler and virtual machine under \<open>src/src\<close>.

  The compiler translates a program to pcode, folds constant expressions on the way, removes dead code and shortens
  the jumps; the virtual
  machine executes the pcode on a stack of items. Items are numbers, strings, dates, timestamps and
  references to arrays, hashes and code blocks, which live in blocks with a reference counter and a mark
  and sweep collector. Names are resolved in one table of dynamic symbols. The runtime library works on items and, for
  databases, on files with byte range locks. The theories follow these parts:

  \<^item> \<open>HbPrelude\<close>: C integers as \<open>int\<close> with the wrap-around written out (\<open>wrap32\<close>, \<open>wrap64\<close>) and division
    that truncates (\<open>sdiv\<close>, \<open>smod\<close>), digits, lists. \<open>HbDouble\<close>: doubles as rationals with
    infinities and NaN, the rounding of every operation written out.

  \<^item> \<open>HbDate\<close>, \<open>HbDateCorrect\<close>, \<open>HbDateStr\<close> (\<open>common/hbdate.c\<close>): day numbers, ISO weeks, weekdays, milliseconds of
    a day and their strings. The lemmas show that encoding and decoding invert one another on the
    Gregorian calendar of the years 0 to 9999 and where they do not.

  \<^item> \<open>HbStrWild\<close> (\<open>common/strwild.c\<close>): the wildcard matcher with its stack of saved positions against a recursive
    specification; it ends because the measure of the positions and of the stack decreases.

  \<^item> \<open>HbBisect\<close>: the locale of the binary search, interpreted in \<open>HbDynSym\<close> (\<open>vm/dynsym.c\<close>, the table of
    symbols: sorted, stable under all its operations), in \<open>HbHashCorrect\<close> and in \<open>HbFileLockProps\<close>.

  \<^item> \<open>HbItem\<close> (\<open>include/hbapi.h\<close>, \<open>vm/itemapi.c\<close>, \<open>common/hbstr.c\<close>): items, string comparison, substring search and
    packed timestamps. \<open>HbVmOps\<close> (\<open>vm/hvm.c\<close>): the operators with their
    overflow tests, error codes and the operator methods of objects as a parameter.

  \<^item> \<open>HbHash\<close>, \<open>HbHashCorrect\<close>, \<open>HbHashMap\<close>, \<open>HbHashProps\<close> (\<open>vm/hashes.c\<close>, \<open>vm/hashfunc.c\<close>): hash arrays as
    sorted pairs with an optional order of insertion. \<open>HbMapStore\<close> is the locale of what a map promises; the
    hash is an interpretation of it, so that any sequence of operations behaves as on a finite map.

  \<^item> \<open>HbExprOpt\<close>, \<open>HbExprOptCorrect\<close>, \<open>HbExprFold\<close> (\<open>common/expropt2.c\<close>, \<open>include/hbexprb.c\<close>): the folding of
    constant expressions, against the operators of the machine: in the fragment \<open>foldFits\<close> the folded expression
    leaves the item the written one leaves, and integer quotients and remainders fold to the same number.

  \<^item> \<open>HbGc\<close>, \<open>HbGcList\<close>, \<open>HbGcMark\<close>, \<open>HbGcCollect\<close>, \<open>HbGcRelease\<close>, \<open>HbGcMach\<close>, \<open>HbGcProps\<close> (\<open>vm/garbage.c\<close>, with the mark, clear
    and copy functions of \<open>vm/arrays.c\<close> and \<open>vm/itemapi.c\<close>): the heap of blocks with its three
    rings of pointers, the counters, marking, sweeping and releasing. A step relation \<open>gcReach\<close> runs the program
    against them; in its reachable states nothing dangles, the counters are right, every operation ends
    and a collection frees exactly what is unreachable.

  \<^item> \<open>HbSort\<close>, \<open>HbSortCorrect\<close>, \<open>HbSortProps\<close> (\<open>vm/asort.c\<close>): the merge sort of indices in one buffer and the moves of the
    items. It is a stable sort for any comparison that orders the items and only rearranges them for
    any code block; the arrays of dates and timestamps it does not sort are characterised.

  \<^item> \<open>HbFileLock\<close>, \<open>HbFileLockProps\<close> (\<open>rtl/filebuf.c\<close>): the array of locked ranges against the set of locked bytes,
    and what is lost when a joined range reaches past the last offset.

  \<^item> \<open>HbPcode\<close> (\<open>compiler/hbpcode.c\<close>, \<open>include/hbpcode.h\<close>): the buffer of the generated pcode, the sizes of the
    instructions and the two walks over it. \<open>HbJump\<close>, \<open>HbJumpCorrect\<close>, \<open>HbJumpShorten\<close>, \<open>HbJumpProps\<close>
    (\<open>compiler/hbmain.c\<close>): emitting and patching jumps, and a pass of the jump optimizer, which shortens jumps and takes out
    the \<open>HB_P_NOOP\<close> bytes; a map of positions (\<open>optPos\<close>) relates the code before and after it.
    \<open>HbDead\<close>, \<open>HbDeadCorrect\<close>, \<open>HbDeadFlow\<close>, \<open>HbDeadProps\<close> (\<open>compiler/hbdead.c\<close>): the trace of the control flow and the filling
    of dead code, against the inductive relation \<open>flowReach\<close> of what can be reached; the reachable code and its flow
    are kept, also through the pass of the jump optimizer that follows. \<open>HbLabel\<close> (\<open>compiler/hblbl.c\<close>): the table
    of labels of the code generators.

  \<^item> \<open>HbUtf8\<close>, \<open>HbUtf8Correct\<close>, \<open>HbUtf8Props\<close>, \<open>HbUtf8At\<close> (\<open>rtl/cdpapi.c\<close>): the UTF-8 coder and the functions on
    UTF-8 strings by character, against the list of the characters of a text.

  Definitions keep the names of the C functions. Loops are recursive functions; where the source gives no
  bound they are partial functions with \<open>None\<close> for a loop that does not end, or carry fuel, and a theorem shows
  that they return. Fuel occurs in \<open>HbHash\<close> only, for the loops over the pairs: it is
  the number of pairs, which each turn of the loop uses up. Errors are values: \<open>RTErr\<close> with the codes of
  the runtime error, \<open>HwTrap\<close> for a C operation that stops the process, \<open>ERR_INTERNAL\<close> for an internal error.

  Parameters stand for what is not in the sources or is chosen at run time: the collation of the code page, the
  operator methods of classes, the function \<open>pow\<close>, code blocks, the locks of the operating system, and the
  addresses the memory manager returns.

  Not modelled: the compiler front end and the preprocessor (generated parsers and text processing), the
  peephole optimizer of the pcode (\<open>compiler/hbopt.c\<close>), the loop that repeats the passes of the jump optimizer, the
  numbering of the local variables of code blocks (\<open>compiler/hbfix.c\<close>), the code generators, the main loop of
  the machine, classes, memory variables, threads, the database drivers, terminals, sockets, the other functions of
  the runtime library and the vendored libraries. Of the modelled files the functions that only read arguments from
  the stack and return an item, the ones that read the clock or the time zone, the code pages other than UTF-8 and
  automatic collection (\<open>HB_GC_AUTO\<close>, off by default) are left out; the theories say so where it matters.
  A conditional jump over nothing becomes \<open>HB_P_POP\<close>, which no longer reports a condition of
  another type: the control flow theorems are about positions, not about this error.
\<close>

end
